(* ===== verification/Prelude.thy ===== *)
theory Prelude
  imports Main
begin

text \<open>
  What every other theory of the development shares: counting positions of a list that
  satisfy a predicate (the bookkeeping behind "at most so many in flight"), runs of a
  machine given by a partial step function, and the two machine interfaces the components
  interpret: \<open>invariant_machine\<close> (a step keeps an invariant, so a run does) and
  \<open>bounded_machine\<close> (every internal step lowers a rank and every external step raises it
  by at most a fixed amount, so a run has a bounded number of internal steps).
\<close>

section \<open>Counting positions\<close>

definition cnt :: "('a \<Rightarrow> bool) \<Rightarrow> 'a list \<Rightarrow> nat" where
  "cnt P xs = length (filter P xs)"

lemma cnt_Nil [simp]: "cnt P [] = 0"
  by (simp add: cnt_def)

lemma cnt_Cons [simp]: "cnt P (x # xs) = of_bool (P x) + cnt P xs"
  by (simp add: cnt_def)

lemma cnt_append [simp]: "cnt P (xs @ ys) = cnt P xs + cnt P ys"
  by (simp add: cnt_def)

lemma cnt_replicate [simp]: "cnt P (replicate n x) = (if P x then n else 0)"
  by (induction n) auto

lemma cnt_le_length: "cnt P xs \<le> length xs"
  by (simp add: cnt_def)

lemma cnt_map [simp]: "cnt P (map f xs) = cnt (P \<circ> f) xs"
  by (induction xs) auto

lemma cnt_update:
  assumes "i < length xs"
  shows "cnt P (xs[i := y]) + of_bool (P (xs ! i)) = cnt P xs + of_bool (P y)"
  using assms
proof (induction xs arbitrary: i)
  case (Cons x xs)
  then show ?case by (cases i) (auto simp: algebra_simps)
qed simp

lemma cnt_update_same:
  assumes "i < length xs" and "P y = P (xs ! i)"
  shows "cnt P (xs[i := y]) = cnt P xs"
  using cnt_update [OF assms(1), of P y] assms(2) by simp

lemma cnt_update_in:
  assumes "i < length xs" and "P y" and "\<not> P (xs ! i)"
  shows "cnt P (xs[i := y]) = Suc (cnt P xs)"
  using cnt_update [OF assms(1), of P y] assms(2,3) by simp

lemma cnt_update_out:
  assumes "i < length xs" and "\<not> P y" and "P (xs ! i)"
  shows "Suc (cnt P (xs[i := y])) = cnt P xs"
  using cnt_update [OF assms(1), of P y] assms(2,3) by simp

lemma cnt_pos_iff: "0 < cnt P xs \<longleftrightarrow> (\<exists>i < length xs. P (xs ! i))"
  by (auto simp: cnt_def filter_empty_conv) (metis in_set_conv_nth nth_mem)+

lemma cnt_zero_iff: "cnt P xs = 0 \<longleftrightarrow> (\<forall>i < length xs. \<not> P (xs ! i))"
  using cnt_pos_iff [of P xs] by auto

lemma cnt_cong: "(\<And>x. x \<in> set xs \<Longrightarrow> P x = Q x) \<Longrightarrow> cnt P xs = cnt Q xs"
  by (induction xs) auto

lemma cnt_filter_le: "cnt P (filter Q xs) \<le> cnt P xs"
  by (induction xs) auto

section \<open>Sums over positions\<close>

lemma sum_list_update_nat:
  fixes f :: "'a \<Rightarrow> nat"
  assumes "i < length xs"
  shows "sum_list (map f (xs[i := y])) + f (xs ! i) = sum_list (map f xs) + f y"
  using assms
proof (induction xs arbitrary: i)
  case (Cons x xs)
  then show ?case by (cases i) (auto simp: algebra_simps)
qed simp

section \<open>A sequence of calls that stops at the first error\<close>

fun fold_result :: "('a \<Rightarrow> 's \<Rightarrow> 'e + 's) \<Rightarrow> 'a list \<Rightarrow> 's \<Rightarrow> 'e + 's" where
  "fold_result f [] s = Inr s"
| "fold_result f (x # xs) s =
     (case f x s of Inl e \<Rightarrow> Inl e | Inr t \<Rightarrow> fold_result f xs t)"

section \<open>Machines and their runs\<close>

text \<open>
  A machine is a partial step function: \<open>step s e\<close> is the state after event \<open>e\<close>, or
  \<open>None\<close> where the event cannot happen in \<open>s\<close>.
\<close>

fun run :: "('s \<Rightarrow> 'e \<Rightarrow> 's option) \<Rightarrow> 's \<Rightarrow> 'e list \<Rightarrow> 's option" where
  "run step s [] = Some s"
| "run step s (e # es) = (case step s e of None \<Rightarrow> None | Some t \<Rightarrow> run step t es)"

lemma run_append:
  "run step s (es @ fs) = (case run step s es of None \<Rightarrow> None | Some t \<Rightarrow> run step t fs)"
  by (induction es arbitrary: s) (auto split: option.splits)

lemma run_ConsE:
  assumes "run step s (e # es) = Some u"
  obtains t where "step s e = Some t" and "run step t es = Some u"
  using assms by (auto split: option.splits)

lemma run_snoc:
  "run step s (es @ [e]) = (case run step s es of None \<Rightarrow> None | Some t \<Rightarrow> step t e)"
  by (auto simp: run_append split: option.splits)

locale invariant_machine =
  fixes step :: "'s \<Rightarrow> 'e \<Rightarrow> 's option"
    and inv :: "'s \<Rightarrow> bool"
  assumes inv_step: "inv s \<Longrightarrow> step s e = Some t \<Longrightarrow> inv t"
begin

lemma inv_run: "inv s \<Longrightarrow> run step s es = Some t \<Longrightarrow> inv t"
proof (induction es arbitrary: s)
  case (Cons e es)
  then show ?case by (auto split: option.splits dest: inv_step)
qed simp

text \<open>A fact about the events so far and the state they lead to, by induction over the run.\<close>

lemma run_trace:
  assumes "inv s0" and "run step s0 es = Some t" and "P [] s0"
    and "\<And>es s e t. inv s \<Longrightarrow> P es s \<Longrightarrow> step s e = Some t \<Longrightarrow> P (es @ [e]) t"
  shows "P es t"
  using assms(2)
proof (induction es arbitrary: t rule: rev_induct)
  case Nil
  then show ?case using assms(3) by simp
next
  case (snoc e es)
  then obtain u where u: "run step s0 es = Some u" "step u e = Some t"
    by (auto simp: run_snoc split: option.splits)
  then show ?case using assms(4) [OF inv_run [OF assms(1) u(1)] snoc.IH [OF u(1)] u(2)] by simp
qed

lemma inv_everywhere:
  "inv s \<Longrightarrow> run step s (es @ fs) = Some t \<Longrightarrow> \<exists>u. run step s es = Some u \<and> inv u"
  by (auto simp: run_append split: option.splits dest: inv_run)

end

locale bounded_machine = invariant_machine +
  fixes external :: "'e \<Rightarrow> bool"
    and rank :: "'s \<Rightarrow> nat"
    and gain :: nat
  assumes rank_internal: "inv s \<Longrightarrow> step s e = Some t \<Longrightarrow> \<not> external e \<Longrightarrow> rank t < rank s"
    and rank_external: "inv s \<Longrightarrow> step s e = Some t \<Longrightarrow> external e \<Longrightarrow> rank t \<le> rank s + gain"
begin

lemma internal_steps_bounded:
  "inv s \<Longrightarrow> run step s es = Some t \<Longrightarrow>
     cnt (\<lambda>e. \<not> external e) es + rank t \<le> rank s + gain * cnt external es"
proof (induction es arbitrary: s)
  case (Cons e es)
  from Cons.prems(2) obtain u where u: "step s e = Some u" "run step u es = Some t"
    by (rule run_ConsE)
  have IH: "cnt (\<lambda>e. \<not> external e) es + rank t \<le> rank u + gain * cnt external es"
    using Cons.IH [OF inv_step [OF Cons.prems(1) u(1)] u(2)] .
  show ?case
  proof (cases "external e")
    case True
    then show ?thesis using IH rank_external [OF Cons.prems(1) u(1) True] by simp
  next
    case False
    then show ?thesis using IH rank_internal [OF Cons.prems(1) u(1) False] by simp
  qed
qed simp

end

text \<open>
  A machine that also never gets stuck before it is done: then every run can be completed by
  internal steps, and a state with no internal step left is a finished one.
\<close>

locale live_machine = bounded_machine +
  fixes done_state :: "'s \<Rightarrow> bool"
  assumes progress: "inv s \<Longrightarrow> \<not> done_state s \<Longrightarrow> \<exists>e t. \<not> external e \<and> step s e = Some t"
begin

lemma completes:
  "inv s \<Longrightarrow> \<exists>es t. run step s es = Some t \<and> done_state t \<and> (\<forall>e \<in> set es. \<not> external e)"
proof (induction "rank s" arbitrary: s rule: less_induct)
  case less
  show ?case
  proof (cases "done_state s")
    case True
    then show ?thesis by (intro exI [of _ "[]"] exI [of _ s]) simp
  next
    case False
    with less.prems obtain e u where e: "\<not> external e" "step s e = Some u"
      using progress by blast
    have "rank u < rank s" using rank_internal [OF less.prems e(2,1)] .
    from less.hyps [OF this inv_step [OF less.prems e(2)]] obtain es t where
      "run step u es = Some t" "done_state t" "\<forall>e \<in> set es. \<not> external e" by blast
    then show ?thesis using e by (intro exI [of _ "e # es"] exI [of _ t]) simp
  qed
qed

end

end
