(* ===== verification/Semaphore.thy ===== *)
theory Semaphore
  imports Prelude
begin

text \<open>
  \<open>asyncio.Semaphore\<close> (CPython 3.11), the slot lock of \<open>process\<close> and \<open>dispatch_tool_calls\<close>:
  a counter and a FIFO of waiters, each with its future's state. A slot that \<open>release\<close> hands
  to a waiter leaves the counter at once and is held by that waiter's future until the waiter
  runs. The interface \<open>slot_lock\<close> states what the users rely on: the slots that are not in a
  user's hands change only by what the operation says, and a waiter is left pending only
  while no slot is free (no lost wake-up).
\<close>

datatype wstate = WPending | WGranted | WCancelled

record semaphore =
  sem_value :: nat
  sem_waiters :: "(nat \<times> wstate) list"

definition sem_init :: "nat \<Rightarrow> semaphore" where
  "sem_init k = \<lparr>sem_value = k, sem_waiters = []\<rparr>"

definition sem_locked :: "semaphore \<Rightarrow> bool" where
  "sem_locked s \<longleftrightarrow> sem_value s = 0 \<or> list_ex (\<lambda>w. snd w \<noteq> WCancelled) (sem_waiters s)"

definition sem_state :: "semaphore \<Rightarrow> nat \<Rightarrow> wstate option" where
  "sem_state s i = map_of (sem_waiters s) i"

definition sem_take :: "semaphore \<Rightarrow> semaphore" where
  "sem_take s = s\<lparr>sem_value := sem_value s - 1\<rparr>"

definition sem_enqueue :: "nat \<Rightarrow> semaphore \<Rightarrow> semaphore" where
  "sem_enqueue i s = s\<lparr>sem_waiters := sem_waiters s @ [(i, WPending)]\<rparr>"

text \<open>\<open>_wake_up_next\<close>: the first waiter that is not done gets a slot.\<close>

fun grant_first :: "(nat \<times> wstate) list \<Rightarrow> (nat \<times> wstate) list option" where
  "grant_first [] = None"
| "grant_first ((i, w) # ws) =
     (if w = WPending then Some ((i, WGranted) # ws)
      else map_option (\<lambda>ws'. (i, w) # ws') (grant_first ws))"

definition sem_wake_up_next :: "semaphore \<Rightarrow> semaphore" where
  "sem_wake_up_next s =
     (case grant_first (sem_waiters s) of
        None \<Rightarrow> s
      | Some ws \<Rightarrow> s\<lparr>sem_value := sem_value s - 1, sem_waiters := ws\<rparr>)"

definition sem_bump :: "semaphore \<Rightarrow> semaphore" where
  "sem_bump s = s\<lparr>sem_value := Suc (sem_value s)\<rparr>"

definition sem_release :: "semaphore \<Rightarrow> semaphore" where
  "sem_release s = sem_wake_up_next (sem_bump s)"

definition sem_remove :: "nat \<Rightarrow> semaphore \<Rightarrow> semaphore" where
  "sem_remove i s = s\<lparr>sem_waiters := filter (\<lambda>w. fst w \<noteq> i) (sem_waiters s)\<rparr>"

text \<open>A waiter wakes with its slot, or with a \<open>CancelledError\<close>.\<close>

definition sem_resume :: "nat \<Rightarrow> semaphore \<Rightarrow> semaphore" where
  "sem_resume i s =
     (let s' = sem_remove i s in if 0 < sem_value s' then sem_wake_up_next s' else s')"

definition sem_abandon :: "nat \<Rightarrow> semaphore \<Rightarrow> semaphore" where
  "sem_abandon i s =
     (if sem_state s i = Some WCancelled then sem_remove i s
      else sem_wake_up_next (sem_bump (sem_remove i s)))"

text \<open>Cancelling every waiting task: a pending future is cancelled, a granted one is not.\<close>

definition sem_cancel_all :: "semaphore \<Rightarrow> semaphore" where
  "sem_cancel_all s =
     s\<lparr>sem_waiters :=
         map (\<lambda>(i, w). (i, if w = WPending then WCancelled else w)) (sem_waiters s)\<rparr>"

section \<open>The interface\<close>

text \<open>
  \<open>free s\<close> counts the slots no user holds; \<open>waiting s\<close> are the waiting tasks and
  \<open>state s i\<close> the state of a waiter.
\<close>

locale slot_lock =
  fixes good :: "'s \<Rightarrow> bool"
    and free :: "'s \<Rightarrow> nat"
    and state :: "'s \<Rightarrow> nat \<Rightarrow> wstate option"
    and init :: "nat \<Rightarrow> 's"
    and locked :: "'s \<Rightarrow> bool"
    and take :: "'s \<Rightarrow> 's"
    and enqueue :: "nat \<Rightarrow> 's \<Rightarrow> 's"
    and release :: "'s \<Rightarrow> 's"
    and resume :: "nat \<Rightarrow> 's \<Rightarrow> 's"
    and abandon :: "nat \<Rightarrow> 's \<Rightarrow> 's"
    and cancel_all :: "'s \<Rightarrow> 's"
  assumes init: "good (init k)" "free (init k) = k" "state (init k) i = None"
    and take: "good s \<Longrightarrow> \<not> locked s \<Longrightarrow>
      good (take s) \<and> Suc (free (take s)) = free s \<and> state (take s) = state s"
    and enqueue: "good s \<Longrightarrow> locked s \<Longrightarrow> state s i = None \<Longrightarrow>
      good (enqueue i s) \<and> free (enqueue i s) = free s \<and>
      state (enqueue i s) = (state s)(i \<mapsto> WPending)"
    and release: "good s \<Longrightarrow>
      good (release s) \<and> free (release s) = Suc (free s) \<and> dom (state (release s)) = dom (state s)"
    and release_keep:
      "good s \<Longrightarrow> state (release s) j = Some w \<Longrightarrow> w \<noteq> WGranted \<Longrightarrow> state s j = Some w"
    and resume: "good s \<Longrightarrow> state s i = Some WGranted \<Longrightarrow>
      good (resume i s) \<and> Suc (free (resume i s)) = free s \<and>
      dom (state (resume i s)) = dom (state s) - {i}"
    and resume_keep:
      "good s \<Longrightarrow> state (resume i s) j = Some w \<Longrightarrow> w \<noteq> WGranted \<Longrightarrow> state s j = Some w"
    and abandon: "good s \<Longrightarrow> state s i = Some w \<Longrightarrow> w \<noteq> WPending \<Longrightarrow>
      good (abandon i s) \<and> free (abandon i s) = free s \<and>
      dom (state (abandon i s)) = dom (state s) - {i}"
    and abandon_keep:
      "good s \<Longrightarrow> state (abandon i s) j = Some w \<Longrightarrow> w \<noteq> WGranted \<Longrightarrow> state s j = Some w"
    and cancel_all: "good s \<Longrightarrow>
      good (cancel_all s) \<and> free (cancel_all s) = free s \<and>
      dom (state (cancel_all s)) = dom (state s)"
    and cancel_all_pending: "state (cancel_all s) j \<noteq> Some WPending"
    and no_lost_wakeup: "good s \<Longrightarrow> state s i = Some WPending \<Longrightarrow> 0 < free s \<Longrightarrow>
      \<exists>j. state s j = Some WGranted"
begin

text \<open>
  No deadlock on the lock: while a task waits, either some waiter can run at once (it was
  granted a slot or cancelled), or every slot is in a user's hands.
\<close>

lemma waiter_can_run:
  assumes "good s" and "state s i \<noteq> None"
  shows "(\<exists>j w. state s j = Some w \<and> w \<noteq> WPending) \<or> free s = 0"
proof (cases "state s i = Some WPending")
  case True
  then show ?thesis using no_lost_wakeup [OF assms(1) True] by blast
next
  case False
  then show ?thesis using assms(2) by auto
qed

end

section \<open>The semaphore keeps the interface\<close>

definition sem_granted :: "semaphore \<Rightarrow> nat" where
  "sem_granted s = cnt (\<lambda>w. snd w = WGranted) (sem_waiters s)"

definition sem_free :: "semaphore \<Rightarrow> nat" where
  "sem_free s = sem_value s + sem_granted s"

definition sem_good :: "semaphore \<Rightarrow> bool" where
  "sem_good s \<longleftrightarrow> distinct (map fst (sem_waiters s)) \<and>
     (0 < sem_value s \<longrightarrow> (\<exists>w \<in> set (sem_waiters s). snd w = WPending) \<longrightarrow>
        (\<exists>w \<in> set (sem_waiters s). snd w = WGranted))"

lemma grant_first_None: "grant_first ws = None \<longleftrightarrow> (\<forall>w \<in> set ws. snd w \<noteq> WPending)"
  by (induction ws rule: grant_first.induct) auto

lemma grant_first_fst: "grant_first ws = Some ws' \<Longrightarrow> map fst ws' = map fst ws"
  by (induction ws arbitrary: ws' rule: grant_first.induct) (auto split: if_splits)

lemma grant_first_cnt:
  "grant_first ws = Some ws' \<Longrightarrow>
     cnt (\<lambda>w. snd w = WGranted) ws' = Suc (cnt (\<lambda>w. snd w = WGranted) ws)"
  by (induction ws arbitrary: ws' rule: grant_first.induct) (auto split: if_splits)

lemma grant_first_granted:
  "grant_first ws = Some ws' \<Longrightarrow> \<exists>w \<in> set ws'. snd w = WGranted"
  by (induction ws arbitrary: ws' rule: grant_first.induct) (auto split: if_splits)

lemma grant_first_keep:
  "grant_first ws = Some ws' \<Longrightarrow> map_of ws' j = Some w \<Longrightarrow> w \<noteq> WGranted \<Longrightarrow> map_of ws j = Some w"
  by (induction ws arbitrary: ws' rule: grant_first.induct) (auto split: if_splits)

lemma dom_map_of_fst: "map fst ws' = map fst ws \<Longrightarrow> dom (map_of ws') = dom (map_of ws)"
  by (simp add: dom_map_of_conv_image_fst flip: set_map)

lemma wake_fst: "map fst (sem_waiters (sem_wake_up_next s)) = map fst (sem_waiters s)"
  by (auto simp: sem_wake_up_next_def dest: grant_first_fst split: option.splits)

lemma wake_dom: "dom (sem_state (sem_wake_up_next s)) = dom (sem_state s)"
  unfolding sem_state_def using dom_map_of_fst [OF wake_fst [of s]] by simp

lemma wake_free: "0 < sem_value s \<Longrightarrow> sem_free (sem_wake_up_next s) = sem_free s"
  by (auto simp: sem_wake_up_next_def sem_free_def sem_granted_def dest: grant_first_cnt
           split: option.splits)

lemma wake_good: "distinct (map fst (sem_waiters s)) \<Longrightarrow> sem_good (sem_wake_up_next s)"
  unfolding sem_good_def wake_fst
  by (auto simp: sem_wake_up_next_def grant_first_None dest: grant_first_granted
           split: option.splits)

lemma wake_keep:
  "sem_state (sem_wake_up_next s) j = Some w \<Longrightarrow> w \<noteq> WGranted \<Longrightarrow> sem_state s j = Some w"
  by (auto simp: sem_wake_up_next_def sem_state_def dest: grant_first_keep split: option.splits)

lemma map_of_remove:
  "map_of (filter (\<lambda>w. fst w \<noteq> i) ws) j = (if j = i then None else map_of ws j)"
  by (induction ws) auto

lemma distinct_remove:
  "distinct (map fst ws) \<Longrightarrow> distinct (map fst (filter (\<lambda>w. fst w \<noteq> i) ws))"
  by (rule distinct_map_filter)

lemma cnt_remove:
  assumes "distinct (map fst ws)" and "map_of ws i = Some w"
  shows "cnt (\<lambda>v. snd v = g) (filter (\<lambda>v. fst v \<noteq> i) ws) + of_bool (w = g)
           = cnt (\<lambda>v. snd v = g) ws"
  using assms
proof (induction ws)
  case (Cons v ws)
  show ?case
  proof (cases "fst v = i")
    case True
    with Cons.prems have "\<forall>u \<in> set ws. fst u \<noteq> i" by (auto simp: image_iff)
    then have "filter (\<lambda>v. fst v \<noteq> i) ws = ws" by (simp add: filter_id_conv)
    then show ?thesis using True Cons.prems by (cases v) auto
  next
    case False
    then show ?thesis using Cons by (cases v) auto
  qed
qed simp

lemma sem_state_remove: "sem_state (sem_remove i s) = (sem_state s)(i := None)"
  by (simp add: fun_eq_iff sem_state_def sem_remove_def map_of_remove)

lemma remove_free:
  assumes "distinct (map fst (sem_waiters s))" and "sem_state s i = Some w"
  shows "sem_free (sem_remove i s) + of_bool (w = WGranted) = sem_free s"
  using cnt_remove [OF assms(1), of i w WGranted] assms(2)
  by (simp add: sem_free_def sem_granted_def sem_remove_def sem_state_def)

lemma in_waiters_state:
  "distinct (map fst (sem_waiters s)) \<Longrightarrow> (i, w) \<in> set (sem_waiters s) \<longleftrightarrow> sem_state s i = Some w"
  by (simp add: sem_state_def)

lemma remove_distinct:
  "distinct (map fst (sem_waiters s)) \<Longrightarrow> distinct (map fst (sem_waiters (sem_remove i s)))"
  by (simp add: sem_remove_def distinct_remove)

lemma good_distinct: "sem_good s \<Longrightarrow> distinct (map fst (sem_waiters s))"
  by (simp add: sem_good_def)

lemma sem_good_state:
  "sem_good s \<longleftrightarrow> distinct (map fst (sem_waiters s)) \<and>
     (0 < sem_value s \<longrightarrow> (\<exists>i. sem_state s i = Some WPending) \<longrightarrow>
        (\<exists>i. sem_state s i = Some WGranted))"
proof (cases "distinct (map fst (sem_waiters s))")
  case True
  have "(\<exists>w \<in> set (sem_waiters s). snd w = v) \<longleftrightarrow> (\<exists>i. sem_state s i = Some v)" for v
    using in_waiters_state [OF True] by (metis snd_conv surj_pair)
  then show ?thesis by (simp add: sem_good_def)
qed (simp add: sem_good_def)

lemma bump_simps [simp]:
  "sem_state (sem_bump s) = sem_state s"
  "sem_waiters (sem_bump s) = sem_waiters s"
  "sem_value (sem_bump s) = Suc (sem_value s)"
  "sem_free (sem_bump s) = Suc (sem_free s)"
  by (simp_all add: sem_bump_def sem_state_def sem_free_def sem_granted_def fun_eq_iff)

lemma init_laws: "sem_good (sem_init k)" "sem_free (sem_init k) = k" "sem_state (sem_init k) i = None"
  by (simp_all add: sem_good_def sem_free_def sem_granted_def sem_state_def sem_init_def)

lemma take_laws:
  "sem_good s \<Longrightarrow> \<not> sem_locked s \<Longrightarrow>
     sem_good (sem_take s) \<and> Suc (sem_free (sem_take s)) = sem_free s \<and>
     sem_state (sem_take s) = sem_state s"
  by (auto simp: sem_good_def sem_free_def sem_granted_def sem_state_def sem_take_def
        sem_locked_def list_ex_iff fun_eq_iff)

lemma enqueue_laws:
  assumes good: "sem_good s" and locked: "sem_locked s" and new: "sem_state s i = None"
  shows "sem_good (sem_enqueue i s) \<and> sem_free (sem_enqueue i s) = sem_free s \<and>
    sem_state (sem_enqueue i s) = (sem_state s)(i \<mapsto> WPending)"
proof -
  have fresh: "i \<notin> fst ` set (sem_waiters s)"
    using new by (simp add: sem_state_def map_of_eq_None_iff)
  then have st: "sem_state (sem_enqueue i s) = (sem_state s)(i \<mapsto> WPending)"
    by (auto simp: sem_state_def sem_enqueue_def fun_eq_iff map_add_def
          map_of_eq_None_iff [symmetric] split: option.splits)
  have "\<exists>w \<in> set (sem_waiters s). snd w = WGranted" if v: "0 < sem_value s"
  proof -
    obtain w where w: "w \<in> set (sem_waiters s)" "snd w \<noteq> WCancelled"
      using locked v by (auto simp: sem_locked_def list_ex_iff)
    show ?thesis
    proof (cases "snd w")
      case WPending
      then show ?thesis using good v w(1) by (auto simp: sem_good_def)
    next
      case WGranted
      then show ?thesis using w(1) by blast
    next
      case WCancelled
      then show ?thesis using w(2) by simp
    qed
  qed
  then have "sem_good (sem_enqueue i s)"
    using good fresh by (auto simp: sem_good_def sem_enqueue_def)
  then show ?thesis
    using st by (simp add: sem_free_def sem_granted_def sem_enqueue_def)
qed

lemma release_laws:
  assumes "sem_good s"
  shows "sem_good (sem_release s) \<and> sem_free (sem_release s) = Suc (sem_free s) \<and>
     dom (sem_state (sem_release s)) = dom (sem_state s)"
  using good_distinct [OF assms]
  by (simp add: sem_release_def wake_good wake_free wake_dom)

lemma release_keep:
  "sem_state (sem_release s) j = Some w \<Longrightarrow> w \<noteq> WGranted \<Longrightarrow> sem_state s j = Some w"
  using wake_keep [of "sem_bump s" j w] by (simp add: sem_release_def)

lemma resume_laws:
  assumes good: "sem_good s" and i: "sem_state s i = Some WGranted"
  shows "sem_good (sem_resume i s) \<and> Suc (sem_free (sem_resume i s)) = sem_free s \<and>
    dom (sem_state (sem_resume i s)) = dom (sem_state s) - {i}"
proof -
  note d = remove_distinct [OF good_distinct [OF good], of i]
  have free: "Suc (sem_free (sem_remove i s)) = sem_free s"
    using remove_free [OF good_distinct [OF good] i] by simp
  have dom: "dom (sem_state (sem_remove i s)) = dom (sem_state s) - {i}"
    by (auto simp: sem_state_remove)
  show ?thesis
  proof (cases "0 < sem_value (sem_remove i s)")
    case True
    then show ?thesis
      by (simp add: sem_resume_def Let_def wake_good [OF d] wake_free wake_dom free dom)
  next
    case False
    then show ?thesis
      using d by (simp add: sem_resume_def Let_def free dom sem_good_def)
  qed
qed

lemma remove_keep: "sem_state (sem_remove i s) j = Some w \<Longrightarrow> sem_state s j = Some w"
  by (simp add: sem_state_remove split: if_splits)

lemma resume_keep:
  "sem_state (sem_resume i s) j = Some w \<Longrightarrow> w \<noteq> WGranted \<Longrightarrow> sem_state s j = Some w"
  using wake_keep [of "sem_remove i s" j w] remove_keep [of i s j w]
  by (auto simp: sem_resume_def Let_def split: if_splits)

lemma abandon_laws:
  assumes good: "sem_good s" and i: "sem_state s i = Some w" and w: "w \<noteq> WPending"
  shows "sem_good (sem_abandon i s) \<and> sem_free (sem_abandon i s) = sem_free s \<and>
    dom (sem_state (sem_abandon i s)) = dom (sem_state s) - {i}"
proof -
  note d = remove_distinct [OF good_distinct [OF good], of i]
  note free = remove_free [OF good_distinct [OF good] i]
  have dom: "dom (sem_state (sem_remove i s)) = dom (sem_state s) - {i}"
    by (auto simp: sem_state_remove)
  show ?thesis
  proof (cases "w = WCancelled")
    case True
    have v: "sem_value (sem_remove i s) = sem_value s" by (simp add: sem_remove_def)
    have st: "sem_state (sem_remove i s) j = Some x \<longleftrightarrow> sem_state s j = Some x"
      if "x \<noteq> WCancelled" for j x
      using that i True by (simp add: sem_state_remove)
    have "sem_good (sem_remove i s)"
      using good d unfolding sem_good_state v by (simp add: st)
    then show ?thesis using True i free dom by (simp add: sem_abandon_def)
  next
    case False
    then have "w = WGranted" using w by (cases w) auto
    then have "sem_abandon i s = sem_wake_up_next (sem_bump (sem_remove i s))"
      using i by (simp add: sem_abandon_def)
    then show ?thesis
      using d free dom \<open>w = WGranted\<close> by (simp add: wake_good wake_free wake_dom)
  qed
qed

lemma abandon_keep:
  "sem_state (sem_abandon i s) j = Some w \<Longrightarrow> w \<noteq> WGranted \<Longrightarrow> sem_state s j = Some w"
  using wake_keep [of "sem_bump (sem_remove i s)" j w] remove_keep [of i s j w]
  by (auto simp: sem_abandon_def split: if_splits)

lemma cancel_all_state:
  "sem_state (sem_cancel_all s) j =
     map_option (\<lambda>w. if w = WPending then WCancelled else w) (sem_state s j)"
proof -
  have "map_of (map (\<lambda>(i, w). (i, f w)) ws) j = map_option f (map_of ws j)" for f ws
    by (induction ws) auto
  then show ?thesis by (simp add: sem_state_def sem_cancel_all_def)
qed

lemma cancel_all_laws:
  assumes "sem_good s"
  shows "sem_good (sem_cancel_all s) \<and> sem_free (sem_cancel_all s) = sem_free s \<and>
    dom (sem_state (sem_cancel_all s)) = dom (sem_state s)"
proof -
  have "map fst (sem_waiters (sem_cancel_all s)) = map fst (sem_waiters s)"
    by (simp add: sem_cancel_all_def case_prod_beta comp_def)
  moreover have "sem_granted (sem_cancel_all s) = sem_granted s"
    by (auto simp: sem_granted_def sem_cancel_all_def intro!: cnt_cong split: if_splits)
  moreover have "sem_value (sem_cancel_all s) = sem_value s" by (simp add: sem_cancel_all_def)
  ultimately show ?thesis
    using assms by (auto simp: sem_good_state sem_free_def cancel_all_state split: if_splits)
qed

lemma no_lost_wakeup:
  assumes "sem_good s" and "sem_state s i = Some WPending" and "0 < sem_free s"
  shows "\<exists>j. sem_state s j = Some WGranted"
proof (cases "0 < sem_value s")
  case True
  then show ?thesis using assms by (auto simp: sem_good_state)
next
  case False
  then have "0 < sem_granted s" using assms(3) by (simp add: sem_free_def)
  then obtain k where "k < length (sem_waiters s)" "snd (sem_waiters s ! k) = WGranted"
    by (auto simp: sem_granted_def cnt_pos_iff)
  then have "(fst (sem_waiters s ! k), WGranted) \<in> set (sem_waiters s)"
    by (metis nth_mem surjective_pairing)
  then show ?thesis using in_waiters_state [OF good_distinct [OF assms(1)]] by blast
qed

lemma cancel_all_pending: "sem_state (sem_cancel_all s) j \<noteq> Some WPending"
  by (simp add: cancel_all_state split: option.splits)

interpretation asem: slot_lock sem_good sem_free sem_state sem_init sem_locked sem_take
  sem_enqueue sem_release sem_resume sem_abandon sem_cancel_all
  by unfold_locales
     (rule init_laws take_laws enqueue_laws release_laws release_keep resume_laws
        resume_keep abandon_laws abandon_keep cancel_all_laws cancel_all_pending
        no_lost_wakeup; assumption)+

end
