(* ===== verification/Async_Queue.thy ===== *)
theory Async_Queue
  imports Semaphore
begin

text \<open>
  \<open>asyncio.Queue\<close> (CPython 3.11) as \<open>stream\<close> uses it: one producer, any number of consumers, a
  bounded buffer. A waiting \<open>get\<close> is a future in a FIFO; \<open>put\<close> and \<open>get\<close> wake at most one waiter
  of the other side, and a woken consumer re-checks the buffer, because another consumer may
  have taken the item meanwhile. The interface \<open>bounded_channel\<close> states what \<open>stream\<close> relies
  on: the buffer is a FIFO of at most its capacity, and no wake-up is lost on either side.
\<close>

section \<open>The model\<close>

record 'a aqueue =
  buf :: "'a list"
  maxsize :: nat
  getters :: "(nat \<times> wstate) list"
  putter :: "wstate option" \<comment> \<open>the one producer's future\<close>
  unfinished :: nat

definition q_init :: "nat \<Rightarrow> 'a aqueue" where
  "q_init n = \<lparr>buf = [], maxsize = n, getters = [], putter = None, unfinished = 0\<rparr>"

definition q_full :: "'a aqueue \<Rightarrow> bool" where
  "q_full q = (maxsize q \<le> length (buf q))"

definition q_gstate :: "'a aqueue \<Rightarrow> nat \<Rightarrow> wstate option" where
  "q_gstate q i = map_of (getters q) i"

definition q_woken :: "'a aqueue \<Rightarrow> nat" where
  "q_woken q = cnt (\<lambda>w. snd w = WGranted) (getters q)"

text \<open>\<open>_wakeup_next\<close> of either side: the first waiter that is not done.\<close>

definition q_wake_getter :: "'a aqueue \<Rightarrow> 'a aqueue" where
  "q_wake_getter q =
     (case grant_first (getters q) of None \<Rightarrow> q | Some ws \<Rightarrow> q\<lparr>getters := ws\<rparr>)"

definition q_wake_putter :: "'a aqueue \<Rightarrow> 'a aqueue" where
  "q_wake_putter q = (if putter q = Some WPending then q\<lparr>putter := Some WGranted\<rparr> else q)"

text \<open>\<open>put\<close> up to its end or its wait; the flag says it is done.\<close>

definition q_put :: "'a \<Rightarrow> 'a aqueue \<Rightarrow> bool \<times> 'a aqueue" where
  "q_put x q =
     (if q_full q then (False, q\<lparr>putter := Some WPending\<rparr>)
      else (True, q_wake_getter (q\<lparr>buf := buf q @ [x], unfinished := Suc (unfinished q)\<rparr>)))"

text \<open>\<open>get\<close> of consumer \<open>i\<close> up to its item or its wait.\<close>

definition q_get :: "nat \<Rightarrow> 'a aqueue \<Rightarrow> 'a option \<times> 'a aqueue" where
  "q_get i q =
     (case buf q of
        [] \<Rightarrow> (None, q\<lparr>getters := getters q @ [(i, WPending)]\<rparr>)
      | x # xs \<Rightarrow> (Some x, q_wake_putter (q\<lparr>buf := xs\<rparr>)))"

definition q_remove :: "nat \<Rightarrow> 'a aqueue \<Rightarrow> 'a aqueue" where
  "q_remove i q = q\<lparr>getters := filter (\<lambda>w. fst w \<noteq> i) (getters q)\<rparr>"

text \<open>A waiter wakes: with its turn (it loops), or with a \<open>CancelledError\<close>.\<close>

definition q_resume_get :: "nat \<Rightarrow> 'a aqueue \<Rightarrow> 'a option \<times> 'a aqueue" where
  "q_resume_get i q = q_get i (q_remove i q)"

definition q_abandon_get :: "nat \<Rightarrow> 'a aqueue \<Rightarrow> 'a aqueue" where
  "q_abandon_get i q =
     (if buf q \<noteq> [] \<and> q_gstate q i \<noteq> Some WCancelled then q_wake_getter (q_remove i q)
      else q_remove i q)"

definition q_clear_putter :: "'a aqueue \<Rightarrow> 'a aqueue" where
  "q_clear_putter q = q\<lparr>putter := None\<rparr>"

definition q_task_done :: "'a aqueue \<Rightarrow> 'a aqueue" where
  "q_task_done q = q\<lparr>unfinished := unfinished q - 1\<rparr>"

definition q_cancel_all :: "'a aqueue \<Rightarrow> 'a aqueue" where
  "q_cancel_all q =
     q\<lparr>getters := map (\<lambda>(i, w). (i, if w = WPending then WCancelled else w)) (getters q),
       putter := map_option (\<lambda>w. if w = WPending then WCancelled else w) (putter q)\<rparr>"

section \<open>The interface\<close>

text \<open>
  \<open>items\<close> is the buffer, \<open>gstate\<close> the state of each waiting consumer, \<open>pstate\<close> the producer's,
  \<open>woken\<close> the number of consumers whose turn has come, \<open>outstanding\<close> the count behind
  \<open>task_done\<close>.
\<close>

locale bounded_channel =
  fixes good :: "'s \<Rightarrow> bool"
    and items :: "'s \<Rightarrow> 'a list"
    and cap :: "'s \<Rightarrow> nat"
    and gstate :: "'s \<Rightarrow> nat \<Rightarrow> wstate option"
    and pstate :: "'s \<Rightarrow> wstate option"
    and woken :: "'s \<Rightarrow> nat"
    and outstanding :: "'s \<Rightarrow> nat"
    and init :: "nat \<Rightarrow> 's"
    and full :: "'s \<Rightarrow> bool"
    and put :: "'a \<Rightarrow> 's \<Rightarrow> bool \<times> 's"
    and get :: "nat \<Rightarrow> 's \<Rightarrow> 'a option \<times> 's"
    and resume :: "nat \<Rightarrow> 's \<Rightarrow> 'a option \<times> 's"
    and abandon :: "nat \<Rightarrow> 's \<Rightarrow> 's"
    and clear_putter :: "'s \<Rightarrow> 's"
    and task_done :: "'s \<Rightarrow> 's"
    and cancel_all :: "'s \<Rightarrow> 's"
  assumes init: "good (init n) \<and> items (init n) = [] \<and> cap (init n) = n \<and> pstate (init n) = None \<and>
      woken (init n) = 0 \<and> outstanding (init n) = 0 \<and> gstate (init n) = Map.empty"
    and full: "full s = (cap s \<le> length (items s))"
    and bound: "good s \<Longrightarrow> length (items s) \<le> cap s"
    and put: "good s \<Longrightarrow> pstate s = None \<Longrightarrow> \<not> full s \<Longrightarrow>
      \<exists>t. put x s = (True, t) \<and> good t \<and> items t = items s @ [x] \<and> cap t = cap s \<and>
          pstate t = None \<and> dom (gstate t) = dom (gstate s) \<and> woken t \<le> Suc (woken s) \<and>
          outstanding t = Suc (outstanding s) \<and>
          (\<forall>j w. gstate t j = Some w \<longrightarrow> w \<noteq> WGranted \<longrightarrow> gstate s j = Some w)"
    and put_waits: "good s \<Longrightarrow> full s \<Longrightarrow>
      \<exists>t. put x s = (False, t) \<and> good t \<and> items t = items s \<and> cap t = cap s \<and>
          pstate t = Some WPending \<and> gstate t = gstate s \<and> woken t = woken s \<and>
          outstanding t = outstanding s"
    and get: "good s \<Longrightarrow> items s = x # xs \<Longrightarrow>
      \<exists>t. get i s = (Some x, t) \<and> good t \<and> items t = xs \<and> cap t = cap s \<and>
          pstate t = map_option (\<lambda>w. if w = WPending then WGranted else w) (pstate s) \<and>
          gstate t = gstate s \<and> woken t = woken s \<and> outstanding t = outstanding s"
    and get_waits: "good s \<Longrightarrow> items s = [] \<Longrightarrow> gstate s i = None \<Longrightarrow>
      \<exists>t. get i s = (None, t) \<and> good t \<and> items t = [] \<and> cap t = cap s \<and> pstate t = pstate s \<and>
          gstate t = (gstate s)(i \<mapsto> WPending) \<and> woken t = woken s \<and> outstanding t = outstanding s"
    and resume: "good s \<Longrightarrow> gstate s i = Some WGranted \<Longrightarrow> items s = x # xs \<Longrightarrow>
      \<exists>t. resume i s = (Some x, t) \<and> good t \<and> items t = xs \<and> cap t = cap s \<and>
          pstate t = map_option (\<lambda>w. if w = WPending then WGranted else w) (pstate s) \<and>
          gstate t = (gstate s)(i := None) \<and> Suc (woken t) = woken s \<and> outstanding t = outstanding s"
    and resume_waits: "good s \<Longrightarrow> gstate s i = Some WGranted \<Longrightarrow> items s = [] \<Longrightarrow>
      \<exists>t. resume i s = (None, t) \<and> good t \<and> items t = [] \<and> cap t = cap s \<and> pstate t = pstate s \<and>
          gstate t = (gstate s)(i \<mapsto> WPending) \<and> Suc (woken t) = woken s \<and>
          outstanding t = outstanding s"
    and abandon: "good s \<Longrightarrow> gstate s i = Some w \<Longrightarrow> w \<noteq> WPending \<Longrightarrow>
      good (abandon i s) \<and> items (abandon i s) = items s \<and> cap (abandon i s) = cap s \<and>
      pstate (abandon i s) = pstate s \<and> dom (gstate (abandon i s)) = dom (gstate s) - {i} \<and>
      woken (abandon i s) \<le> woken s \<and> outstanding (abandon i s) = outstanding s"
    and abandon_keep: "good s \<Longrightarrow> gstate (abandon i s) j = Some w \<Longrightarrow> w \<noteq> WGranted \<Longrightarrow>
      gstate s j = Some w"
    and clear_putter: "good s \<Longrightarrow>
      good (clear_putter s) \<and> items (clear_putter s) = items s \<and> cap (clear_putter s) = cap s \<and>
      pstate (clear_putter s) = None \<and> gstate (clear_putter s) = gstate s \<and>
      woken (clear_putter s) = woken s \<and> outstanding (clear_putter s) = outstanding s"
    and task_done: "good s \<Longrightarrow>
      good (task_done s) \<and> items (task_done s) = items s \<and> cap (task_done s) = cap s \<and>
      pstate (task_done s) = pstate s \<and> gstate (task_done s) = gstate s \<and>
      woken (task_done s) = woken s \<and> outstanding (task_done s) = outstanding s - 1"
    and cancel_all: "good s \<Longrightarrow>
      good (cancel_all s) \<and> items (cancel_all s) = items s \<and> cap (cancel_all s) = cap s \<and>
      pstate (cancel_all s) = map_option (\<lambda>w. if w = WPending then WCancelled else w) (pstate s) \<and>
      dom (gstate (cancel_all s)) = dom (gstate s) \<and> (\<forall>j. gstate (cancel_all s) j \<noteq> Some WPending) \<and>
      woken (cancel_all s) = woken s \<and> outstanding (cancel_all s) = outstanding s"
    and no_lost_get: "good s \<Longrightarrow> gstate s i = Some WPending \<Longrightarrow> items s \<noteq> [] \<Longrightarrow>
      \<exists>j. gstate s j = Some WGranted"
    and no_lost_put: "good s \<Longrightarrow> pstate s = Some WPending \<Longrightarrow> length (items s) = cap s"
begin

text \<open>
  No deadlock on the channel: if the producer and some consumer both wait, and the channel
  can hold anything at all, one of the two sides has a waiter whose turn has come.
\<close>

lemma one_side_runs:
  assumes "good s" and "0 < cap s" and "pstate s \<noteq> None" and "gstate s i \<noteq> None"
  shows "pstate s \<noteq> Some WPending \<or> (\<exists>j w. gstate s j = Some w \<and> w \<noteq> WPending)"
proof (cases "pstate s = Some WPending \<and> gstate s i = Some WPending")
  case True
  then have "items s \<noteq> []" using no_lost_put [OF assms(1)] assms(2) by fastforce
  then show ?thesis using no_lost_get [OF assms(1)] True by blast
next
  case False
  then show ?thesis using assms(4) by auto
qed

end

section \<open>The queue keeps the interface\<close>

definition q_good :: "'a aqueue \<Rightarrow> bool" where
  "q_good q \<longleftrightarrow> distinct (map fst (getters q)) \<and> length (buf q) \<le> maxsize q \<and>
     ((\<exists>w \<in> set (getters q). snd w = WPending) \<longrightarrow> length (buf q) \<le> q_woken q) \<and>
     (putter q = Some WPending \<longrightarrow> length (buf q) = maxsize q)"

lemma wake_getter_simps [simp]:
  "buf (q_wake_getter q) = buf q" "maxsize (q_wake_getter q) = maxsize q"
  "putter (q_wake_getter q) = putter q" "unfinished (q_wake_getter q) = unfinished q"
  by (simp_all add: q_wake_getter_def split: option.splits)

lemma wake_getter_fst: "map fst (getters (q_wake_getter q)) = map fst (getters q)"
  by (auto simp: q_wake_getter_def dest: grant_first_fst split: option.splits)

lemma wake_getter_woken:
  "q_woken (q_wake_getter q) =
     q_woken q + of_bool (\<exists>w \<in> set (getters q). snd w = WPending)"
  by (auto simp: q_wake_getter_def q_woken_def grant_first_None dest: grant_first_cnt
        split: option.splits)
     (metis grant_first_None not_None_eq option.distinct(1))+

lemma wake_getter_keep:
  "q_gstate (q_wake_getter q) j = Some w \<Longrightarrow> w \<noteq> WGranted \<Longrightarrow> q_gstate q j = Some w"
  by (auto simp: q_wake_getter_def q_gstate_def dest: grant_first_keep split: option.splits)

lemma wake_getter_pending:
  assumes "w \<in> set (getters (q_wake_getter q))" and "snd w = WPending"
    and "distinct (map fst (getters q))"
  shows "\<exists>w \<in> set (getters q). snd w = WPending"
proof -
  have "distinct (map fst (getters (q_wake_getter q)))" using assms(3) by (simp add: wake_getter_fst)
  then have "q_gstate (q_wake_getter q) (fst w) = Some WPending"
    using assms(1,2) by (metis map_of_is_SomeI prod.collapse q_gstate_def)
  then have "q_gstate q (fst w) = Some WPending" using wake_getter_keep by blast
  then show ?thesis unfolding q_gstate_def by (metis map_of_SomeD snd_conv)
qed

lemma wake_getter_dom: "dom (q_gstate (q_wake_getter q)) = dom (q_gstate q)"
  unfolding q_gstate_def using dom_map_of_fst [OF wake_getter_fst [of q]]
  by (simp add: q_gstate_def [abs_def])

lemma q_remove_gstate: "q_gstate (q_remove i q) = (q_gstate q)(i := None)"
  by (simp add: fun_eq_iff q_gstate_def q_remove_def map_of_remove)

lemma q_remove_simps [simp]:
  "buf (q_remove i q) = buf q" "maxsize (q_remove i q) = maxsize q"
  "putter (q_remove i q) = putter q" "unfinished (q_remove i q) = unfinished q"
  by (simp_all add: q_remove_def)

lemma q_remove_woken:
  "distinct (map fst (getters q)) \<Longrightarrow> q_gstate q i = Some w \<Longrightarrow>
     q_woken (q_remove i q) + of_bool (w = WGranted) = q_woken q"
  using cnt_remove [of "getters q" i w WGranted]
  by (simp add: q_woken_def q_remove_def q_gstate_def)

lemma q_remove_distinct:
  "distinct (map fst (getters q)) \<Longrightarrow> distinct (map fst (getters (q_remove i q)))"
  by (simp add: q_remove_def distinct_remove)

lemma q_remove_pending:
  "w \<in> set (getters (q_remove i q)) \<Longrightarrow> w \<in> set (getters q)"
  by (simp add: q_remove_def)

lemmas q_simps = q_gstate_def q_woken_def q_full_def

lemma q_gstate_update [simp]:
  "q_gstate (q\<lparr>buf := b\<rparr>) = q_gstate q" "q_gstate (q\<lparr>putter := p\<rparr>) = q_gstate q"
  "q_gstate (q\<lparr>unfinished := u\<rparr>) = q_gstate q"
  "q_woken (q\<lparr>buf := b\<rparr>) = q_woken q" "q_woken (q\<lparr>putter := p\<rparr>) = q_woken q"
  "q_woken (q\<lparr>unfinished := u\<rparr>) = q_woken q"
  by (simp_all add: fun_eq_iff q_gstate_def q_woken_def)

lemma q_good_D:
  assumes "q_good q"
  shows "distinct (map fst (getters q))" "length (buf q) \<le> maxsize q"
    "w \<in> set (getters q) \<Longrightarrow> snd w = WPending \<Longrightarrow> length (buf q) \<le> q_woken q"
    "putter q = Some WPending \<Longrightarrow> length (buf q) = maxsize q"
  using assms by (auto simp: q_good_def)

lemma q_init_law:
  "q_good (q_init n) \<and> buf (q_init n) = [] \<and> maxsize (q_init n) = n \<and> putter (q_init n) = None \<and>
   q_woken (q_init n) = 0 \<and> unfinished (q_init n) = 0 \<and> q_gstate (q_init n) = Map.empty"
  by (simp add: q_good_def q_init_def q_woken_def q_gstate_def fun_eq_iff)

lemma q_put_law:
  assumes good: "q_good q" and free: "putter q = None" "\<not> q_full q"
  shows "\<exists>t. q_put x q = (True, t) \<and> q_good t \<and> buf t = buf q @ [x] \<and> maxsize t = maxsize q \<and>
    putter t = None \<and> dom (q_gstate t) = dom (q_gstate q) \<and> q_woken t \<le> Suc (q_woken q) \<and>
    unfinished t = Suc (unfinished q) \<and>
    (\<forall>j w. q_gstate t j = Some w \<longrightarrow> w \<noteq> WGranted \<longrightarrow> q_gstate q j = Some w)"
proof -
  let ?s = "q\<lparr>buf := buf q @ [x], unfinished := Suc (unfinished q)\<rparr>"
  note D = q_good_D [OF good]
  have p: "q_put x q = (True, q_wake_getter ?s)" using free by (simp add: q_put_def)
  have pend: "length (buf q) \<le> q_woken q" if "w \<in> set (getters q)" "snd w = WPending" for w
    using D(3) that by blast
  have "length (buf (q_wake_getter ?s)) \<le> q_woken (q_wake_getter ?s)"
    if "\<exists>w \<in> set (getters (q_wake_getter ?s)). snd w = WPending"
  proof -
    have "\<exists>w \<in> set (getters ?s). snd w = WPending"
      using that wake_getter_pending [of _ ?s] D(1) by auto
    then show ?thesis using pend by (auto simp: wake_getter_woken)
  qed
  then have "q_good (q_wake_getter ?s)"
    unfolding q_good_def wake_getter_fst using D(1) free by (simp add: q_full_def)
  then show ?thesis
    using p free wake_getter_keep [of ?s] wake_getter_dom [of ?s] by (simp add: wake_getter_woken)
qed

lemma q_put_waits_law:
  assumes good: "q_good q" and full: "q_full q"
  shows "\<exists>t. q_put x q = (False, t) \<and> q_good t \<and> buf t = buf q \<and> maxsize t = maxsize q \<and>
    putter t = Some WPending \<and> q_gstate t = q_gstate q \<and> q_woken t = q_woken q \<and>
    unfinished t = unfinished q"
  using q_good_D [OF good] full by (auto simp: q_put_def q_good_def q_full_def)

lemma wake_putter_simps [simp]:
  "buf (q_wake_putter q) = buf q" "maxsize (q_wake_putter q) = maxsize q"
  "getters (q_wake_putter q) = getters q" "unfinished (q_wake_putter q) = unfinished q"
  "q_gstate (q_wake_putter q) = q_gstate q" "q_woken (q_wake_putter q) = q_woken q"
  "putter (q_wake_putter q) = map_option (\<lambda>w. if w = WPending then WGranted else w) (putter q)"
  by (auto simp: q_wake_putter_def fun_eq_iff option.map_id0 split: option.splits)
     (cases "putter q"; simp)+

lemma q_get_item:
  assumes d: "distinct (map fst (getters q))" "length (buf q) \<le> maxsize q" and b: "buf q = x # xs"
    and w: "\<And>w. w \<in> set (getters q) \<Longrightarrow> snd w = WPending \<Longrightarrow> length xs \<le> q_woken q"
  shows "\<exists>t. q_get i q = (Some x, t) \<and> q_good t \<and> buf t = xs \<and> maxsize t = maxsize q \<and>
    putter t = map_option (\<lambda>w. if w = WPending then WGranted else w) (putter q) \<and>
    q_gstate t = q_gstate q \<and> q_woken t = q_woken q \<and> unfinished t = unfinished q"
  using assms by (auto simp: q_get_def q_good_def split: if_splits)

lemma q_get_law:
  assumes good: "q_good q" and b: "buf q = x # xs"
  shows "\<exists>t. q_get i q = (Some x, t) \<and> q_good t \<and> buf t = xs \<and> maxsize t = maxsize q \<and>
    putter t = map_option (\<lambda>w. if w = WPending then WGranted else w) (putter q) \<and>
    q_gstate t = q_gstate q \<and> q_woken t = q_woken q \<and> unfinished t = unfinished q"
  using q_good_D [OF good] b by (intro q_get_item) (auto intro: Suc_leD)

lemma q_get_empty:
  assumes d: "distinct (map fst (getters q))" and b: "buf q = []" and i: "q_gstate q i = None"
    and p: "putter q = Some WPending \<Longrightarrow> maxsize q = 0"
  shows "\<exists>t. q_get i q = (None, t) \<and> q_good t \<and> buf t = [] \<and> maxsize t = maxsize q \<and>
    putter t = putter q \<and> q_gstate t = (q_gstate q)(i \<mapsto> WPending) \<and> q_woken t = q_woken q \<and>
    unfinished t = unfinished q"
proof -
  have "i \<notin> fst ` set (getters q)" using i by (simp add: q_gstate_def map_of_eq_None_iff)
  moreover have "map_of (getters q @ [(i, WPending)]) = (map_of (getters q))(i \<mapsto> WPending)"
    using i by (auto simp: q_gstate_def fun_eq_iff map_add_def split: option.splits)
  ultimately show ?thesis
    using assms by (auto simp: q_get_def q_good_def q_woken_def q_gstate_def fun_eq_iff)
qed

lemma q_get_waits_law:
  assumes good: "q_good q" and b: "buf q = []" and i: "q_gstate q i = None"
  shows "\<exists>t. q_get i q = (None, t) \<and> q_good t \<and> buf t = [] \<and> maxsize t = maxsize q \<and>
    putter t = putter q \<and> q_gstate t = (q_gstate q)(i \<mapsto> WPending) \<and> q_woken t = q_woken q \<and>
    unfinished t = unfinished q"
  using q_good_D [OF good] b i by (intro q_get_empty) auto

lemma q_resume_law:
  assumes good: "q_good q" and i: "q_gstate q i = Some WGranted" and b: "buf q = x # xs"
  shows "\<exists>t. q_resume_get i q = (Some x, t) \<and> q_good t \<and> buf t = xs \<and> maxsize t = maxsize q \<and>
    putter t = map_option (\<lambda>w. if w = WPending then WGranted else w) (putter q) \<and>
    q_gstate t = (q_gstate q)(i := None) \<and> Suc (q_woken t) = q_woken q \<and>
    unfinished t = unfinished q"
proof -
  note D = q_good_D [OF good]
  have w: "Suc (q_woken (q_remove i q)) = q_woken q" using q_remove_woken [OF D(1) i] by simp
  have le: "length xs \<le> q_woken (q_remove i q)"
    if "v \<in> set (getters (q_remove i q))" "snd v = WPending" for v
    using D(3) [OF q_remove_pending [OF that(1)] that(2)] b w by simp
  obtain t where t: "q_get i (q_remove i q) = (Some x, t) \<and> q_good t \<and> buf t = xs \<and>
      maxsize t = maxsize q \<and>
      putter t = map_option (\<lambda>w. if w = WPending then WGranted else w) (putter q) \<and>
      q_gstate t = (q_gstate q)(i := None) \<and> q_woken t = q_woken (q_remove i q) \<and>
      unfinished t = unfinished q"
    using q_get_item [of "q_remove i q" x xs i] q_remove_distinct [OF D(1), of i] D(2) b le
    by (auto simp: q_remove_gstate)
  then show ?thesis using w by (intro exI [of _ t]) (simp add: q_resume_get_def)
qed

lemma q_resume_waits_law:
  assumes good: "q_good q" and i: "q_gstate q i = Some WGranted" and b: "buf q = []"
  shows "\<exists>t. q_resume_get i q = (None, t) \<and> q_good t \<and> buf t = [] \<and> maxsize t = maxsize q \<and>
    putter t = putter q \<and> q_gstate t = (q_gstate q)(i \<mapsto> WPending) \<and>
    Suc (q_woken t) = q_woken q \<and> unfinished t = unfinished q"
proof -
  note D = q_good_D [OF good]
  have w: "Suc (q_woken (q_remove i q)) = q_woken q" using q_remove_woken [OF D(1) i] by simp
  obtain t where t: "q_get i (q_remove i q) = (None, t) \<and> q_good t \<and> buf t = [] \<and>
      maxsize t = maxsize q \<and> putter t = putter q \<and>
      q_gstate t = (q_gstate q)(i \<mapsto> WPending) \<and> q_woken t = q_woken (q_remove i q) \<and>
      unfinished t = unfinished q"
    using q_get_empty [of "q_remove i q" i] q_remove_distinct [OF D(1), of i] D(4) b
    by (auto simp: q_remove_gstate)
  then show ?thesis using w by (intro exI [of _ t]) (simp add: q_resume_get_def)
qed

lemma q_abandon_law:
  assumes good: "q_good q" and i: "q_gstate q i = Some w" "w \<noteq> WPending"
  shows "q_good (q_abandon_get i q) \<and> buf (q_abandon_get i q) = buf q \<and>
    maxsize (q_abandon_get i q) = maxsize q \<and> putter (q_abandon_get i q) = putter q \<and>
    dom (q_gstate (q_abandon_get i q)) = dom (q_gstate q) - {i} \<and>
    q_woken (q_abandon_get i q) \<le> q_woken q \<and> unfinished (q_abandon_get i q) = unfinished q"
proof -
  note D = q_good_D [OF good]
  note d = q_remove_distinct [OF D(1), of i]
  note W = q_remove_woken [OF D(1) i(1)]
  have dom: "dom (q_gstate (q_remove i q)) = dom (q_gstate q) - {i}" by (auto simp: q_remove_gstate)
  show ?thesis
  proof (cases "buf q \<noteq> [] \<and> q_gstate q i \<noteq> Some WCancelled")
    case True
    then have g: "w = WGranted" using i by (cases w) auto
    have "length (buf q) \<le> q_woken (q_wake_getter (q_remove i q))"
      if w: "\<exists>v \<in> set (getters (q_wake_getter (q_remove i q))). snd v = WPending"
    proof -
      obtain v where v: "v \<in> set (getters (q_remove i q))" "snd v = WPending"
        using w wake_getter_pending [OF _ _ d] by blast
      then have "length (buf q) \<le> q_woken q" using D(3) [OF q_remove_pending] by blast
      then show ?thesis using W g v by (auto simp: wake_getter_woken)
    qed
    then have "q_good (q_wake_getter (q_remove i q))"
      unfolding q_good_def wake_getter_fst using d D(2,4) by simp
    then show ?thesis
      using True W g wake_getter_dom [of "q_remove i q"] dom
      by (simp add: q_abandon_get_def wake_getter_woken)
  next
    case False
    have "q_good (q_remove i q)"
      unfolding q_good_def
    proof (intro conjI impI)
      show "length (buf (q_remove i q)) \<le> q_woken (q_remove i q)"
        if "\<exists>v \<in> set (getters (q_remove i q)). snd v = WPending"
      proof (cases "buf q = []")
        case False
        then have "w = WCancelled" using \<open>\<not> (buf q \<noteq> [] \<and> _)\<close> i(1) by simp
        then show ?thesis using that D(3) W q_remove_pending [of _ i q] by auto
      qed simp
    qed (use d D(2,4) in simp_all)
    moreover have "q_abandon_get i q = q_remove i q" using False by (auto simp: q_abandon_get_def)
    ultimately show ?thesis using W dom by simp
  qed
qed

lemma q_abandon_keep:
  "q_gstate (q_abandon_get i q) j = Some w \<Longrightarrow> w \<noteq> WGranted \<Longrightarrow> q_gstate q j = Some w"
  using wake_getter_keep [of "q_remove i q" j w]
  by (auto simp: q_abandon_get_def q_remove_gstate split: if_splits)

lemma q_clear_law:
  "q_good q \<Longrightarrow> q_good (q_clear_putter q) \<and> buf (q_clear_putter q) = buf q \<and>
     maxsize (q_clear_putter q) = maxsize q \<and> putter (q_clear_putter q) = None \<and>
     q_gstate (q_clear_putter q) = q_gstate q \<and> q_woken (q_clear_putter q) = q_woken q \<and>
     unfinished (q_clear_putter q) = unfinished q"
  by (auto simp: q_clear_putter_def q_good_def)

lemma q_task_done_law:
  "q_good q \<Longrightarrow> q_good (q_task_done q) \<and> buf (q_task_done q) = buf q \<and>
     maxsize (q_task_done q) = maxsize q \<and> putter (q_task_done q) = putter q \<and>
     q_gstate (q_task_done q) = q_gstate q \<and> q_woken (q_task_done q) = q_woken q \<and>
     unfinished (q_task_done q) = unfinished q - 1"
  by (auto simp: q_task_done_def q_good_def)

lemma q_cancel_gstate:
  "q_gstate (q_cancel_all q) j =
     map_option (\<lambda>w. if w = WPending then WCancelled else w) (q_gstate q j)"
proof -
  have "map_of (map (\<lambda>(i, w). (i, f w)) ws) j = map_option f (map_of ws j)" for f ws
    by (induction ws) auto
  then show ?thesis by (simp add: q_gstate_def q_cancel_all_def)
qed

lemma q_cancel_law:
  assumes "q_good q"
  shows "q_good (q_cancel_all q) \<and> buf (q_cancel_all q) = buf q \<and>
    maxsize (q_cancel_all q) = maxsize q \<and>
    putter (q_cancel_all q) = map_option (\<lambda>w. if w = WPending then WCancelled else w) (putter q) \<and>
    dom (q_gstate (q_cancel_all q)) = dom (q_gstate q) \<and>
    (\<forall>j. q_gstate (q_cancel_all q) j \<noteq> Some WPending) \<and>
    q_woken (q_cancel_all q) = q_woken q \<and> unfinished (q_cancel_all q) = unfinished q"
proof -
  have fst: "map fst (getters (q_cancel_all q)) = map fst (getters q)"
    by (simp add: q_cancel_all_def case_prod_beta comp_def)
  have woken: "q_woken (q_cancel_all q) = q_woken q"
    by (auto simp: q_woken_def q_cancel_all_def intro!: cnt_cong split: if_splits)
  have none: "snd w \<noteq> WPending" if "w \<in> set (getters (q_cancel_all q))" for w
    using that by (auto simp: q_cancel_all_def split: if_splits)
  have "q_good (q_cancel_all q)"
    unfolding q_good_def fst woken using q_good_D [OF assms] none
    by (auto simp: q_cancel_all_def split: if_splits)
  moreover have "dom (q_gstate (q_cancel_all q)) = dom (q_gstate q)"
    "\<forall>j. q_gstate (q_cancel_all q) j \<noteq> Some WPending"
    by (auto simp: q_cancel_gstate split: option.splits)
  moreover have "buf (q_cancel_all q) = buf q" "maxsize (q_cancel_all q) = maxsize q"
    "unfinished (q_cancel_all q) = unfinished q"
    "putter (q_cancel_all q) = map_option (\<lambda>w. if w = WPending then WCancelled else w) (putter q)"
    by (simp_all add: q_cancel_all_def)
  ultimately show ?thesis using woken by simp
qed

lemma q_no_lost_get:
  assumes "q_good q" and "q_gstate q i = Some WPending" and "buf q \<noteq> []"
  shows "\<exists>j. q_gstate q j = Some WGranted"
proof -
  note D = q_good_D [OF assms(1)]
  have "(i, WPending) \<in> set (getters q)" using assms(2) by (simp add: q_gstate_def map_of_SomeD)
  then have "0 < q_woken q" using D(3) assms(3) by (cases "buf q") fastforce+
  then obtain k where "k < length (getters q)" "snd (getters q ! k) = WGranted"
    by (auto simp: q_woken_def cnt_pos_iff)
  then have "(fst (getters q ! k), WGranted) \<in> set (getters q)"
    by (metis nth_mem surjective_pairing)
  then show ?thesis using D(1) by (auto simp: q_gstate_def)
qed

interpretation aq: bounded_channel q_good buf maxsize q_gstate putter q_woken unfinished q_init
  q_full q_put q_get q_resume_get q_abandon_get q_clear_putter q_task_done q_cancel_all
proof
  show "q_full q = (maxsize q \<le> length (buf q))" for q :: "'a aqueue" by (rule q_full_def)
  show "length (buf q) \<le> maxsize q" if "q_good q" for q :: "'a aqueue" using q_good_D(2) [OF that] .
  show "length (buf q) = maxsize q" if "q_good q" "putter q = Some WPending" for q :: "'a aqueue"
    using q_good_D(4) [OF that] .
qed (rule q_init_law q_put_law q_put_waits_law q_get_law q_get_waits_law q_resume_law
      q_resume_waits_law q_abandon_law q_abandon_keep q_clear_law q_task_done_law q_cancel_law
      q_no_lost_get; assumption)+

end
