(* ===== verification/Py_Values.thy ===== *)
theory Py_Values
  imports Prelude Complex_Main
begin

text \<open>
  The Python values the library's guards look at, the exceptions it raises and passes on,
  and the guards themselves: \<open>_require_timeout_seconds\<close>, \<open>_refuse_bare_string\<close> and the
  integer guard of \<open>core.py\<close>, \<open>_require_duration_seconds\<close> of \<open>benchmark.py\<close>, and the
  pickle/copy hook of \<open>PipelineTimeoutError\<close>.
  A finite float is the rational it denotes. Converting an \<open>int\<close> to a double is written
  out (53 significant bits, ties to even, \<open>OverflowError\<close> from \<open>2 ^ 1024\<close> on), because
  the guards depend on where that conversion fails. An error message is reduced to the name
  of the parameter it blames and, for the bare-string guard, the remedy it suggests.
\<close>

section \<open>Values and exceptions\<close>

datatype pyfloat = Fin rat | PInf | NInf | NaN

datatype pyval =
    PNone
  | PBool bool
  | PInt int
  | PFloat pyfloat
  | PStr string
  | POther string \<comment> \<open>an object of any other class, by the name of its class\<close>

datatype pmsg =
    StrayItem nat \<comment> \<open>item at index i: fn raised CancelledError\<close>
  | StrayOrigin string \<comment> \<open>an origin that is not an item: the producer\<close>
  | ReprOfCause \<comment> \<open>the repr of the wrapped exception\<close>
  | UserMsg string

datatype exc =
    CancelledError
  | TimeoutError
  | KeyboardInterrupt
  | SystemExit
  | UserBase nat \<comment> \<open>another BaseException that is not an Exception\<close>
  | UserExc nat \<comment> \<open>another Exception\<close>
  | ValueError string
  | TypeError string
  | OverflowError
  | AttributeError string
  | RuntimeError string
  | UnicodeEncodeError
  | OSError nat \<comment> \<open>by its errno\<close>
  | ToolNotFoundError string
  | PipelineError pmsg "exc option" \<comment> \<open>message and cause\<close>
  | PipelineTimeoutError nat pyfloat "nat option" \<comment> \<open>index, timeout_s, dispatch owner\<close>
  | ExcGroup "exc list"

text \<open>
  \<open>isinstance(e, Exception)\<close>. \<open>CancelledError\<close> is a \<open>BaseException\<close> only, and a group is
  an \<open>ExceptionGroup\<close> exactly when all its members are \<open>Exception\<close>s.
\<close>

fun is_Exception :: "exc \<Rightarrow> bool" where
  "is_Exception CancelledError = False"
| "is_Exception KeyboardInterrupt = False"
| "is_Exception SystemExit = False"
| "is_Exception (UserBase _) = False"
| "is_Exception (ExcGroup es) = (\<forall>e \<in> set es. is_Exception e)"
| "is_Exception _ = True"

fun is_base_error :: "exc \<Rightarrow> bool" where
  "is_base_error KeyboardInterrupt = True"
| "is_base_error SystemExit = True"
| "is_base_error _ = False"

fun is_PipelineError :: "exc \<Rightarrow> bool" where
  "is_PipelineError (PipelineError _ _) = True"
| "is_PipelineError (PipelineTimeoutError _ _ _) = True"
| "is_PipelineError _ = False"

section \<open>Converting an int to a double\<close>

fun bit_len :: "nat \<Rightarrow> nat" where
  "bit_len n = (if n = 0 then 0 else Suc (bit_len (n div 2)))"

declare bit_len.simps [simp del]

definition round_half_even :: "nat \<Rightarrow> nat \<Rightarrow> nat" where
  "round_half_even a s =
     (let d = 2 ^ s; q = a div d; r = a mod d
      in if d < 2 * r \<or> (2 * r = d \<and> odd q) then Suc q else q)"

definition double_of_nat :: "nat \<Rightarrow> nat" where
  "double_of_nat a = (let s = bit_len a - 53 in round_half_even a s * 2 ^ s)"

definition int_to_double :: "int \<Rightarrow> exc + rat" where
  "int_to_double n =
     (let m = double_of_nat (nat \<bar>n\<bar>)
      in if m < 2 ^ 1024 then Inr (of_int (sgn n * int m)) else Inl OverflowError)"

section \<open>Guards on numbers\<close>

definition isinstance_int :: "pyval \<Rightarrow> bool" where
  "isinstance_int v = (case v of PInt _ \<Rightarrow> True | PBool _ \<Rightarrow> True | _ \<Rightarrow> False)"

definition isinstance_bool :: "pyval \<Rightarrow> bool" where
  "isinstance_bool v = (case v of PBool _ \<Rightarrow> True | _ \<Rightarrow> False)"

definition isinstance_float :: "pyval \<Rightarrow> bool" where
  "isinstance_float v = (case v of PFloat _ \<Rightarrow> True | _ \<Rightarrow> False)"

definition int_value :: "pyval \<Rightarrow> int" where
  "int_value v = (case v of PInt n \<Rightarrow> n | PBool b \<Rightarrow> of_bool b | _ \<Rightarrow> 0)"

text \<open>\<open>math.isfinite\<close>: an int is converted first, so it can raise.\<close>

definition math_isfinite :: "pyval \<Rightarrow> exc + bool" where
  "math_isfinite v =
     (case v of
        PFloat (Fin _) \<Rightarrow> Inr True
      | PFloat _ \<Rightarrow> Inr False
      | PInt n \<Rightarrow> (case int_to_double n of Inl e \<Rightarrow> Inl e | Inr _ \<Rightarrow> Inr True)
      | PBool _ \<Rightarrow> Inr True
      | _ \<Rightarrow> Inl (TypeError ''must be real number''))"

text \<open>The sign tests \<open>v <= 0\<close> and \<open>v < 0.0\<close>; every comparison with NaN is false.\<close>

definition le_zero :: "pyval \<Rightarrow> bool" where
  "le_zero v = (case v of PFloat (Fin q) \<Rightarrow> q \<le> 0 | PFloat NInf \<Rightarrow> True | PFloat _ \<Rightarrow> False
                | _ \<Rightarrow> int_value v \<le> 0)"

definition lt_zero :: "pyval \<Rightarrow> bool" where
  "lt_zero v = (case v of PFloat (Fin q) \<Rightarrow> q < 0 | PFloat NInf \<Rightarrow> True | PFloat _ \<Rightarrow> False
                | _ \<Rightarrow> int_value v < 0)"

definition py_float :: "pyval \<Rightarrow> exc + pyfloat" where
  "py_float v =
     (case v of
        PFloat f \<Rightarrow> Inr f
      | PInt n \<Rightarrow> (case int_to_double n of Inl e \<Rightarrow> Inl e | Inr q \<Rightarrow> Inr (Fin q))
      | PBool b \<Rightarrow> Inr (Fin (of_bool b))
      | _ \<Rightarrow> Inl (TypeError ''float''))"

text \<open>\<open>try: finite = math.isfinite(v) except OverflowError: finite = False\<close>.\<close>

definition finite_or_false :: "pyval \<Rightarrow> exc + bool" where
  "finite_or_false v =
     (case math_isfinite v of Inl OverflowError \<Rightarrow> Inr False | r \<Rightarrow> r)"

definition require_timeout_seconds :: "pyval \<Rightarrow> exc + pyfloat option" where
  "require_timeout_seconds v =
     (if v = PNone then Inr None
      else if isinstance_bool v \<or> \<not> (isinstance_int v \<or> isinstance_float v)
        then Inl (ValueError ''timeout'')
      else (case finite_or_false v of
              Inl e \<Rightarrow> Inl e
            | Inr fin \<Rightarrow>
                if \<not> fin \<or> le_zero v then Inl (ValueError ''timeout'')
                else (case py_float v of Inl e \<Rightarrow> Inl e | Inr f \<Rightarrow> Inr (Some f))))"

definition require_duration_seconds :: "pyval \<Rightarrow> string \<Rightarrow> exc + pyfloat" where
  "require_duration_seconds v field =
     (if isinstance_bool v \<or> \<not> (isinstance_int v \<or> isinstance_float v)
        then Inl (ValueError field)
      else (case finite_or_false v of
              Inl e \<Rightarrow> Inl e
            | Inr fin \<Rightarrow>
                if \<not> fin \<or> lt_zero v then Inl (ValueError field) else py_float v))"

text \<open>
  \<open>if not isinstance(v, int) or isinstance(v, bool) or v <= 0: raise ValueError\<close>, as
  \<open>process\<close>, \<open>stream\<close> and \<open>dispatch_tool_calls\<close> check \<open>concurrency\<close> and \<open>queue_size\<close>.
\<close>

definition require_positive_int :: "string \<Rightarrow> pyval \<Rightarrow> exc + nat" where
  "require_positive_int field v =
     (if \<not> isinstance_int v \<or> isinstance_bool v \<or> int_value v \<le> 0
      then Inl (ValueError field) else Inr (nat (int_value v)))"


section \<open>What the guards accept and return\<close>

lemma bit_len_upper: "n < 2 ^ bit_len n"
proof (induction n rule: bit_len.induct)
  case (1 n)
  then show ?case by (cases "n = 0") (auto simp: bit_len.simps [of n])
qed

lemma bit_len_lower: "0 < n \<Longrightarrow> 2 ^ bit_len n \<le> 2 * n"
proof (induction n rule: bit_len.induct)
  case (1 n)
  show ?case
  proof (cases "n = 1")
    case True
    then show ?thesis by (simp add: bit_len.simps)
  next
    case False
    with 1 have "2 ^ bit_len (n div 2) \<le> 2 * (n div 2)" by auto
    with \<open>0 < n\<close> show ?thesis by (subst bit_len.simps) auto
  qed
qed

lemma bit_len_le: "a < 2 ^ k \<Longrightarrow> bit_len a \<le> k"
proof (rule ccontr)
  assume a: "a < 2 ^ k" and "\<not> bit_len a \<le> k"
  then have "k < bit_len a" by simp
  then have "(2::nat) ^ Suc k \<le> 2 ^ bit_len a" by (intro power_increasing) auto
  moreover have "0 < a" using \<open>k < bit_len a\<close> by (cases "a = 0") (auto simp: bit_len.simps)
  ultimately show False using bit_len_lower [of a] a by simp
qed

lemma bit_len_ge: "2 ^ k \<le> a \<Longrightarrow> k < bit_len a"
  using bit_len_upper [of a] by (metis le_less_trans nat_power_less_imp_less zero_less_numeral)

lemma round_half_even_bounds:
  "a div 2 ^ s \<le> round_half_even a s \<and> round_half_even a s \<le> Suc (a div 2 ^ s)"
  by (simp add: round_half_even_def Let_def)

lemma double_of_nat_exact: "a < 2 ^ 53 \<Longrightarrow> double_of_nat a = a"
  using bit_len_le [of a 53] by (simp add: double_of_nat_def round_half_even_def)

lemma double_of_nat_pos:
  assumes "0 < a"
  shows "0 < double_of_nat a"
proof (cases "a < 2 ^ 53")
  case True
  then show ?thesis using assms by (simp add: double_of_nat_exact)
next
  case False
  define s where "s = bit_len a - 53"
  have "53 < bit_len a" using False by (intro bit_len_ge) simp
  then have "2 * 2 ^ s \<le> (2::nat) ^ bit_len a"
    by (simp add: s_def flip: power_Suc)
  then have "2 ^ s \<le> a" using bit_len_lower [OF assms] by linarith
  then have "1 \<le> a div 2 ^ s" by (simp add: Suc_le_eq div_greater_zero_iff)
  then have "1 \<le> round_half_even a s" using round_half_even_bounds [of a s] by linarith
  then show ?thesis by (simp add: double_of_nat_def s_def [symmetric])
qed

text \<open>
  The conversion fails exactly from \<open>2 ^ 1024 - 2 ^ 970\<close> on: below it the rounded value
  still fits, from it on the tie rounds up to \<open>2 ^ 1024\<close>.
\<close>

lemma double_of_nat_large:
  assumes "2 ^ 1024 \<le> a"
  shows "2 ^ 1024 \<le> double_of_nat a"
proof -
  define s where "s = bit_len a - 53"
  have b: "1024 < bit_len a" using assms by (rule bit_len_ge)
  then have s: "bit_len a = s + 53" by (simp add: s_def)
  have "0 < a" using assms by (metis gr0I not_le zero_less_numeral zero_less_power)
  have "(2::nat) ^ (s + 53) \<le> 2 * a" using bit_len_lower [OF \<open>0 < a\<close>] by (simp add: s)
  then have "2 ^ 52 * 2 ^ s \<le> a" by (simp add: power_add)
  then have "2 ^ 52 \<le> a div 2 ^ s"
    by (simp add: less_eq_div_iff_mult_less_eq)
  then have "2 ^ 52 \<le> round_half_even a s" using round_half_even_bounds [of a s] by linarith
  then have "2 ^ 52 * 2 ^ s \<le> round_half_even a s * 2 ^ s" by simp
  moreover have "(2::nat) ^ 1024 \<le> 2 ^ (52 + s)" using b s by (intro power_increasing) auto
  ultimately show ?thesis
    unfolding double_of_nat_def Let_def s_def [symmetric] power_add by (rule order_trans [rotated])
qed

lemma double_of_nat_top:
  assumes a: "2 ^ 1023 \<le> a" and b: "a < 2 ^ 1024"
  shows "double_of_nat a < 2 ^ 1024 \<longleftrightarrow> a < 2 ^ 1024 - 2 ^ 970"
proof -
  let ?d = "(2::nat) ^ 971"
  have len: "bit_len a = 1024" using bit_len_ge [OF a] bit_len_le [OF b] by simp
  have dbl: "double_of_nat a = round_half_even a 971 * ?d"
    by (simp add: double_of_nat_def len)
  have top: "(2::nat) ^ 1024 = 2 ^ 53 * ?d" by (simp flip: power_add)
  have half: "?d = 2 * 2 ^ 970" by (simp flip: power_Suc)
  have q: "a div ?d \<le> 2 ^ 53 - 1"
    using b top by (metis Suc_pred' less_Suc_eq_le less_mult_imp_div_less zero_less_numeral zero_less_power)
  have split: "a = a div ?d * ?d + a mod ?d" by simp
  have r: "a mod ?d < ?d" by simp
  define k where "k = (2::nat) ^ 970"
  define q0 where "q0 = a div ?d"
  define r0 where "r0 = a mod ?d"
  have facts: "a = q0 * (2 * k) + r0" "r0 < 2 * k" "q0 \<le> 2 ^ 53 - 1"
    using split r q half by (simp_all add: k_def q0_def r0_def)
  have rnd: "round_half_even a 971 = (if 2 * k < 2 * r0 \<or> (2 * r0 = 2 * k \<and> odd q0) then Suc q0 else q0)"
    unfolding round_half_even_def Let_def half by (simp add: k_def q0_def r0_def half)
  have kp: "0 < k" by (simp add: k_def)
  have lim: "(2::nat) ^ 1024 - 2 ^ 970 = (2 ^ 54 - 1) * k"
  proof -
    have "(2::nat) ^ 1024 = 2 ^ 54 * k" by (simp add: k_def flip: power_add)
    then show ?thesis by (simp add: k_def diff_mult_distrib)
  qed
  have lhs: "double_of_nat a < 2 ^ 1024 \<longleftrightarrow> round_half_even a 971 < 2 ^ 53"
    unfolding dbl top by simp
  show ?thesis
  proof (cases "q0 = 2 ^ 53 - 1")
    case True
    then have "odd q0" by simp
    then have "round_half_even a 971 < 2 ^ 53 \<longleftrightarrow> r0 < k" using True by (auto simp: rnd)
    moreover have "a < (2 ^ 54 - 1) * k \<longleftrightarrow> r0 < k"
      using facts(1) True by (simp add: algebra_simps)
    ultimately show ?thesis using lhs lim by simp
  next
    case False
    then have "Suc q0 \<le> 2 ^ 53 - 1" using facts(3) by simp
    then have "round_half_even a 971 < 2 ^ 53" by (auto simp: rnd)
    moreover have "a < (2 ^ 54 - 1) * k"
    proof -
      have "a < Suc q0 * (2 * k)" using facts(1,2) by simp
      also have "\<dots> \<le> (2 ^ 53 - 1) * (2 * k)" using \<open>Suc q0 \<le> 2 ^ 53 - 1\<close> by (rule mult_le_mono1)
      also have "\<dots> \<le> (2 ^ 54 - 1) * k" by simp
      finally show ?thesis .
    qed
    ultimately show ?thesis using lhs lim by simp
  qed
qed

lemma double_of_nat_small:
  assumes "a < 2 ^ 1023"
  shows "double_of_nat a < 2 ^ 1024"
proof -
  define s where "s = bit_len a - 53"
  have len: "bit_len a \<le> 1023" using assms by (rule bit_len_le)
  show ?thesis
  proof (cases "a < 2 ^ 53")
    case True
    then have "double_of_nat a < 2 ^ 53" by (simp add: double_of_nat_exact)
    also have "(2::nat) ^ 53 \<le> 2 ^ 1024" by (intro power_increasing) auto
    finally show ?thesis .
  next
    case False
    then have "53 < bit_len a" by (intro bit_len_ge) simp
    then have s: "bit_len a = s + 53" by (simp add: s_def)
    have "a < 2 ^ 53 * 2 ^ s" using bit_len_upper [of a] by (simp add: s power_add mult.commute)
    then have "a div 2 ^ s < 2 ^ 53" by (rule less_mult_imp_div_less)
    then have "round_half_even a s \<le> 2 ^ 53" using round_half_even_bounds [of a s] by linarith
    then have "double_of_nat a \<le> 2 ^ 53 * 2 ^ s"
      by (simp add: double_of_nat_def s_def [symmetric])
    also have "\<dots> = 2 ^ (53 + s)" by (rule power_add [symmetric])
    also have "\<dots> \<le> 2 ^ 1023" using len s by (intro power_increasing) auto
    also have "\<dots> < (2::nat) ^ 1024" by (intro power_strict_increasing) auto
    finally show ?thesis .
  qed
qed

lemma double_of_nat_fits: "double_of_nat a < 2 ^ 1024 \<longleftrightarrow> a < 2 ^ 1024 - 2 ^ 970"
proof -
  have gap: "(2::nat) ^ 1023 \<le> 2 ^ 1024 - 2 ^ 970"
  proof -
    have "(2::nat) ^ 1024 = 2 * 2 ^ 1023" by (simp flip: power_Suc)
    moreover have "(2::nat) ^ 970 \<le> 2 ^ 1023" by (intro power_increasing) auto
    ultimately show ?thesis by linarith
  qed
  consider "a < 2 ^ 1023" | "2 ^ 1023 \<le> a" "a < 2 ^ 1024" | "2 ^ 1024 \<le> a" by linarith
  then show ?thesis
  proof cases
    case 1
    then show ?thesis using double_of_nat_small [OF 1] gap by linarith
  next
    case 2
    then show ?thesis by (rule double_of_nat_top)
  next
    case 3
    then show ?thesis using double_of_nat_large [OF 3] by linarith
  qed
qed


text \<open>The first int that \<open>float()\<close> refuses.\<close>

definition double_limit :: int where
  "double_limit = 2 ^ 1024 - 2 ^ 970"

lemma int_to_double_eq:
  "int_to_double n =
     (if \<bar>n\<bar> < double_limit then Inr (of_int (sgn n * int (double_of_nat (nat \<bar>n\<bar>))))
      else Inl OverflowError)"
proof -
  have "double_of_nat (nat \<bar>n\<bar>) < 2 ^ 1024 \<longleftrightarrow> nat \<bar>n\<bar> < 2 ^ 1024 - 2 ^ 970"
    by (rule double_of_nat_fits)
  also have "\<dots> \<longleftrightarrow> \<bar>n\<bar> < double_limit"
    by (simp add: nat_less_iff double_limit_def)
  finally show ?thesis unfolding int_to_double_def Let_def by (rule if_cong) simp_all
qed

lemma int_to_double_sgn: "int_to_double n = Inr q \<Longrightarrow> sgn q = of_int (sgn n)"
  using double_of_nat_pos [of "nat \<bar>n\<bar>"]
  by (auto simp: int_to_double_eq sgn_mult sgn_if split: if_splits)

lemma int_to_double_exact: "\<bar>n\<bar> < 2 ^ 53 \<Longrightarrow> int_to_double n = Inr (of_int n)"
proof -
  assume n: "\<bar>n\<bar> < 2 ^ 53"
  then have "nat \<bar>n\<bar> < 2 ^ 53" by (simp add: nat_less_iff)
  then have d: "double_of_nat (nat \<bar>n\<bar>) = nat \<bar>n\<bar>" by (rule double_of_nat_exact)
  have "\<bar>n\<bar> < double_limit" using n by (simp add: double_limit_def)
  moreover have "sgn n * int (nat \<bar>n\<bar>) = n" by (simp add: sgn_if)
  ultimately show ?thesis unfolding int_to_double_eq d by simp
qed

lemma finite_or_false_eq:
  "finite_or_false v =
     (case v of
        PInt n \<Rightarrow> Inr (\<bar>n\<bar> < double_limit)
      | PFloat f \<Rightarrow> Inr (case f of Fin _ \<Rightarrow> True | _ \<Rightarrow> False)
      | PBool _ \<Rightarrow> Inr True
      | _ \<Rightarrow> Inl (TypeError ''must be real number''))"
  by (cases v)
     (auto simp: finite_or_false_def math_isfinite_def int_to_double_eq split: pyfloat.splits)

text \<open>A number a guard may accept: an int that converts to a double, or a finite float.\<close>

fun finite_number :: "pyval \<Rightarrow> rat option" where
  "finite_number (PInt n) = (case int_to_double n of Inr q \<Rightarrow> Some q | Inl _ \<Rightarrow> None)"
| "finite_number (PFloat (Fin q)) = Some q"
| "finite_number _ = None"

lemmas guard_defs =
  isinstance_int_def isinstance_bool_def isinstance_float_def int_value_def
  le_zero_def lt_zero_def py_float_def

lemma int_to_double_pos_iff: "int_to_double n = Inr q \<Longrightarrow> 0 < q \<longleftrightarrow> 0 < n"
  using int_to_double_sgn [of n q] by (auto simp: sgn_if split: if_splits)

lemma int_to_double_neg_iff: "int_to_double n = Inr q \<Longrightarrow> q < 0 \<longleftrightarrow> n < 0"
  using int_to_double_sgn [of n q] by (auto simp: sgn_if split: if_splits)

lemma require_timeout_seconds_eq:
  "require_timeout_seconds v =
     (if v = PNone then Inr None
      else case finite_number v of
             Some q \<Rightarrow> if 0 < q then Inr (Some (Fin q)) else Inl (ValueError ''timeout'')
           | None \<Rightarrow> Inl (ValueError ''timeout''))"
proof (cases v)
  case (PInt n)
  then show ?thesis
    using int_to_double_pos_iff [of n]
    by (auto simp: require_timeout_seconds_def finite_or_false_eq guard_defs int_to_double_eq)
next
  case (PFloat f)
  then show ?thesis
    by (cases f) (auto simp: require_timeout_seconds_def finite_or_false_eq guard_defs)
qed (auto simp: require_timeout_seconds_def finite_or_false_eq guard_defs)

lemma require_duration_seconds_eq:
  "require_duration_seconds v field =
     (case finite_number v of
        Some q \<Rightarrow> if 0 \<le> q then Inr (Fin q) else Inl (ValueError field)
      | None \<Rightarrow> Inl (ValueError field))"
proof (cases v)
  case (PInt n)
  then show ?thesis
    using int_to_double_neg_iff [of n]
    by (auto simp: require_duration_seconds_def finite_or_false_eq guard_defs int_to_double_eq)
next
  case (PFloat f)
  then show ?thesis
    by (cases f) (auto simp: require_duration_seconds_def finite_or_false_eq guard_defs)
qed (auto simp: require_duration_seconds_def finite_or_false_eq guard_defs)

lemma require_positive_int_Inr:
  "require_positive_int field v = Inr k \<longleftrightarrow> 0 < k \<and> v = PInt (int k)"
  by (cases v) (auto simp: require_positive_int_def guard_defs)

lemma require_positive_int_PInt: "0 < k \<Longrightarrow> require_positive_int field (PInt (int k)) = Inr k"
  by (simp add: require_positive_int_Inr)

lemma require_positive_int_eq:
  "require_positive_int field v =
     (case v of PInt n \<Rightarrow> if 0 < n then Inr (nat n) else Inl (ValueError field)
      | _ \<Rightarrow> Inl (ValueError field))"
  by (cases v) (auto simp: require_positive_int_def guard_defs)

section \<open>Properties of the numeric guards\<close>

text \<open>
  \<open>_require_timeout_seconds\<close> has one exception contract: every value ends in a returned
  \<open>None\<close> or positive finite float, or in the same \<open>ValueError\<close>; no \<open>TypeError\<close>, no
  \<open>OverflowError\<close>. An int is accepted exactly from 1 up to the largest one that converts
  to a double, and comes back as that double; a bool never; a float exactly when it is
  finite and positive.
\<close>

theorem require_timeout_contract:
  "require_timeout_seconds v =
     (case v of
        PNone \<Rightarrow> Inr None
      | PInt n \<Rightarrow>
          if 1 \<le> n \<and> n < 2 ^ 1024 - 2 ^ 970
          then Inr (Some (Fin (of_nat (double_of_nat (nat n)))))
          else Inl (ValueError ''timeout'')
      | PFloat (Fin q) \<Rightarrow>
          if 0 < q then Inr (Some (Fin q)) else Inl (ValueError ''timeout'')
      | _ \<Rightarrow> Inl (ValueError ''timeout''))"
proof (cases v)
  case (PInt n)
  show ?thesis
    using PInt int_to_double_pos_iff [of n]
    unfolding double_limit_def [symmetric]
    by (auto simp: require_timeout_seconds_eq int_to_double_eq)
next
  case (PFloat f)
  then show ?thesis by (cases f) (simp_all add: require_timeout_seconds_eq)
qed (simp_all add: require_timeout_seconds_eq)

end
