(* ===== verification/Task_Cancel.thy ===== *)
theory Task_Cancel
  imports Py_Values
begin

text \<open>
  Cancellation, as \<open>core.py\<close> reads and restores it. A \<open>task\<close> is the part of an asyncio
  task the library touches: its \<open>cancelling()\<close> count, whether a requested \<open>CancelledError\<close>
  is still to be thrown at its next step, and its entry in \<open>_REARMS\<close>. Over it:
  \<open>asyncio.timeout\<close>'s exit, \<open>_CallerCancelProbe\<close>, the entry and exit of \<open>_TaskGroup\<close> on
  each interpreter, \<open>_rearm_pending_cancel\<close>, and the three classifiers
  \<open>_stray_cancellation_as_error\<close>, \<open>_raise_if_cancellation_absorbed\<close>, \<open>_deadline_escaped\<close>.
\<close>

section \<open>Interpreter versions\<close>

datatype pyver = Py311 | Py312 | Py313 | Py314

fun ver_num :: "pyver \<Rightarrow> nat" where
  "ver_num Py311 = 11"
| "ver_num Py312 = 12"
| "ver_num Py313 = 13"
| "ver_num Py314 = 14"

lemma ver_num_inject [simp]: "ver_num a = ver_num b \<longleftrightarrow> a = b"
  by (cases a; cases b) auto

instantiation pyver :: linorder
begin

definition less_eq_pyver :: "pyver \<Rightarrow> pyver \<Rightarrow> bool" where
  "less_eq_pyver a b = (ver_num a \<le> ver_num b)"

definition less_pyver :: "pyver \<Rightarrow> pyver \<Rightarrow> bool" where
  "less_pyver a b = (ver_num a < ver_num b)"

instance
  by standard (auto simp: less_eq_pyver_def less_pyver_def)

end

lemma ver_before_313: "\<not> Py313 \<le> v \<longleftrightarrow> v = Py311 \<or> v = Py312"
  by (cases v) (auto simp: less_eq_pyver_def)

section \<open>Tasks\<close>

record task =
  num_cancels :: nat
  must_cancel :: bool \<comment> \<open>a CancelledError is due at the task's next step\<close>
  rearms :: nat

text \<open>
  \<open>Task.cancel()\<close> of a task that is not done. It is due at the next step whether the task
  is running (\<open>_must_cancel\<close>) or waiting on a future (which the call cancels).
\<close>

definition task_cancel :: "task \<Rightarrow> task" where
  "task_cancel t = t\<lparr>num_cancels := Suc (num_cancels t), must_cancel := True\<rparr>"

text \<open>\<open>Task.uncancel()\<close>: from 3.13 on it also drops a due cancel when the count reaches 0.\<close>

definition task_uncancel :: "pyver \<Rightarrow> task \<Rightarrow> task" where
  "task_uncancel ver t =
     (let n = num_cancels t - 1
      in t\<lparr>num_cancels := n,
           must_cancel := (must_cancel t \<and> \<not> (Py313 \<le> ver \<and> 0 < num_cancels t \<and> n = 0))\<rparr>)"

definition task_deliver :: "task \<Rightarrow> task" where
  "task_deliver t = t\<lparr>must_cancel := False\<rparr>"

section \<open>asyncio.timeout and the per-item deadline\<close>

text \<open>
  \<open>Timeout.__aexit__\<close>: \<open>expiring\<close> says the deadline fired (and cancelled the task once),
  \<open>entry\<close> and \<open>cur\<close> are the task's \<open>cancelling()\<close> on entry and now. The result is the
  exception that leaves the \<open>async with\<close>.
\<close>

definition timeout_exit :: "bool \<Rightarrow> nat \<Rightarrow> nat \<Rightarrow> exc option \<Rightarrow> exc option" where
  "timeout_exit expiring entry cur e =
     (if expiring \<and> cur - 1 \<le> entry \<and> e = Some CancelledError then Some TimeoutError else e)"

definition deadline_escaped :: "bool \<Rightarrow> bool \<Rightarrow> bool" where
  "deadline_escaped expired stopping = (expired \<and> \<not> stopping)"

definition raise_if_cancellation_absorbed :: "bool \<Rightarrow> exc + unit" where
  "raise_if_cancellation_absorbed stopping = (if stopping then Inl CancelledError else Inr ())"

text \<open>The \<open>index\<close> or the \<open>origin\<close> the message names.\<close>

datatype blame = AtItem nat | Origin string

definition stray_cancellation_as_error :: "exc \<Rightarrow> bool \<Rightarrow> blame \<Rightarrow> exc" where
  "stray_cancellation_as_error e stopping b =
     (if e \<noteq> CancelledError \<or> stopping then e
      else case b of
             AtItem i \<Rightarrow> PipelineError (StrayItem i) (Some e)
           | Origin who \<Rightarrow> PipelineError (StrayOrigin who) (Some e))"

lemma stray_not_cancelled:
  "stray_cancellation_as_error e stopping b = CancelledError \<longleftrightarrow> e = CancelledError \<and> stopping"
  by (auto simp: stray_cancellation_as_error_def split: blame.splits)

text \<open>What awaiting \<open>fn(item)\<close> comes to: a value, or an exception.\<close>

datatype 'r outcome = Returned 'r | Raised exc

text \<open>
  How the await ended, as the environment decides it: the outcome of \<open>fn\<close>, whether the
  per-item deadline fired meanwhile, the task's \<open>cancelling()\<close> count where the deadline was
  entered, and how far \<open>fn\<close> itself left it raised.
\<close>

record 'r fn_end =
  fn_outcome :: "'r outcome"
  fn_fired :: bool
  fn_entry :: nat
  fn_leak :: nat

text \<open>
  \<open>async with asyncio.timeout(timeout) as cm: await fn(item)\<close> and its two handlers, the
  same in \<open>process\<close>, \<open>stream\<close> and \<open>dispatch_tool_calls\<close> but for the owner the dispatcher
  stamps on its own deadline errors. \<open>creq\<close> is a cancel request of the group on the task.
\<close>

definition timed_await ::
    "pyfloat option \<Rightarrow> nat \<Rightarrow> nat option \<Rightarrow> bool \<Rightarrow> bool \<Rightarrow> 'r fn_end \<Rightarrow> 'r outcome" where
  "timed_await timeout idx owner stopping creq f =
     (case timeout of
        None \<Rightarrow> fn_outcome f
      | Some t \<Rightarrow>
          (let cur = fn_entry f + fn_leak f + of_bool (fn_fired f) + of_bool creq
           in case fn_outcome f of
                Returned v \<Rightarrow> Returned v
              | Raised e \<Rightarrow>
                  (case timeout_exit (fn_fired f) (fn_entry f) cur (Some e) of
                     Some TimeoutError \<Rightarrow>
                       if fn_fired f then Raised (PipelineTimeoutError idx t owner)
                       else Raised TimeoutError
                   | Some CancelledError \<Rightarrow>
                       if deadline_escaped (fn_fired f) stopping
                       then Raised (PipelineTimeoutError idx t owner)
                       else Raised CancelledError
                   | Some e' \<Rightarrow> Raised e'
                   | None \<Rightarrow> Raised e)))"

lemma timed_await_Returned:
  "fn_outcome f = Returned v \<Longrightarrow> timed_await timeout idx owner stopping creq f = Returned v"
  by (simp add: timed_await_def split: option.splits)

lemma timed_await_Raised:
  assumes "fn_outcome f = Raised e"
  shows "timed_await timeout idx owner stopping creq f =
    (case timeout of
       None \<Rightarrow> Raised e
     | Some t \<Rightarrow>
         if fn_fired f \<and> (e = TimeoutError \<or>
              e = CancelledError \<and> (\<not> stopping \<or> \<not> creq \<and> fn_leak f = 0))
         then Raised (PipelineTimeoutError idx t owner) else Raised e)"
proof (cases timeout)
  case (Some t)
  have "fn_entry f + fn_leak f + of_bool (fn_fired f) + of_bool creq - 1 \<le> fn_entry f
      \<longleftrightarrow> \<not> creq \<and> fn_leak f = 0" if "fn_fired f"
    using that by auto
  then show ?thesis using assms Some
    by (cases e) (auto simp: timed_await_def timeout_exit_def deadline_escaped_def Let_def)
qed (simp add: timed_await_def assms)

section \<open>The caller's cancellation\<close>

record probe =
  baseline :: nat
  pending :: bool
  rearms_at_entry :: nat

definition probe_init :: "task \<Rightarrow> probe" where
  "probe_init t =
     \<lparr>baseline = num_cancels t, pending = must_cancel t, rearms_at_entry = rearms t\<rparr>"

definition brought_in_a_live_cancel :: "probe \<Rightarrow> task \<Rightarrow> bool" where
  "brought_in_a_live_cancel p t = (pending p \<or> rearms t \<noteq> rearms_at_entry p)"

definition probe_cancelled :: "probe \<Rightarrow> task \<Rightarrow> bool" where
  "probe_cancelled p t = (brought_in_a_live_cancel p t \<or> baseline p < num_cancels t)"

text \<open>
  \<open>_rearm_pending_cancel\<close>, one loop step after a failed group has exited. \<open>parent_done\<close>
  says the parent task has finished by then. The lowered baseline is an int: Python's
  \<open>entry_cancelling -= 1\<close> does not stop at 0.
\<close>

definition rearm_pending_cancel :: "pyver \<Rightarrow> bool \<Rightarrow> nat \<Rightarrow> probe \<Rightarrow> task \<Rightarrow> task" where
  "rearm_pending_cancel ver parent_done entry_cancelling entry_probe t =
     (let entry = int entry_cancelling - of_bool (brought_in_a_live_cancel entry_probe t)
      in if \<not> parent_done \<and> entry < int (num_cancels t)
         then (task_cancel (task_uncancel ver t))\<lparr>rearms := Suc (rearms t)\<rparr>
         else t)"

lemmas task_defs = task_cancel_def task_uncancel_def task_deliver_def
lemmas probe_defs = probe_init_def probe_cancelled_def brought_in_a_live_cancel_def

lemma task_cancel_simps [simp]:
  "num_cancels (task_cancel t) = Suc (num_cancels t)"
  "must_cancel (task_cancel t)"
  "rearms (task_cancel t) = rearms t"
  by (simp_all add: task_cancel_def)

lemma task_uncancel_simps [simp]:
  "num_cancels (task_uncancel ver t) = num_cancels t - 1"
  "rearms (task_uncancel ver t) = rearms t"
  by (simp_all add: task_uncancel_def Let_def)

lemma task_deliver_simps [simp]:
  "num_cancels (task_deliver t) = num_cancels t"
  "\<not> must_cancel (task_deliver t)"
  "rearms (task_deliver t) = rearms t"
  by (simp_all add: task_deliver_def)

lemma probe_cancelled_cancel [simp]:
  "probe_cancelled p t \<Longrightarrow> probe_cancelled p (task_cancel t)"
  by (auto simp: probe_defs)

lemma probe_cancelled_deliver [simp]:
  "probe_cancelled p (task_deliver t) = probe_cancelled p t"
  by (auto simp: probe_defs)

lemma probe_init_cancelled [simp]:
  "probe_cancelled (probe_init t) t = must_cancel t"
  by (simp add: probe_defs)

section \<open>Properties\<close>

text \<open>
  What a failing \<open>fn\<close> is reported as, under a deadline: \<open>PipelineTimeoutError\<close> exactly
  when the deadline itself fired and either \<open>fn\<close> let a \<open>TimeoutError\<close> out or it let out the
  deadline's cancellation with the pipeline not stopping (or with no other cancel standing);
  \<open>fn\<close>'s own \<open>TimeoutError\<close>, and every exception under \<open>timeout=None\<close>, passes unchanged.
  After \<open>_stray_cancellation_as_error\<close> a \<open>CancelledError\<close> is left only when the pipeline
  is stopping.
\<close>

theorem deadline_attribution:
  "(case timed_await timeout idx owner stopping creq
           \<lparr>fn_outcome = Raised e, fn_fired = fired, fn_entry = c, fn_leak = leak\<rparr> of
      Returned v \<Rightarrow> None
    | Raised e' \<Rightarrow> Some (stray_cancellation_as_error e' stopping (AtItem idx))) =
   Some (case timeout of
      None \<Rightarrow>
        if e = CancelledError \<and> \<not> stopping
        then PipelineError (StrayItem idx) (Some CancelledError) else e
    | Some t \<Rightarrow>
        if fired \<and> e = TimeoutError then PipelineTimeoutError idx t owner
        else if fired \<and> e = CancelledError \<and> (if stopping then \<not> creq \<and> leak = 0 else True)
        then PipelineTimeoutError idx t owner
        else if e = CancelledError \<and> \<not> stopping
        then PipelineError (StrayItem idx) (Some CancelledError) else e)"
  by (auto simp: timed_await_Raised stray_cancellation_as_error_def split: option.splits)

end
