(* ===== verification/Task_Group.thy ===== *)
theory Task_Group
  imports Task_Cancel
begin

text \<open>
  \<open>asyncio.TaskGroup\<close> as the library's \<open>_TaskGroup\<close> subclass uses it: the bookkeeping of a
  child's end (\<open>_on_task_done\<close>), the parent's wait in \<open>__aexit__\<close>, and its exit, on 3.11/3.12
  (where the subclass corrects the caller's cancel count and schedules
  \<open>_rearm_pending_cancel\<close>) and on 3.13 and later (where it leaves both to the base class).
  The children themselves belong to the machines that own the group; an operation that
  aborts says so, and the machine cancels its children.
\<close>

datatype task_end = EndNormal | EndCancelled | EndFailed exc

record group =
  aborting :: bool
  parent_cancel_requested :: bool
  requested_before :: bool
  errors :: "exc list"
  base_error :: "exc option"
  propagate :: bool \<comment> \<open>propagate_cancellation_error is set\<close>
  entry_cancelling :: nat
  entry_probe :: probe

text \<open>\<open>_TaskGroup.__aenter__\<close>.\<close>

definition group_enter :: "task \<Rightarrow> group" where
  "group_enter t =
     \<lparr>aborting = False, parent_cancel_requested = False, requested_before = False, errors = [],
      base_error = None, propagate = False, entry_cancelling = num_cancels t,
      entry_probe = probe_init t\<rparr>"

text \<open>
  The top of \<open>__aexit__\<close> after a body that did not raise: on 3.11/3.12 the subclass notes
  whether the group had already cancelled its parent, and the base class undoes that request.
\<close>

definition group_begin_exit :: "pyver \<Rightarrow> group \<Rightarrow> task \<Rightarrow> group \<times> task" where
  "group_begin_exit ver g t =
     (if Py313 \<le> ver then (g, t)
      else (g\<lparr>requested_before := parent_cancel_requested g\<rparr>,
            if parent_cancel_requested g then task_uncancel ver t else t))"

text \<open>
  \<open>_on_task_done\<close>: a child that failed is recorded, and the first one aborts the group and
  cancels the parent to wake it. The flag says the children are to be cancelled now.
\<close>

definition group_task_done :: "task_end \<Rightarrow> group \<Rightarrow> task \<Rightarrow> group \<times> task \<times> bool" where
  "group_task_done x g t =
     (case x of
        EndNormal \<Rightarrow> (g, t, False)
      | EndCancelled \<Rightarrow> (g, t, False)
      | EndFailed e \<Rightarrow>
          (let g1 = g\<lparr>errors := errors g @ [e],
                      base_error := (if is_base_error e \<and> base_error g = None then Some e
                                     else base_error g)\<rparr>
           in if \<not> aborting g \<and> \<not> parent_cancel_requested g
              then (g1\<lparr>aborting := True, parent_cancel_requested := True\<rparr>, task_cancel t, True)
              else (g1, t, False)))"

text \<open>
  The parent wakes in the wait loop of \<open>__aexit__\<close>. A due cancel is delivered; if the group
  was not aborting yet it aborts now and remembers to propagate the cancellation.
\<close>

definition group_parent_wake :: "group \<Rightarrow> task \<Rightarrow> group \<times> task \<times> bool" where
  "group_parent_wake g t =
     (if must_cancel t
      then (if aborting g then (g, task_deliver t, False)
            else (g\<lparr>aborting := True, propagate := True\<rparr>, task_deliver t, True))
      else (g, t, False))"

text \<open>
  The end of \<open>__aexit__\<close>, when no child is left: what it raises (\<open>None\<close>: nothing), the
  caller's task, and whether \<open>_rearm_pending_cancel\<close> has been scheduled.
\<close>

definition group_exit_old :: "pyver \<Rightarrow> group \<Rightarrow> task \<Rightarrow> exc option \<times> task \<times> bool" where
  "group_exit_old ver g t =
     (case base_error g of
        Some e \<Rightarrow> (Some e, t, False)
      | None \<Rightarrow>
          if propagate g \<and> errors g = [] then (Some CancelledError, t, False)
          else if errors g \<noteq> []
          then (Some (ExcGroup (errors g)),
                if parent_cancel_requested g \<and> \<not> requested_before g
                then task_uncancel ver t else t, True)
          else (None, t, False))"

definition group_exit_313 :: "pyver \<Rightarrow> group \<Rightarrow> task \<Rightarrow> exc option \<times> task \<times> bool" where
  "group_exit_313 ver g t =
     (case base_error g of
        Some e \<Rightarrow> (Some e, t, False)
      | None \<Rightarrow>
          (let t1 = (if parent_cancel_requested g then task_uncancel ver t else t);
               prop = (propagate g \<and> \<not> (parent_cancel_requested g \<and> num_cancels t1 = 0))
           in if prop \<and> errors g = [] then (Some CancelledError, t1, False)
              else if errors g \<noteq> []
              then (Some (ExcGroup (errors g)),
                    if 0 < num_cancels t1 then task_cancel (task_uncancel ver t1) else t1, False)
              else (None, t1, False)))"

definition group_exit :: "pyver \<Rightarrow> group \<Rightarrow> task \<Rightarrow> exc option \<times> task \<times> bool" where
  "group_exit ver g t =
     (if Py313 \<le> ver then group_exit_313 ver g t else group_exit_old ver g t)"

text \<open>The loop step after the exit, where a scheduled \<open>_rearm_pending_cancel\<close> runs.\<close>

definition group_after_exit :: "pyver \<Rightarrow> bool \<Rightarrow> group \<Rightarrow> task \<Rightarrow> bool \<Rightarrow> task" where
  "group_after_exit ver parent_done g t scheduled =
     (if scheduled
      then rearm_pending_cancel ver parent_done (entry_cancelling g) (entry_probe g) t else t)"

end
