(* ===== verification/Fanout.thy ===== *)
theory Fanout
  imports Semaphore Task_Group
begin

text \<open>
  The fan-out that \<open>process\<close> and \<open>dispatch_tool_calls\<close> share: one task per item in a
  \<open>_TaskGroup\<close>, each waiting for a slot of an optional semaphore, checking the \<open>failed\<close> latch,
  awaiting the caller's function, and storing a result or latching and propagating a failure.
  What an ended await means is the parameter \<open>handler\<close> (each client's own \<open>except\<close> chain).

  Tasks interleave at their awaits, so a state changes by events: a task's first step, its
  wake-up from the semaphore, the end of its await (with any outcome: the environment's
  choice), the group's done callback, a step of the waiting caller, an external cancel of the
  caller. The order of events is not fixed, which covers every schedule of the event loop.
\<close>

section \<open>The machine\<close>

datatype pc = Created | Queued | InFn | Ended task_end | Reaped task_end

record ('i, 'r) fan =
  pcs :: "pc list"
  creq :: "bool list" \<comment> \<open>the group has cancelled this task\<close>
  sem :: "semaphore option"
  slots :: "'r option list" \<comment> \<open>the results list, \<open>[None] * n\<close> at first\<close>
  failed :: bool
  grp :: group
  caller :: task
  caller_probe :: probe
  calls :: "(nat \<times> 'i) list" \<comment> \<open>the calls of the function so far, with their items\<close>
  final :: "exc option option" \<comment> \<open>how the group was left: normally or by an exception\<close>
  rearm_due :: bool

datatype 'r completion = Store 'r | Propagate exc

datatype 'v fevent =
    EStart nat
  | EWake nat
  | EFn nat "'v fn_end"
  | EDone nat
  | EParent
  | ERearm
  | ECancel
  | ERearmOther \<comment> \<open>a re-arm that an earlier group of the caller deferred\<close>

fun external :: "'v fevent \<Rightarrow> bool" where
  "external ECancel = True"
| "external ERearmOther = True"
| "external _ = False"

definition fan_init :: "pyver \<Rightarrow> 'i list \<Rightarrow> nat option \<Rightarrow> task \<Rightarrow> ('i, 'r) fan" where
  "fan_init ver items k t =
     (let (g, t') = group_begin_exit ver (group_enter t) t; n = length items
      in \<lparr>pcs = replicate n Created, creq = replicate n False, sem = map_option sem_init k,
          slots = replicate n None, failed = False, grp = g, caller = t',
          caller_probe = probe_init t, calls = [], final = None, rearm_due = False\<rparr>)"

definition fan_stopping :: "('i, 'r) fan \<Rightarrow> bool" where
  "fan_stopping s = (failed s \<or> probe_cancelled (caller_probe s) (caller s))"

definition fan_end :: "nat \<Rightarrow> task_end \<Rightarrow> ('i, 'r) fan \<Rightarrow> ('i, 'r) fan" where
  "fan_end i x s = s\<lparr>pcs := (pcs s)[i := Ended x]\<rparr>"

definition fan_release :: "('i, 'r) fan \<Rightarrow> ('i, 'r) fan" where
  "fan_release s = s\<lparr>sem := map_option sem_release (sem s)\<rparr>"

text \<open>Inside \<open>async with sem\<close>: \<open>if failed: return\<close>, else the call.\<close>

definition fan_enter :: "'i list \<Rightarrow> nat \<Rightarrow> ('i, 'r) fan \<Rightarrow> ('i, 'r) fan" where
  "fan_enter items i s =
     (if failed s then fan_end i EndNormal (fan_release s)
      else s\<lparr>pcs := (pcs s)[i := InFn], calls := calls s @ [(i, items ! i)]\<rparr>)"

text \<open>\<open>TaskGroup._abort\<close>: every child that is not done is cancelled.\<close>

fun live :: "pc \<Rightarrow> bool" where
  "live (Ended _) = False"
| "live (Reaped _) = False"
| "live _ = True"

definition fan_abort :: "('i, 'r) fan \<Rightarrow> ('i, 'r) fan" where
  "fan_abort s =
     s\<lparr>creq := map2 (\<lambda>p c. c \<or> live p) (pcs s) (creq s), sem := map_option sem_cancel_all (sem s)\<rparr>"

definition fan_group :: "group \<times> task \<times> bool \<Rightarrow> ('i, 'r) fan \<Rightarrow> ('i, 'r) fan" where
  "fan_group r s =
     (case r of (g, t, ab) \<Rightarrow>
        let s' = s\<lparr>grp := g, caller := t\<rparr> in if ab then fan_abort s' else s')"

definition fan_start :: "'i list \<Rightarrow> nat \<Rightarrow> ('i, 'r) fan \<Rightarrow> ('i, 'r) fan" where
  "fan_start items i s =
     (if creq s ! i then fan_end i EndCancelled s
      else case sem s of
             None \<Rightarrow> fan_enter items i s
           | Some m \<Rightarrow>
               if sem_locked m
               then s\<lparr>sem := Some (sem_enqueue i m), pcs := (pcs s)[i := Queued]\<rparr>
               else fan_enter items i (s\<lparr>sem := Some (sem_take m)\<rparr>))"

definition fan_wake :: "'i list \<Rightarrow> nat \<Rightarrow> ('i, 'r) fan \<Rightarrow> ('i, 'r) fan" where
  "fan_wake items i s =
     (if creq s ! i
      then fan_end i EndCancelled (s\<lparr>sem := map_option (sem_abandon i) (sem s)\<rparr>)
      else fan_enter items i (s\<lparr>sem := map_option (sem_resume i) (sem s)\<rparr>))"

definition fan_fn :: "'r completion \<Rightarrow> nat \<Rightarrow> ('i, 'r) fan \<Rightarrow> ('i, 'r) fan" where
  "fan_fn c i s =
     (case c of
        Store r \<Rightarrow> fan_end i EndNormal (fan_release (s\<lparr>slots := (slots s)[i := Some r]\<rparr>))
      | Propagate e \<Rightarrow>
          fan_end i (if e = CancelledError then EndCancelled else EndFailed e)
            (fan_release (s\<lparr>failed := True\<rparr>)))"

definition fan_done :: "nat \<Rightarrow> ('i, 'r) fan \<Rightarrow> ('i, 'r) fan" where
  "fan_done i s =
     (case pcs s ! i of
        Ended x \<Rightarrow> fan_group (group_task_done x (grp s) (caller s)) (s\<lparr>pcs := (pcs s)[i := Reaped x]\<rparr>)
      | _ \<Rightarrow> s)"

definition all_reaped :: "('i, 'r) fan \<Rightarrow> bool" where
  "all_reaped s = list_all (\<lambda>p. case p of Reaped _ \<Rightarrow> True | _ \<Rightarrow> False) (pcs s)"

text \<open>The caller in \<open>__aexit__\<close>: it wakes, and leaves the group once no child is left.\<close>

definition fan_parent :: "pyver \<Rightarrow> ('i, 'r) fan \<Rightarrow> ('i, 'r) fan" where
  "fan_parent ver s =
     (let s' = fan_group (group_parent_wake (grp s) (caller s)) s
      in if all_reaped s'
         then (case group_exit ver (grp s') (caller s') of (r, t, due) \<Rightarrow>
                 s'\<lparr>caller := t, final := Some r, rearm_due := due\<rparr>)
         else s')"

text \<open>
  When each event can happen. \<open>ERearmOther\<close> was scheduled before any task of this group, so
  it runs before a failed task makes the group cancel its parent.
\<close>

fun fan_enabled :: "pyver \<Rightarrow> ('i, 'r) fan \<Rightarrow> 'v fevent \<Rightarrow> bool" where
  "fan_enabled ver s (EStart i) = (i < length (pcs s) \<and> pcs s ! i = Created)"
| "fan_enabled ver s (EWake i) =
     (i < length (pcs s) \<and> pcs s ! i = Queued \<and>
      (case sem s of None \<Rightarrow> False
       | Some m \<Rightarrow>
           sem_state m i = Some WGranted \<or> sem_state m i = Some WCancelled \<and> creq s ! i))"
| "fan_enabled ver s (EFn i f) = (i < length (pcs s) \<and> pcs s ! i = InFn)"
| "fan_enabled ver s (EDone i) =
     (i < length (pcs s) \<and> final s = None \<and> (case pcs s ! i of Ended _ \<Rightarrow> True | _ \<Rightarrow> False))"
| "fan_enabled ver s EParent = (final s = None \<and> (must_cancel (caller s) \<or> all_reaped s))"
| "fan_enabled ver s ERearm = rearm_due s"
| "fan_enabled ver s ECancel = (final s = None)"
| "fan_enabled ver s ERearmOther =
     (final s = None \<and> \<not> Py313 \<le> ver \<and> \<not> parent_cancel_requested (grp s) \<and>
      0 < num_cancels (caller s))"

fun fan_do :: "pyver \<Rightarrow> 'i list \<Rightarrow> (nat \<Rightarrow> bool \<Rightarrow> bool \<Rightarrow> 'v fn_end \<Rightarrow> 'r completion) \<Rightarrow>
    ('i, 'r) fan \<Rightarrow> 'v fevent \<Rightarrow> ('i, 'r) fan" where
  "fan_do ver items handler s (EStart i) = fan_start items i s"
| "fan_do ver items handler s (EWake i) = fan_wake items i s"
| "fan_do ver items handler s (EFn i f) =
     fan_fn (handler i (fan_stopping s) (creq s ! i) f) i s"
| "fan_do ver items handler s (EDone i) = fan_done i s"
| "fan_do ver items handler s EParent = fan_parent ver s"
| "fan_do ver items handler s ERearm =
     s\<lparr>caller := rearm_pending_cancel ver False (entry_cancelling (grp s)) (entry_probe (grp s))
                  (caller s), rearm_due := False\<rparr>"
| "fan_do ver items handler s ECancel = s\<lparr>caller := task_cancel (caller s)\<rparr>"
| "fan_do ver items handler s ERearmOther =
     s\<lparr>caller := (task_cancel (task_uncancel ver (caller s)))
                   \<lparr>rearms := Suc (rearms (caller s))\<rparr>\<rparr>"

definition fan_step :: "pyver \<Rightarrow> 'i list \<Rightarrow> (nat \<Rightarrow> bool \<Rightarrow> bool \<Rightarrow> 'v fn_end \<Rightarrow> 'r completion) \<Rightarrow>
    ('i, 'r) fan \<Rightarrow> 'v fevent \<Rightarrow> ('i, 'r) fan option" where
  "fan_step ver items handler s e =
     (if fan_enabled ver s e then Some (fan_do ver items handler s e) else None)"

end
