(* ===== verification/Fanout_Inv.thy ===== *)
theory Fanout_Inv
  imports Fanout
begin

text \<open>
  The invariants of the fan-out machine and what follows from them for any client: the slot
  budget, the call log, which task ends go with which results, how the group's state mirrors
  its children, and why a stopping pipeline cannot return normally. Everything is proved once,
  in the locale \<open>fan_handler\<close>, for every handler that lets a \<open>CancelledError\<close> out only while
  the pipeline is stopping.
\<close>

section \<open>Invariants\<close>

fun end_of :: "pc \<Rightarrow> task_end option" where
  "end_of (Ended x) = Some x"
| "end_of (Reaped x) = Some x"
| "end_of _ = None"

lemma end_of_None: "end_of p = None \<longleftrightarrow> live p"
  by (cases p) auto

text \<open>
  Each invariant is stated on the fields it is about, so that a step changes few of them.
  \<open>inv_sem\<close>: the slots not free are exactly those of the tasks awaiting the function.
\<close>

definition inv_sem :: "nat option \<Rightarrow> semaphore option \<Rightarrow> pc list \<Rightarrow> bool list \<Rightarrow> bool" where
  "inv_sem k sm ps cs \<longleftrightarrow>
     (case (k, sm) of
        (None, None) \<Rightarrow> Queued \<notin> set ps
      | (Some k, Some m) \<Rightarrow>
          sem_good m \<and> sem_free m + cnt (\<lambda>p. p = InFn) ps = k \<and>
          dom (sem_state m) = {i. i < length ps \<and> ps ! i = Queued} \<and>
          (\<forall>i. sem_state m i = Some WPending \<longrightarrow> \<not> cs ! i) \<and>
          (\<forall>i. sem_state m i = Some WCancelled \<longrightarrow> cs ! i)
      | _ \<Rightarrow> False)"

text \<open>One task: its program counter, its slot and its calls, under the latch and the group.\<close>

definition slot_ok :: "pc \<Rightarrow> 'r option \<Rightarrow> bool \<Rightarrow> bool \<Rightarrow> bool" where
  "slot_ok p v latch ab \<longleftrightarrow>
     (v \<noteq> None \<longrightarrow> end_of p = Some EndNormal) \<and>
     (end_of p = Some EndNormal \<longrightarrow> v = None \<longrightarrow> latch) \<and>
     (\<forall>e. end_of p = Some (EndFailed e) \<longrightarrow> latch \<and> e \<noteq> CancelledError) \<and>
     (end_of p = Some EndCancelled \<longrightarrow> latch \<or> ab)"

definition creq_ok :: "pc \<Rightarrow> bool \<Rightarrow> bool \<Rightarrow> bool" where
  "creq_ok p c ab \<longleftrightarrow> (c \<longrightarrow> ab) \<and> (ab \<longrightarrow> live p \<longrightarrow> c)"

definition inv_tasks :: "pc list \<Rightarrow> 'r option list \<Rightarrow> bool list \<Rightarrow> bool \<Rightarrow> bool \<Rightarrow> bool" where
  "inv_tasks ps vs cs latch ab \<longleftrightarrow>
     length vs = length ps \<and> length cs = length ps \<and>
     (\<forall>i < length ps. slot_ok (ps ! i) (vs ! i) latch ab \<and> creq_ok (ps ! i) (cs ! i) ab)"

definition inv_calls :: "'i list \<Rightarrow> (nat \<times> 'i) list \<Rightarrow> pc list \<Rightarrow> 'r option list \<Rightarrow> bool" where
  "inv_calls items cl ps vs \<longleftrightarrow>
     length ps = length items \<and> distinct (map fst cl) \<and>
     (\<forall>c \<in> set cl. fst c < length ps \<and> snd c = items ! fst c \<and>
        ps ! fst c \<noteq> Created \<and> ps ! fst c \<noteq> Queued) \<and>
     (\<forall>i < length ps. ps ! i = InFn \<or> vs ! i \<noteq> None \<longrightarrow> i \<in> fst ` set cl)"

definition group_ok :: "group \<Rightarrow> bool" where
  "group_ok g \<longleftrightarrow>
     (errors g \<noteq> [] \<longrightarrow> aborting g) \<and>
     (aborting g \<longrightarrow> propagate g \<or> errors g \<noteq> []) \<and>
     (parent_cancel_requested g \<longrightarrow> errors g \<noteq> []) \<and>
     (propagate g \<longrightarrow> aborting g) \<and>
     \<not> requested_before g \<and>
     (\<forall>e. base_error g = Some e \<longrightarrow> e \<in> set (errors g) \<and> is_base_error e)"

definition inv_group :: "group \<Rightarrow> pc list \<Rightarrow> bool" where
  "inv_group g ps \<longleftrightarrow> group_ok g \<and> set (errors g) = {e. Reaped (EndFailed e) \<in> set ps}"

text \<open>The cause of a stop is always on record, so that leaving the group reports it.\<close>

definition stop_cause :: "group \<Rightarrow> task \<Rightarrow> bool" where
  "stop_cause g t \<longleftrightarrow> must_cancel t \<or> propagate g \<or> errors g \<noteq> []"

definition inv_cause :: "bool \<Rightarrow> bool \<Rightarrow> group \<Rightarrow> task \<Rightarrow> pc list \<Rightarrow> bool" where
  "inv_cause latch pcancel g t ps \<longleftrightarrow>
     (latch \<longrightarrow> stop_cause g t \<or> (\<exists>e. Ended (EndFailed e) \<in> set ps)) \<and>
     (pcancel \<longrightarrow> stop_cause g t)"

definition inv_final ::
    "exc option option \<Rightarrow> bool \<Rightarrow> bool \<Rightarrow> bool \<Rightarrow> group \<Rightarrow> pc list \<Rightarrow> bool" where
  "inv_final fin due latch pcancel g ps \<longleftrightarrow>
     (case fin of
        None \<Rightarrow> \<not> due
      | Some r \<Rightarrow> list_all (\<lambda>p. case p of Reaped _ \<Rightarrow> True | _ \<Rightarrow> False) ps \<and>
          (case r of
             None \<Rightarrow> errors g = [] \<and> \<not> aborting g \<and> \<not> latch \<and> \<not> pcancel \<and> \<not> due
           | Some e \<Rightarrow> e = CancelledError \<and> propagate g \<and> errors g = [] \<or>
                       e = ExcGroup (errors g) \<and> errors g \<noteq> [] \<or>
                       base_error g = Some e))"

definition fan_inv :: "'i list \<Rightarrow> nat option \<Rightarrow> ('i, 'r) fan \<Rightarrow> bool" where
  "fan_inv items k s \<longleftrightarrow>
     inv_sem k (sem s) (pcs s) (creq s) \<and>
     inv_tasks (pcs s) (slots s) (creq s) (failed s) (aborting (grp s)) \<and>
     inv_calls items (calls s) (pcs s) (slots s) \<and>
     inv_group (grp s) (pcs s) \<and>
     (final s = None \<longrightarrow> inv_cause (failed s) (probe_cancelled (caller_probe s) (caller s))
                          (grp s) (caller s) (pcs s)) \<and>
     inv_final (final s) (rearm_due s) (failed s) (probe_cancelled (caller_probe s) (caller s))
       (grp s) (pcs s)"

lemma fan_invD:
  assumes "fan_inv items k s"
  shows "inv_sem k (sem s) (pcs s) (creq s)"
    "inv_tasks (pcs s) (slots s) (creq s) (failed s) (aborting (grp s))"
    "inv_calls items (calls s) (pcs s) (slots s)"
    "inv_group (grp s) (pcs s)"
    "final s = None \<Longrightarrow> inv_cause (failed s) (probe_cancelled (caller_probe s) (caller s))
                          (grp s) (caller s) (pcs s)"
    "inv_final (final s) (rearm_due s) (failed s) (probe_cancelled (caller_probe s) (caller s))
       (grp s) (pcs s)"
  using assms by (simp_all add: fan_inv_def)

lemma fan_init_inv: "fan_inv items k (fan_init ver items k t)"
proof -
  have "group_begin_exit ver (group_enter t) t = (group_enter t, t)"
    by (simp add: group_begin_exit_def group_enter_def)
  then show ?thesis
    by (auto simp: fan_inv_def inv_sem_def inv_tasks_def slot_ok_def creq_ok_def inv_calls_def
          inv_group_def group_ok_def inv_cause_def inv_final_def fan_init_def group_enter_def stop_cause_def
          asem.init Let_def split: option.splits)
qed

section \<open>How one task's step changes each invariant\<close>

lemma inv_sem_idle:
  "inv_sem k sm ps cs \<Longrightarrow> i < length ps \<Longrightarrow> ps ! i \<noteq> Queued \<Longrightarrow> ps ! i \<noteq> InFn \<Longrightarrow>
     q \<noteq> Queued \<Longrightarrow> q \<noteq> InFn \<Longrightarrow> inv_sem k sm (ps[i := q]) cs"
  by (auto simp: inv_sem_def cnt_update_same nth_list_update dest: set_update_subset_insert [THEN subsetD]
        split: option.splits)

lemma inv_sem_None:
  "inv_sem None sm ps cs \<Longrightarrow> q \<noteq> Queued \<Longrightarrow> inv_sem None sm (ps[i := q]) cs"
  by (auto simp: inv_sem_def dest: set_update_subset_insert [THEN subsetD] split: option.splits)

lemma queued_update:
  "i < length ps \<Longrightarrow> q \<noteq> Queued \<Longrightarrow>
     {j. j < length (ps[i := q]) \<and> ps[i := q] ! j = Queued} = {j. j < length ps \<and> ps ! j = Queued} - {i}"
  by (auto simp: nth_list_update)

lemma inv_sem_take:
  assumes "inv_sem (Some k) (Some m) ps cs" and "\<not> sem_locked m"
    and "i < length ps" and "ps ! i = Created"
  shows "inv_sem (Some k) (Some (sem_take m)) (ps[i := InFn]) cs"
proof -
  have m: "sem_good m" "sem_free m + cnt (\<lambda>p. p = InFn) ps = k"
    "dom (sem_state m) = {i. i < length ps \<and> ps ! i = Queued}"
    "\<forall>i. sem_state m i = Some WPending \<longrightarrow> \<not> cs ! i"
    "\<forall>i. sem_state m i = Some WCancelled \<longrightarrow> cs ! i"
    using assms(1) by (auto simp: inv_sem_def)
  note t = asem.take [OF m(1) assms(2)]
  have "cnt (\<lambda>p. p = InFn) (ps[i := InFn]) = Suc (cnt (\<lambda>p. p = InFn) ps)"
    using assms by (intro cnt_update_in) auto
  moreover have "{j. j < length ps \<and> ps[i := InFn] ! j = Queued} = {j. j < length ps \<and> ps ! j = Queued}"
    using assms by (auto simp: nth_list_update)
  ultimately show ?thesis
    using t m assms by (auto simp: inv_sem_def)
qed

lemma inv_sem_enqueue:
  assumes "inv_sem (Some k) (Some m) ps cs" and "sem_locked m"
    and "i < length ps" and "ps ! i = Created" and "\<not> cs ! i"
  shows "inv_sem (Some k) (Some (sem_enqueue i m)) (ps[i := Queued]) cs"
proof -
  have m: "sem_good m" "sem_free m + cnt (\<lambda>p. p = InFn) ps = k"
    "dom (sem_state m) = {i. i < length ps \<and> ps ! i = Queued}"
    "\<forall>i. sem_state m i = Some WPending \<longrightarrow> \<not> cs ! i"
    "\<forall>i. sem_state m i = Some WCancelled \<longrightarrow> cs ! i"
    using assms(1) by (auto simp: inv_sem_def)
  have "i \<notin> dom (sem_state m)" using m(3) assms(4) by simp
  then have t: "sem_good (sem_enqueue i m) \<and> sem_free (sem_enqueue i m) = sem_free m \<and>
      sem_state (sem_enqueue i m) = (sem_state m)(i \<mapsto> WPending)"
    using asem.enqueue [OF m(1) assms(2)] by (simp add: domIff)
  have "cnt (\<lambda>p. p = InFn) (ps[i := Queued]) = cnt (\<lambda>p. p = InFn) ps"
    using assms by (intro cnt_update_same) auto
  moreover have "{j. j < length ps \<and> ps[i := Queued] ! j = Queued}
      = insert i {j. j < length ps \<and> ps ! j = Queued}"
    using assms by (auto simp: nth_list_update)
  ultimately show ?thesis
    using t m assms by (auto simp: inv_sem_def)
qed

lemma inv_sem_resume:
  assumes "inv_sem (Some k) (Some m) ps cs" and "sem_state m i = Some WGranted"
  shows "inv_sem (Some k) (Some (sem_resume i m)) (ps[i := InFn]) cs"
proof -
  have m: "sem_good m" "sem_free m + cnt (\<lambda>p. p = InFn) ps = k"
    "dom (sem_state m) = {i. i < length ps \<and> ps ! i = Queued}"
    "\<forall>i. sem_state m i = Some WPending \<longrightarrow> \<not> cs ! i"
    "\<forall>i. sem_state m i = Some WCancelled \<longrightarrow> cs ! i"
    using assms(1) by (auto simp: inv_sem_def)
  have i: "i < length ps" "ps ! i = Queued" using m(3) assms(2) by blast+
  have "cnt (\<lambda>p. p = InFn) (ps[i := InFn]) = Suc (cnt (\<lambda>p. p = InFn) ps)"
    using i by (intro cnt_update_in) auto
  then show ?thesis
    using asem.resume [OF m(1) assms(2)] asem.resume_keep [OF m(1)] m i
    by (auto simp: inv_sem_def queued_update simp del: length_list_update)
qed

lemma inv_sem_release:
  assumes "inv_sem k sm ps cs" and "i < length ps" and "ps ! i = InFn"
  shows "inv_sem k (map_option sem_release sm) (ps[i := Ended x]) cs"
proof (cases k)
  case None
  then show ?thesis
    using assms inv_sem_None [of sm ps cs "Ended x" i] by (cases sm) (auto simp: inv_sem_def)
next
  case (Some k')
  with assms(1) obtain m where sm: "sm = Some m" by (cases sm) (auto simp: inv_sem_def)
  have m: "sem_good m" "sem_free m + cnt (\<lambda>p. p = InFn) ps = k'"
    "dom (sem_state m) = {i. i < length ps \<and> ps ! i = Queued}"
    "\<forall>i. sem_state m i = Some WPending \<longrightarrow> \<not> cs ! i"
    "\<forall>i. sem_state m i = Some WCancelled \<longrightarrow> cs ! i"
    using assms(1) Some sm by (auto simp: inv_sem_def)
  have "Suc (cnt (\<lambda>p. p = InFn) (ps[i := Ended x])) = cnt (\<lambda>p. p = InFn) ps"
    using assms by (intro cnt_update_out) auto
  moreover have "{j. j < length ps \<and> ps[i := Ended x] ! j = Queued} = {j. j < length ps \<and> ps ! j = Queued}"
    using assms by (auto simp: nth_list_update)
  ultimately show ?thesis
    using asem.release [OF m(1)] asem.release_keep [OF m(1)] m Some sm
    by (auto simp: inv_sem_def)
qed

lemma inv_sem_abandon:
  assumes "inv_sem k sm ps cs" and "i < length ps" and "ps ! i = Queued" and "cs ! i"
  shows "inv_sem k (map_option (sem_abandon i) sm) (ps[i := Ended x]) cs"
proof (cases k)
  case None
  then show ?thesis using assms nth_mem [of i ps] by (auto simp: inv_sem_def split: option.splits)
next
  case (Some k')
  with assms(1) obtain m where sm: "sm = Some m" by (cases sm) (auto simp: inv_sem_def)
  have m: "sem_good m" "sem_free m + cnt (\<lambda>p. p = InFn) ps = k'"
    "dom (sem_state m) = {i. i < length ps \<and> ps ! i = Queued}"
    "\<forall>i. sem_state m i = Some WPending \<longrightarrow> \<not> cs ! i"
    "\<forall>i. sem_state m i = Some WCancelled \<longrightarrow> cs ! i"
    using assms(1) Some sm by (auto simp: inv_sem_def)
  obtain w where w: "sem_state m i = Some w" "w \<noteq> WPending"
    using m(3,4) assms(2-4) by blast
  have "cnt (\<lambda>p. p = InFn) (ps[i := Ended x]) = cnt (\<lambda>p. p = InFn) ps"
    using assms by (intro cnt_update_same) auto
  then show ?thesis
    using asem.abandon [OF m(1) w] asem.abandon_keep [OF m(1)] m Some sm assms(2)
    by (auto simp: inv_sem_def queued_update simp del: length_list_update)
qed

lemma inv_sem_cancel_all:
  assumes "inv_sem k sm ps cs" and "length cs = length ps"
  shows "inv_sem k (map_option sem_cancel_all sm) ps (map2 (\<lambda>p c. c \<or> live p) ps cs)"
proof (cases sm)
  case None
  then show ?thesis using assms(1) by (auto simp: inv_sem_def split: option.splits)
next
  case (Some m)
  then obtain k' where k: "k = Some k'" using assms(1) by (auto simp: inv_sem_def split: option.splits)
  have m: "sem_good m" "sem_free m + cnt (\<lambda>p. p = InFn) ps = k'"
    "dom (sem_state m) = {i. i < length ps \<and> ps ! i = Queued}"
    using assms(1) Some k by (auto simp: inv_sem_def)
  have "map2 (\<lambda>p c. c \<or> live p) ps cs ! i" if "sem_state (sem_cancel_all m) i = Some w" for i w
  proof -
    have "i \<in> dom (sem_state m)" using that asem.cancel_all [OF m(1)] by (metis domI)
    then show ?thesis using m(3) assms(2) by simp
  qed
  then show ?thesis
    using asem.cancel_all [OF m(1)] asem.cancel_all_pending m Some k by (simp add: inv_sem_def)
qed

lemma slot_ok_mono:
  "slot_ok p v l ab \<Longrightarrow> (l \<longrightarrow> l') \<Longrightarrow> (ab \<longrightarrow> ab') \<Longrightarrow> slot_ok p v l' ab'"
  by (auto simp: slot_ok_def)

lemma inv_tasks_update:
  assumes "inv_tasks ps vs cs l ab" and "i < length ps"
    and "slot_ok q v l' ab" and "creq_ok q (cs ! i) ab" and "l \<longrightarrow> l'"
  shows "inv_tasks (ps[i := q]) (vs[i := v]) cs l' ab"
proof -
  have "slot_ok (ps ! j) (vs ! j) l' ab" if "j < length ps" for j
  proof (rule slot_ok_mono)
    show "slot_ok (ps ! j) (vs ! j) l ab" using assms(1) that by (simp add: inv_tasks_def)
  qed (simp_all add: assms(5))
  then show ?thesis using assms by (simp add: inv_tasks_def nth_list_update)
qed

lemma inv_tasks_step:
  assumes "inv_tasks ps vs cs l ab" and "i < length ps"
    and "slot_ok q (vs ! i) l' ab" and "creq_ok q (cs ! i) ab" and "l \<longrightarrow> l'"
  shows "inv_tasks (ps[i := q]) vs cs l' ab"
  using inv_tasks_update [OF assms] by simp

lemma inv_tasks_abort:
  assumes inv: "inv_tasks ps vs cs l ab"
  shows "inv_tasks ps vs (map2 (\<lambda>p c. c \<or> live p) ps cs) l True"
proof -
  have len: "length vs = length ps" "length cs = length ps"
    using inv by (simp_all add: inv_tasks_def)
  have "slot_ok (ps ! i) (vs ! i) l True" if "i < length ps" for i
  proof (rule slot_ok_mono)
    show "slot_ok (ps ! i) (vs ! i) l ab" using inv that by (simp add: inv_tasks_def)
  qed simp_all
  moreover have "creq_ok (ps ! i) (map2 (\<lambda>p c. c \<or> live p) ps cs ! i) True" if "i < length ps" for i
    using that len by (simp add: creq_ok_def)
  ultimately show ?thesis unfolding inv_tasks_def using len by simp
qed

lemma inv_tasks_at:
  "inv_tasks ps vs cs l ab \<Longrightarrow> i < length ps \<Longrightarrow>
     slot_ok (ps ! i) (vs ! i) l ab \<and> creq_ok (ps ! i) (cs ! i) ab"
  by (simp add: inv_tasks_def)

lemma inv_calls_update:
  assumes "inv_calls items cl ps vs" and "i < length ps" and "length vs = length ps"
    and "ps ! i = Created \<or> ps ! i = Queued \<or> q \<noteq> Created \<and> q \<noteq> Queued"
    and "q \<noteq> InFn" and "v \<noteq> None \<longrightarrow> vs ! i \<noteq> None \<or> ps ! i = InFn"
  shows "inv_calls items cl (ps[i := q]) (vs[i := v])"
  using assms by (auto simp: inv_calls_def nth_list_update)

lemma inv_calls_step:
  assumes "inv_calls items cl ps vs" and "i < length ps" and "length vs = length ps"
    and "ps ! i = Created \<or> ps ! i = Queued \<or> q \<noteq> Created \<and> q \<noteq> Queued"
    and "q \<noteq> InFn"
  shows "inv_calls items cl (ps[i := q]) vs"
  using inv_calls_update [OF assms, of "vs ! i"] by simp

lemma inv_calls_enter:
  assumes "inv_calls items cl ps vs" and "i < length ps"
    and "ps ! i = Created \<or> ps ! i = Queued"
  shows "inv_calls items (cl @ [(i, items ! i)]) (ps[i := InFn]) vs"
proof -
  have "i \<notin> fst ` set cl" using assms by (auto simp: inv_calls_def)
  then show ?thesis using assms by (auto simp: inv_calls_def nth_list_update)
qed

lemma reaped_keep:
  assumes "i < length ps" and "\<And>x. ps ! i \<noteq> Reaped x" and "\<And>x. q \<noteq> Reaped x"
  shows "Reaped x \<in> set (ps[i := q]) \<longleftrightarrow> Reaped x \<in> set ps"
  using assms by (auto simp: in_set_conv_nth nth_list_update) metis

lemma reaped_add:
  assumes "i < length ps" and "ps ! i = Ended y"
  shows "Reaped x \<in> set (ps[i := Reaped y]) \<longleftrightarrow> x = y \<or> Reaped x \<in> set ps"
  using assms by (auto simp: in_set_conv_nth nth_list_update) (metis pc.distinct(19))+

lemma inv_group_step:
  assumes "inv_group g ps" and "i < length ps" and "live (ps ! i)" and "\<And>x. q \<noteq> Reaped x"
  shows "inv_group g (ps[i := q])"
proof -
  have "Reaped x \<in> set (ps[i := q]) \<longleftrightarrow> Reaped x \<in> set ps" for x
    using assms by (intro reaped_keep) auto
  then show ?thesis using assms(1) by (simp add: inv_group_def)
qed

lemma group_ok_done:
  "group_ok g \<Longrightarrow> group_task_done x g t = (g', t', ab) \<Longrightarrow> group_ok g'"
  by (cases x) (auto simp: group_task_done_def Let_def group_ok_def split: if_splits)

lemma errors_done:
  "group_task_done x g t = (g', t', ab) \<Longrightarrow>
     set (errors g') = set (errors g) \<union> {e. x = EndFailed e}"
  by (cases x) (auto simp: group_task_done_def Let_def split: if_splits)

lemma inv_group_done:
  assumes inv: "inv_group g ps" and i: "i < length ps" "ps ! i = Ended x"
    and r: "group_task_done x g t = (g', t', ab)"
  shows "inv_group g' (ps[i := Reaped x])"
  using inv group_ok_done [OF _ r] errors_done [OF r]
  by (auto simp: inv_group_def reaped_add [OF i])

lemma ended_failed_keep:
  assumes "i < length ps" and "\<And>e. ps ! i \<noteq> Ended (EndFailed e)"
    and "Ended (EndFailed e) \<in> set ps"
  shows "Ended (EndFailed e) \<in> set (ps[i := q])"
  using assms by (auto simp: in_set_conv_nth nth_list_update) metis

lemma inv_cause_step:
  assumes "inv_cause l pc g t ps" and "i < length ps" and "\<And>e. ps ! i \<noteq> Ended (EndFailed e)"
  shows "inv_cause l pc g t (ps[i := q])"
  using assms ended_failed_keep [OF assms(2,3)] by (auto simp: inv_cause_def)

lemma stop_cause_done:
  assumes "group_task_done x g t = (g', t', ab)" and "stop_cause g t"
  shows "stop_cause g' t'"
  using assms by (auto simp: group_task_done_def stop_cause_def Let_def split: task_end.splits if_splits)

lemma inv_cause_done:
  assumes inv: "inv_cause l (probe_cancelled p t) g t ps" and grp: "inv_group g ps"
    and i: "i < length ps" "ps ! i = Ended x"
    and r: "group_task_done x g t = (g', t', ab)"
  shows "inv_cause l (probe_cancelled p t') g' t' (ps[i := Reaped x])"
proof (cases "\<exists>e. x = EndFailed e")
  case True
  then have "errors g' \<noteq> []" using r by (auto simp: group_task_done_def Let_def split: if_splits)
  then show ?thesis by (simp add: inv_cause_def stop_cause_def)
next
  case False
  then have "g' = g" "t' = t" using r by (cases x; simp add: group_task_done_def)+
  moreover have "\<And>e. ps ! i \<noteq> Ended (EndFailed e)" using i False by auto
  ultimately show ?thesis using inv_cause_step [OF inv i(1)] by simp
qed

lemma all_reaped_iff: "all_reaped s \<longleftrightarrow> (\<forall>i < length (pcs s). \<exists>x. pcs s ! i = Reaped x)"
proof -
  have "(case p of Reaped _ \<Rightarrow> True | _ \<Rightarrow> False) = (\<exists>x. p = Reaped x)" for p
    by (cases p) auto
  then show ?thesis by (simp add: all_reaped_def list_all_length)
qed

text \<open>While some task is not reaped the group has not been left.\<close>

lemma final_None:
  "inv_final fin due l pc g ps \<Longrightarrow> i < length ps \<Longrightarrow> (\<And>x. ps ! i \<noteq> Reaped x) \<Longrightarrow> fin = None"
  by (cases "ps ! i") (auto simp: inv_final_def list_all_length split: option.splits)

lemma inv_final_running: "inv_final None due l pc g ps \<longleftrightarrow> \<not> due"
  by (simp add: inv_final_def)


section \<open>How each event changes the state\<close>

lemma start_cancelled_inv:
  assumes inv: "fan_inv items k s" and i: "i < length (pcs s)" "pcs s ! i = Created"
    and c: "creq s ! i"
  shows "fan_inv items k (fan_end i EndCancelled s)"
proof -
  note D = fan_invD [OF inv]
  have fin: "final s = None" using final_None [OF D(6) i(1)] i(2) by simp
  have len: "length (slots s) = length (pcs s)" using D(2) by (simp add: inv_tasks_def)
  have ab: "aborting (grp s)" using inv_tasks_at [OF D(2) i(1)] c by (simp add: creq_ok_def)
  have v: "slots s ! i = None" using inv_tasks_at [OF D(2) i(1)] i(2) by (simp add: slot_ok_def)
  have "inv_tasks ((pcs s)[i := Ended EndCancelled]) (slots s) (creq s) (failed s) (aborting (grp s))"
    using D(2) i(1) by (rule inv_tasks_step) (simp_all add: slot_ok_def creq_ok_def ab v)
  moreover have "inv_sem k (sem s) ((pcs s)[i := Ended EndCancelled]) (creq s)"
    using D(1) i by (intro inv_sem_idle) auto
  moreover have "inv_calls items (calls s) ((pcs s)[i := Ended EndCancelled]) (slots s)"
    using D(3) i len by (intro inv_calls_step) auto
  moreover have "inv_group (grp s) ((pcs s)[i := Ended EndCancelled])"
    using D(4) i by (intro inv_group_step) auto
  moreover have "inv_cause (failed s) (probe_cancelled (caller_probe s) (caller s)) (grp s) (caller s)
      ((pcs s)[i := Ended EndCancelled])"
    using D(5) [OF fin] i by (intro inv_cause_step) auto
  ultimately show ?thesis
    using D(6) fin by (simp add: fan_inv_def fan_end_def inv_final_running)
qed

text \<open>
  A task with its slot in hand, in the middle of its step: the semaphore already counts it
  among the callers.
\<close>

lemma enter_inv:
  assumes D2: "inv_tasks (pcs s) (slots s) (creq s) (failed s) (aborting (grp s))"
    and D3: "inv_calls items (calls s) (pcs s) (slots s)"
    and D4: "inv_group (grp s) (pcs s)"
    and D5: "inv_cause (failed s) (probe_cancelled (caller_probe s) (caller s))
               (grp s) (caller s) (pcs s)"
    and fin: "final s = None" and due: "\<not> rearm_due s"
    and i: "i < length (pcs s)" "pcs s ! i = Created \<or> pcs s ! i = Queued"
    and sem: "inv_sem k (sem s) ((pcs s)[i := InFn]) (creq s)"
  shows "fan_inv items k (fan_enter items i s)"
proof -
  have len: "length (slots s) = length (pcs s)" using D2 by (simp add: inv_tasks_def)
  have at: "slot_ok (pcs s ! i) (slots s ! i) (failed s) (aborting (grp s))"
    "creq_ok (pcs s ! i) (creq s ! i) (aborting (grp s))"
    using inv_tasks_at [OF D2 i(1)] by simp_all
  have v: "slots s ! i = None" using at(1) i(2) by (auto simp: slot_ok_def)
  have cr: "creq s ! i = aborting (grp s)" using at(2) i(2) by (auto simp: creq_ok_def)
  show ?thesis
  proof (cases "failed s")
    case True
    have "inv_sem k (map_option sem_release (sem s)) ((pcs s)[i := InFn, i := Ended EndNormal]) (creq s)"
      using sem i(1) by (intro inv_sem_release) auto
    moreover have "inv_tasks ((pcs s)[i := Ended EndNormal]) (slots s) (creq s) (failed s) (aborting (grp s))"
      using D2 i(1) by (rule inv_tasks_step) (simp_all add: slot_ok_def creq_ok_def cr v True)
    moreover have "inv_calls items (calls s) ((pcs s)[i := Ended EndNormal]) (slots s)"
      using D3 i len by (intro inv_calls_step) auto
    moreover have "inv_group (grp s) ((pcs s)[i := Ended EndNormal])"
      using D4 i by (intro inv_group_step) auto
    moreover have "inv_cause (failed s) (probe_cancelled (caller_probe s) (caller s)) (grp s)
        (caller s) ((pcs s)[i := Ended EndNormal])"
      using D5 i by (intro inv_cause_step) auto
    ultimately show ?thesis
      using True fin due
      by (simp add: fan_inv_def fan_enter_def fan_end_def fan_release_def inv_final_running)
  next
    case False
    have "inv_tasks ((pcs s)[i := InFn]) (slots s) (creq s) (failed s) (aborting (grp s))"
      using D2 i(1) by (rule inv_tasks_step) (simp_all add: slot_ok_def creq_ok_def cr v)
    moreover have "inv_calls items (calls s @ [(i, items ! i)]) ((pcs s)[i := InFn]) (slots s)"
      using D3 i by (intro inv_calls_enter) auto
    moreover have "inv_group (grp s) ((pcs s)[i := InFn])"
      using D4 i by (intro inv_group_step) auto
    moreover have "inv_cause (failed s) (probe_cancelled (caller_probe s) (caller s)) (grp s)
        (caller s) ((pcs s)[i := InFn])"
      using D5 i by (intro inv_cause_step) auto
    ultimately show ?thesis
      using False fin due sem by (simp add: fan_inv_def fan_enter_def inv_final_running)
  qed
qed

lemma start_inv:
  assumes inv: "fan_inv items k s" and i: "i < length (pcs s)" "pcs s ! i = Created"
  shows "fan_inv items k (fan_start items i s)"
proof (cases "creq s ! i")
  case True
  then show ?thesis using start_cancelled_inv [OF inv i] by (simp add: fan_start_def)
next
  case nc: False
  note D = fan_invD [OF inv]
  have fin: "final s = None" using final_None [OF D(6) i(1)] i(2) by simp
  have due: "\<not> rearm_due s" using D(6) fin by (simp add: inv_final_running)
  show ?thesis
  proof (cases "sem s")
    case None
    then have "k = None" using D(1) by (auto simp: inv_sem_def split: option.splits)
    then have "inv_sem k (sem s) ((pcs s)[i := InFn]) (creq s)"
      using D(1) inv_sem_None by blast
    then have "fan_inv items k (fan_enter items i s)"
      using D fin due i by (intro enter_inv) auto
    then show ?thesis using None nc by (simp add: fan_start_def)
  next
    case (Some m)
    then obtain k' where k: "k = Some k'" using D(1) by (auto simp: inv_sem_def split: option.splits)
    note D1 = D(1) [unfolded Some k]
    show ?thesis
    proof (cases "sem_locked m")
      case True
      have len: "length (slots s) = length (pcs s)" using D(2) by (simp add: inv_tasks_def)
      have at: "slot_ok (pcs s ! i) (slots s ! i) (failed s) (aborting (grp s))"
        "creq_ok (pcs s ! i) (creq s ! i) (aborting (grp s))"
        using inv_tasks_at [OF D(2) i(1)] by simp_all
      have "inv_sem k (Some (sem_enqueue i m)) ((pcs s)[i := Queued]) (creq s)"
        unfolding k using D1 True i nc by (rule inv_sem_enqueue)
      moreover have "inv_tasks ((pcs s)[i := Queued]) (slots s) (creq s) (failed s) (aborting (grp s))"
        using D(2) i(1) by (rule inv_tasks_step) (use at i nc in \<open>auto simp: slot_ok_def creq_ok_def\<close>)
      moreover have "inv_calls items (calls s) ((pcs s)[i := Queued]) (slots s)"
        using D(3) i len by (intro inv_calls_step) auto
      moreover have "inv_group (grp s) ((pcs s)[i := Queued])"
        using D(4) i by (intro inv_group_step) auto
      moreover have "inv_cause (failed s) (probe_cancelled (caller_probe s) (caller s)) (grp s)
          (caller s) ((pcs s)[i := Queued])"
        using D(5) [OF fin] i by (intro inv_cause_step) auto
      ultimately show ?thesis
        using True Some nc fin due by (simp add: fan_start_def fan_inv_def inv_final_running)
    next
      case False
      have "inv_sem k (Some (sem_take m)) ((pcs s)[i := InFn]) (creq s)"
        unfolding k using D1 False i by (rule inv_sem_take)
      then have "fan_inv items k (fan_enter items i (s\<lparr>sem := Some (sem_take m)\<rparr>))"
        using D fin due i by (intro enter_inv) auto
      then show ?thesis using False Some nc by (simp add: fan_start_def)
    qed
  qed
qed


lemma wake_inv:
  assumes inv: "fan_inv items k s" and i: "i < length (pcs s)" "pcs s ! i = Queued"
    and m: "sem s = Some m"
      "sem_state m i = Some WGranted \<or> sem_state m i = Some WCancelled \<and> creq s ! i"
  shows "fan_inv items k (fan_wake items i s)"
proof -
  note D = fan_invD [OF inv]
  have fin: "final s = None" using final_None [OF D(6) i(1)] i(2) by simp
  have due: "\<not> rearm_due s" using D(6) fin by (simp add: inv_final_running)
  have len: "length (slots s) = length (pcs s)" using D(2) by (simp add: inv_tasks_def)
  have at: "slot_ok (pcs s ! i) (slots s ! i) (failed s) (aborting (grp s))"
    "creq_ok (pcs s ! i) (creq s ! i) (aborting (grp s))"
    using inv_tasks_at [OF D(2) i(1)] by simp_all
  obtain k' where k: "k = Some k'" using D(1) m(1) by (auto simp: inv_sem_def split: option.splits)
  show ?thesis
  proof (cases "creq s ! i")
    case True
    have "inv_sem k (map_option (sem_abandon i) (sem s)) ((pcs s)[i := Ended EndCancelled]) (creq s)"
      using D(1) i True by (rule inv_sem_abandon)
    moreover have "inv_tasks ((pcs s)[i := Ended EndCancelled]) (slots s) (creq s) (failed s)
        (aborting (grp s))"
      using D(2) i(1)
      by (rule inv_tasks_step) (use at i True in \<open>auto simp: slot_ok_def creq_ok_def\<close>)
    moreover have "inv_calls items (calls s) ((pcs s)[i := Ended EndCancelled]) (slots s)"
      using D(3) i len by (intro inv_calls_step) auto
    moreover have "inv_group (grp s) ((pcs s)[i := Ended EndCancelled])"
      using D(4) i by (intro inv_group_step) auto
    moreover have "inv_cause (failed s) (probe_cancelled (caller_probe s) (caller s)) (grp s)
        (caller s) ((pcs s)[i := Ended EndCancelled])"
      using D(5) [OF fin] i by (intro inv_cause_step) auto
    ultimately show ?thesis
      using True fin due by (simp add: fan_wake_def fan_end_def fan_inv_def inv_final_running)
  next
    case False
    then have g: "sem_state m i = Some WGranted" using m(2) by simp
    have "inv_sem k (Some (sem_resume i m)) ((pcs s)[i := InFn]) (creq s)"
      unfolding k using D(1) [unfolded m(1) k] g by (rule inv_sem_resume)
    then have "fan_inv items k (fan_enter items i (s\<lparr>sem := Some (sem_resume i m)\<rparr>))"
      using D fin due i by (intro enter_inv) auto
    then show ?thesis using False m(1) by (simp add: fan_wake_def)
  qed
qed

lemma store_inv:
  assumes inv: "fan_inv items k s" and i: "i < length (pcs s)" "pcs s ! i = InFn"
  shows "fan_inv items k (fan_fn (Store r) i s)"
proof -
  note D = fan_invD [OF inv]
  have fin: "final s = None" using final_None [OF D(6) i(1)] i(2) by simp
  have due: "\<not> rearm_due s" using D(6) fin by (simp add: inv_final_running)
  have len: "length (slots s) = length (pcs s)" using D(2) by (simp add: inv_tasks_def)
  have at: "creq_ok (pcs s ! i) (creq s ! i) (aborting (grp s))"
    using inv_tasks_at [OF D(2) i(1)] by simp
  have "inv_sem k (map_option sem_release (sem s)) ((pcs s)[i := Ended EndNormal]) (creq s)"
    using D(1) i by (rule inv_sem_release)
  moreover have "inv_tasks ((pcs s)[i := Ended EndNormal]) ((slots s)[i := Some r]) (creq s)
      (failed s) (aborting (grp s))"
    using D(2) i(1) by (rule inv_tasks_update) (use at i in \<open>auto simp: slot_ok_def creq_ok_def\<close>)
  moreover have "inv_calls items (calls s) ((pcs s)[i := Ended EndNormal]) ((slots s)[i := Some r])"
    using D(3) i len by (intro inv_calls_update) auto
  moreover have "inv_group (grp s) ((pcs s)[i := Ended EndNormal])"
    using D(4) i by (intro inv_group_step) auto
  moreover have "inv_cause (failed s) (probe_cancelled (caller_probe s) (caller s)) (grp s)
      (caller s) ((pcs s)[i := Ended EndNormal])"
    using D(5) [OF fin] i by (intro inv_cause_step) auto
  ultimately show ?thesis
    using fin due by (simp add: fan_fn_def fan_end_def fan_release_def fan_inv_def inv_final_running)
qed

lemma propagate_inv:
  assumes inv: "fan_inv items k s" and i: "i < length (pcs s)" "pcs s ! i = InFn"
    and stray: "e = CancelledError \<Longrightarrow> fan_stopping s"
  shows "fan_inv items k (fan_fn (Propagate e) i s)"
proof -
  define x where "x = (if e = CancelledError then EndCancelled else EndFailed e)"
  note D = fan_invD [OF inv]
  have fin: "final s = None" using final_None [OF D(6) i(1)] i(2) by simp
  have due: "\<not> rearm_due s" using D(6) fin by (simp add: inv_final_running)
  have len: "length (slots s) = length (pcs s)" using D(2) by (simp add: inv_tasks_def)
  have at: "slot_ok (pcs s ! i) (slots s ! i) (failed s) (aborting (grp s))"
    "creq_ok (pcs s ! i) (creq s ! i) (aborting (grp s))"
    using inv_tasks_at [OF D(2) i(1)] by simp_all
  have "inv_sem k (map_option sem_release (sem s)) ((pcs s)[i := Ended x]) (creq s)"
    using D(1) i by (rule inv_sem_release)
  moreover have "inv_tasks ((pcs s)[i := Ended x]) (slots s) (creq s) True (aborting (grp s))"
    using D(2) i(1)
    by (rule inv_tasks_step) (use at i in \<open>auto simp: slot_ok_def creq_ok_def x_def\<close>)
  moreover have "inv_calls items (calls s) ((pcs s)[i := Ended x]) (slots s)"
    using D(3) i len by (intro inv_calls_step) auto
  moreover have "inv_group (grp s) ((pcs s)[i := Ended x])"
    using D(4) i by (intro inv_group_step) auto
  moreover have "inv_cause True (probe_cancelled (caller_probe s) (caller s)) (grp s)
      (caller s) ((pcs s)[i := Ended x])"
  proof -
    have old: "inv_cause (failed s) (probe_cancelled (caller_probe s) (caller s)) (grp s)
      (caller s) ((pcs s)[i := Ended x])"
      using D(5) [OF fin] i by (intro inv_cause_step) auto
    show ?thesis
    proof (cases "e = CancelledError")
      case True
      then show ?thesis using old stray by (auto simp: inv_cause_def fan_stopping_def)
    next
      case False
      then have "Ended (EndFailed e) \<in> set ((pcs s)[i := Ended x])"
        using i(1) by (simp add: x_def set_update_memI)
      then show ?thesis using old by (auto simp: inv_cause_def)
    qed
  qed
  ultimately show ?thesis
    using fin due
    by (simp add: fan_fn_def fan_end_def fan_release_def fan_inv_def inv_final_running x_def)
qed

text \<open>A group operation, with the abort it may ask for.\<close>

lemma group_inv:
  assumes sem: "inv_sem k (sem s) (pcs s) (creq s)"
    and tasks: "inv_tasks (pcs s) (slots s) (creq s) (failed s) (aborting (grp s))"
    and cl: "inv_calls items (calls s) (pcs s) (slots s)"
    and grp: "inv_group g (pcs s)"
    and cause: "inv_cause (failed s) (probe_cancelled (caller_probe s) t) g t (pcs s)"
    and fin: "final s = None" "\<not> rearm_due s"
    and ab: "aborting g = (aborting (grp s) \<or> ab)"
  shows "fan_inv items k (fan_group (g, t, ab) s)"
proof (cases ab)
  case True
  have "inv_tasks (pcs s) (slots s) (map2 (\<lambda>p c. c \<or> live p) (pcs s) (creq s)) (failed s) True"
    using tasks by (rule inv_tasks_abort)
  moreover have "length (creq s) = length (pcs s)" using tasks by (simp add: inv_tasks_def)
  ultimately show ?thesis
    using True inv_sem_cancel_all [OF sem] cl grp cause fin ab
    by (simp add: fan_group_def fan_abort_def fan_inv_def inv_final_running Let_def)
next
  case False
  then show ?thesis
    using sem tasks cl grp cause fin ab
    by (simp add: fan_group_def fan_inv_def inv_final_running)
qed

lemma group_task_done_aborting:
  "group_task_done x g t = (g', t', ab) \<Longrightarrow> group_ok g \<Longrightarrow> aborting g' = (aborting g \<or> ab)"
  by (cases x) (auto simp: group_task_done_def Let_def group_ok_def split: if_splits)

lemma done_inv:
  assumes inv: "fan_inv items k s" and i: "i < length (pcs s)" "pcs s ! i = Ended x"
    and fin: "final s = None"
  shows "fan_inv items k (fan_done i s)"
proof -
  note D = fan_invD [OF inv]
  obtain g t ab where r: "group_task_done x (grp s) (caller s) = (g, t, ab)"
    by (metis prod_cases3)
  have due: "\<not> rearm_due s" using D(6) fin by (simp add: inv_final_running)
  have len: "length (slots s) = length (pcs s)" using D(2) by (simp add: inv_tasks_def)
  let ?s = "s\<lparr>pcs := (pcs s)[i := Reaped x]\<rparr>"
  have at: "slot_ok (pcs s ! i) (slots s ! i) (failed s) (aborting (grp s))"
    "creq_ok (pcs s ! i) (creq s ! i) (aborting (grp s))"
    using inv_tasks_at [OF D(2) i(1)] by simp_all
  have "fan_inv items k (fan_group (g, t, ab) ?s)"
  proof (rule group_inv)
    show "inv_sem k (sem ?s) (pcs ?s) (creq ?s)"
      using inv_sem_idle [OF D(1) i(1)] i(2) by simp
    show "inv_tasks (pcs ?s) (slots ?s) (creq ?s) (failed ?s) (aborting (grp ?s))"
      using inv_tasks_step [OF D(2) i(1), of "Reaped x" "failed s"] at i(2)
      by (simp add: slot_ok_def creq_ok_def)
    show "inv_calls items (calls ?s) (pcs ?s) (slots ?s)"
      using inv_calls_step [OF D(3) i(1) len, of "Reaped x"] by simp
    show "inv_group g (pcs ?s)" using inv_group_done [OF D(4) i r] by simp
    show "inv_cause (failed ?s) (probe_cancelled (caller_probe ?s) t) g t (pcs ?s)"
      using inv_cause_done [OF D(5) [OF fin] D(4) i r] by simp
    show "aborting g = (aborting (grp ?s) \<or> ab)"
      using group_task_done_aborting [OF r] D(4) by (simp add: inv_group_def)
  qed (simp_all add: fin due)
  then show ?thesis by (simp add: fan_done_def i(2) r)
qed


lemma parent_wake_group:
  assumes "group_parent_wake g t = (g', t', ab)" and "group_ok g"
  shows "group_ok g'" "errors g' = errors g" "aborting g' = (aborting g \<or> ab)"
    "\<not> must_cancel t'" "stop_cause g t \<Longrightarrow> stop_cause g' t'"
    "num_cancels t' = num_cancels t" "rearms t' = rearms t"
    "parent_cancel_requested g' = parent_cancel_requested g" "base_error g' = base_error g"
    "entry_probe g' = entry_probe g" "entry_cancelling g' = entry_cancelling g"
  using assms by (auto simp: group_parent_wake_def group_ok_def stop_cause_def split: if_splits)

lemma parent_wake_inv:
  assumes inv: "fan_inv items k s" and fin: "final s = None"
  shows "fan_inv items k (fan_group (group_parent_wake (grp s) (caller s)) s)"
proof -
  note D = fan_invD [OF inv]
  obtain g t ab where r: "group_parent_wake (grp s) (caller s) = (g, t, ab)"
    by (metis prod_cases3)
  have ok: "group_ok (grp s)" using D(4) by (simp add: inv_group_def)
  note W = parent_wake_group [OF r ok]
  have due: "\<not> rearm_due s" using D(6) fin by (simp add: inv_final_running)
  have "probe_cancelled (caller_probe s) t = probe_cancelled (caller_probe s) (caller s)"
    by (simp add: probe_defs W(6,7))
  then have "inv_cause (failed s) (probe_cancelled (caller_probe s) t) g t (pcs s)"
    using D(5) [OF fin] W(5) by (auto simp: inv_cause_def)
  moreover have "inv_group g (pcs s)" using D(4) W(1,2) by (simp add: inv_group_def)
  ultimately show ?thesis
    unfolding r using D fin due W(3) by (intro group_inv) auto
qed

lemma group_exit_result:
  assumes "group_exit ver g t = (r, t', due)" and ok: "group_ok g"
  shows "case r of
      None \<Rightarrow> errors g = [] \<and> \<not> aborting g \<and> t' = t \<and> \<not> due
    | Some e \<Rightarrow> e = CancelledError \<and> propagate g \<and> errors g = [] \<or>
                e = ExcGroup (errors g) \<and> errors g \<noteq> [] \<or> base_error g = Some e"
  using assms
  by (auto simp: group_exit_def group_exit_old_def group_exit_313_def Let_def group_ok_def
      split: option.splits if_splits)

lemma fan_group_pcs [simp]: "pcs (fan_group r s) = pcs s" "failed (fan_group r s) = failed s"
  "final (fan_group r s) = final s" "calls (fan_group r s) = calls s"
  "slots (fan_group r s) = slots s" "caller_probe (fan_group r s) = caller_probe s"
  "grp (fan_group r s) = fst r" "caller (fan_group r s) = fst (snd r)"
  "rearm_due (fan_group r s) = rearm_due s"
  by (cases r; simp add: fan_group_def fan_abort_def Let_def)+

lemma all_reaped_group [simp]: "all_reaped (fan_group r s) = all_reaped s"
  by (simp add: all_reaped_def)

lemma parent_inv:
  assumes inv: "fan_inv items k s" and fin: "final s = None"
  shows "fan_inv items k (fan_parent ver s)"
proof (cases "all_reaped s")
  case False
  then show ?thesis using parent_wake_inv [OF assms] by (simp add: fan_parent_def Let_def)
next
  case True
  define s' where "s' = fan_group (group_parent_wake (grp s) (caller s)) s"
  have inv': "fan_inv items k s'" unfolding s'_def using assms by (rule parent_wake_inv)
  note D = fan_invD [OF inv']
  have fin': "final s' = None" by (simp add: s'_def fin)
  have reaped: "all_reaped s'" using True by (simp add: s'_def)
  have ok: "group_ok (grp s')" using D(4) by (simp add: inv_group_def)
  have nc: "\<not> must_cancel (caller s')"
  proof -
    obtain g t ab where r: "group_parent_wake (grp s) (caller s) = (g, t, ab)"
      by (metis prod_cases3)
    have "group_ok (grp s)" using fan_invD(4) [OF inv] by (simp add: inv_group_def)
    then show ?thesis using parent_wake_group(4) [OF r] by (simp add: s'_def r)
  qed
  obtain r t due where x: "group_exit ver (grp s') (caller s') = (r, t, due)"
    by (metis prod_cases3)
  have noend: "Ended y \<notin> set (pcs s')" for y
    using reaped by (auto simp: all_reaped_def list_all_iff)
  have quiet: "\<not> failed s' \<and> \<not> probe_cancelled (caller_probe s') t" if "r = None"
    using group_exit_result [OF x ok] that D(5) [OF fin'] nc noend ok
    by (auto simp: inv_cause_def stop_cause_def group_ok_def)
  have "inv_final (Some r) due (failed s') (probe_cancelled (caller_probe s') t) (grp s') (pcs s')"
    using group_exit_result [OF x ok] quiet reaped
    by (auto simp: inv_final_def all_reaped_def split: option.splits)
  then show ?thesis
    using D reaped by (simp add: fan_parent_def Let_def s'_def [symmetric] x fan_inv_def)
qed

lemma caller_inv:
  assumes inv: "fan_inv items k s" and fin: "final s = None" and m: "must_cancel t"
  shows "fan_inv items k (s\<lparr>caller := t\<rparr>)"
  using assms by (simp add: fan_inv_def inv_cause_def stop_cause_def inv_final_running)

lemma rearm_final:
  assumes "inv_final fin True l pc g ps"
  shows "\<exists>e. fin = Some (Some e)" "inv_final fin due l pc' g ps"
  using assms by (auto simp: inv_final_def split: option.splits)

lemma rearm_inv:
  assumes inv: "fan_inv items k s" and due: "rearm_due s"
  shows "fan_inv items k (s\<lparr>caller := t, rearm_due := False\<rparr>)"
proof -
  note F = rearm_final [OF fan_invD(6) [OF inv, unfolded due eqTrueI [OF due]]]
  show ?thesis using inv F(1) F(2) by (auto simp: fan_inv_def)
qed

section \<open>The interface of a handler, and what every client inherits\<close>

text \<open>
  A handler may propagate a \<open>CancelledError\<close> only while the pipeline is stopping.
\<close>

locale fan_handler =
  fixes handler :: "nat \<Rightarrow> bool \<Rightarrow> bool \<Rightarrow> 'v fn_end \<Rightarrow> 'r completion"
  assumes no_stray: "handler i stopping c f = Propagate CancelledError \<Longrightarrow> stopping"
begin

lemma step_inv:
  assumes inv: "fan_inv items k s" and st: "fan_step ver items handler s e = Some t"
  shows "fan_inv items k t"
proof -
  have en: "fan_enabled ver s e" and t: "t = fan_do ver items handler s e"
    using st by (auto simp: fan_step_def split: if_splits)
  show ?thesis
  proof (cases e)
    case (EStart i)
    then show ?thesis using inv en t by (simp add: start_inv)
  next
    case (EWake i)
    then obtain m where "sem s = Some m" using en by (auto split: option.splits)
    then show ?thesis using EWake inv en t by (simp add: wake_inv)
  next
    case (EFn i f)
    show ?thesis
    proof (cases "handler i (fan_stopping s) (creq s ! i) f")
      case (Store r)
      then show ?thesis using EFn inv en t by (simp add: store_inv)
    next
      case (Propagate x)
      have stray: "x = CancelledError \<Longrightarrow> fan_stopping s" using no_stray Propagate by blast
      show ?thesis
        using EFn en t Propagate by (simp add: propagate_inv [OF inv _ _ stray])
    qed
  next
    case (EDone i)
    then obtain x where "pcs s ! i = Ended x" using en by (auto split: pc.splits)
    then show ?thesis using EDone inv en t by (simp add: done_inv)
  next
    case EParent
    then show ?thesis using inv en t by (simp add: parent_inv)
  next
    case ERearm
    then show ?thesis using inv en t by (simp add: rearm_inv)
  next
    case ECancel
    then show ?thesis using inv en t by (simp add: caller_inv)
  next
    case ERearmOther
    then show ?thesis using inv en t by (simp add: caller_inv)
  qed
qed

end

section \<open>Termination and progress\<close>

fun pc_rank :: "pc \<Rightarrow> nat" where
  "pc_rank Created = 4"
| "pc_rank Queued = 3"
| "pc_rank InFn = 2"
| "pc_rank (Ended _) = 1"
| "pc_rank (Reaped _) = 0"

definition fan_rank :: "('i, 'r) fan \<Rightarrow> nat" where
  "fan_rank s = sum_list (map pc_rank (pcs s)) + (if final s = None then 4 else 0) +
     of_bool (must_cancel (caller s)) + of_bool (\<not> aborting (grp s)) + 2 * of_bool (rearm_due s)"

lemma rank_update:
  "i < length ps \<Longrightarrow> pc_rank q < pc_rank (ps ! i) \<Longrightarrow>
     sum_list (map pc_rank (ps[i := q])) < sum_list (map pc_rank ps)"
  using sum_list_update_nat [of i ps pc_rank q] by linarith

lemma enter_rank:
  assumes "i < length (pcs s)" and "2 < pc_rank (pcs s ! i)"
  shows "fan_rank (fan_enter items i s) < fan_rank s"
  using rank_update [OF assms(1), of "Ended EndNormal"] rank_update [OF assms(1), of InFn] assms(2)
  by (simp add: fan_enter_def fan_end_def fan_release_def fan_rank_def)

lemma end_rank:
  assumes "i < length (pcs s)" and "1 < pc_rank (pcs s ! i)"
  shows "fan_rank (fan_end i x s) < fan_rank s"
  using rank_update [OF assms(1), of "Ended x"] assms(2)
  by (simp add: fan_end_def fan_rank_def)

lemma fan_rank_simps [simp]:
  "fan_rank (s\<lparr>sem := m\<rparr>) = fan_rank s"
  "fan_rank (s\<lparr>slots := v\<rparr>) = fan_rank s"
  "fan_rank (s\<lparr>failed := l\<rparr>) = fan_rank s"
  "fan_rank (fan_release s) = fan_rank s"
  "fan_rank (fan_abort s) = fan_rank s"
  by (simp_all add: fan_rank_def fan_release_def fan_abort_def)

lemma start_rank:
  assumes i: "i < length (pcs s)" "pcs s ! i = Created"
  shows "fan_rank (fan_start items i s) < fan_rank s"
proof -
  have "fan_rank (s\<lparr>sem := x, pcs := (pcs s)[i := Queued]\<rparr>) < fan_rank s" for x
    using rank_update [OF i(1), of Queued] i(2) by (simp add: fan_rank_def)
  moreover have "fan_rank (fan_enter items i (s\<lparr>sem := x\<rparr>)) < fan_rank s" for x
    using enter_rank [of i "s\<lparr>sem := x\<rparr>" items] i by simp
  ultimately show ?thesis
    using end_rank [OF i(1), of EndCancelled] enter_rank [OF i(1), of items] i(2)
    by (simp add: fan_start_def split: option.splits)
qed

lemma wake_rank:
  assumes i: "i < length (pcs s)" "pcs s ! i = Queued"
  shows "fan_rank (fan_wake items i s) < fan_rank s"
proof -
  have "fan_rank (fan_end i EndCancelled (s\<lparr>sem := x\<rparr>)) < fan_rank s" for x
    using end_rank [of i "s\<lparr>sem := x\<rparr>"] i by simp
  moreover have "fan_rank (fan_enter items i (s\<lparr>sem := x\<rparr>)) < fan_rank s" for x
    using enter_rank [of i "s\<lparr>sem := x\<rparr>" items] i by simp
  ultimately show ?thesis by (simp add: fan_wake_def)
qed

lemma fn_rank:
  assumes i: "i < length (pcs s)" "pcs s ! i = InFn"
  shows "fan_rank (fan_fn c i s) < fan_rank s"
proof -
  have pcs: "pcs (fan_release s') = pcs s'" for s' :: "('i, 'r) fan" by (simp add: fan_release_def)
  show ?thesis
    using end_rank [of i "fan_release (s\<lparr>slots := x\<rparr>)" for x]
      end_rank [of i "fan_release (s\<lparr>failed := True\<rparr>)"] i
    by (cases c) (simp_all add: fan_fn_def pcs)
qed

lemma group_rank:
  "fan_rank (fan_group (g, t, ab) s) =
     sum_list (map pc_rank (pcs s)) + (if final s = None then 4 else 0) +
     of_bool (must_cancel t) + of_bool (\<not> aborting g) + 2 * of_bool (rearm_due s)"
  by (simp add: fan_group_def fan_rank_def fan_abort_def Let_def)

lemma done_rank:
  assumes i: "i < length (pcs s)" "pcs s ! i = Ended x"
  shows "fan_rank (fan_done i s) < fan_rank s"
proof -
  obtain g t ab where r: "group_task_done x (grp s) (caller s) = (g, t, ab)"
    by (metis prod_cases3)
  have "sum_list (map pc_rank ((pcs s)[i := Reaped x])) < sum_list (map pc_rank (pcs s))"
    using rank_update [OF i(1), of "Reaped x"] i(2) by simp
  moreover have "of_bool (must_cancel t) + of_bool (\<not> aborting g)
      \<le> (of_bool (must_cancel (caller s)) + of_bool (\<not> aborting (grp s)) :: nat)"
    using r by (auto simp: group_task_done_def Let_def split: task_end.splits if_splits)
  moreover have "fan_rank (fan_done i s) =
      sum_list (map pc_rank ((pcs s)[i := Reaped x])) + (if final s = None then 4 else 0) +
      of_bool (must_cancel t) + of_bool (\<not> aborting g) + 2 * of_bool (rearm_due s)"
    by (simp add: fan_done_def i(2) r group_rank del: sum_list_map_eq_sum_count)
  ultimately show ?thesis unfolding fan_rank_def by linarith
qed

lemma parent_rank:
  assumes fin: "final s = None" and en: "must_cancel (caller s) \<or> all_reaped s"
    and due: "\<not> rearm_due s"
  shows "fan_rank (fan_parent ver s) < fan_rank s"
proof -
  obtain g t ab where r: "group_parent_wake (grp s) (caller s) = (g, t, ab)"
    by (metis prod_cases3)
  have w: "of_bool (\<not> aborting g) \<le> (of_bool (\<not> aborting (grp s)) :: nat)"
    "\<not> must_cancel t" using r by (auto simp: group_parent_wake_def split: if_splits)
  obtain e t' du where x: "group_exit ver g t = (e, t', du)" by (metis prod_cases3)
  show ?thesis
  proof (cases "all_reaped s")
    case True
    have eq: "fan_rank (fan_parent ver s) = sum_list (map pc_rank (pcs s)) + of_bool (must_cancel t')
        + of_bool (\<not> aborting g) + 2 * of_bool du"
      using True x by (simp add: fan_parent_def r Let_def fan_rank_def)
    have rs: "fan_rank s = sum_list (map pc_rank (pcs s)) + 4 +
      of_bool (must_cancel (caller s)) + of_bool (\<not> aborting (grp s)) + 2 * of_bool (rearm_due s)"
      by (simp add: fan_rank_def fin)
    have "of_bool (must_cancel t') \<le> (1::nat)" "of_bool du \<le> (1::nat)" by simp_all
    then show ?thesis using w(1) unfolding eq rs by linarith
  next
    case False
    then have eq: "fan_parent ver s = fan_group (g, t, ab) s" by (simp add: fan_parent_def r Let_def)
    have "must_cancel (caller s)" using False en by simp
    then show ?thesis using w unfolding eq group_rank unfolding fan_rank_def by simp
  qed
qed

context fan_handler
begin

lemma internal_rank:
  assumes inv: "fan_inv items k s" and st: "fan_step ver items handler s e = Some t"
    and int: "\<not> external e"
  shows "fan_rank t < fan_rank s"
proof -
  have en: "fan_enabled ver s e" and t: "t = fan_do ver items handler s e"
    using st by (auto simp: fan_step_def split: if_splits)
  show ?thesis
  proof (cases e)
    case (EDone i)
    then obtain x where "pcs s ! i = Ended x" using en by (auto split: pc.splits)
    then show ?thesis using EDone en t by (simp add: done_rank)
  next
    case EParent
    moreover have "\<not> rearm_due s" using EParent en fan_invD(6) [OF inv] by (auto simp: inv_final_def)
    ultimately show ?thesis using en t by (simp add: parent_rank)
  next
    case ERearm
    then show ?thesis using en t by (simp add: fan_rank_def)
  qed (use en t int in \<open>simp_all add: start_rank wake_rank fn_rank\<close>)
qed

lemma external_rank:
  assumes "fan_step ver items handler s e = Some t" and "external e"
  shows "fan_rank t \<le> fan_rank s + 1"
  using assms by (cases e) (auto simp: fan_step_def fan_rank_def split: if_splits)

lemma progress:
  assumes inv: "fan_inv items k s" and k: "k \<noteq> Some 0" and nd: "\<not> (final s \<noteq> None \<and> \<not> rearm_due s)"
  shows "\<exists>e t. \<not> external e \<and> fan_step ver items handler s e = Some t"
proof -
  note D = fan_invD [OF inv]
  have enab: "\<exists>e t. \<not> external e \<and> fan_step ver items handler s e = Some t"
    if "fan_enabled ver s e" and "\<not> external e" for e :: "'v fevent"
    using that by (auto simp: fan_step_def)
  show ?thesis
  proof (cases "final s = None")
    case False
    then show ?thesis using nd enab [of ERearm] by simp
  next
    case fin: True
    show ?thesis
    proof (cases "all_reaped s")
      case True
      then show ?thesis using enab [of EParent] fin by simp
    next
      case False
      then obtain i where i: "i < length (pcs s)" "\<And>x. pcs s ! i \<noteq> Reaped x"
        by (auto simp: all_reaped_iff)
      show ?thesis
      proof (cases "pcs s ! i")
        case Created
        then show ?thesis using enab [of "EStart i"] i by simp
      next
        case InFn
        then show ?thesis using enab [of "EFn i undefined"] i by simp
      next
        case (Ended x)
        then show ?thesis using enab [of "EDone i"] i fin by simp
      next
        case (Reaped x)
        then show ?thesis using i by simp
      next
        case Queued
        have "Queued \<in> set (pcs s)" using i(1) Queued nth_mem by metis
        then obtain k' m where km: "k = Some k'" "sem s = Some m"
          using D(1) by (auto simp: inv_sem_def split: option.splits)
        have m: "sem_good m" "sem_free m + cnt (\<lambda>p. p = InFn) (pcs s) = k'"
          "dom (sem_state m) = {i. i < length (pcs s) \<and> pcs s ! i = Queued}"
          "\<forall>i. sem_state m i = Some WCancelled \<longrightarrow> creq s ! i"
          using D(1) km by (auto simp: inv_sem_def)
        have "sem_state m i \<noteq> None" using m(3) i Queued by blast
        from asem.waiter_can_run [OF m(1) this]
        show ?thesis
        proof
          assume "\<exists>j w. sem_state m j = Some w \<and> w \<noteq> WPending"
          then obtain j w where j: "sem_state m j = Some w" "w \<noteq> WPending" by blast
          then have "j < length (pcs s)" "pcs s ! j = Queued" using m(3) by blast+
          moreover have "w = WGranted \<or> w = WCancelled \<and> creq s ! j"
            using j m(4) by (cases w) auto
          ultimately show ?thesis using enab [of "EWake j"] km(2) j(1) by simp
        next
          assume "sem_free m = 0"
          then have "0 < cnt (\<lambda>p. p = InFn) (pcs s)" using m(2) k km(1) by simp
          then obtain j where "j < length (pcs s)" "pcs s ! j = InFn" by (auto simp: cnt_pos_iff)
          then show ?thesis using enab [of "EFn j undefined"] by simp
        qed
      qed
    qed
  qed
qed

end

end
