(* ===== verification/Fanout_Runs.thy ===== *)
theory Fanout_Runs
  imports Fanout_Inv "HOL-Library.Multiset"
begin

text \<open>
  What a whole run of the fan-out shows, for every schedule and every client handler: where a
  result comes from, that a stopped pipeline calls the function no more, where each error
  comes from, what the caller's cancel count is when the group has been left, and that a run
  ends. \<open>fan_run\<close> is the interface the clients interpret.
\<close>

section \<open>What one step can change\<close>

lemmas fan_change_defs =
  fan_start_def fan_wake_def fan_fn_def fan_done_def fan_parent_def fan_enter_def fan_end_def
  fan_release_def fan_group_def fan_abort_def Let_def

lemma fan_stepD:
  assumes "fan_step ver items handler s e = Some t"
  shows "fan_enabled ver s e" and "t = fan_do ver items handler s e"
  using assms by (simp_all add: fan_step_def split: if_splits)

lemma fan_parent_fields [simp]:
  "calls (fan_parent ver s) = calls s"
  "slots (fan_parent ver s) = slots s"
  "failed (fan_parent ver s) = failed s"
  "pcs (fan_parent ver s) = pcs s"
  "caller_probe (fan_parent ver s) = caller_probe s"
  by (simp_all add: fan_parent_def Let_def split: prod.splits)

lemma fan_done_fields [simp]:
  "calls (fan_done i s) = calls s"
  "slots (fan_done i s) = slots s"
  "failed (fan_done i s) = failed s"
  "caller_probe (fan_done i s) = caller_probe s"
  by (simp_all add: fan_done_def split: pc.splits)

lemma fan_task_fields [simp]:
  "grp (fan_start items i s) = grp s" "caller (fan_start items i s) = caller s"
  "caller_probe (fan_start items i s) = caller_probe s" "failed (fan_start items i s) = failed s"
  "slots (fan_start items i s) = slots s" "final (fan_start items i s) = final s"
  "rearm_due (fan_start items i s) = rearm_due s"
  "grp (fan_wake items i s) = grp s" "caller (fan_wake items i s) = caller s"
  "caller_probe (fan_wake items i s) = caller_probe s" "failed (fan_wake items i s) = failed s"
  "slots (fan_wake items i s) = slots s" "final (fan_wake items i s) = final s"
  "rearm_due (fan_wake items i s) = rearm_due s"
  "grp (fan_fn c i s) = grp s" "caller (fan_fn c i s) = caller s"
  "caller_probe (fan_fn c i s) = caller_probe s" "calls (fan_fn c i s) = calls s"
  "final (fan_fn c i s) = final s" "rearm_due (fan_fn c i s) = rearm_due s"
  by (simp_all add: fan_start_def fan_wake_def fan_fn_def fan_enter_def fan_end_def
        fan_release_def split: option.splits completion.splits)

text \<open>Fail-fast: no call starts once the latch is set or the group is aborting.\<close>

definition stopped :: "('i, 'r) fan \<Rightarrow> bool" where
  "stopped s = (failed s \<or> aborting (grp s))"

lemma start_calls:
  "stopped s \<Longrightarrow> (aborting (grp s) \<longrightarrow> creq s ! i) \<Longrightarrow> calls (fan_start items i s) = calls s"
  "stopped s \<Longrightarrow> (aborting (grp s) \<longrightarrow> creq s ! i) \<Longrightarrow> calls (fan_wake items i s) = calls s"
  by (auto simp: stopped_def fan_start_def fan_wake_def fan_enter_def fan_end_def fan_release_def
        split: option.splits)

lemma group_keeps_aborting:
  "aborting g \<Longrightarrow> aborting (fst (group_task_done x g t))"
  "aborting g \<Longrightarrow> aborting (fst (group_parent_wake g t))"
  by (auto simp: group_task_done_def group_parent_wake_def Let_def split: task_end.splits)

lemma fan_done_grp:
  "pcs s ! i = Ended x \<Longrightarrow>
     grp (fan_done i s) = fst (group_task_done x (grp s) (caller s)) \<and>
     caller (fan_done i s) = fst (snd (group_task_done x (grp s) (caller s)))"
  by (simp add: fan_done_def)

lemma fan_parent_grp:
  "grp (fan_parent ver s) = fst (group_parent_wake (grp s) (caller s))"
  by (simp add: fan_parent_def Let_def split: prod.splits)

lemma enabled_done:
  assumes "fan_enabled ver s (EDone i)"
  obtains x where "pcs s ! i = Ended x" and "i < length (pcs s)" and "final s = None"
  using assms by (auto split: pc.splits)

lemma stopped_step:
  assumes inv: "fan_inv items k s" and st: "fan_step ver items handler s e = Some t"
    and stop: "stopped s"
  shows "stopped t \<and> calls t = calls s"
proof -
  note D = fan_invD [OF inv] and en = fan_stepD(1) [OF st] and t = fan_stepD(2) [OF st]
  have creq: "aborting (grp s) \<longrightarrow> creq s ! i"
    if "i < length (pcs s)" "live (pcs s ! i)" for i
    using inv_tasks_at [OF D(2) that(1)] that(2) by (simp add: creq_ok_def)
  show ?thesis
  proof (cases e)
    case (EStart i)
    then show ?thesis using en t stop creq [of i] start_calls(1) [OF stop, of i items]
      by (simp add: stopped_def)
  next
    case (EWake i)
    then show ?thesis using en t stop creq [of i] start_calls(2) [OF stop, of i items]
      by (simp add: stopped_def)
  next
    case (EFn i f)
    then show ?thesis using t stop
      by (auto simp: stopped_def fan_fn_def fan_end_def fan_release_def split: completion.splits)
  next
    case (EDone i)
    then obtain x where "pcs s ! i = Ended x" using en enabled_done by metis
    then show ?thesis using EDone t stop group_keeps_aborting(1) [of "grp s" x "caller s"]
      by (auto simp: stopped_def fan_done_grp)
  next
    case EParent
    then show ?thesis using t stop group_keeps_aborting(2) [of "grp s" "caller s"]
      by (auto simp: stopped_def fan_parent_grp)
  qed (use t stop in \<open>simp_all add: stopped_def\<close>)
qed

section \<open>The caller's signals only rise while the group runs\<close>

lemma group_done_count:
  "num_cancels (fst (snd (group_task_done x g t))) + of_bool (parent_cancel_requested g) =
     num_cancels t + of_bool (parent_cancel_requested (fst (group_task_done x g t)))"
  "rearms (fst (snd (group_task_done x g t))) = rearms t"
  by (auto simp: group_task_done_def Let_def split: task_end.splits)

lemma group_done_mono:
  "num_cancels t \<le> num_cancels (fst (snd (group_task_done x g t)))"
  by (auto simp: group_task_done_def Let_def split: task_end.splits)

lemma group_wake_fields [simp]:
  "num_cancels (fst (snd (group_parent_wake g t))) = num_cancels t"
  "rearms (fst (snd (group_parent_wake g t))) = rearms t"
  "parent_cancel_requested (fst (group_parent_wake g t)) = parent_cancel_requested g"
  "errors (fst (group_parent_wake g t)) = errors g"
  "base_error (fst (group_parent_wake g t)) = base_error g"
  "entry_cancelling (fst (group_parent_wake g t)) = entry_cancelling g"
  "entry_probe (fst (group_parent_wake g t)) = entry_probe g"
  "requested_before (fst (group_parent_wake g t)) = requested_before g"
  "\<not> must_cancel (fst (snd (group_parent_wake g t)))"
  by (auto simp: group_parent_wake_def)

lemma group_done_fields [simp]:
  "entry_cancelling (fst (group_task_done x g t)) = entry_cancelling g"
  "entry_probe (fst (group_task_done x g t)) = entry_probe g"
  "requested_before (fst (group_task_done x g t)) = requested_before g"
  by (auto simp: group_task_done_def Let_def split: task_end.splits)

lemma fan_parent_cases:
  assumes "fan_enabled ver s EParent"
  obtains
    (waits) "\<not> all_reaped s" and "final (fan_parent ver s) = final s"
      and "rearm_due (fan_parent ver s) = rearm_due s"
      and "caller (fan_parent ver s) = fst (snd (group_parent_wake (grp s) (caller s)))"
  | (leaves) r u due where "all_reaped s"
      and "group_exit ver (fst (group_parent_wake (grp s) (caller s)))
             (fst (snd (group_parent_wake (grp s) (caller s)))) = (r, u, due)"
      and "final (fan_parent ver s) = Some r" and "caller (fan_parent ver s) = u"
      and "rearm_due (fan_parent ver s) = due"
proof (cases "all_reaped s")
  case True
  obtain r u due where x: "group_exit ver (fst (group_parent_wake (grp s) (caller s)))
      (fst (snd (group_parent_wake (grp s) (caller s)))) = (r, u, due)"
    by (metis prod_cases3)
  show ?thesis using leaves [OF True x] True x by (simp add: fan_parent_def Let_def)
next
  case False
  show ?thesis using waits False by (simp add: fan_parent_def Let_def)
qed

lemma probe_cancelled_mono:
  "probe_cancelled p t \<Longrightarrow> num_cancels t \<le> num_cancels u \<Longrightarrow> rearms u = rearms t \<Longrightarrow>
     probe_cancelled p u"
  by (auto simp: probe_defs)


text \<open>Once the group has been left, only the deferred re-arm is still to come.\<close>

lemma after_final:
  assumes inv: "fan_inv items k s" and fin: "final s = Some r"
    and st: "fan_step ver items handler s e = Some t"
  shows "e = ERearm" and "rearm_due s" and "\<exists>x. r = Some x"
    and "t = s\<lparr>caller := rearm_pending_cancel ver False (entry_cancelling (grp s))
                 (entry_probe (grp s)) (caller s), rearm_due := False\<rparr>"
proof -
  have reaped: "\<exists>x. pcs s ! i = Reaped x" if "i < length (pcs s)" for i
    using final_None [OF fan_invD(6) [OF inv] that] fin by auto
  note en = fan_stepD(1) [OF st] and t = fan_stepD(2) [OF st]
  show e: "e = ERearm"
    using en fin by (cases e) (auto dest!: reaped)
  then show due: "rearm_due s" using en by simp
  show "\<exists>x. r = Some x"
    using fan_invD(6) [OF inv] due fin by (auto simp: inv_final_def split: option.splits)
  show "t = s\<lparr>caller := rearm_pending_cancel ver False (entry_cancelling (grp s))
                 (entry_probe (grp s)) (caller s), rearm_due := False\<rparr>"
    using t e by simp
qed

text \<open>A task's own step, before the group is left.\<close>

lemma running:
  assumes inv: "fan_inv items k s" and st: "fan_step ver items handler s e = Some t"
    and e: "e \<noteq> ERearm"
  shows "final s = None" and "\<not> rearm_due s"
proof -
  show fin: "final s = None" using after_final(1) [OF inv _ st] e by (cases "final s") auto
  show "\<not> rearm_due s" using fan_invD(6) [OF inv] fin by (simp add: inv_final_running)
qed

lemma rearm_step:
  assumes inv: "fan_inv items k s" and st: "fan_step ver items handler s ERearm = Some t"
  obtains x where "final s = Some (Some x)" and "rearm_due s"
    and "t = s\<lparr>caller := rearm_pending_cancel ver False (entry_cancelling (grp s))
                 (entry_probe (grp s)) (caller s), rearm_due := False\<rparr>"
proof -
  have due: "rearm_due s" using fan_stepD(1) [OF st] by simp
  then have "final s \<noteq> None"
    using fan_invD(6) [OF inv] by (cases "final s") (simp_all add: inv_final_running)
  then obtain r where r: "final s = Some r" by blast
  show ?thesis using that r after_final(2,3,4) [OF inv r st] by blast
qed

definition over_or_stopping :: "('i, 'r) fan \<Rightarrow> bool" where
  "over_or_stopping s = (fan_stopping s \<or> (\<exists>x. final s = Some (Some x)))"

lemma failed_step:
  assumes "fan_step ver items handler s e = Some t" and "failed s"
  shows "failed t"
  using fan_stepD [OF assms(1)] assms(2)
  by (cases e) (auto simp: fan_fn_def fan_end_def fan_release_def split: completion.splits)

lemma probe_step:
  assumes "fan_step ver items handler s e = Some t"
  shows "caller_probe t = caller_probe s"
  using fan_stepD [OF assms] by (cases e) auto

lemma probe_cancelled_step:
  assumes inv: "fan_inv items k s" and st: "fan_step ver items handler s e = Some t"
    and e: "e \<noteq> ERearm" "e \<noteq> EParent"
    and p: "probe_cancelled p (caller s)" and le: "rearms_at_entry p \<le> rearms (caller s)"
  shows "probe_cancelled p (caller t)"
proof (cases e)
  case (EDone i)
  then obtain x where "pcs s ! i = Ended x" using fan_stepD(1) [OF st] enabled_done by metis
  then show ?thesis
    using EDone fan_stepD(2) [OF st] p
      probe_cancelled_mono [OF p group_done_mono group_done_count(2), of x "grp s"]
    by (simp add: fan_done_grp)
next
  case ECancel
  then show ?thesis using fan_stepD(2) [OF st] p by simp
next
  case ERearmOther
  then show ?thesis using fan_stepD [OF st] p le by (auto simp: probe_defs)
qed (use fan_stepD(2) [OF st] p e in \<open>simp_all\<close>)

lemma exit_normal:
  assumes inv: "fan_inv items k s" and x: "group_exit ver (fst (group_parent_wake (grp s) (caller s)))
      (fst (snd (group_parent_wake (grp s) (caller s)))) = (None, u, due)"
  shows "num_cancels u = num_cancels (caller s)" and "rearms u = rearms (caller s)"
proof -
  obtain g t ab where r: "group_parent_wake (grp s) (caller s) = (g, t, ab)"
    by (metis prod_cases3)
  have "group_ok (grp s)" using fan_invD(4) [OF inv] by (simp add: inv_group_def)
  note W = parent_wake_group [OF r this]
  have "u = t" using group_exit_result [OF x] W(1) r by simp
  then show "num_cancels u = num_cancels (caller s)" "rearms u = rearms (caller s)"
    using W(6,7) by simp_all
qed

lemma stopping_step:
  assumes inv: "fan_inv items k s" and inv': "fan_inv items k t"
    and st: "fan_step ver items handler s e = Some t"
    and stop: "over_or_stopping s"
    and le: "rearms_at_entry (caller_probe s) \<le> rearms (caller s)"
  shows "over_or_stopping t"
proof -
  consider (rearm) "e = ERearm" | (parent) "e = EParent" | (task) "e \<noteq> ERearm" "e \<noteq> EParent"
    by blast
  then show ?thesis
  proof cases
    case rearm
    show ?thesis using rearm_step [OF inv st [unfolded rearm]]
      by (metis over_or_stopping_def fan.simps(11) fan.surjective fan.update_convs(7)
          fan.update_convs(11) fan.select_convs(10))
  next
    case task
    have fin: "final s = None" using running [OF inv st task(1)] by simp
    then have "fan_stopping s" using stop by (simp add: over_or_stopping_def)
    then show ?thesis
      using failed_step [OF st] probe_cancelled_step [OF inv st task _ le] probe_step [OF st]
      by (auto simp: over_or_stopping_def fan_stopping_def)
  next
    case parent
    have fin: "final s = None" using running [OF inv st] parent by simp
    then have stop': "fan_stopping s" using stop by (simp add: over_or_stopping_def)
    have t: "t = fan_parent ver s" and en: "fan_enabled ver s EParent"
      using fan_stepD [OF st] parent by simp_all
    from en show ?thesis
    proof (cases rule: fan_parent_cases)
      case waits
      then show ?thesis using stop' t probe_cancelled_mono [of "caller_probe s" "caller s" "caller t"]
        by (auto simp: over_or_stopping_def fan_stopping_def)
    next
      case (leaves r u due)
      show ?thesis
      proof (cases r)
        case (Some x)
        then show ?thesis using leaves t by (simp add: over_or_stopping_def)
      next
        case None
        note E = exit_normal [OF inv leaves(2) [unfolded None]]
        have "fan_stopping t"
          using stop' t leaves(4) probe_cancelled_mono [of "caller_probe s" "caller s" u] E
          by (auto simp: fan_stopping_def)
        then show ?thesis by (simp add: over_or_stopping_def)
      qed
    qed
  qed
qed


section \<open>The interface of a run\<close>

text \<open>
  A client fixes its handler, the items and its slot budget (\<open>None\<close>: no semaphore). The
  machine it gets has bounded runs that can always be completed.
\<close>

locale fan_run = fan_handler handler
  for handler :: "nat \<Rightarrow> bool \<Rightarrow> bool \<Rightarrow> 'v fn_end \<Rightarrow> 'r completion" +
  fixes ver :: pyver and items :: "'i list" and k :: "nat option"
  assumes some_slot: "k \<noteq> Some 0"

sublocale fan_run \<subseteq> machine: live_machine "fan_step ver items handler" "fan_inv items k"
  external fan_rank 1 "\<lambda>s. final s \<noteq> None \<and> \<not> rearm_due s"
proof
  show "fan_inv items k t" if "fan_inv items k s" "fan_step ver items handler s e = Some t"
    for s e t using that by (rule step_inv)
  show "fan_rank t < fan_rank s"
    if "fan_inv items k s" "fan_step ver items handler s e = Some t" "\<not> external e"
    for s e t using that by (rule internal_rank)
  show "fan_rank t \<le> fan_rank s + 1"
    if "fan_step ver items handler s e = Some t" "external e" for s e t
    using that by (rule external_rank)
  show "\<exists>e t. \<not> external e \<and> fan_step ver items handler s e = Some t"
    if "fan_inv items k s" "\<not> (final s \<noteq> None \<and> \<not> rearm_due s)" for s
    using that(1) some_slot that(2) by (rule progress)
qed

context fan_run
begin

abbreviation go :: "task \<Rightarrow> 'v fevent list \<Rightarrow> ('i, 'r) fan option" where
  "go t0 es \<equiv> run (fan_step ver items handler) (fan_init ver items k t0) es"

lemma go_inv: "go t0 es = Some s \<Longrightarrow> fan_inv items k s"
  using machine.inv_run [OF fan_init_inv] .

lemmas go_trace = machine.run_trace [OF fan_init_inv]

text \<open>At most \<open>k\<close> calls are in flight.\<close>

lemma in_flight_bound:
  assumes "go t0 es = Some s" and "k = Some c"
  shows "cnt (\<lambda>p. p = InFn) (pcs s) \<le> c"
  using fan_invD(1) [OF go_inv [OF assms(1)]] assms(2)
  by (auto simp: inv_sem_def split: option.splits)

text \<open>After a stop no call is made.\<close>

lemma no_call_after_stop:
  assumes "go t0 es = Some s" and "stopped s" and "run (fan_step ver items handler) s fs = Some t"
  shows "calls t = calls s"
proof -
  have "stopped t \<and> calls t = calls s"
    using go_inv [OF assms(1)] assms(3)
  proof (rule machine.run_trace [where P = "\<lambda>_ t. stopped t \<and> calls t = calls s"])
    show "stopped s \<and> calls s = calls s" using assms(2) by simp
    show "stopped t \<and> calls t = calls s"
      if "fan_inv items k u" "stopped u \<and> calls u = calls s"
        "fan_step ver items handler u e = Some t" for es u e t
      using stopped_step [OF that(1,3)] that(2) by simp
  qed
  then show ?thesis by simp
qed

text \<open>A run ends: its internal steps are bounded, and it can always be completed.\<close>

lemma rank_init: "fan_rank (fan_init ver items k t0 :: ('i, 'r) fan) \<le> 4 * length items + 6"
  by (simp add: fan_rank_def fan_init_def group_begin_exit_def group_enter_def Let_def
      sum_list_replicate)

lemma steps_bounded:
  assumes "go t0 es = Some s"
  shows "cnt (\<lambda>e. \<not> external e) es \<le> 4 * length items + 6 + cnt external es"
  using machine.internal_steps_bounded [OF fan_init_inv assms] rank_init [of t0] by simp

lemma can_complete:
  assumes "go t0 es = Some s"
  shows "\<exists>fs t. go t0 (es @ fs) = Some t \<and> final t \<noteq> None \<and> \<not> rearm_due t \<and>
           (\<forall>e \<in> set fs. \<not> external e)"
  using machine.completes [OF go_inv [OF assms]] assms by (auto simp: run_append)

end


section \<open>Where results and errors come from\<close>

lemma creq_abort_step:
  assumes inv: "fan_inv items k s" and st: "fan_step ver items handler s e = Some t"
    and ab: "aborting (grp s)"
  shows "aborting (grp t)"
proof (cases e)
  case (EDone i)
  then obtain x where "pcs s ! i = Ended x" using fan_stepD(1) [OF st] enabled_done by metis
  then show ?thesis using EDone fan_stepD(2) [OF st] ab
    by (simp add: fan_done_grp group_keeps_aborting)
next
  case EParent
  then show ?thesis using fan_stepD(2) [OF st] ab by (simp add: fan_parent_grp group_keeps_aborting)
qed (use fan_stepD(2) [OF st] ab in simp_all)

lemma slots_step:
  assumes "fan_step ver items handler s e = Some t" and "slots t ! i = Some r"
  shows "slots s ! i = Some r \<or>
    (\<exists>f. e = EFn i f \<and> handler i (fan_stopping s) (creq s ! i) f = Store r \<and>
         i < length (pcs s))"
proof (cases e)
  case (EFn j f)
  then show ?thesis using fan_stepD [OF assms(1)] assms(2)
    by (cases "handler j (fan_stopping s) (creq s ! j) f"; cases "i = j";
        cases "j < length (slots s)")
      (auto simp: fan_fn_def fan_end_def fan_release_def list_update_beyond)
qed (use fan_stepD [OF assms(1)] assms(2) in simp_all)

lemma pcs_step:
  assumes "fan_step ver items handler s e = Some t" and i: "i < length (pcs s)"
    and "end_of (pcs t ! i) = Some (EndFailed x)"
  shows "end_of (pcs s ! i) = Some (EndFailed x) \<or>
    (\<exists>f. e = EFn i f \<and> handler i (fan_stopping s) (creq s ! i) f = Propagate x)"
proof -
  note en = fan_stepD(1) [OF assms(1)] and t = fan_stepD(2) [OF assms(1)]
  show ?thesis
  proof (cases e)
    case (EStart j)
    then show ?thesis using en t assms(3) i
      by (cases "i = j") (auto simp: fan_start_def fan_enter_def fan_end_def fan_release_def
          split: if_splits option.splits)
  next
    case (EWake j)
    then show ?thesis using en t assms(3) i
      by (cases "i = j") (auto simp: fan_wake_def fan_enter_def fan_end_def fan_release_def
          split: if_splits option.splits)
  next
    case (EFn j f)
    then show ?thesis using en t assms(3) i
      by (cases "i = j") (auto simp: fan_fn_def fan_end_def fan_release_def
          split: if_splits completion.splits)
  next
    case (EDone j)
    then obtain y where "pcs s ! j = Ended y" using en enabled_done by metis
    then show ?thesis using EDone t assms(3) i by (cases "i = j") (auto simp: fan_done_def)
  qed (use t assms(3) in simp_all)
qed

text \<open>How often the await of item \<open>i\<close> ended so far.\<close>

definition fn_ends :: "nat \<Rightarrow> 'v fevent list \<Rightarrow> nat" where
  "fn_ends i es = cnt (\<lambda>e. case e of EFn j f \<Rightarrow> i = j | _ \<Rightarrow> False) es"

fun before_end :: "pc \<Rightarrow> bool" where
  "before_end Created = True"
| "before_end Queued = True"
| "before_end InFn = True"
| "before_end _ = False"

lemma before_end_step:
  assumes "fan_step ver items handler s e = Some t" and i: "i < length (pcs s)"
  shows "before_end (pcs t ! i) \<longrightarrow> before_end (pcs s ! i) \<and> \<not> (\<exists>f. e = EFn i f)"
    and "(\<exists>f. e = EFn i f) \<longrightarrow> before_end (pcs s ! i)"
    and "length (pcs t) = length (pcs s)"
proof -
  note en = fan_stepD(1) [OF assms(1)] and t = fan_stepD(2) [OF assms(1)]
  have "(before_end (pcs t ! i) \<longrightarrow> before_end (pcs s ! i) \<and> \<not> (\<exists>f. e = EFn i f)) \<and>
      ((\<exists>f. e = EFn i f) \<longrightarrow> before_end (pcs s ! i)) \<and> length (pcs t) = length (pcs s)"
  proof (cases e)
    case (EStart j)
    then show ?thesis using en t i
      by (cases "i = j") (auto simp: fan_start_def fan_enter_def fan_end_def fan_release_def
          split: option.splits)
  next
    case (EWake j)
    then show ?thesis using en t i
      by (cases "i = j") (auto simp: fan_wake_def fan_enter_def fan_end_def fan_release_def
          split: option.splits)
  next
    case (EFn j f)
    then show ?thesis using en t i
      by (cases "i = j") (auto simp: fan_fn_def fan_end_def fan_release_def
          split: completion.splits)
  next
    case (EDone j)
    then obtain y where "pcs s ! j = Ended y" using en enabled_done by metis
    then show ?thesis using EDone t i by (cases "i = j") (auto simp: fan_done_def)
  qed (use t in simp_all)
  then show "before_end (pcs t ! i) \<longrightarrow> before_end (pcs s ! i) \<and> \<not> (\<exists>f. e = EFn i f)"
    "(\<exists>f. e = EFn i f) \<longrightarrow> before_end (pcs s ! i)" "length (pcs t) = length (pcs s)"
    by simp_all
qed

lemma fn_ends_snoc:
  "fn_ends i (es @ [e]) = fn_ends i es + of_bool (\<exists>f. e = EFn i f)"
  by (cases e) (auto simp: fn_ends_def)

lemma fn_ends_le: "fn_ends i es \<le> cnt (\<lambda>e. \<not> external e) es"
  by (induction es) (auto simp: fn_ends_def split: fevent.splits)

lemma fn_ends_unique:
  assumes "fn_ends i es \<le> 1" and "EFn i f \<in> set es" and "EFn i g \<in> set es"
  shows "f = g"
proof -
  define P where "P = (\<lambda>e :: 'a fevent. case e of EFn j f \<Rightarrow> i = j | _ \<Rightarrow> False)"
  have in_f: "EFn i f \<in> set (filter P es)" "EFn i g \<in> set (filter P es)"
    using assms(2,3) by (simp_all add: P_def)
  have "length (filter P es) \<le> 1" using assms(1) by (simp add: fn_ends_def cnt_def P_def)
  then show ?thesis using in_f by (cases "filter P es") auto
qed


section \<open>The caller's cancel count, event by event\<close>

definition cancels :: "'v fevent list \<Rightarrow> nat" where
  "cancels es = cnt (\<lambda>e. case e of ECancel \<Rightarrow> True | _ \<Rightarrow> False) es"

definition rearms_seen :: "'v fevent list \<Rightarrow> nat" where
  "rearms_seen es = cnt (\<lambda>e. case e of ERearmOther \<Rightarrow> True | _ \<Rightarrow> False) es"

lemma cancels_simps [simp]:
  "cancels [] = 0" "cancels (es @ [ECancel]) = Suc (cancels es)"
  "rearms_seen [] = 0" "rearms_seen (es @ [ERearmOther]) = Suc (rearms_seen es)"
  by (simp_all add: cancels_def rearms_seen_def)

lemma cancels_snoc:
  "\<not> external e \<Longrightarrow> cancels (es @ [e]) = cancels es \<and> rearms_seen (es @ [e]) = rearms_seen es"
  "cancels (es @ [ERearmOther]) = cancels es"
  "rearms_seen (es @ [ECancel]) = rearms_seen es"
  by (cases e) (simp_all add: cancels_def rearms_seen_def)

lemma external_cancels: "(\<exists>e \<in> set es. external e) \<longleftrightarrow> 0 < cancels es \<or> 0 < rearms_seen es"
proof (induction es rule: rev_induct)
  case (snoc e es)
  then show ?case by (cases e) (auto simp: cancels_snoc)
qed simp

text \<open>
  What the state knows of the caller, given how it entered: the count while the group runs
  (its own request included), the signals the probes saw, and why a cancel is due.
\<close>

definition caller_ok :: "task \<Rightarrow> 'v fevent list \<Rightarrow> ('i, 'r) fan \<Rightarrow> bool" where
  "caller_ok t0 es s \<longleftrightarrow>
     caller_probe s = probe_init t0 \<and> entry_probe (grp s) = probe_init t0 \<and>
     entry_cancelling (grp s) = num_cancels t0 \<and>
     (final s = None \<longrightarrow>
        num_cancels (caller s) =
          num_cancels t0 + cancels es + of_bool (parent_cancel_requested (grp s)) \<and>
        rearms (caller s) = rearms t0 + rearms_seen es) \<and>
     (0 < rearms_seen es \<longrightarrow> 0 < num_cancels t0 + cancels es)"

text \<open>A live cancel: one due at the entry, or one that came from outside since.\<close>

definition live_cancel :: "task \<Rightarrow> 'v fevent list \<Rightarrow> bool" where
  "live_cancel t0 es \<longleftrightarrow> must_cancel t0 \<or> 0 < cancels es \<or> 0 < rearms_seen es"

definition cause_ok :: "task \<Rightarrow> 'v fevent list \<Rightarrow> ('i, 'r) fan \<Rightarrow> bool" where
  "cause_ok t0 es s \<longleftrightarrow>
     (propagate (grp s) \<longrightarrow> live_cancel t0 es) \<and>
     (final s = None \<longrightarrow> must_cancel (caller s) \<longrightarrow> aborting (grp s) \<or> live_cancel t0 es)"

lemma live_cancel_snoc [simp]:
  "live_cancel t0 es \<Longrightarrow> live_cancel t0 (es @ [e])"
  "live_cancel t0 (es @ [ECancel])"
  "live_cancel t0 (es @ [ERearmOther])"
  by (cases e; auto simp: live_cancel_def cancels_snoc)+

lemma caller_step:
  assumes inv: "fan_inv items k s" and st: "fan_step ver items handler s e = Some t"
    and ok: "caller_ok t0 es s"
  shows "caller_ok t0 (es @ [e]) t"
proof (cases e)
  case (EDone i)
  then obtain x where "pcs s ! i = Ended x" using fan_stepD(1) [OF st] enabled_done by metis
  moreover have "final s = None" using running [OF inv st] EDone by simp
  ultimately show ?thesis
    using EDone fan_stepD(2) [OF st] ok group_done_count [of x "grp s" "caller s"]
    by (simp add: caller_ok_def fan_done_grp cancels_snoc)
next
  case EParent
  have t: "t = fan_parent ver s" and en: "fan_enabled ver s EParent"
    using fan_stepD [OF st] EParent by simp_all
  have fin: "final s = None" using running [OF inv st] EParent by simp
  from en show ?thesis
  proof (cases rule: fan_parent_cases)
    case waits
    then show ?thesis using EParent t ok fin
      by (simp add: caller_ok_def fan_parent_grp cancels_snoc)
  next
    case leaves
    then show ?thesis using EParent t ok
      by (simp add: caller_ok_def fan_parent_grp cancels_snoc)
  qed
next
  case ERearm
  from inv st [unfolded ERearm] show ?thesis
    by (rule rearm_step) (use ok ERearm in \<open>simp add: caller_ok_def cancels_snoc\<close>)
next
  case ECancel
  then show ?thesis using fan_stepD(2) [OF st] ok by (simp add: caller_ok_def cancels_snoc)
next
  case ERearmOther
  then show ?thesis using fan_stepD [OF st] ok by (auto simp: caller_ok_def cancels_snoc)
qed (use fan_stepD(2) [OF st] ok in \<open>simp_all add: caller_ok_def cancels_snoc\<close>)

lemma cause_step:
  assumes inv: "fan_inv items k s" and st: "fan_step ver items handler s e = Some t"
    and ok: "cause_ok t0 es s"
  shows "cause_ok t0 (es @ [e]) t"
proof (cases e)
  case (EDone i)
  then obtain x where "pcs s ! i = Ended x" using fan_stepD(1) [OF st] enabled_done by metis
  moreover have "final s = None" using running [OF inv st] EDone by simp
  ultimately show ?thesis
    using EDone fan_stepD(2) [OF st] ok
    by (cases x) (auto simp: cause_ok_def fan_done_grp group_task_done_def Let_def)
next
  case EParent
  have t: "t = fan_parent ver s" and en: "fan_enabled ver s EParent"
    using fan_stepD [OF st] EParent by simp_all
  have fin: "final s = None" using running [OF inv st] EParent by simp
  have pr: "propagate (grp t) \<longrightarrow> live_cancel t0 es"
    using t ok fin by (auto simp: cause_ok_def fan_parent_grp group_parent_wake_def split: if_splits)
  from en show ?thesis
    by (cases rule: fan_parent_cases) (use t pr in \<open>auto simp: cause_ok_def\<close>)
next
  case ERearm
  from inv st [unfolded ERearm] show ?thesis
    by (rule rearm_step) (use ok in \<open>simp add: cause_ok_def\<close>)
qed (use fan_stepD(2) [OF st] ok in \<open>auto simp: cause_ok_def\<close>)


section \<open>The caller after the group\<close>

lemma exit_state:
  assumes ok: "group_ok g" and nb: "base_error g = None" and nm: "\<not> must_cancel t"
    and num: "num_cancels t = m + of_bool (parent_cancel_requested g)"
    and x: "group_exit ver g t = (r, u, due)"
  shows "num_cancels u = m" and "rearms u = rearms t"
    and "errors g = [] \<Longrightarrow> \<not> due \<and> \<not> must_cancel u"
    and "errors g \<noteq> [] \<Longrightarrow> Py313 \<le> ver \<Longrightarrow> \<not> due \<and> must_cancel u = (0 < m)"
    and "errors g \<noteq> [] \<Longrightarrow> \<not> Py313 \<le> ver \<Longrightarrow> due \<and> \<not> must_cancel u"
  using assms
  by (auto simp: group_exit_def group_exit_old_def group_exit_313_def Let_def group_ok_def
      task_uncancel_def split: if_splits)

text \<open>\<open>after_ok\<close>: how the caller stands once the group has been left without a base error.\<close>

definition after_ok :: "pyver \<Rightarrow> task \<Rightarrow> 'v fevent list \<Rightarrow> ('i, 'r) fan \<Rightarrow> bool" where
  "after_ok ver t0 es s \<longleftrightarrow>
     (final s \<noteq> None \<longrightarrow> base_error (grp s) = None \<longrightarrow>
        num_cancels (caller s) = num_cancels t0 + cancels es \<and>
        (errors (grp s) = [] \<longrightarrow> \<not> rearm_due s \<and> \<not> must_cancel (caller s)) \<and>
        (errors (grp s) \<noteq> [] \<longrightarrow>
           (if Py313 \<le> ver
            then \<not> rearm_due s \<and> must_cancel (caller s) = (0 < num_cancels t0 + cancels es)
            else if rearm_due s
            then \<not> must_cancel (caller s) \<and> rearms (caller s) = rearms t0 + rearms_seen es
            else must_cancel (caller s) = live_cancel t0 es)))"

lemma caller_init:
  "caller_ok t0 [] (fan_init ver items k t0)"
  "cause_ok t0 [] (fan_init ver items k t0)"
  "after_ok ver t0 [] (fan_init ver items k t0)"
  "slots (fan_init ver items k t0) = replicate (length items) None"
  "pcs (fan_init ver items k t0) = replicate (length items) Created"
  by (simp_all add: caller_ok_def cause_ok_def after_ok_def live_cancel_def fan_init_def group_begin_exit_def
      group_enter_def Let_def)

lemma rearm_state:
  fixes t0 t :: task
  assumes wf: "must_cancel t0 \<longrightarrow> 0 < num_cancels t0"
    and num: "num_cancels t = num_cancels t0 + cancels es"
    and rea: "rearms t = rearms t0 + rearms_seen es" and nm: "\<not> must_cancel t"
    and seen: "0 < rearms_seen es \<longrightarrow> 0 < num_cancels t0 + cancels es"
    and old: "\<not> Py313 \<le> ver"
    and u: "u = rearm_pending_cancel ver False (num_cancels t0) (probe_init t0) t"
  shows "num_cancels u = num_cancels t0 + cancels es \<and> must_cancel u = live_cancel t0 es"
proof -
  have b: "brought_in_a_live_cancel (probe_init t0) t \<longleftrightarrow> must_cancel t0 \<or> 0 < rearms_seen es"
    using rea by (simp add: probe_defs)
  show ?thesis
  proof (cases "live_cancel t0 es")
    case True
    then have pos: "0 < num_cancels t0 + cancels es" using wf seen by (auto simp: live_cancel_def)
    have "int (num_cancels t0) - of_bool (brought_in_a_live_cancel (probe_init t0) t)
        < int (num_cancels t)"
      using True b num by (auto simp: live_cancel_def)
    then have "u = (task_cancel (task_uncancel ver t))\<lparr>rearms := Suc (rearms t)\<rparr>"
      using u by (simp add: rearm_pending_cancel_def)
    then show ?thesis using True pos num by simp
  next
    case False
    then have "u = t" using u b num by (simp add: rearm_pending_cancel_def live_cancel_def)
    then show ?thesis using False num nm by simp
  qed
qed

lemma after_step:
  assumes inv: "fan_inv items k s" and st: "fan_step ver items handler s e = Some t"
    and wf: "must_cancel t0 \<longrightarrow> 0 < num_cancels t0"
    and call: "caller_ok t0 es s" and ok: "after_ok ver t0 es s"
  shows "after_ok ver t0 (es @ [e]) t"
proof -
  consider (rearm) "e = ERearm" | (parent) "e = EParent" | (other) "e \<noteq> ERearm" "e \<noteq> EParent"
    by blast
  then show ?thesis
  proof cases
    case other
    have "final s = None" using running [OF inv st other(1)] by simp
    then have "final t = None" using fan_stepD(2) [OF st] other
      by (cases e) (simp_all add: fan_done_def split: pc.splits)
    then show ?thesis by (simp add: after_ok_def)
  next
    case rearm
    obtain x where f: "final s = Some (Some x)" and due: "rearm_due s"
      and t: "t = s\<lparr>caller := rearm_pending_cancel ver False (entry_cancelling (grp s))
                 (entry_probe (grp s)) (caller s), rearm_due := False\<rparr>"
      using rearm_step [OF inv st [unfolded rearm]] by metis
    show ?thesis
    proof (cases "base_error (grp s) = None")
      case False
      then have "base_error (grp t) \<noteq> None" by (simp add: t)
      then show ?thesis by (auto simp: after_ok_def)
    next
      case True
      then have a: "errors (grp s) \<noteq> []" "\<not> Py313 \<le> ver" "\<not> must_cancel (caller s)"
        "rearms (caller s) = rearms t0 + rearms_seen es"
        "num_cancels (caller s) = num_cancels t0 + cancels es"
        using ok f due by (auto simp: after_ok_def split: if_splits)
      have sn: "0 < rearms_seen es \<longrightarrow> 0 < num_cancels t0 + cancels es"
        using call by (simp add: caller_ok_def)
      have c: "caller t = rearm_pending_cancel ver False (num_cancels t0) (probe_init t0) (caller s)"
        using t call by (simp add: caller_ok_def)
      have "live_cancel t0 (es @ [e]) = live_cancel t0 es" "cancels (es @ [e]) = cancels es"
        using rearm by (simp_all add: live_cancel_def cancels_snoc)
      then show ?thesis
        using rearm_state [OF wf a(5) a(4) a(3) sn a(2) c] a t by (simp add: after_ok_def)
    qed
  next
    case parent
    have t: "t = fan_parent ver s" and en: "fan_enabled ver s EParent"
      using fan_stepD [OF st] parent by simp_all
    have fin: "final s = None" using running [OF inv st] parent by simp
    have ok': "group_ok (grp s)" using fan_invD(4) [OF inv] by (simp add: inv_group_def)
    have c: "num_cancels (caller s) =
        num_cancels t0 + cancels es + of_bool (parent_cancel_requested (grp s))"
      "rearms (caller s) = rearms t0 + rearms_seen es"
      using call fin by (simp_all add: caller_ok_def)
    have keep: "cancels (es @ [e]) = cancels es" "rearms_seen (es @ [e]) = rearms_seen es"
      using parent by (simp_all add: cancels_snoc)
    from en show ?thesis
    proof (cases rule: fan_parent_cases)
      case waits
      then show ?thesis using fin t by (simp add: after_ok_def)
    next
      case (leaves r u due)
      obtain g w ab where r: "group_parent_wake (grp s) (caller s) = (g, w, ab)"
        by (metis prod_cases3)
      note W = parent_wake_group [OF r ok']
      have g: "grp t = g" using t r by (simp add: fan_parent_grp)
      have num: "num_cancels w = num_cancels t0 + cancels es + of_bool (parent_cancel_requested g)"
        using c W(6,8) by simp
      note X = exit_state [OF W(1) _ W(4) num leaves(2) [unfolded r fst_conv snd_conv]]
      show ?thesis
        using X t g leaves(3-5) keep c(2) W(7) by (auto simp: after_ok_def)
    qed
  qed
qed


section \<open>What a run shows\<close>

context fan_run
begin

lemma caller_trace:
  assumes "go t0 es = Some s"
  shows "caller_ok t0 es s"
  by (rule go_trace [OF assms, where P = "caller_ok t0"])
    (auto simp: caller_init intro: caller_step)

lemma cause_trace:
  assumes "go t0 es = Some s"
  shows "cause_ok t0 es s"
  by (rule go_trace [OF assms, where P = "cause_ok t0"])
    (auto simp: caller_init intro: cause_step)

lemma after_trace:
  assumes "go t0 es = Some s" and wf: "must_cancel t0 \<longrightarrow> 0 < num_cancels t0"
  shows "after_ok ver t0 es s"
proof -
  have "caller_ok t0 es s \<and> after_ok ver t0 es s"
  proof (rule go_trace [OF assms(1), where P = "\<lambda>es s. caller_ok t0 es s \<and> after_ok ver t0 es s"])
    show "caller_ok t0 [] (fan_init ver items k t0 :: ('i, 'r) fan) \<and>
        after_ok ver t0 [] (fan_init ver items k t0 :: ('i, 'r) fan)"
      by (simp add: caller_init)
  qed (use wf in \<open>auto intro: caller_step after_step\<close>)
  then show ?thesis by simp
qed

text \<open>Each item's function is awaited at most once, and not before its task has started.\<close>

lemma ends_trace:
  assumes "go t0 es = Some s"
  shows "\<forall>i < length (pcs s). fn_ends i es + of_bool (before_end (pcs s ! i)) \<le> 1"
proof (rule go_trace [OF assms, where
      P = "\<lambda>es s. \<forall>i < length (pcs s). fn_ends i es + of_bool (before_end (pcs s ! i)) \<le> 1"])
  show "\<forall>i < length (pcs (fan_init ver items k t0 :: ('i, 'r) fan)).
      fn_ends i [] + of_bool (before_end (pcs (fan_init ver items k t0 :: ('i, 'r) fan) ! i)) \<le> 1"
    by (simp add: fn_ends_def)
next
  fix es :: "'v fevent list" and s e t
  assume *: "\<forall>i < length (pcs s). fn_ends i es + of_bool (before_end (pcs s ! i)) \<le> 1"
    and st: "fan_step ver items handler s e = Some (t :: ('i, 'r) fan)"
  show "\<forall>i < length (pcs t). fn_ends i (es @ [e]) + of_bool (before_end (pcs t ! i)) \<le> 1"
  proof (intro allI impI)
    fix i assume "i < length (pcs t)"
    then have i: "i < length (pcs s)"
      using fan_stepD(2) [OF st]
      by (cases e) (auto simp: fan_start_def fan_wake_def fan_fn_def fan_enter_def fan_end_def
          fan_release_def fan_done_def split: option.splits completion.splits pc.splits if_splits)
    note B = before_end_step [OF st i]
    show "fn_ends i (es @ [e]) + of_bool (before_end (pcs t ! i)) \<le> 1"
      using * [rule_format, OF i] B(1,2) by (auto simp: fn_ends_snoc)
  qed
qed

text \<open>
  Every result is what the handler stored for an await of that item; a handler that was told
  to be stopping, or cancelled, was told so because the pipeline was.
\<close>

lemma results_trace:
  assumes "go t0 es = Some s" and "slots s ! i = Some r" and "i < length items"
  shows "\<exists>f st c. EFn i f \<in> set es \<and> handler i st c f = Store r \<and>
           (st \<longrightarrow> over_or_stopping s) \<and> (c \<longrightarrow> aborting (grp s))"
proof -
  let ?P = "\<lambda>(es :: 'v fevent list) (s :: ('i, 'r) fan). caller_ok t0 es s \<and> (\<forall>r. slots s ! i = Some r \<longrightarrow>
     (\<exists>f st c. EFn i f \<in> set es \<and> handler i st c f = Store r \<and>
           (st \<longrightarrow> over_or_stopping s) \<and> (c \<longrightarrow> aborting (grp s))))"
  have "?P es s"
  proof (rule go_trace [OF assms(1)])
    show "?P [] (fan_init ver items k t0)"
      using assms(3) by (simp add: caller_init)
  next
    fix es :: "'v fevent list" and s e t
    assume inv: "fan_inv items k s" and P: "?P es s"
      and st: "fan_step ver items handler s e = Some (t :: ('i, 'r) fan)"
    have "(final s = None \<longrightarrow> rearms_at_entry (caller_probe s) \<le> rearms (caller s))"
      using P by (auto simp: caller_ok_def probe_init_def)
    then have stop: "over_or_stopping t" if "over_or_stopping s"
      using stopping_step [OF inv step_inv [OF inv st] st that] after_final(3,4) [OF inv _ st]
      by (cases "final s") (auto simp: over_or_stopping_def)
    have ab: "aborting (grp t)" if "aborting (grp s)" using creq_abort_step [OF inv st that] .
    show "?P (es @ [e]) t"
    proof (intro conjI allI impI)
      show "caller_ok t0 (es @ [e]) t" using caller_step [OF inv st] P by blast
      fix r assume "slots t ! i = Some r"
      from slots_step [OF st this]
      show "\<exists>f st c. EFn i f \<in> set (es @ [e]) \<and> handler i st c f = Store r \<and>
          (st \<longrightarrow> over_or_stopping t) \<and> (c \<longrightarrow> aborting (grp t))"
      proof
        assume "slots s ! i = Some r"
        then obtain f st c where "EFn i f \<in> set es" "handler i st c f = Store r"
          "st \<longrightarrow> over_or_stopping s" "c \<longrightarrow> aborting (grp s)" using P by blast
        then show ?thesis using stop ab by (intro exI [of _ f] exI [of _ st] exI [of _ c]) auto
      next
        assume "\<exists>f. e = EFn i f \<and> handler i (fan_stopping s) (creq s ! i) f = Store r \<and>
          i < length (pcs s)"
        then obtain f where f: "e = EFn i f" "handler i (fan_stopping s) (creq s ! i) f = Store r"
          "i < length (pcs s)" by blast
        have "creq s ! i \<longrightarrow> aborting (grp s)"
          using inv_tasks_at [OF fan_invD(2) [OF inv] f(3)] by (simp add: creq_ok_def)
        then show ?thesis using f stop ab
          by (intro exI [of _ f] exI [of _ "fan_stopping s"] exI [of _ "creq s ! i"])
            (auto simp: over_or_stopping_def)
      qed
    qed
  qed
  then show ?thesis using assms(2) by blast
qed


text \<open>Every error of a task is what the handler propagated for an await of its item.\<close>

lemma errors_trace:
  assumes "go t0 es = Some s"
  shows "\<forall>i < length items. \<forall>x. end_of (pcs s ! i) = Some (EndFailed x) \<longrightarrow>
           (\<exists>f st c. EFn i f \<in> set es \<and> handler i st c f = Propagate x)"
proof (rule go_trace [OF assms, where P = "\<lambda>es s.
      \<forall>i < length items. \<forall>x. end_of (pcs s ! i) = Some (EndFailed x) \<longrightarrow>
           (\<exists>f st c. EFn i f \<in> set es \<and> handler i st c f = Propagate x)"])
  show "\<forall>i < length items. \<forall>x.
      end_of (pcs (fan_init ver items k t0 :: ('i, 'r) fan) ! i) = Some (EndFailed x) \<longrightarrow>
           (\<exists>f st c. EFn i f \<in> set [] \<and> handler i st c f = Propagate x)"
    by (simp add: caller_init)
next
  fix es :: "'v fevent list" and s e t
  assume inv: "fan_inv items k s"
    and P: "\<forall>i < length items. \<forall>x. end_of (pcs s ! i) = Some (EndFailed x) \<longrightarrow>
           (\<exists>f st c. EFn i f \<in> set es \<and> handler i st c f = Propagate x)"
    and st: "fan_step ver items handler s e = Some (t :: ('i, 'r) fan)"
  have len: "length (pcs s) = length items" using fan_invD(3) [OF inv] by (simp add: inv_calls_def)
  show "\<forall>i < length items. \<forall>x. end_of (pcs t ! i) = Some (EndFailed x) \<longrightarrow>
           (\<exists>f st c. EFn i f \<in> set (es @ [e]) \<and> handler i st c f = Propagate x)"
  proof (intro allI impI)
    fix i x assume i: "i < length items" and x: "end_of (pcs t ! i) = Some (EndFailed x)"
    from pcs_step [OF st i [folded len] x] P i
    show "\<exists>f st c. EFn i f \<in> set (es @ [e]) \<and> handler i st c f = Propagate x"
      by fastforce
  qed
qed

lemma group_errors:
  assumes g: "go t0 es = Some s" and x: "x \<in> set (errors (grp s))"
  shows "\<exists>i < length items. \<exists>f st c. EFn i f \<in> set es \<and> handler i st c f = Propagate x"
    and "x \<noteq> CancelledError"
proof -
  note D = fan_invD [OF go_inv [OF g]]
  have "Reaped (EndFailed x) \<in> set (pcs s)" using D(4) x by (simp add: inv_group_def)
  then obtain i where i: "i < length (pcs s)" "pcs s ! i = Reaped (EndFailed x)"
    by (metis in_set_conv_nth)
  have "length (pcs s) = length items" using D(3) by (simp add: inv_calls_def)
  then show "\<exists>i < length items. \<exists>f st c. EFn i f \<in> set es \<and> handler i st c f = Propagate x"
    using i errors_trace [OF g] by auto
  show "x \<noteq> CancelledError" using inv_tasks_at [OF D(2) i(1)] i(2) by (simp add: slot_ok_def)
qed

text \<open>
  How a run can end with an exception: the group of the tasks' errors, one of them that is not
  an \<open>Exception\<close>, or a \<open>CancelledError\<close> that somebody outside asked for.
\<close>

lemma raised:
  assumes g: "go t0 es = Some s" and fin: "final s = Some (Some e)"
  shows "e = CancelledError \<and> live_cancel t0 es \<or>
    (\<exists>xs. e = ExcGroup xs \<and> xs \<noteq> [] \<and> (\<forall>x \<in> set xs. x \<noteq> CancelledError \<and>
        (\<exists>i < length items. \<exists>f st c. EFn i f \<in> set es \<and> handler i st c f = Propagate x))) \<or>
    is_base_error e \<and> (\<exists>i < length items. \<exists>f st c. EFn i f \<in> set es \<and> handler i st c f = Propagate e)"
proof -
  note D = fan_invD [OF go_inv [OF g]]
  have ok: "group_ok (grp s)" using D(4) by (simp add: inv_group_def)
  from D(6) fin
  consider "e = CancelledError" "propagate (grp s)"
    | "e = ExcGroup (errors (grp s))" "errors (grp s) \<noteq> []" | "base_error (grp s) = Some e"
    by (auto simp: inv_final_def)
  then show ?thesis
  proof cases
    case 1
    then show ?thesis using cause_trace [OF g] by (simp add: cause_ok_def)
  next
    case 2
    then show ?thesis using group_errors [OF g] by blast
  next
    case 3
    then show ?thesis using ok group_errors(1) [OF g, of e] by (simp add: group_ok_def)
  qed
qed

text \<open>A normal return: every item was called once, and its slot holds what its await gave.\<close>

lemma returned_slots:
  assumes g: "go t0 es = Some s" and fin: "final s = Some None" and i: "i < length items"
  shows "\<exists>r. slots s ! i = Some r" and "i \<in> fst ` set (calls s)"
    and "\<not> over_or_stopping s" and "\<not> aborting (grp s)"
proof -
  note inv = go_inv [OF g] note D = fan_invD [OF inv]
  have q: "errors (grp s) = []" "\<not> aborting (grp s)" "\<not> failed s"
    "\<not> probe_cancelled (caller_probe s) (caller s)"
    using D(6) fin by (auto simp: inv_final_def)
  then show "\<not> aborting (grp s)" "\<not> over_or_stopping s"
    using fin by (auto simp: over_or_stopping_def fan_stopping_def)
  have i': "i < length (pcs s)" using D(3) i by (simp add: inv_calls_def)
  obtain x where x: "pcs s ! i = Reaped x"
    using final_None [OF D(6) i'] fin by auto
  have "x = EndNormal"
  proof (cases x)
    case (EndFailed e)
    then have "Reaped (EndFailed e) \<in> set (pcs s)" using x i' nth_mem by metis
    then show ?thesis using D(4) q(1) by (auto simp: inv_group_def)
  next
    case EndCancelled
    then show ?thesis using inv_tasks_at [OF D(2) i'] x q by (simp add: slot_ok_def)
  qed
  then show "\<exists>r. slots s ! i = Some r"
    using inv_tasks_at [OF D(2) i'] x q by (auto simp: slot_ok_def)
  then show "i \<in> fst ` set (calls s)" using D(3) i' by (auto simp: inv_calls_def)
qed

lemma returned:
  assumes g: "go t0 es = Some s" and fin: "final s = Some None" and i: "i < length items"
  shows "\<exists>r f. slots s ! i = Some r \<and> EFn i f \<in> set es \<and> handler i False False f = Store r"
proof -
  obtain r where r: "slots s ! i = Some r" using returned_slots(1) [OF assms] by blast
  from results_trace [OF g this i] show ?thesis
    using returned_slots(3,4) [OF assms] r by (metis (full_types))
qed

lemma returned_length:
  assumes g: "go t0 es = Some s"
  shows "length (slots s) = length items"
  using fan_invD(2,3) [OF go_inv [OF g]] by (simp add: inv_tasks_def inv_calls_def)

lemma call_log:
  assumes g: "go t0 es = Some s"
  shows "distinct (map fst (calls s))"
    and "(i, x) \<in> set (calls s) \<Longrightarrow> i < length items \<and> x = items ! i"
  using fan_invD(3) [OF go_inv [OF g]] by (auto simp: inv_calls_def)

lemma returned_calls:
  assumes g: "go t0 es = Some s" and fin: "final s = Some None"
  shows "mset (map snd (calls s)) = mset items"
proof -
  have "set (map fst (calls s)) = set [0..<length items]"
    using call_log(2) [OF g] returned_slots(2) [OF g fin] by (auto simp: image_iff)
  then have idx: "mset (map fst (calls s)) = mset [0..<length items]"
    using call_log(1) [OF g] set_eq_iff_mset_eq_distinct distinct_upt by metis
  have "map snd (calls s) = map (\<lambda>i. items ! i) (map fst (calls s))"
    using call_log(2) [OF g] by auto
  then have "mset (map snd (calls s)) = image_mset (\<lambda>i. items ! i) (mset [0..<length items])"
    using idx by (metis mset_map)
  also have "\<dots> = mset items"
    by (metis mset_map map_nth)
  finally show ?thesis .
qed

lemma awaited_once:
  assumes g: "go t0 es = Some s" and i: "i < length items"
    and "EFn i f \<in> set es" and "EFn i f' \<in> set es"
  shows "f = f'"
proof -
  have "length (pcs s) = length items" using fan_invD(3) [OF go_inv [OF g]] by (simp add: inv_calls_def)
  then have "fn_ends i es \<le> 1" using ends_trace [OF g] i by fastforce
  then show ?thesis using assms(3,4) by (rule fn_ends_unique)
qed

end

end
