(* ===== verification/Py_Iterables.thy ===== *)
theory Py_Iterables
  imports Py_Values
begin

text \<open>
  The iterables a caller may pass where the library expects a collection of items, by the
  classes \<open>_refuse_bare_string\<close> of \<open>core.py\<close> and \<open>_check_batch_len\<close> of \<open>benchmark.py\<close>
  tell apart, what iterating each yields, and the bare-string guard itself. A \<open>ctypes\<close>
  array can only be passed by a caller that has imported \<open>ctypes\<close>, so the guard's
  \<open>sys.modules\<close> lookup always finds the module for one.
\<close>

datatype 'a source =
    FiniteSrc "'a list"
  | EndlessSrc "nat \<Rightarrow> 'a" \<comment> \<open>a generator that never stops, by its n-th item\<close>

datatype ctype = C_char | C_wchar | C_other

datatype 'a pyobj =
    OStr "'a list"
  | OUserString "'a list"
  | OBytes "'a list"
  | OByteArray "'a list"
  | OMmap "'a list"
  | OMemoryView string "'a list" \<comment> \<open>its format\<close>
  | OArray string "'a list" \<comment> \<open>an \<open>array.array\<close> with its typecode\<close>
  | OCtypesArray ctype "'a list"
  | OSequence "'a list" \<comment> \<open>list, tuple, range, deque, dict values: an ordered Collection\<close>
  | OSet "'a list" \<comment> \<open>set, frozenset, dict keys or items, in iteration order\<close>
  | OMapping "'a list" \<comment> \<open>a dict, by its keys in iteration order\<close>
  | OIterator "'a source" \<comment> \<open>generator, map, filter: iterable, not a Collection\<close>
  | ONotIterable

definition TEXT_TYPECODES :: "string list" where
  "TEXT_TYPECODES = [''u'', ''w'']"

definition BYTE_FORMATS :: "string list" where
  "BYTE_FORMATS = [''B'', ''b'', ''c'']"

definition is_ctypes_char_array :: "'a pyobj \<Rightarrow> bool" where
  "is_ctypes_char_array v =
     (case v of OCtypesArray t _ \<Rightarrow> t = C_char \<or> t = C_wchar | _ \<Rightarrow> False)"

text \<open>
  The first three tests of the chain, each an \<open>isinstance\<close> (and, for a view or an array,
  its format or typecode).
\<close>

definition is_str_like :: "'a pyobj \<Rightarrow> bool" where
  "is_str_like v = (case v of OStr _ \<Rightarrow> True | OUserString _ \<Rightarrow> True | _ \<Rightarrow> False)"

definition is_bytes_like :: "'a pyobj \<Rightarrow> bool" where
  "is_bytes_like v =
     (case v of OBytes _ \<Rightarrow> True | OByteArray _ \<Rightarrow> True | OMmap _ \<Rightarrow> True
      | OMemoryView fmt _ \<Rightarrow> List.member BYTE_FORMATS fmt | _ \<Rightarrow> False)"

definition is_text_array :: "'a pyobj \<Rightarrow> bool" where
  "is_text_array v =
     (case v of OArray code _ \<Rightarrow> List.member TEXT_TYPECODES code | _ \<Rightarrow> False)"

definition refuse_bare_string :: "string \<Rightarrow> 'a pyobj \<Rightarrow> exc + unit" where
  "refuse_bare_string name v =
     (if is_str_like v then Inl (ValueError (name @ '': pass a one-item list''))
      else if is_bytes_like v then Inl (ValueError (name @ '': decode it to str first''))
      else if is_text_array v
        then Inl (ValueError (name @ '': convert it with .tounicode() first''))
      else if is_ctypes_char_array v then Inl (ValueError (name @ '': read its .value first''))
      else Inr ())"

text \<open>\<open>list(v)\<close>: \<open>None\<close> where it never returns, a \<open>TypeError\<close> where \<open>v\<close> is not iterable.\<close>

fun py_list :: "'a pyobj \<Rightarrow> (exc + 'a list) option" where
  "py_list (OStr xs) = Some (Inr xs)"
| "py_list (OUserString xs) = Some (Inr xs)"
| "py_list (OBytes xs) = Some (Inr xs)"
| "py_list (OByteArray xs) = Some (Inr xs)"
| "py_list (OMmap xs) = Some (Inr xs)"
| "py_list (OMemoryView _ xs) = Some (Inr xs)"
| "py_list (OArray _ xs) = Some (Inr xs)"
| "py_list (OCtypesArray _ xs) = Some (Inr xs)"
| "py_list (OSequence xs) = Some (Inr xs)"
| "py_list (OSet xs) = Some (Inr xs)"
| "py_list (OMapping xs) = Some (Inr xs)"
| "py_list (OIterator (FiniteSrc xs)) = Some (Inr xs)"
| "py_list (OIterator (EndlessSrc _)) = None"
| "py_list ONotIterable = Some (Inl (TypeError ''not iterable''))"

text \<open>\<open>list(itertools.islice(it, n))\<close>: at most \<open>n\<close> items are read, so it always returns.\<close>

fun islice :: "'a source \<Rightarrow> nat \<Rightarrow> 'a list" where
  "islice (FiniteSrc xs) n = take n xs"
| "islice (EndlessSrc f) n = map f [0..<n]"

definition is_set_or_mapping :: "'a pyobj \<Rightarrow> bool" where
  "is_set_or_mapping v = (case v of OSet _ \<Rightarrow> True | OMapping _ \<Rightarrow> True | _ \<Rightarrow> False)"

lemma length_islice_le: "length (islice src n) \<le> n"
  by (cases src) auto

text \<open>
  One document passed where a collection is expected: the two string classes, and the
  buffers that iterate one byte or character at a time.
\<close>

definition one_document :: "'a pyobj \<Rightarrow> bool" where
  "one_document v =
     (is_str_like v \<or> is_bytes_like v \<or> is_text_array v \<or> is_ctypes_char_array v)"

lemmas bare_string_defs =
  one_document_def is_str_like_def is_bytes_like_def is_text_array_def
  is_ctypes_char_array_def TEXT_TYPECODES_def BYTE_FORMATS_def

lemma refuse_bare_string_Inr: "refuse_bare_string name v = Inr () \<longleftrightarrow> \<not> one_document v"
  by (simp add: refuse_bare_string_def one_document_def)

lemma refuse_bare_string_Inl:
  "one_document v \<Longrightarrow> \<exists>fix. refuse_bare_string name v = Inl (ValueError (name @ fix))"
  by (auto simp: refuse_bare_string_def one_document_def)

text \<open>
  The bare-string guard splits the iterables: it raises a \<open>ValueError\<close> naming the
  parameter on each stdlib shape that iterates one document into characters or bytes (str,
  \<open>UserString\<close>, bytes, \<open>bytearray\<close>, \<open>mmap\<close>, a byte \<open>memoryview\<close>, a text \<open>array\<close>, a
  \<open>ctypes\<close> character array), and lets every other iterable through, numeric buffers and
  unordered or one-shot collections included.
\<close>

theorem refuse_bare_string_exact:
  "(\<exists>fix. refuse_bare_string name v = Inl (ValueError (name @ fix))) =
     (case v of
        OStr _ \<Rightarrow> True | OUserString _ \<Rightarrow> True
      | OBytes _ \<Rightarrow> True | OByteArray _ \<Rightarrow> True | OMmap _ \<Rightarrow> True
      | OMemoryView fmt _ \<Rightarrow> fmt = ''B'' \<or> fmt = ''b'' \<or> fmt = ''c''
      | OArray code _ \<Rightarrow> code = ''u'' \<or> code = ''w''
      | OCtypesArray t _ \<Rightarrow> t \<noteq> C_other
      | _ \<Rightarrow> False)
   \<and> ((\<exists>fix. refuse_bare_string name v = Inl (ValueError (name @ fix)))
       \<noteq> (refuse_bare_string name v = Inr ()))"
proof -
  have "one_document v = (case v of
        OStr _ \<Rightarrow> True | OUserString _ \<Rightarrow> True
      | OBytes _ \<Rightarrow> True | OByteArray _ \<Rightarrow> True | OMmap _ \<Rightarrow> True
      | OMemoryView fmt _ \<Rightarrow> fmt = ''B'' \<or> fmt = ''b'' \<or> fmt = ''c''
      | OArray code _ \<Rightarrow> code = ''u'' \<or> code = ''w''
      | OCtypesArray t _ \<Rightarrow> t \<noteq> C_other
      | _ \<Rightarrow> False)"
    by (cases v) (auto simp: bare_string_defs intro: ctype.exhaust)
  moreover have "(\<exists>fix. refuse_bare_string name v = Inl (ValueError (name @ fix)))
      = one_document v"
    using refuse_bare_string_Inl [of v name] refuse_bare_string_Inr [of name v] by force
  ultimately show ?thesis by (simp add: refuse_bare_string_Inr)
qed

end
