(* ===== verification/Process.thy ===== *)
theory Process
  imports Fanout_Runs Py_Iterables
begin

text \<open>
  \<open>process\<close> of \<open>core.py\<close>: its entry guards in the order the code has them, the \<open>except\<close> chain
  of \<open>_run_one\<close> as the handler of the fan-out machine, and the call as a whole, for any
  schedule of events. The properties below speak of every schedule.
\<close>

section \<open>The model\<close>

text \<open>What a result slot holds: a value of \<open>fn\<close>, or (\<open>return_exceptions\<close>) an exception.\<close>

datatype 'r slot = Val 'r | Exn exc

definition process_entry :: "'i pyobj \<Rightarrow> pyval \<Rightarrow> pyval \<Rightarrow>
    (exc + nat \<times> pyfloat option \<times> 'i list) option" where
  "process_entry items concurrency timeout =
     (case refuse_bare_string ''items'' items of
        Inl e \<Rightarrow> Some (Inl e)
      | Inr _ \<Rightarrow>
          (case require_positive_int ''concurrency'' concurrency of
             Inl e \<Rightarrow> Some (Inl e)
           | Inr k \<Rightarrow>
               (case require_timeout_seconds timeout of
                  Inl e \<Rightarrow> Some (Inl e)
                | Inr t \<Rightarrow>
                    (case py_list items of
                       None \<Rightarrow> None
                     | Some (Inl e) \<Rightarrow> Some (Inl e)
                     | Some (Inr xs) \<Rightarrow> Some (Inr (k, t, xs))))))"

text \<open>\<open>_run_one\<close> from the end of \<open>await fn(item)\<close> on.\<close>

definition process_handler ::
    "bool \<Rightarrow> pyfloat option \<Rightarrow> nat \<Rightarrow> bool \<Rightarrow> bool \<Rightarrow> 'r fn_end \<Rightarrow> 'r slot completion" where
  "process_handler return_exceptions timeout idx stopping cancelled f =
     (case timed_await timeout idx None stopping cancelled f of
        Returned v \<Rightarrow> Store (Val v)
      | Raised caught \<Rightarrow>
          (let e = stray_cancellation_as_error caught stopping (AtItem idx)
           in if return_exceptions \<and> is_Exception e then Store (Exn e) else Propagate e))"

definition process_run :: "pyver \<Rightarrow> nat \<Rightarrow> pyfloat option \<Rightarrow> bool \<Rightarrow> 'i list \<Rightarrow> task \<Rightarrow>
    'r fevent list \<Rightarrow> ('i, 'r slot) fan option" where
  "process_run ver k timeout return_exceptions xs t0 es =
     run (fan_step ver xs (process_handler return_exceptions timeout))
       (fan_init ver xs (Some k) t0) es"

text \<open>
  The call: \<open>None\<close> while it has not returned after the events \<open>es\<close>; a result slot that was
  never written would still be Python's initial \<open>None\<close>.
\<close>

definition process :: "pyver \<Rightarrow> 'i pyobj \<Rightarrow> pyval \<Rightarrow> bool \<Rightarrow> pyval \<Rightarrow> task \<Rightarrow> 'r fevent list \<Rightarrow>
    (exc + 'r slot option list) option" where
  "process ver items concurrency return_exceptions timeout t0 es =
     (case process_entry items concurrency timeout of
        None \<Rightarrow> None
      | Some (Inl e) \<Rightarrow> Some (Inl e)
      | Some (Inr (k, t, xs)) \<Rightarrow>
          if xs = [] then Some (Inr [])
          else (case process_run ver k t return_exceptions xs t0 es of
                  None \<Rightarrow> None
                | Some s \<Rightarrow>
                    (case final s of
                       None \<Rightarrow> None
                     | Some (Some e) \<Rightarrow> Some (Inl e)
                     | Some None \<Rightarrow> Some (Inr (slots s)))))"

section \<open>The handler keeps the fan-out's interface\<close>

lemma process_handler_Propagate:
  assumes "process_handler re timeout i st c f = Propagate e"
  shows "e = CancelledError \<Longrightarrow> st"
    and "re \<Longrightarrow> \<not> is_Exception e"
    and "\<exists>caught. fn_outcome f = Raised caught \<and> (re \<longrightarrow> e = caught)"
proof -
  obtain caught where c: "timed_await timeout i None st c f = Raised caught"
    "e = stray_cancellation_as_error caught st (AtItem i)" "\<not> (re \<and> is_Exception e)"
    using assms by (auto simp: process_handler_def Let_def split: outcome.splits if_splits)
  show "e = CancelledError \<Longrightarrow> st" using c(2) by (metis stray_not_cancelled)
  show "re \<Longrightarrow> \<not> is_Exception e" using c(3) by simp
  obtain x where x: "fn_outcome f = Raised x"
    using c(1) timed_await_Returned [of f _ timeout i None st c] by (cases "fn_outcome f") auto
  have "e = x" if re
    using that c timed_await_Raised [OF x, of timeout i None st c]
    by (auto simp: stray_cancellation_as_error_def split: if_splits option.splits)
  then show "\<exists>caught. fn_outcome f = Raised caught \<and> (re \<longrightarrow> e = caught)" using x by blast
qed

interpretation process_fan: fan_run "process_handler re timeout" ver items "Some (Suc k)"
  for re timeout ver items k
  by unfold_locales (auto dest: process_handler_Propagate(1))

lemma process_go:
  "process_run ver (Suc k) timeout re xs t0 es =
     run (fan_step ver xs (process_handler re timeout)) (fan_init ver xs (Some (Suc k)) t0) es"
  by (simp add: process_run_def)

text \<open>The entry guards, read as one condition.\<close>

lemma process_entry_Inr:
  "process_entry items concurrency timeout = Some (Inr (k, t, xs)) \<longleftrightarrow>
     \<not> one_document items \<and> concurrency = PInt (int k) \<and> 0 < k \<and>
     require_timeout_seconds timeout = Inr t \<and> py_list items = Some (Inr xs)"
  using refuse_bare_string_Inr [of "''items''" items]
  by (auto simp: process_entry_def require_positive_int_Inr require_positive_int_PInt
      split: sum.splits option.splits)

lemma process_entry_slots:
  assumes "process_entry items concurrency timeout = Some (Inr (k, t, xs))"
  obtains k' where "k = Suc k'"
  using assms by (cases k) (simp_all add: process_entry_Inr)

text \<open>
  What the library reports for \<open>fn\<close>'s exception \<open>e\<close> while the pipeline is not stopping: the
  deadline's own firing, a stray cancellation, or the exception itself.
\<close>

definition item_error :: "pyfloat option \<Rightarrow> nat option \<Rightarrow> nat \<Rightarrow> bool \<Rightarrow> exc \<Rightarrow> exc" where
  "item_error timeout owner i fired e =
     (case timeout of
        Some t \<Rightarrow>
          if fired \<and> (e = TimeoutError \<or> e = CancelledError) then PipelineTimeoutError i t owner
          else if e = CancelledError then PipelineError (StrayItem i) (Some e) else e
      | None \<Rightarrow> if e = CancelledError then PipelineError (StrayItem i) (Some e) else e)"

lemma handler_quiet:
  "process_handler re timeout i False False f =
     (case fn_outcome f of
        Returned v \<Rightarrow> Store (Val v)
      | Raised e \<Rightarrow>
          if re \<and> is_Exception (item_error timeout None i (fn_fired f) e)
          then Store (Exn (item_error timeout None i (fn_fired f) e))
          else Propagate (item_error timeout None i (fn_fired f) e))"
  by (auto simp: process_handler_def timed_await_Raised timed_await_Returned item_error_def
      stray_cancellation_as_error_def split: outcome.splits option.splits)

text \<open>Under any circumstances a propagated error is \<open>fn\<close>'s own or the one reported for it.\<close>

lemma handler_blames:
  assumes "process_handler re timeout i st c f = Propagate x"
  shows "\<exists>e. fn_outcome f = Raised e \<and> (x = e \<or> x = item_error timeout None i (fn_fired f) e)"
proof -
  obtain e where e: "fn_outcome f = Raised e" using process_handler_Propagate(3) [OF assms] by blast
  then show ?thesis using assms timed_await_Raised [OF e, of timeout i None st c]
    by (auto simp: process_handler_def item_error_def stray_cancellation_as_error_def Let_def
        split: option.splits if_splits)
qed

lemma item_error_base:
  "is_base_error e \<Longrightarrow> e = item_error timeout owner i fired y \<Longrightarrow> y = e"
  by (cases timeout) (simp_all add: item_error_def split: if_splits)

lemma handler_raises:
  "fn_outcome f = Raised e \<Longrightarrow> \<exists>x. process_handler False timeout i st c f = Propagate x"
  using timed_await_Raised [of f e timeout i None st c]
  by (auto simp: process_handler_def Let_def split: option.splits if_splits)

lemma process_cases:
  assumes "process_entry items concurrency timeout = Some (Inr (k, t, xs))" and "xs \<noteq> []"
    and "process ver items concurrency re timeout t0 es = Some res"
  obtains s where "process_run ver k t re xs t0 es = Some s"
    and "\<And>rs. res = Inr rs \<Longrightarrow> final s = Some None \<and> rs = slots s"
    and "\<And>e. res = Inl e \<Longrightarrow> final s = Some (Some e)"
  using assms(3) unfolding process_def assms(1)
  by (auto simp: assms(2) split: option.splits)


section \<open>Properties\<close>

text \<open>A caller with no cancel, and the ends of an await the witnesses use.\<close>

definition fresh_task :: task where
  "fresh_task = \<lparr>num_cancels = 0, must_cancel = False, rearms = 0\<rparr>"

definition ended_with :: "'r outcome \<Rightarrow> 'r fn_end" where
  "ended_with r = \<lparr>fn_outcome = r, fn_fired = False, fn_entry = 0, fn_leak = 0\<rparr>"

text \<open>What a call that returns has returned.\<close>

lemma process_returned:
  assumes entry: "process_entry items concurrency timeout = Some (Inr (k, t, xs))"
    and ret: "process ver items concurrency re timeout t0 es = Some (Inr rs)"
  shows "length rs = length xs \<and>
    (\<forall>i < length xs. \<exists>f. EFn i f \<in> set es \<and> (\<forall>f'. EFn i f' \<in> set es \<longrightarrow> f' = f) \<and>
       (case fn_outcome f of
          Returned v \<Rightarrow> rs ! i = Some (Val v)
        | Raised e \<Rightarrow> re \<and> is_Exception (item_error t None i (fn_fired f) e) \<and>
                      rs ! i = Some (Exn (item_error t None i (fn_fired f) e))))"
proof (cases "xs = []")
  case True
  then show ?thesis using entry ret by (simp add: process_def)
next
  case False
  obtain k' where k: "k = Suc k'" using process_entry_slots [OF entry] .
  obtain s where s: "process_run ver k t re xs t0 es = Some s" "final s = Some None" "rs = slots s"
    using process_cases [OF entry False ret] by metis
  note g = s(1) [unfolded k process_go]
  show ?thesis
  proof (intro conjI allI impI)
    show "length rs = length xs" using process_fan.returned_length [OF g] s(3) by simp
    fix i assume i: "i < length xs"
    obtain r f where "rs ! i = Some r" "EFn i f \<in> set es" "process_handler re t i False False f = Store r"
      using process_fan.returned [OF g s(2) i] s(3) by blast
    then show "\<exists>f. EFn i f \<in> set es \<and> (\<forall>f'. EFn i f' \<in> set es \<longrightarrow> f' = f) \<and>
       (case fn_outcome f of
          Returned v \<Rightarrow> rs ! i = Some (Val v)
        | Raised e \<Rightarrow> re \<and> is_Exception (item_error t None i (fn_fired f) e) \<and>
                      rs ! i = Some (Exn (item_error t None i (fn_fired f) e)))"
      using process_fan.awaited_once [OF g i]
      by (intro exI [of _ f]) (auto simp: handler_quiet split: outcome.splits if_splits)
  qed
qed

text \<open>
  C1. \<open>process\<close> returns its results in input order. When a call with these arguments returns,
  whatever the schedule, its list has one entry per item, no entry is missing, and entry \<open>i\<close>
  is what awaiting \<open>fn\<close> on item \<open>i\<close> gave, the one await of that item: its value, or, under
  \<open>return_exceptions\<close> only, the exception the library reports for it.
\<close>

theorem process_results_in_order:
  assumes entry: "process_entry items concurrency timeout = Some (Inr (k, t, xs))"
    and ret: "process ver items concurrency re timeout t0 es = Some (Inr rs)"
  shows "length rs = length xs \<and>
    (\<forall>i < length xs. \<exists>f. EFn i f \<in> set es \<and> (\<forall>f'. EFn i f' \<in> set es \<longrightarrow> f' = f) \<and>
       (case fn_outcome f of
          Returned v \<Rightarrow> rs ! i = Some (Val v)
        | Raised e \<Rightarrow> re \<and> is_Exception (item_error t None i (fn_fired f) e) \<and>
                      rs ! i = Some (Exn (item_error t None i (fn_fired f) e))))"
  using process_returned [OF entry ret] .

text \<open>
  C4. \<open>process\<close> calls \<open>fn\<close> on each item at most once and never on anything else, and a call
  that returns has called it on exactly the batch.
\<close>

theorem process_calls_each_item_once:
  assumes "process_entry items concurrency timeout = Some (Inr (k, t, xs))"
    and "process_run ver k t re xs t0 es = Some s"
  shows "distinct (map fst (calls s)) \<and> (\<forall>(i, x) \<in> set (calls s). i < length xs \<and> x = xs ! i) \<and>
    (final s = Some None \<longrightarrow> mset (map snd (calls s)) = mset xs)"
proof -
  obtain k' where "k = Suc k'" using process_entry_slots [OF assms(1)] .
  note g = assms(2) [unfolded this process_go]
  show ?thesis
    using process_fan.call_log [OF g] process_fan.returned_calls [OF g] by auto
qed

text \<open>
  C2. At any moment of any schedule at most \<open>concurrency\<close> calls of \<open>fn\<close> are in flight, and
  the semaphore's free slots with the calls in flight make up exactly \<open>concurrency\<close>.
\<close>

theorem process_concurrency_bound:
  assumes "process_entry items concurrency timeout = Some (Inr (k, t, xs))"
    and "process_run ver k t re xs t0 es = Some s"
  shows "cnt (\<lambda>p. p = InFn) (pcs s) \<le> k \<and>
    map_option (\<lambda>m. sem_free m + cnt (\<lambda>p. p = InFn) (pcs s)) (sem s) = Some k"
proof -
  obtain k' where k: "k = Suc k'" using process_entry_slots [OF assms(1)] .
  note g = assms(2) [unfolded k process_go]
  have "inv_sem (Some k) (sem s) (pcs s) (creq s)"
    using fan_invD(1) [OF process_fan.go_inv [OF g]] by (simp add: k)
  then show ?thesis by (auto simp: inv_sem_def split: option.splits)
qed

text \<open>
  C3. Fail-fast: with \<open>return_exceptions=False\<close>, once a call of \<open>fn\<close> has raised, no further
  call is started, whatever happens afterwards; a waiting item that is handed the failed
  item's slot does not run.
\<close>

theorem process_fail_fast:
  assumes "process_entry items concurrency timeout = Some (Inr (k, t, xs))"
    and raised: "fn_outcome f = Raised e"
    and s: "process_run ver k t False xs t0 (es @ [EFn i f]) = Some s"
    and u: "process_run ver k t False xs t0 (es @ [EFn i f] @ fs) = Some u"
  shows "calls u = calls s"
proof -
  obtain k' where k: "k = Suc k'" using process_entry_slots [OF assms(1)] .
  note g = s [unfolded k process_go]
  obtain r where r: "fan_step ver xs (process_handler False t) r (EFn i f) = Some s"
    using g by (auto simp: run_snoc split: option.splits)
  obtain x where "process_handler False t i (fan_stopping r) (creq r ! i) f = Propagate x"
    using handler_raises [OF raised] by metis
  then have "stopped s"
    using fan_stepD(2) [OF r] by (simp add: stopped_def fan_fn_def fan_end_def fan_release_def)
  moreover have "run (fan_step ver xs (process_handler False t)) s fs = Some u"
    using u g unfolding k process_go append_assoc [symmetric]
    by (subst (asm) run_append) simp
  ultimately show ?thesis using process_fan.no_call_after_stop [OF g] by blast
qed


text \<open>
  C5. What a failing call of \<open>process\<close> raises: the \<open>CancelledError\<close> of a cancellation
  somebody outside asked for, an \<open>ExceptionGroup\<close> that is not empty and whose every member is
  what some item of the batch is reported for (\<open>fn\<close>'s own exception or its deadline or its
  stray cancellation, by that item's index), or an item's \<open>KeyboardInterrupt\<close> or
  \<open>SystemExit\<close>, bare.
\<close>

theorem process_raises:
  assumes entry: "process_entry items concurrency timeout = Some (Inr (k, t, xs))"
    and ret: "process ver items concurrency re timeout t0 es = Some (Inl e)"
  shows "e = CancelledError \<and> live_cancel t0 es \<or>
    (\<exists>ms. e = ExcGroup ms \<and> ms \<noteq> [] \<and>
       (\<forall>x \<in> set ms. x \<noteq> CancelledError \<and>
          (\<exists>i < length xs. \<exists>f y. EFn i f \<in> set es \<and> fn_outcome f = Raised y \<and>
             (x = y \<or> x = item_error t None i (fn_fired f) y)))) \<or>
    is_base_error e \<and> (\<exists>i < length xs. \<exists>f. EFn i f \<in> set es \<and> fn_outcome f = Raised e)"
proof -
  have ne: "xs \<noteq> []" using entry ret by (auto simp: process_def)
  obtain k' where k: "k = Suc k'" using process_entry_slots [OF entry] .
  obtain s where s: "process_run ver k t re xs t0 es = Some s" "final s = Some (Some e)"
    using process_cases [OF entry ne ret] by metis
  note g = s(1) [unfolded k process_go]
  have base: "fn_outcome f = Raised e"
    if "is_base_error e" "process_handler re t i st c f = Propagate e" for i st c f
    using handler_blames [OF that(2)] item_error_base [OF that(1)] by metis
  have blame: "\<exists>i < length xs. \<exists>f y. EFn i f \<in> set es \<and> fn_outcome f = Raised y \<and>
      (x = y \<or> x = item_error t None i (fn_fired f) y)"
    if "\<exists>i < length xs. \<exists>f st c. EFn i f \<in> set es \<and> process_handler re t i st c f = Propagate x"
    for x
    using that handler_blames by meson
  from process_fan.raised [OF g s(2)] show ?thesis
  proof (elim disjE)
    assume "\<exists>ms. e = ExcGroup ms \<and> ms \<noteq> [] \<and> (\<forall>x \<in> set ms. x \<noteq> CancelledError \<and>
        (\<exists>i < length xs. \<exists>f st c. EFn i f \<in> set es \<and> process_handler re t i st c f = Propagate x))"
    then obtain ms where ms: "e = ExcGroup ms" "ms \<noteq> []"
      and mem: "\<forall>x \<in> set ms. x \<noteq> CancelledError \<and>
        (\<exists>i < length xs. \<exists>f st c. EFn i f \<in> set es \<and> process_handler re t i st c f = Propagate x)"
      by (elim exE conjE) (rule that)
    have all: "x \<noteq> CancelledError \<and> (\<exists>i < length xs. \<exists>f y. EFn i f \<in> set es \<and>
        fn_outcome f = Raised y \<and> (x = y \<or> x = item_error t None i (fn_fired f) y))" if "x \<in> set ms" for x
      using bspec [OF mem that] blame [of x] by (intro conjI) simp_all
    show ?thesis by (rule disjI2, rule disjI1, rule exI [of _ ms], intro conjI ms, rule ballI, rule all)
  next
    assume b: "is_base_error e \<and> (\<exists>i < length xs. \<exists>f st c. EFn i f \<in> set es \<and>
        process_handler re t i st c f = Propagate e)"
    then obtain i f st c where "i < length xs" "EFn i f \<in> set es"
      "process_handler re t i st c f = Propagate e" by blast
    then show ?thesis using base b by metis
  qed simp
qed

text \<open>
  C6. \<open>return_exceptions=True\<close> never loses a batch to an \<open>Exception\<close>: if nobody outside
  cancels the caller and no \<open>fn\<close> raises a \<open>BaseException\<close> other than a \<open>CancelledError\<close>, a
  call that finishes returns a list.
\<close>

theorem process_collects_exceptions:
  assumes entry: "process_entry items concurrency timeout = Some (Inr (k, t, xs))"
    and quiet: "\<not> live_cancel t0 es"
    and mild: "\<And>i f e. EFn i f \<in> set es \<Longrightarrow> fn_outcome f = Raised e \<Longrightarrow>
                 is_Exception e \<or> e = CancelledError"
    and ret: "process ver items concurrency True timeout t0 es = Some res"
  shows "\<exists>rs. res = Inr rs \<and> length rs = length xs"
proof (cases "xs = []")
  case True
  then show ?thesis using entry ret by (simp add: process_def)
next
  case False
  obtain k' where k: "k = Suc k'" using process_entry_slots [OF entry] .
  obtain s where s: "process_run ver k t True xs t0 es = Some s"
    "\<And>rs. res = Inr rs \<Longrightarrow> rs = slots s" "\<And>e. res = Inl e \<Longrightarrow> final s = Some (Some e)"
    using process_cases [OF entry False ret] by metis
  note g = s(1) [unfolded k process_go]
  have no: "x = CancelledError" if "EFn i f \<in> set es" "process_handler True t i st c f = Propagate x"
    for x i st c f
    using mild [OF that(1)] process_handler_Propagate(2,3) [OF that(2)] by auto
  have False if e: "final s = Some (Some e)" for e
  proof -
    from process_fan.raised [OF g e] show False
    proof (elim disjE)
      assume "\<exists>ms. e = ExcGroup ms \<and> ms \<noteq> [] \<and> (\<forall>x \<in> set ms. x \<noteq> CancelledError \<and>
        (\<exists>i < length xs. \<exists>f st c. EFn i f \<in> set es \<and> process_handler True t i st c f = Propagate x))"
      then obtain ms where "ms \<noteq> []" "\<forall>x \<in> set ms. x \<noteq> CancelledError \<and>
        (\<exists>i < length xs. \<exists>f st c. EFn i f \<in> set es \<and> process_handler True t i st c f = Propagate x)"
        by blast
      then obtain x i f st c where "x \<noteq> CancelledError" "EFn i f \<in> set es"
        "process_handler True t i st c f = Propagate x"
        by (meson last_in_set)
      then show False using no by metis
    next
      assume b: "is_base_error e \<and> (\<exists>i < length xs. \<exists>f st c. EFn i f \<in> set es \<and>
        process_handler True t i st c f = Propagate e)"
      then have "e = CancelledError" using no by metis
      then show False using b by simp
    qed (use quiet in simp)
  qed
  then show ?thesis using s process_fan.returned_length [OF g] by (cases res) auto
qed

text \<open>
  C7. What a call leaves of the caller's cancellation. The cancel count is where it was at the
  entry plus the cancels from outside meanwhile (the group's own request is undone). A cancel
  is due again exactly after a failed group and, before 3.13, exactly when a live one was
  brought in or came meanwhile; 3.13 and later re-arm whenever the count is not zero. A base
  error (\<open>KeyboardInterrupt\<close>, \<open>SystemExit\<close>) is excepted.
\<close>

theorem process_restores_cancel_count:
  assumes entry: "process_entry items concurrency timeout = Some (Inr (k, t, xs))"
    and s: "process_run ver k t re xs t0 es = Some s"
    and over: "final s = Some r" "\<not> rearm_due s"
    and nb: "base_error (grp s) = None"
    and wf: "must_cancel t0 \<longrightarrow> 0 < num_cancels t0"
  shows "num_cancels (caller s) = num_cancels t0 + cancels es \<and>
    must_cancel (caller s) = ((\<exists>ms. r = Some (ExcGroup ms)) \<and>
      (if Py313 \<le> ver then 0 < num_cancels t0 + cancels es else live_cancel t0 es))"
proof -
  obtain k' where k: "k = Suc k'" using process_entry_slots [OF entry] .
  note g = s [unfolded k process_go]
  have "inv_final (Some r) (rearm_due s) (failed s) (probe_cancelled (caller_probe s) (caller s))
      (grp s) (pcs s)"
    using fan_invD(6) [OF process_fan.go_inv [OF g]] over by simp
  then have "(\<exists>ms. r = Some (ExcGroup ms)) = (errors (grp s) \<noteq> [])"
    using nb by (auto simp: inv_final_def split: option.splits)
  then show ?thesis
    using process_fan.after_trace [OF g wf] over nb by (auto simp: after_ok_def)
qed

text \<open>
  C8. \<open>process\<close> never hangs of itself: in any schedule the steps of its own machinery are at
  most \<open>4 n + 6\<close> more than the cancels from outside, and from any state it can reach, letting
  the pending awaits end brings it to its result. In particular no task waits for a slot
  nobody will free.
\<close>

theorem process_terminates:
  assumes entry: "process_entry items concurrency timeout = Some (Inr (k, t, xs))"
    and s: "process_run ver k t re xs t0 es = Some s"
  shows "cnt (\<lambda>e. \<not> external e) es \<le> 4 * length xs + 6 + cnt external es \<and>
    (\<exists>fs u. process_run ver k t re xs t0 (es @ fs) = Some u \<and> final u \<noteq> None \<and> \<not> rearm_due u \<and>
       (\<forall>e \<in> set fs. \<not> external e))"
proof -
  obtain k' where k: "k = Suc k'" using process_entry_slots [OF entry] .
  note g = s [unfolded k process_go]
  show ?thesis
    unfolding k process_go
    using process_fan.steps_bounded [OF g] process_fan.can_complete [OF g] by simp
qed

text \<open>
  The arguments \<open>process\<close> accepts, and that it checks them before anything else: a call
  gets past its entry exactly with a collection that is not one document, a positive \<open>int\<close>
  concurrency that is not a \<open>bool\<close>, and \<open>None\<close> or a positive finite number as the deadline;
  otherwise the error is raised whatever \<open>fn\<close> would do, and an empty batch returns \<open>[]\<close>.
\<close>

theorem process_entry_contract:
  "(process_entry items concurrency timeout = Some (Inr (k, t, xs)) \<longleftrightarrow>
      \<not> one_document items \<and> concurrency = PInt (int k) \<and> 0 < k \<and>
      require_timeout_seconds timeout = Inr t \<and> py_list items = Some (Inr xs)) \<and>
   process ver items concurrency re timeout t0 ([] :: 'r fevent list) =
     (case process_entry items concurrency timeout of
        Some (Inl e) \<Rightarrow> Some (Inl e)
      | Some (Inr (_, _, [])) \<Rightarrow> Some (Inr [])
      | _ \<Rightarrow> None)"
proof -
  have "final (fan_init ver xs k t0 :: ('a, 'r slot) fan) = None" for xs k
    by (simp add: fan_init_def Let_def split: prod.splits)
  then show ?thesis
    by (auto simp: process_entry_Inr process_def process_run_def split: option.splits sum.splits
        list.splits)
qed


section \<open>Witnesses\<close>

text \<open>
  Two items over one slot: a batch that succeeds, and one whose first item fails while the
  second waits for the slot, with a cancel from outside during the teardown.
\<close>

definition good_batch :: "nat fevent list" where
  "good_batch = [EStart 0, EStart 1, EFn 0 (ended_with (Returned 7)), EWake 1,
     EFn 1 (ended_with (Returned 8)), EDone 0, EDone 1, EParent]"

definition mixed_batch :: "nat fevent list" where
  "mixed_batch = [EStart 0, EStart 1, EFn 0 (ended_with (Raised (UserExc 3))), EWake 1,
     EFn 1 (ended_with (Returned 8)), EDone 1, EDone 0, EParent]"

definition failure :: "nat fn_end" where
  "failure = ended_with (Raised (UserExc 3))"

definition teardown :: "nat fevent list" where
  "teardown = [EWake 1, EDone 0, ECancel, EParent, EDone 1, EParent, ERearm]"

definition two :: "int pyobj" where
  "two = OSequence [10, 20]"

lemma two_entry: "process_entry two (PInt 1) PNone = Some (Inr (1, None, [10, 20]))"
  by code_simp

lemma process_results_in_order_witness:
  "process Py311 two (PInt 1) False PNone fresh_task good_batch
     = Some (Inr [Some (Val 7), Some (Val 8)]) \<and>
   (\<exists>f. EFn 1 f \<in> set good_batch \<and> fn_outcome f = Returned 8)"
proof -
  have r: "process Py311 two (PInt 1) False PNone fresh_task good_batch
      = Some (Inr [Some (Val 7), Some (Val 8)])" by code_simp
  have one: "1 < length [10, 20 :: int]" by simp
  from process_results_in_order [OF two_entry r, THEN conjunct2, rule_format, OF one]
  obtain f where f: "EFn 1 f \<in> set good_batch" "case fn_outcome f of
      Returned v \<Rightarrow> [Some (Val 7), Some (Val 8)] ! 1 = Some (Val v)
    | Raised e \<Rightarrow> False \<and> is_Exception (item_error None None 1 (fn_fired f) e) \<and>
        [Some (Val 7), Some (Val (8 :: nat))] ! 1 = Some (Exn (item_error None None 1 (fn_fired f) e))"
    by blast
  then have "fn_outcome f = Returned 8" by (cases "fn_outcome f") simp_all
  with r f(1) show ?thesis by blast
qed

lemma process_calls_each_item_once_witness:
  "\<exists>s. process_run Py311 1 None False [10, 20 :: int] fresh_task good_batch = Some s \<and>
       mset (map snd (calls s)) = {#10, 20#}"
proof -
  have "map_option final (process_run Py311 1 None False [10, 20 :: int] fresh_task good_batch)
      = Some (Some None)" by code_simp
  then obtain s where s: "process_run Py311 1 None False [10, 20 :: int] fresh_task good_batch = Some s"
    "final s = Some None" by auto
  then show ?thesis using process_calls_each_item_once [OF two_entry s(1)] by auto
qed

lemma process_concurrency_bound_witness:
  "\<exists>s. process_run Py311 1 None False [10, 20 :: int] fresh_task (take 2 good_batch) = Some s \<and>
       cnt (\<lambda>p. p = InFn) (pcs s) \<le> 1"
proof -
  have "process_run Py311 1 None False [10, 20 :: int] fresh_task (take 2 good_batch) \<noteq> None"
    by code_simp
  then obtain s where
    s: "process_run Py311 1 None False [10, 20 :: int] fresh_task (take 2 good_batch) = Some s" by blast
  then show ?thesis using process_concurrency_bound [OF two_entry s] by blast
qed

lemma process_fail_fast_witness:
  "\<exists>s u. process_run Py311 1 None False [10, 20 :: int] fresh_task
           ([EStart 0, EStart 1] @ [EFn 0 failure]) = Some s \<and>
         process_run Py311 1 None False [10, 20 :: int] fresh_task
           ([EStart 0, EStart 1] @ [EFn 0 failure] @ teardown) = Some u \<and> calls u = calls s"
proof -
  have "process_run Py311 1 None False [10, 20 :: int] fresh_task
      ([EStart 0, EStart 1] @ [EFn 0 failure]) \<noteq> None"
    "process_run Py311 1 None False [10, 20 :: int] fresh_task
      ([EStart 0, EStart 1] @ [EFn 0 failure] @ teardown) \<noteq> None"
    by code_simp+
  then obtain s u where su: "process_run Py311 1 None False [10, 20 :: int] fresh_task
      ([EStart 0, EStart 1] @ [EFn 0 failure]) = Some s"
    "process_run Py311 1 None False [10, 20 :: int] fresh_task
      ([EStart 0, EStart 1] @ [EFn 0 failure] @ teardown) = Some u" by blast
  have "fn_outcome failure = Raised (UserExc 3)" by (simp add: failure_def ended_with_def)
  from process_fail_fast [OF two_entry this su] show ?thesis using su by blast
qed

lemma process_raises_witness:
  "process Py311 two (PInt 1) False PNone fresh_task ([EStart 0, EStart 1, EFn 0 failure] @ teardown)
     = Some (Inl (ExcGroup [UserExc 3])) \<and> UserExc 3 \<noteq> CancelledError"
proof -
  have r: "process Py311 two (PInt 1) False PNone fresh_task
      ([EStart 0, EStart 1, EFn 0 failure] @ teardown) = Some (Inl (ExcGroup [UserExc 3]))"
    by code_simp
  from process_raises [OF two_entry r] have "UserExc 3 \<noteq> CancelledError" by simp
  with r show ?thesis by blast
qed

lemma process_collects_exceptions_witness:
  "\<exists>rs. process Py311 two (PInt 1) True PNone fresh_task mixed_batch = Some (Inr rs) \<and> length rs = 2"
proof -
  have "process Py311 two (PInt 1) True PNone fresh_task mixed_batch \<noteq> None" by code_simp
  then obtain res where r: "process Py311 two (PInt 1) True PNone fresh_task mixed_batch = Some res"
    by blast
  have "\<not> live_cancel fresh_task mixed_batch" by code_simp
  moreover have "is_Exception e \<or> e = CancelledError"
    if "EFn i f \<in> set mixed_batch" "fn_outcome f = Raised e" for i f e
    using that by (auto simp: mixed_batch_def ended_with_def)
  ultimately have "\<exists>rs. res = Inr rs \<and> length rs = length [10, 20 :: int]"
    using r by (rule process_collects_exceptions [OF two_entry])
  then show ?thesis using r by auto
qed

lemma process_restores_cancel_count_witness:
  "\<exists>s. process_run Py311 1 None False [10, 20 :: int] fresh_task
         ([EStart 0, EStart 1, EFn 0 failure] @ teardown) = Some s \<and>
       num_cancels (caller s) = 1 \<and> must_cancel (caller s)"
proof -
  let ?es = "[EStart 0, EStart 1, EFn 0 failure] @ teardown"
  have "map_option (\<lambda>s. (final s, rearm_due s, base_error (grp s)))
      (process_run Py311 1 None False [10, 20 :: int] fresh_task ?es)
      = Some (Some (Some (ExcGroup [UserExc 3])), False, None)" by code_simp
  then obtain s where s: "process_run Py311 1 None False [10, 20 :: int] fresh_task ?es = Some s"
    "final s = Some (Some (ExcGroup [UserExc 3]))" "\<not> rearm_due s" "base_error (grp s) = None" by auto
  have "cancels ?es = 1" "live_cancel fresh_task ?es" by code_simp+
  then show ?thesis
    using process_restores_cancel_count [OF two_entry s] s(1)
    by (auto simp: fresh_task_def less_eq_pyver_def)
qed

lemma process_terminates_witness:
  "\<exists>fs u. process_run Py311 1 None False [10, 20 :: int] fresh_task (take 3 good_batch @ fs) = Some u \<and>
     final u \<noteq> None"
proof -
  have "process_run Py311 1 None False [10, 20 :: int] fresh_task (take 3 good_batch) \<noteq> None"
    by code_simp
  then obtain s where
    s: "process_run Py311 1 None False [10, 20 :: int] fresh_task (take 3 good_batch) = Some s" by blast
  then show ?thesis using process_terminates [OF two_entry s] by blast
qed

end
