(* ===== verification/Stream.thy ===== *)
theory Stream
  imports Async_Queue Process
begin

text \<open>
  \<open>stream\<close> of \<open>core.py\<close>: one producer task that pulls the source and puts into a bounded
  queue, consumers it starts one per item up to \<open>concurrency\<close>, the fail-fast latch, the
  absorbed-cancellation check of both loops, the sentinels, and \<open>StreamMetrics\<close>. As in the
  fan-out, tasks interleave at their awaits, and the events come in any order the event loop
  could run them; what the source yields and how \<open>fn\<close> ends is the environment's choice.
\<close>

section \<open>StreamMetrics\<close>

record stream_metrics =
  produced :: nat
  consumed :: nat
  producer_pauses :: nat
  max_queue_depth :: nat
  producer_pause_seconds :: rat
  started_monotonic :: rat

definition metrics_init :: stream_metrics where
  "metrics_init = \<lparr>produced = 0, consumed = 0, producer_pauses = 0, max_queue_depth = 0,
     producer_pause_seconds = 0, started_monotonic = 0\<rparr>"

datatype metric_value = Count nat | Seconds rat

definition metrics_to_dict :: "stream_metrics \<Rightarrow> (string \<times> metric_value) list" where
  "metrics_to_dict m =
     [(''produced'', Count (produced m)),
      (''consumed'', Count (consumed m)),
      (''producer_pauses'', Count (producer_pauses m)),
      (''max_queue_depth'', Count (max_queue_depth m)),
      (''producer_pause_seconds'', Seconds (producer_pause_seconds m))]"

section \<open>The state\<close>

datatype 'i qitem = QItem 'i | Sentinel

text \<open>\<open>PSend n\<close>: waiting to put a sentinel, \<open>n\<close> of them left, this one included.\<close>

datatype 'i ppc = PCreated | PPull | PPut 'i | PSend nat | PEnded task_end | PReaped task_end

datatype 'i cpc = CCreated | CGet | CFn nat 'i | CEnded task_end | CReaped task_end

datatype 'i src = SrcItem 'i | SrcEnd | SrcRaise exc

record ('i, 'r) stream =
  queue :: "'i qitem aqueue"
  concur :: nat
  prod_pc :: "'i ppc"
  prod_creq :: bool
  cons :: "'i cpc list"
  cons_creq :: "bool list"
  started :: nat
  results :: "'r list"
  consumed_index :: nat
  s_failed :: bool
  s_group :: group
  s_caller :: task
  s_probe :: probe
  s_final :: "exc option option"
  s_rearm :: bool
  meter :: "stream_metrics option"
  pulled :: "'i list" \<comment> \<open>what the source has yielded\<close>
  s_calls :: "(nat \<times> 'i) list" \<comment> \<open>the calls of \<open>fn\<close> so far, by their index\<close>
  finished :: "nat list" \<comment> \<open>the indices of the results, in order\<close>

datatype ('i, 'v) sevent =
    SPStart
  | SPWake rat \<comment> \<open>with the seconds the put has waited\<close>
  | SSource "'i src"
  | SCStart nat
  | SCWake nat
  | SCFn nat "'v fn_end"
  | SPDone
  | SCDone nat
  | SParent
  | SRearm
  | SCancel
  | SRearmOther

definition stream_init :: "pyver \<Rightarrow> nat \<Rightarrow> nat \<Rightarrow> stream_metrics option \<Rightarrow> task \<Rightarrow> ('i, 'r) stream" where
  "stream_init ver concurrency queue_size m t =
     (let (g, t') = group_begin_exit ver (group_enter t) t
      in \<lparr>queue = q_init queue_size, concur = concurrency, prod_pc = PCreated, prod_creq = False,
          cons = [], cons_creq = [], started = 0, results = [], consumed_index = 0,
          s_failed = False, s_group = g, s_caller = t', s_probe = probe_init t, s_final = None,
          s_rearm = False, meter = m, pulled = [], s_calls = [], finished = []\<rparr>)"

definition s_stopping :: "('i, 'r) stream \<Rightarrow> bool" where
  "s_stopping s = (s_failed s \<or> probe_cancelled (s_probe s) (s_caller s))"

text \<open>How a task that lets an exception out has ended.\<close>

definition end_with :: "exc \<Rightarrow> task_end" where
  "end_with e = (if e = CancelledError then EndCancelled else EndFailed e)"

section \<open>Consumers\<close>

definition c_end :: "nat \<Rightarrow> task_end \<Rightarrow> ('i, 'r) stream \<Rightarrow> ('i, 'r) stream" where
  "c_end i x s = s\<lparr>cons := (cons s)[i := CEnded x]\<rparr>"

text \<open>An item or sentinel in hand: stop at a sentinel or after a failure, else the call.\<close>

definition c_item :: "nat \<Rightarrow> 'i qitem \<Rightarrow> ('i, 'r) stream \<Rightarrow> ('i, 'r) stream" where
  "c_item i it s =
     (case it of
        Sentinel \<Rightarrow> c_end i EndNormal (s\<lparr>queue := q_task_done (queue s)\<rparr>)
      | QItem x \<Rightarrow>
          if s_failed s then c_end i EndNormal (s\<lparr>queue := q_task_done (queue s)\<rparr>)
          else s\<lparr>consumed_index := Suc (consumed_index s),
                 cons := (cons s)[i := CFn (consumed_index s) x],
                 s_calls := s_calls s @ [(consumed_index s, x)]\<rparr>)"

definition c_got :: "nat \<Rightarrow> 'i qitem option \<times> 'i qitem aqueue \<Rightarrow> ('i, 'r) stream \<Rightarrow> ('i, 'r) stream" where
  "c_got i r s =
     (case r of
        (None, q) \<Rightarrow> s\<lparr>queue := q, cons := (cons s)[i := CGet]\<rparr>
      | (Some it, q) \<Rightarrow> c_item i it (s\<lparr>queue := q\<rparr>))"

text \<open>The head of the loop.\<close>

definition c_head :: "nat \<Rightarrow> ('i, 'r) stream \<Rightarrow> ('i, 'r) stream" where
  "c_head i s =
     (case raise_if_cancellation_absorbed (s_stopping s) of
        Inl e \<Rightarrow> c_end i (end_with e) s
      | Inr _ \<Rightarrow> c_got i (q_get i (queue s)) s)"

definition c_start :: "nat \<Rightarrow> ('i, 'r) stream \<Rightarrow> ('i, 'r) stream" where
  "c_start i s = (if cons_creq s ! i then c_end i EndCancelled s else c_head i s)"

definition c_wake :: "nat \<Rightarrow> ('i, 'r) stream \<Rightarrow> ('i, 'r) stream" where
  "c_wake i s =
     (if cons_creq s ! i then c_end i EndCancelled (s\<lparr>queue := q_abandon_get i (queue s)\<rparr>)
      else c_got i (q_resume_get i (queue s)) s)"

definition cfn_index :: "'i cpc \<Rightarrow> nat" where
  "cfn_index c = (case c of CFn idx _ \<Rightarrow> idx | _ \<Rightarrow> 0)"

definition c_fn :: "'r completion \<Rightarrow> nat \<Rightarrow> ('i, 'r) stream \<Rightarrow> ('i, 'r) stream" where
  "c_fn c i s =
     (case c of
        Store r \<Rightarrow>
          c_head i (s\<lparr>results := results s @ [r],
                      finished := finished s @ [cfn_index (cons s ! i)],
                      queue := q_task_done (queue s),
                      meter := map_option (\<lambda>m. m\<lparr>consumed := Suc (consumed m)\<rparr>) (meter s)\<rparr>)
      | Propagate e \<Rightarrow>
          c_end i (end_with e) (s\<lparr>s_failed := True, queue := q_task_done (queue s)\<rparr>))"

section \<open>The producer\<close>

definition p_end :: "task_end \<Rightarrow> ('i, 'r) stream \<Rightarrow> ('i, 'r) stream" where
  "p_end x s = s\<lparr>prod_pc := PEnded x\<rparr>"

text \<open>The \<open>except BaseException\<close> of \<open>_produce\<close>.\<close>

definition p_fail :: "exc \<Rightarrow> ('i, 'r) stream \<Rightarrow> ('i, 'r) stream" where
  "p_fail caught s =
     (let e = stray_cancellation_as_error caught (s_stopping s) (Origin ''the producer'')
      in p_end (end_with e) (s\<lparr>s_failed := True\<rparr>))"

definition p_put_done :: "('i, 'r) stream \<Rightarrow> ('i, 'r) stream" where
  "p_put_done s =
     s\<lparr>prod_pc := PPull,
       meter := map_option (\<lambda>m. m\<lparr>produced := Suc (produced m),
                  max_queue_depth := max (max_queue_depth m) (length (buf (queue s)))\<rparr>) (meter s)\<rparr>"

definition p_put :: "'i \<Rightarrow> ('i, 'r) stream \<Rightarrow> ('i, 'r) stream" where
  "p_put x s =
     (case q_put (QItem x) (queue s) of
        (True, q) \<Rightarrow> p_put_done (s\<lparr>queue := q\<rparr>)
      | (False, q) \<Rightarrow>
          s\<lparr>queue := q, prod_pc := PPut x,
            meter := map_option (\<lambda>m. m\<lparr>producer_pauses := Suc (producer_pauses m)\<rparr>) (meter s)\<rparr>)"

definition p_spawn :: "('i, 'r) stream \<Rightarrow> ('i, 'r) stream" where
  "p_spawn s = s\<lparr>cons := cons s @ [CCreated], cons_creq := cons_creq s @ [False],
                 started := Suc (started s)\<rparr>"

text \<open>\<open>TaskGroup.create_task\<close> refuses a group that is shutting down.\<close>

definition p_item :: "'i \<Rightarrow> ('i, 'r) stream \<Rightarrow> ('i, 'r) stream" where
  "p_item x s =
     (case raise_if_cancellation_absorbed (s_stopping s) of
        Inl e \<Rightarrow> p_fail e s
      | Inr _ \<Rightarrow>
          if started s < concur s \<and> \<not> s_failed s
          then (if aborting (s_group s) then p_fail (RuntimeError ''TaskGroup is shutting down'') s
                else p_put x (p_spawn s))
          else p_put x s)"

fun p_send :: "nat \<Rightarrow> ('i, 'r) stream \<Rightarrow> ('i, 'r) stream" where
  "p_send 0 s = p_end EndNormal s"
| "p_send (Suc n) s =
     (case q_put Sentinel (queue s) of
        (True, q) \<Rightarrow> p_send n (s\<lparr>queue := q\<rparr>)
      | (False, q) \<Rightarrow> s\<lparr>queue := q, prod_pc := PSend (Suc n)\<rparr>)"

definition p_source :: "'i src \<Rightarrow> ('i, 'r) stream \<Rightarrow> ('i, 'r) stream" where
  "p_source r s =
     (case r of
        SrcItem x \<Rightarrow> p_item x (s\<lparr>pulled := pulled s @ [x]\<rparr>)
      | SrcEnd \<Rightarrow>
          (case raise_if_cancellation_absorbed (s_stopping s) of
             Inl e \<Rightarrow> p_fail e s
           | Inr _ \<Rightarrow> p_send (started s) s)
      | SrcRaise e \<Rightarrow> p_fail e s)"

definition p_start :: "('i, 'r) stream \<Rightarrow> ('i, 'r) stream" where
  "p_start s = (if prod_creq s then p_end EndCancelled s else s\<lparr>prod_pc := PPull\<rparr>)"

text \<open>The producer wakes in \<open>put\<close>, with room or with a \<open>CancelledError\<close>.\<close>

definition p_wake :: "rat \<Rightarrow> ('i, 'r) stream \<Rightarrow> ('i, 'r) stream" where
  "p_wake dt s =
     (let s' = s\<lparr>queue := q_clear_putter (queue s)\<rparr>
      in case prod_pc s of
           PPut x \<Rightarrow>
             if prod_creq s then p_fail CancelledError s'
             else (case q_put (QItem x) (queue s') of
                     (True, q) \<Rightarrow>
                       p_put_done (s'\<lparr>queue := q,
                         meter := map_option (\<lambda>m. m\<lparr>producer_pause_seconds :=
                                    producer_pause_seconds m + dt\<rparr>) (meter s)\<rparr>)
                   | (False, q) \<Rightarrow> s'\<lparr>queue := q\<rparr>)
         | PSend n \<Rightarrow> if prod_creq s then p_end EndCancelled s' else p_send n s'
         | _ \<Rightarrow> s)"

section \<open>The group\<close>

fun p_live :: "'i ppc \<Rightarrow> bool" where
  "p_live (PEnded _) = False"
| "p_live (PReaped _) = False"
| "p_live _ = True"

fun c_live :: "'i cpc \<Rightarrow> bool" where
  "c_live (CEnded _) = False"
| "c_live (CReaped _) = False"
| "c_live _ = True"

definition s_abort :: "('i, 'r) stream \<Rightarrow> ('i, 'r) stream" where
  "s_abort s =
     s\<lparr>prod_creq := (prod_creq s \<or> p_live (prod_pc s)),
       cons_creq := map2 (\<lambda>p c. c \<or> c_live p) (cons s) (cons_creq s),
       queue := q_cancel_all (queue s)\<rparr>"

definition s_grp :: "group \<times> task \<times> bool \<Rightarrow> ('i, 'r) stream \<Rightarrow> ('i, 'r) stream" where
  "s_grp r s =
     (case r of (g, t, ab) \<Rightarrow>
        let s' = s\<lparr>s_group := g, s_caller := t\<rparr> in if ab then s_abort s' else s')"

definition p_done :: "('i, 'r) stream \<Rightarrow> ('i, 'r) stream" where
  "p_done s =
     (case prod_pc s of
        PEnded x \<Rightarrow> s_grp (group_task_done x (s_group s) (s_caller s)) (s\<lparr>prod_pc := PReaped x\<rparr>)
      | _ \<Rightarrow> s)"

definition c_done :: "nat \<Rightarrow> ('i, 'r) stream \<Rightarrow> ('i, 'r) stream" where
  "c_done i s =
     (case cons s ! i of
        CEnded x \<Rightarrow>
          s_grp (group_task_done x (s_group s) (s_caller s)) (s\<lparr>cons := (cons s)[i := CReaped x]\<rparr>)
      | _ \<Rightarrow> s)"

definition s_reaped :: "('i, 'r) stream \<Rightarrow> bool" where
  "s_reaped s \<longleftrightarrow> (case prod_pc s of PReaped _ \<Rightarrow> True | _ \<Rightarrow> False) \<and>
     list_all (\<lambda>c. case c of CReaped _ \<Rightarrow> True | _ \<Rightarrow> False) (cons s)"

definition s_parent :: "pyver \<Rightarrow> ('i, 'r) stream \<Rightarrow> ('i, 'r) stream" where
  "s_parent ver s =
     (let s' = s_grp (group_parent_wake (s_group s) (s_caller s)) s
      in if s_reaped s'
         then (case group_exit ver (s_group s') (s_caller s') of (r, t, due) \<Rightarrow>
                 s'\<lparr>s_caller := t, s_final := Some r, s_rearm := due\<rparr>)
         else s')"

section \<open>The machine\<close>

fun s_enabled :: "pyver \<Rightarrow> ('i, 'r) stream \<Rightarrow> ('i, 'v) sevent \<Rightarrow> bool" where
  "s_enabled ver s SPStart = (prod_pc s = PCreated)"
| "s_enabled ver s (SPWake dt) =
     ((case prod_pc s of PPut _ \<Rightarrow> True | PSend _ \<Rightarrow> True | _ \<Rightarrow> False) \<and>
      (putter (queue s) = Some WGranted \<or> putter (queue s) = Some WCancelled \<and> prod_creq s))"
| "s_enabled ver s (SSource r) = (prod_pc s = PPull)"
| "s_enabled ver s (SCStart i) = (i < length (cons s) \<and> cons s ! i = CCreated)"
| "s_enabled ver s (SCWake i) =
     (i < length (cons s) \<and> cons s ! i = CGet \<and>
      (q_gstate (queue s) i = Some WGranted \<or>
       q_gstate (queue s) i = Some WCancelled \<and> cons_creq s ! i))"
| "s_enabled ver s (SCFn i f) =
     (i < length (cons s) \<and> (case cons s ! i of CFn _ _ \<Rightarrow> True | _ \<Rightarrow> False))"
| "s_enabled ver s SPDone = (s_final s = None \<and> (case prod_pc s of PEnded _ \<Rightarrow> True | _ \<Rightarrow> False))"
| "s_enabled ver s (SCDone i) =
     (i < length (cons s) \<and> s_final s = None \<and> (case cons s ! i of CEnded _ \<Rightarrow> True | _ \<Rightarrow> False))"
| "s_enabled ver s SParent = (s_final s = None \<and> (must_cancel (s_caller s) \<or> s_reaped s))"
| "s_enabled ver s SRearm = s_rearm s"
| "s_enabled ver s SCancel = (s_final s = None)"
| "s_enabled ver s SRearmOther =
     (s_final s = None \<and> \<not> Py313 \<le> ver \<and> \<not> parent_cancel_requested (s_group s) \<and>
      0 < num_cancels (s_caller s))"

fun s_do :: "pyver \<Rightarrow> (nat \<Rightarrow> bool \<Rightarrow> bool \<Rightarrow> 'v fn_end \<Rightarrow> 'r completion) \<Rightarrow>
    ('i, 'r) stream \<Rightarrow> ('i, 'v) sevent \<Rightarrow> ('i, 'r) stream" where
  "s_do ver handler s SPStart = p_start s"
| "s_do ver handler s (SPWake dt) = p_wake dt s"
| "s_do ver handler s (SSource r) = p_source r s"
| "s_do ver handler s (SCStart i) = c_start i s"
| "s_do ver handler s (SCWake i) = c_wake i s"
| "s_do ver handler s (SCFn i f) =
     c_fn (handler (cfn_index (cons s ! i)) (s_stopping s) (cons_creq s ! i) f) i s"
| "s_do ver handler s SPDone = p_done s"
| "s_do ver handler s (SCDone i) = c_done i s"
| "s_do ver handler s SParent = s_parent ver s"
| "s_do ver handler s SRearm =
     s\<lparr>s_caller := rearm_pending_cancel ver False (entry_cancelling (s_group s))
                    (entry_probe (s_group s)) (s_caller s), s_rearm := False\<rparr>"
| "s_do ver handler s SCancel = s\<lparr>s_caller := task_cancel (s_caller s)\<rparr>"
| "s_do ver handler s SRearmOther =
     s\<lparr>s_caller := (task_cancel (task_uncancel ver (s_caller s)))
                     \<lparr>rearms := Suc (rearms (s_caller s))\<rparr>\<rparr>"

definition s_step :: "pyver \<Rightarrow> (nat \<Rightarrow> bool \<Rightarrow> bool \<Rightarrow> 'v fn_end \<Rightarrow> 'r completion) \<Rightarrow>
    ('i, 'r) stream \<Rightarrow> ('i, 'v) sevent \<Rightarrow> ('i, 'r) stream option" where
  "s_step ver handler s e = (if s_enabled ver s e then Some (s_do ver handler s e) else None)"

section \<open>The call\<close>

definition stream_entry :: "pyval \<Rightarrow> pyval \<Rightarrow> pyval \<Rightarrow> exc + nat \<times> nat \<times> pyfloat option" where
  "stream_entry concurrency queue_size timeout =
     (case require_positive_int ''concurrency'' concurrency of
        Inl e \<Rightarrow> Inl e
      | Inr k \<Rightarrow>
          (case require_positive_int ''queue_size'' queue_size of
             Inl e \<Rightarrow> Inl e
           | Inr n \<Rightarrow>
               (case require_timeout_seconds timeout of
                  Inl e \<Rightarrow> Inl e | Inr t \<Rightarrow> Inr (k, n, t))))"

text \<open>The \<open>except\<close> chain around \<open>fn\<close> is that of \<open>process\<close>, with the index in consumption order.\<close>

definition stream_handler ::
    "bool \<Rightarrow> pyfloat option \<Rightarrow> nat \<Rightarrow> bool \<Rightarrow> bool \<Rightarrow> 'r fn_end \<Rightarrow> 'r slot completion" where
  "stream_handler return_exceptions timeout my_idx stopping cancelled f =
     process_handler return_exceptions timeout my_idx stopping cancelled f"

definition stream_run :: "pyver \<Rightarrow> nat \<Rightarrow> nat \<Rightarrow> pyfloat option \<Rightarrow> bool \<Rightarrow> stream_metrics option \<Rightarrow>
    task \<Rightarrow> ('i, 'r) sevent list \<Rightarrow> ('i, 'r slot) stream option" where
  "stream_run ver k n timeout return_exceptions m t0 es =
     run (s_step ver (stream_handler return_exceptions timeout)) (stream_init ver k n m t0) es"

definition stream :: "pyver \<Rightarrow> pyval \<Rightarrow> pyval \<Rightarrow> bool \<Rightarrow> stream_metrics option \<Rightarrow> pyval \<Rightarrow> task \<Rightarrow>
    ('i, 'r) sevent list \<Rightarrow> (exc + 'r slot list) option" where
  "stream ver concurrency queue_size return_exceptions m timeout t0 es =
     (case stream_entry concurrency queue_size timeout of
        Inl e \<Rightarrow> Some (Inl e)
      | Inr (k, n, t) \<Rightarrow>
          (case stream_run ver k n t return_exceptions m t0 es of
             None \<Rightarrow> None
           | Some s \<Rightarrow>
               (case s_final s of
                  None \<Rightarrow> None
                | Some (Some e) \<Rightarrow> Some (Inl e)
                | Some None \<Rightarrow> Some (Inr (results s)))))"

end
