(* ===== verification/Group_Tasks.thy ===== *)
theory Group_Tasks
  imports Fanout_Runs
begin

text \<open>
  The invariant of a task group with its parent, over the list of its tasks' statuses: how each
  task may have ended, how the group mirrors it, why a stop is always on record, and what the
  caller's task shows. \<open>stream\<close> starts its consumers while the group runs, so a task may also
  be added. Everything here is about the group; the machines that own it project onto it.
\<close>

section \<open>The invariant\<close>

definition end_ok :: "pc \<Rightarrow> bool \<Rightarrow> bool \<Rightarrow> bool \<Rightarrow> bool" where
  "end_ok p latch ab pcancel \<longleftrightarrow>
     (\<forall>e. end_of p = Some (EndFailed e) \<longrightarrow> latch \<and> e \<noteq> CancelledError) \<and>
     (end_of p = Some EndCancelled \<longrightarrow> latch \<or> ab \<or> pcancel)"

definition caller_inv :: "bool \<Rightarrow> group \<Rightarrow> task \<Rightarrow> probe \<Rightarrow> bool" where
  "caller_inv latch g t p \<longleftrightarrow>
     rearms_at_entry p \<le> rearms t \<and>
     baseline p + of_bool (parent_cancel_requested g) \<le> num_cancels t \<and>
     (must_cancel t \<longrightarrow> probe_cancelled p t \<or> parent_cancel_requested g) \<and>
     (aborting g \<longrightarrow> latch \<or> probe_cancelled p t)"

definition creqs_ok :: "pc list \<Rightarrow> bool list \<Rightarrow> bool \<Rightarrow> bool" where
  "creqs_ok ps cs ab \<longleftrightarrow> length cs = length ps \<and> (\<forall>i < length ps. creq_ok (ps ! i) (cs ! i) ab)"

definition tasks_inv :: "pc list \<Rightarrow> bool list \<Rightarrow> bool \<Rightarrow> group \<Rightarrow> task \<Rightarrow> probe \<Rightarrow>
    exc option option \<Rightarrow> bool \<Rightarrow> bool" where
  "tasks_inv ps cs latch g t p fin due \<longleftrightarrow>
     creqs_ok ps cs (aborting g) \<and> inv_group g ps \<and>
     (fin = None \<longrightarrow>
        (\<forall>x \<in> set ps. end_ok x latch (aborting g) (probe_cancelled p t)) \<and>
        inv_cause latch (probe_cancelled p t) g t ps \<and> caller_inv latch g t p) \<and>
     (fin = Some None \<longrightarrow> (\<forall>x \<in> set ps. x = Reaped EndNormal)) \<and>
     inv_final fin due latch (probe_cancelled p t) g ps"

lemma tasks_invD:
  assumes "tasks_inv ps cs latch g t p fin due"
  shows "creqs_ok ps cs (aborting g)" "inv_group g ps" "group_ok g"
    "fin = None \<Longrightarrow> x \<in> set ps \<Longrightarrow> end_ok x latch (aborting g) (probe_cancelled p t)"
    "fin = None \<Longrightarrow> inv_cause latch (probe_cancelled p t) g t ps"
    "fin = None \<Longrightarrow> caller_inv latch g t p"
    "fin = None \<Longrightarrow> \<not> due"
    "inv_final fin due latch (probe_cancelled p t) g ps"
  using assms by (simp_all add: tasks_inv_def inv_group_def inv_final_running)

lemma tasks_init:
  assumes "group_begin_exit ver (group_enter t0) t0 = (g, t)"
  shows "tasks_inv [Created] [False] False g t (probe_init t0) None False"
proof -
  have "g = group_enter t0" "t = t0" using assms
    by (auto simp: group_begin_exit_def group_enter_def split: if_splits)
  then show ?thesis
    by (auto simp: tasks_inv_def creqs_ok_def creq_ok_def inv_group_def group_ok_def end_ok_def
        inv_cause_def stop_cause_def caller_inv_def inv_final_def group_enter_def probe_init_def
        probe_cancelled_def brought_in_a_live_cancel_def)
qed

section \<open>Steps of one task\<close>

lemma end_ok_mono:
  "end_ok p l ab pc \<Longrightarrow> (l \<longrightarrow> l') \<Longrightarrow> (ab \<longrightarrow> ab') \<Longrightarrow> (pc \<longrightarrow> pc') \<Longrightarrow> end_ok p l' ab' pc'"
  unfolding end_ok_def by blast

lemma end_ok_all:
  "\<forall>x \<in> S. end_ok x l ab pc \<Longrightarrow> (l \<longrightarrow> l') \<Longrightarrow> (ab \<longrightarrow> ab') \<Longrightarrow> (pc \<longrightarrow> pc') \<Longrightarrow>
     \<forall>x \<in> S. end_ok x l' ab' pc'"
  unfolding end_ok_def by blast

lemma creqs_ok_step:
  "creqs_ok ps cs ab \<Longrightarrow> j < length ps \<Longrightarrow> live (ps ! j) \<Longrightarrow> creqs_ok (ps[j := q]) cs ab"
  unfolding creqs_ok_def creq_ok_def by (metis length_list_update nth_list_update)

lemma tasks_update:
  assumes inv: "tasks_inv ps cs l g t p None due" and j: "j < length ps" "live (ps ! j)"
    and q: "\<And>x. q \<noteq> Reaped x" "end_ok q l' (aborting g) (probe_cancelled p t)"
    and l: "l \<longrightarrow> l'" "l' \<longrightarrow> l \<or> probe_cancelled p t \<or> (\<exists>e. q = Ended (EndFailed e))"
  shows "tasks_inv (ps[j := q]) cs l' g t p None due"
proof -
  note D = tasks_invD [OF inv]
  have "end_ok x l' (aborting g) (probe_cancelled p t)" if "x \<in> set (ps[j := q])" for x
  proof (cases "x = q")
    case False
    then have "x \<in> set ps" using that set_update_subset_insert [of ps j q] by blast
    then show ?thesis using end_ok_mono [OF D(4)] l(1) by blast
  qed (use q in simp)
  moreover have "inv_cause l' (probe_cancelled p t) g t (ps[j := q])"
  proof -
    have "inv_cause l (probe_cancelled p t) g t (ps[j := q])"
      using D(5) j by (intro inv_cause_step) auto
    then show ?thesis
      using l(2) set_update_memI [OF j(1), of q] by (auto simp: inv_cause_def)
  qed
  moreover have "caller_inv l' g t p" using D(6) l(1) by (auto simp: caller_inv_def)
  moreover have "inv_group g (ps[j := q])" using D(2) j q(1) by (rule inv_group_step)
  ultimately show ?thesis
    using creqs_ok_step [OF D(1) j] D(7) by (simp add: tasks_inv_def inv_final_running)
qed

text \<open>A task that goes on, and the two ways it can leave.\<close>

lemma tasks_live:
  assumes "tasks_inv ps cs l g t p None due" and "j < length ps" and "live (ps ! j)" and "live q"
  shows "tasks_inv (ps[j := q]) cs l g t p None due"
  using assms by (intro tasks_update [OF assms(1-3)]) (cases q; auto simp: end_ok_def)+

lemma tasks_normal:
  assumes "tasks_inv ps cs l g t p None due" and "j < length ps" and "live (ps ! j)"
  shows "tasks_inv (ps[j := Ended EndNormal]) cs l g t p None due"
  by (rule tasks_update [OF assms]) (auto simp: end_ok_def)

lemma tasks_cancelled:
  assumes "tasks_inv ps cs l g t p None due" and "j < length ps" and "live (ps ! j)"
    and "l \<or> aborting g \<or> probe_cancelled p t"
  shows "tasks_inv (ps[j := Ended EndCancelled]) cs l g t p None due"
  by (rule tasks_update [OF assms(1-3)]) (use assms(4) in \<open>auto simp: end_ok_def\<close>)

lemma tasks_creq:
  assumes "tasks_inv ps cs l g t p fin due" and "j < length ps" and "cs ! j"
  shows "aborting g"
  using tasks_invD(1) [OF assms(1)] assms(2,3) by (simp add: creqs_ok_def creq_ok_def)

lemma tasks_aborting:
  assumes "tasks_inv ps cs l g t p None due" and "aborting g"
  shows "l \<or> probe_cancelled p t"
  using tasks_invD(6) [OF assms(1)] assms(2) by (simp add: caller_inv_def)

text \<open>A task that fails latches first; a \<open>CancelledError\<close> only where the group is stopping.\<close>

lemma tasks_fails:
  assumes inv: "tasks_inv ps cs l g t p None due" and j: "j < length ps" "live (ps ! j)"
    and e: "e = CancelledError \<longrightarrow> l \<or> probe_cancelled p t"
  shows "tasks_inv (ps[j := Ended (if e = CancelledError then EndCancelled else EndFailed e)])
           cs True g t p None due"
  by (rule tasks_update [OF inv j]) (use e in \<open>auto simp: end_ok_def\<close>)

lemma tasks_spawn:
  assumes inv: "tasks_inv ps cs l g t p None due" and ab: "\<not> aborting g"
  shows "tasks_inv (ps @ [Created]) (cs @ [False]) l g t p None due"
proof -
  note D = tasks_invD [OF inv]
  have "creqs_ok (ps @ [Created]) (cs @ [False]) (aborting g)"
    using D(1) ab by (auto simp: creqs_ok_def creq_ok_def nth_append less_Suc_eq)
  moreover have "inv_group g (ps @ [Created])" using D(2) by (simp add: inv_group_def)
  moreover have "inv_cause l (probe_cancelled p t) g t (ps @ [Created])"
    using D(5) by (auto simp: inv_cause_def)
  ultimately show ?thesis
    using D(4,6,7) by (auto simp: tasks_inv_def inv_final_running end_ok_def)
qed

section \<open>Steps of the group and its parent\<close>

definition aborted :: "bool \<Rightarrow> pc list \<Rightarrow> bool list \<Rightarrow> bool list" where
  "aborted ab ps cs = (if ab then map2 (\<lambda>p c. c \<or> live p) ps cs else cs)"

lemma creqs_ok_aborted:
  assumes "creqs_ok ps cs a" and "a' = (a \<or> ab)"
  shows "creqs_ok ps (aborted ab ps cs) a'"
  using assms by (auto simp: creqs_ok_def creq_ok_def aborted_def)

lemma creqs_ok_reap:
  assumes "creqs_ok ps cs ab" and "i < length ps"
  shows "creqs_ok (ps[i := Reaped x]) cs ab"
proof -
  have "creq_ok (ps[i := Reaped x] ! j) (cs ! j) ab" if "j < length ps" for j
  proof -
    have "creq_ok (ps ! j) (cs ! j) ab" using assms(1) that by (simp add: creqs_ok_def)
    then show ?thesis using assms(2) by (cases "i = j") (simp_all add: creq_ok_def)
  qed
  then show ?thesis using assms(1) by (simp add: creqs_ok_def)
qed

lemma group_done_aborting:
  "group_task_done x g t = (g', t', ab) \<Longrightarrow> aborting g' = (aborting g \<or> ab)"
  by (auto simp: group_task_done_def Let_def split: task_end.splits if_splits)

lemma caller_inv_done:
  assumes c: "caller_inv l g t p" and r: "group_task_done x g t = (g', t', ab)"
    and f: "\<And>e. x = EndFailed e \<Longrightarrow> l" and ok: "group_ok g"
  shows "caller_inv l g' t' p"
proof -
  have mono: "probe_cancelled p t \<Longrightarrow> probe_cancelled p t'"
    using r probe_cancelled_mono [of p t t'] group_done_mono [of t x g] group_done_count(2) [of x g t]
    by simp
  show ?thesis
    using c r f ok mono
    by (auto simp: caller_inv_def group_task_done_def Let_def group_ok_def
        split: task_end.splits if_splits)
qed

lemma end_ok_done:
  assumes "\<forall>y \<in> set ps. end_ok y l a pc" and i: "i < length ps" "ps ! i = Ended x"
    and "a \<longrightarrow> a'" and "pc \<longrightarrow> pc'"
  shows "\<forall>y \<in> set (ps[i := Reaped x]). end_ok y l a' pc'"
proof
  fix y assume "y \<in> set (ps[i := Reaped x])"
  then consider "y = Reaped x" | "y \<in> set ps" using set_update_subset_insert [of ps i] by blast
  then show "end_ok y l a' pc'"
  proof cases
    case 1
    have "end_ok (Ended x) l a pc" using assms(1) i nth_mem by metis
    then show ?thesis using 1 assms(4,5) by (auto simp: end_ok_def)
  next
    case 2
    then show ?thesis using end_ok_all [OF assms(1)] assms(4,5) by blast
  qed
qed

lemma tasks_done:
  assumes inv: "tasks_inv ps cs l g t p None due" and i: "i < length ps" "ps ! i = Ended x"
    and r: "group_task_done x g t = (g', t', ab)"
  shows "tasks_inv (ps[i := Reaped x]) (aborted ab ps cs) l g' t' p None due"
proof -
  note D = tasks_invD [OF inv]
  have mono: "probe_cancelled p t \<Longrightarrow> probe_cancelled p t'"
    using r probe_cancelled_mono [of p t t'] group_done_mono [of t x g] group_done_count(2) [of x g t]
    by simp
  have x: "end_ok (Ended x) l (aborting g) (probe_cancelled p t)"
    using D(4) [OF refl, of "Ended x"] nth_mem [OF i(1)] i(2) by simp
  have ab: "aborting g' = (aborting g \<or> ab)" using group_done_aborting [OF r] .
  have "creqs_ok (ps[i := Reaped x]) (aborted ab ps cs) (aborting g')"
    using creqs_ok_aborted [OF D(1) ab] i(1) by (rule creqs_ok_reap)
  moreover have "inv_group g' (ps[i := Reaped x])" using D(2) i r by (rule inv_group_done)
  moreover have "inv_cause l (probe_cancelled p t') g' t' (ps[i := Reaped x])"
    using D(5) D(2) i r by (intro inv_cause_done) auto
  moreover have "caller_inv l g' t' p"
    using D(6) r _ D(3) by (rule caller_inv_done) (use x in \<open>auto simp: end_ok_def\<close>)
  moreover have "\<forall>y \<in> set (ps[i := Reaped x]). end_ok y l (aborting g') (probe_cancelled p t')"
    using D(4) ab mono by (intro end_ok_done [of ps l "aborting g" "probe_cancelled p t", OF _ i]) auto
  ultimately show ?thesis using D(7) by (simp add: tasks_inv_def inv_final_running)
qed

lemma probe_wake:
  "group_parent_wake g t = (g', t', ab) \<Longrightarrow> probe_cancelled p t' = probe_cancelled p t"
  by (auto simp: group_parent_wake_def split: if_splits)

lemma tasks_wake:
  assumes inv: "tasks_inv ps cs l g t p None due" and r: "group_parent_wake g t = (g', t', ab)"
  shows "tasks_inv ps (aborted ab ps cs) l g' t' p None due"
proof -
  note D = tasks_invD [OF inv]
  note W = parent_wake_group [OF r D(3)]
  note P = probe_wake [OF r, of p]
  have "inv_group g' ps" using D(2) W(1,2) by (simp add: inv_group_def)
  moreover have "inv_cause l (probe_cancelled p t') g' t' ps"
    using D(5) W(5) by (auto simp: inv_cause_def P)
  moreover have "caller_inv l g' t' p"
  proof -
    have "aborting g' \<longrightarrow> l \<or> probe_cancelled p t'"
      using D(3,6) r P by (auto simp: caller_inv_def group_parent_wake_def group_ok_def split: if_splits)
    then show ?thesis using D(6) W(4,6-8) by (auto simp: caller_inv_def)
  qed
  moreover have "\<forall>y \<in> set ps. end_ok y l (aborting g') (probe_cancelled p t')"
    using end_ok_all [of "set ps" l "aborting g" "probe_cancelled p t"] D(4) W(3) by (simp add: P)
  ultimately show ?thesis
    using creqs_ok_aborted [OF D(1) W(3)] D(7) by (simp add: tasks_inv_def inv_final_running)
qed

lemma tasks_exit:
  assumes inv: "tasks_inv ps cs l g t p None due" and nm: "\<not> must_cancel t"
    and reaped: "list_all (\<lambda>x. case x of Reaped _ \<Rightarrow> True | _ \<Rightarrow> False) ps"
    and x: "group_exit ver g t = (r, t', due')"
  shows "tasks_inv ps cs l g t' p (Some r) due'"
proof -
  note D = tasks_invD [OF inv]
  note R = group_exit_result [OF x D(3)]
  have noend: "Ended y \<notin> set ps" for y using reaped by (auto simp: list_all_iff)
  have quiet: "\<not> l \<and> \<not> probe_cancelled p t'" if "r = None"
    using R that D(3) D(5) nm noend by (auto simp: inv_cause_def stop_cause_def group_ok_def)
  have "y = Reaped EndNormal" if r: "r = None" and y: "y \<in> set ps" for y
  proof -
    obtain e where e: "y = Reaped e"
      using reaped y by (cases y) (auto simp: list_all_iff)
    have "end_ok y l (aborting g) (probe_cancelled p t)" using D(4) y by simp
    moreover have "\<not> aborting g" "t' = t" using R r by simp_all
    ultimately show ?thesis using quiet [OF r] e by (cases e) (auto simp: end_ok_def)
  qed
  moreover have "inv_final (Some r) due' l (probe_cancelled p t') g ps"
    using R quiet reaped by (auto simp: inv_final_def split: option.splits)
  ultimately show ?thesis using D(1,2) by (auto simp: tasks_inv_def)
qed

lemma tasks_cancel:
  assumes inv: "tasks_inv ps cs l g t p None due"
  shows "tasks_inv ps cs l g (task_cancel t) p None due"
proof -
  note D = tasks_invD [OF inv]
  have pc: "probe_cancelled p (task_cancel t)"
    using D(6) by (auto simp: caller_inv_def probe_defs)
  have "\<forall>x \<in> set ps. end_ok x l (aborting g) (probe_cancelled p (task_cancel t))"
    using end_ok_all [of "set ps" l "aborting g" "probe_cancelled p t"] D(4) pc by simp
  then show ?thesis
    using D(1,2,6,7) pc
    by (simp add: tasks_inv_def inv_final_running inv_cause_def stop_cause_def caller_inv_def)
qed

lemma tasks_rearm_other:
  assumes inv: "tasks_inv ps cs l g t p None due" and n: "0 < num_cancels t"
  shows "tasks_inv ps cs l g ((task_cancel (task_uncancel ver t))\<lparr>rearms := Suc (rearms t)\<rparr>) p None due"
proof -
  note D = tasks_invD [OF inv]
  let ?t = "(task_cancel (task_uncancel ver t))\<lparr>rearms := Suc (rearms t)\<rparr>"
  have pc: "probe_cancelled p ?t" using D(6) by (auto simp: caller_inv_def probe_defs)
  moreover have "\<forall>x \<in> set ps. end_ok x l (aborting g) (probe_cancelled p ?t)"
    using end_ok_all [of "set ps" l "aborting g" "probe_cancelled p t"] D(4) pc by simp
  ultimately show ?thesis
    using D(1,2,6,7) n
    by (simp add: tasks_inv_def inv_final_running inv_cause_def stop_cause_def caller_inv_def)
qed

lemma tasks_rearm:
  assumes inv: "tasks_inv ps cs l g t p fin True"
  shows "tasks_inv ps cs l g t' p fin False"
proof -
  note D = tasks_invD [OF inv]
  obtain e where e: "fin = Some (Some e)" using rearm_final(1) [OF D(8)] by blast
  have "inv_final fin False l (probe_cancelled p t') g ps"
    using rearm_final(2) [OF D(8)] .
  then show ?thesis using D(1,2) e by (simp add: tasks_inv_def)
qed

text \<open>While some task is not reaped the group has not been left.\<close>

lemma tasks_running:
  assumes "tasks_inv ps cs l g t p fin due" and "i < length ps" and "\<And>x. ps ! i \<noteq> Reaped x"
  shows "fin = None"
  using final_None [OF tasks_invD(8) [OF assms(1)] assms(2,3)] .

text \<open>
  The progress of a stopping group: the caller can move, some task's end is to be collected,
  or every live task has been cancelled.
\<close>

lemma tasks_stopping:
  assumes inv: "tasks_inv ps cs l g t p None due" and stop: "l \<or> probe_cancelled p t"
  shows "must_cancel t \<or> (\<exists>i < length ps. \<exists>x. ps ! i = Ended x) \<or> (\<forall>i < length ps. live (ps ! i) \<longrightarrow> cs ! i)"
proof -
  note D = tasks_invD [OF inv]
  from D(5) stop consider "must_cancel t" | "propagate g \<or> errors g \<noteq> []" | e where "Ended (EndFailed e) \<in> set ps"
    by (auto simp: inv_cause_def stop_cause_def)
  then show ?thesis
  proof cases
    case 2
    then have "aborting g" using D(3) by (auto simp: group_ok_def)
    then show ?thesis using D(1) by (auto simp: creqs_ok_def creq_ok_def)
  next
    case 3
    then show ?thesis by (metis in_set_conv_nth)
  qed simp
qed

end
