(* ===== verification/Stream_Inv.thy ===== *)
theory Stream_Inv
  imports Stream Group_Tasks
begin

text \<open>
  The invariants of \<open>stream\<close>, each on the fields it is about: \<open>task_inv\<close> (the group and its
  tasks, projected onto \<open>Group_Tasks\<close>), \<open>wait_inv\<close> (who waits on the queue, and that each wait
  can be ended), \<open>data_inv\<close> (items pass in source order from the source to \<open>fn\<close>, every index
  is in flight or finished exactly once, and the sentinels add up), and that every event
  keeps them.
\<close>

section \<open>The invariants\<close>

fun pc_p :: "'i ppc \<Rightarrow> pc" where
  "pc_p PCreated = Created"
| "pc_p PPull = InFn"
| "pc_p (PPut _) = Queued"
| "pc_p (PSend _) = Queued"
| "pc_p (PEnded x) = Ended x"
| "pc_p (PReaped x) = Reaped x"

fun pc_c :: "'i cpc \<Rightarrow> pc" where
  "pc_c CCreated = Created"
| "pc_c CGet = Queued"
| "pc_c (CFn _ _) = InFn"
| "pc_c (CEnded x) = Ended x"
| "pc_c (CReaped x) = Reaped x"

lemma pc_live [simp]: "live (pc_p p) = p_live p" "live (pc_c c) = c_live c"
  by (cases p; simp) (cases c; simp)

definition stat :: "('i, 'r) stream \<Rightarrow> pc list" where
  "stat s = pc_p (prod_pc s) # map pc_c (cons s)"

definition creqs :: "('i, 'r) stream \<Rightarrow> bool list" where
  "creqs s = prod_creq s # cons_creq s"

definition task_inv :: "('i, 'r) stream \<Rightarrow> bool" where
  "task_inv s = tasks_inv (stat s) (creqs s) (s_failed s) (s_group s) (s_caller s) (s_probe s)
     (s_final s) (s_rearm s)"

fun waiting :: "'i ppc \<Rightarrow> bool" where
  "waiting (PPut _) = True"
| "waiting (PSend _) = True"
| "waiting _ = False"

fun is_fn :: "'i cpc \<Rightarrow> bool" where
  "is_fn (CFn _ _) = True"
| "is_fn _ = False"

text \<open>\<open>d\<close> counts the items taken out of the queue whose task is neither done nor in \<open>fn\<close>.\<close>

definition wait_inv :: "nat \<Rightarrow> nat \<Rightarrow> 'i qitem aqueue \<Rightarrow> 'i ppc \<Rightarrow> bool \<Rightarrow> 'i cpc list \<Rightarrow> bool list \<Rightarrow> bool" where
  "wait_inv n d q p pcr cs ccr \<longleftrightarrow>
     q_good q \<and> maxsize q = n \<and> length ccr = length cs \<and>
     dom (q_gstate q) = {i. i < length cs \<and> cs ! i = CGet} \<and>
     (\<forall>i. q_gstate q i = Some WPending \<longrightarrow> \<not> ccr ! i) \<and>
     (\<forall>i. q_gstate q i = Some WCancelled \<longrightarrow> ccr ! i) \<and>
     (putter q \<noteq> None) = waiting p \<and>
     (putter q = Some WPending \<longrightarrow> \<not> pcr) \<and> (putter q = Some WCancelled \<longrightarrow> pcr) \<and>
     unfinished q = d + length (buf q) + cnt is_fn cs"

fun idx_of :: "'i cpc \<Rightarrow> nat multiset" where
  "idx_of (CFn i _) = {#i#}"
| "idx_of _ = {#}"

definition infl :: "'i cpc list \<Rightarrow> nat multiset" where
  "infl cs = sum_list (map idx_of cs)"

fun hand :: "'i ppc \<Rightarrow> 'i list" where
  "hand (PPut x) = [x]"
| "hand _ = []"

fun ended_normal :: "'i cpc \<Rightarrow> bool" where
  "ended_normal (CEnded x) = (x = EndNormal)"
| "ended_normal (CReaped x) = (x = EndNormal)"
| "ended_normal _ = False"

text \<open>The sentinels the producer has still to put, when it is not cancelled.\<close>

fun rest_of :: "'i ppc \<Rightarrow> nat \<Rightarrow> nat" where
  "rest_of (PSend n) _ = n"
| "rest_of (PEnded _) _ = 0"
| "rest_of (PReaped _) _ = 0"
| "rest_of _ m = m"

fun gave_up :: "'i ppc \<Rightarrow> bool" where
  "gave_up (PEnded x) = (x \<noteq> EndNormal)"
| "gave_up (PReaped x) = (x \<noteq> EndNormal)"
| "gave_up _ = False"

definition fifo :: "'i qitem list \<Rightarrow> 'i list \<Rightarrow> 'i list \<Rightarrow> 'i ppc \<Rightarrow> 'i cpc list \<Rightarrow> bool" where
  "fifo b pl cl p cs \<longleftrightarrow>
     (\<exists>xs m. b = map QItem xs @ replicate m Sentinel \<and> pl = cl @ xs @ hand p \<and>
        m + cnt ended_normal cs + rest_of p (length cs) \<le> length cs \<and>
        (\<not> gave_up p \<longrightarrow> m + cnt ended_normal cs + rest_of p (length cs) = length cs) \<and>
        (0 < cnt ended_normal cs \<longrightarrow> xs = []))"

text \<open>Every call of \<open>fn\<close> has its index; it is in flight or finished once, or failed.\<close>

definition calls_ok :: "bool \<Rightarrow> (nat \<times> 'i) list \<Rightarrow> nat list \<Rightarrow> 'i cpc list \<Rightarrow> bool" where
  "calls_ok latch cl fin cs \<longleftrightarrow>
     map fst cl = [0..<length cl] \<and>
     mset fin + infl cs \<subseteq># mset [0..<length cl] \<and>
     (\<forall>idx x. CFn idx x \<in> set cs \<longrightarrow> (idx, x) \<in> set cl) \<and>
     (\<not> latch \<longrightarrow> mset fin + infl cs = mset [0..<length cl])"

definition data_inv :: "nat \<Rightarrow> ('i, 'r) stream \<Rightarrow> bool" where
  "data_inv k s \<longleftrightarrow>
     concur s = k \<and> started s = length (cons s) \<and> length (cons s) \<le> k \<and>
     consumed_index s = length (s_calls s) \<and> length (results s) = length (finished s) \<and>
     calls_ok (s_failed s) (s_calls s) (finished s) (cons s) \<and>
     (\<not> s_failed s \<longrightarrow>
        fifo (buf (queue s)) (pulled s) (map snd (s_calls s)) (prod_pc s) (cons s) \<and>
        (pulled s \<noteq> [] \<longrightarrow> cons s \<noteq> []))"

definition stream_inv :: "nat \<Rightarrow> nat \<Rightarrow> ('i, 'r) stream \<Rightarrow> bool" where
  "stream_inv k n s \<longleftrightarrow>
     task_inv s \<and> wait_inv n 0 (queue s) (prod_pc s) (prod_creq s) (cons s) (cons_creq s) \<and>
     data_inv k s"

lemma stream_invD:
  assumes "stream_inv k n s"
  shows "task_inv s" "wait_inv n 0 (queue s) (prod_pc s) (prod_creq s) (cons s) (cons_creq s)"
    "data_inv k s"
  using assms by (simp_all add: stream_inv_def)

lemma stream_init_inv: "stream_inv k n (stream_init ver k n m t0)"
proof -
  obtain g t where g: "group_begin_exit ver (group_enter t0) t0 = (g, t)" by (metis surj_pair)
  show ?thesis
    using tasks_init [OF g] aq.init [of n]
    by (auto simp: stream_inv_def task_inv_def wait_inv_def data_inv_def stat_def creqs_def fifo_def
        calls_ok_def infl_def stream_init_def g)
qed

section \<open>Projections of the operations\<close>

lemma stat_simps [simp]:
  "stat (s\<lparr>queue := a\<rparr>) = stat s" "creqs (s\<lparr>queue := a\<rparr>) = creqs s"
  "stat (s\<lparr>meter := b\<rparr>) = stat s" "creqs (s\<lparr>meter := b\<rparr>) = creqs s"
  "stat (s\<lparr>s_failed := c\<rparr>) = stat s" "creqs (s\<lparr>s_failed := c\<rparr>) = creqs s"
  "stat (s\<lparr>results := d\<rparr>) = stat s" "creqs (s\<lparr>results := d\<rparr>) = creqs s"
  "stat (s\<lparr>finished := e\<rparr>) = stat s" "creqs (s\<lparr>finished := e\<rparr>) = creqs s"
  "stat (s\<lparr>s_calls := f\<rparr>) = stat s" "creqs (s\<lparr>s_calls := f\<rparr>) = creqs s"
  "stat (s\<lparr>consumed_index := h\<rparr>) = stat s" "creqs (s\<lparr>consumed_index := h\<rparr>) = creqs s"
  "stat (s\<lparr>pulled := i\<rparr>) = stat s" "creqs (s\<lparr>pulled := i\<rparr>) = creqs s"
  "stat (s\<lparr>s_caller := j\<rparr>) = stat s" "creqs (s\<lparr>s_caller := j\<rparr>) = creqs s"
  "stat (s\<lparr>s_group := l\<rparr>) = stat s" "creqs (s\<lparr>s_group := l\<rparr>) = creqs s"
  "stat (s\<lparr>s_final := m\<rparr>) = stat s" "creqs (s\<lparr>s_final := m\<rparr>) = creqs s"
  "stat (s\<lparr>s_rearm := n\<rparr>) = stat s" "creqs (s\<lparr>s_rearm := n\<rparr>) = creqs s"
  "stat (s\<lparr>prod_pc := p\<rparr>) = (stat s)[0 := pc_p p]" "creqs (s\<lparr>prod_pc := p\<rparr>) = creqs s"
  "creqs (s\<lparr>cons := cs\<rparr>) = creqs s"
  by (simp_all add: stat_def creqs_def)

lemma stat_cons [simp]:
  "stat (s\<lparr>cons := (cons s)[i := c]\<rparr>) = (stat s)[Suc i := pc_c c]"
  by (simp add: stat_def map_update)

lemma stat_nth [simp]:
  "length (stat s) = Suc (length (cons s))"
  "stat s ! 0 = pc_p (prod_pc s)"
  "i < length (cons s) \<Longrightarrow> stat s ! Suc i = pc_c (cons s ! i)"
  "creqs s ! Suc i = cons_creq s ! i"
  "creqs s ! 0 = prod_creq s"
  by (simp_all add: stat_def creqs_def)

lemma c_end_fields [simp]:
  "stat (c_end i x s) = (stat s)[Suc i := Ended x]" "creqs (c_end i x s) = creqs s"
  "s_failed (c_end i x s) = s_failed s" "s_group (c_end i x s) = s_group s"
  "s_caller (c_end i x s) = s_caller s" "s_probe (c_end i x s) = s_probe s"
  "s_final (c_end i x s) = s_final s" "s_rearm (c_end i x s) = s_rearm s"
  "s_calls (c_end i x s) = s_calls s" "queue (c_end i x s) = queue s"
  "cons (c_end i x s) = (cons s)[i := CEnded x]" "prod_pc (c_end i x s) = prod_pc s"
  "prod_creq (c_end i x s) = prod_creq s" "cons_creq (c_end i x s) = cons_creq s"
  by (simp_all add: c_end_def)

lemma p_end_fields [simp]:
  "stat (p_end x s) = (stat s)[0 := Ended x]" "creqs (p_end x s) = creqs s"
  "s_failed (p_end x s) = s_failed s" "s_group (p_end x s) = s_group s"
  "s_caller (p_end x s) = s_caller s" "s_probe (p_end x s) = s_probe s"
  "s_final (p_end x s) = s_final s" "s_rearm (p_end x s) = s_rearm s"
  "s_calls (p_end x s) = s_calls s" "queue (p_end x s) = queue s"
  "cons (p_end x s) = cons s" "prod_pc (p_end x s) = PEnded x"
  "prod_creq (p_end x s) = prod_creq s" "cons_creq (p_end x s) = cons_creq s"
  by (simp_all add: p_end_def)

lemma p_fail_eq:
  "p_fail e s = p_end (end_with (stray_cancellation_as_error e (s_stopping s)
     (Origin ''the producer''))) (s\<lparr>s_failed := True\<rparr>)"
  by (simp add: p_fail_def Let_def)

section \<open>The group and its tasks\<close>

lemma task_inv_data [simp]:
  "task_inv (s\<lparr>queue := a\<rparr>) = task_inv s" "task_inv (s\<lparr>meter := b\<rparr>) = task_inv s"
  "task_inv (s\<lparr>results := d\<rparr>) = task_inv s" "task_inv (s\<lparr>finished := e\<rparr>) = task_inv s"
  "task_inv (s\<lparr>s_calls := f\<rparr>) = task_inv s" "task_inv (s\<lparr>consumed_index := h\<rparr>) = task_inv s"
  "task_inv (s\<lparr>pulled := i\<rparr>) = task_inv s"
  by (simp_all add: task_inv_def)

text \<open>A consumer (position \<open>Suc i\<close> of the group) in the middle of its step.\<close>

definition c_active :: "nat \<Rightarrow> ('i, 'r) stream \<Rightarrow> bool" where
  "c_active i s \<longleftrightarrow> task_inv s \<and> s_final s = None \<and> \<not> s_rearm s \<and> i < length (cons s) \<and>
     c_live (cons s ! i)"

definition p_active :: "('i, 'r) stream \<Rightarrow> bool" where
  "p_active s \<longleftrightarrow> task_inv s \<and> s_final s = None \<and> \<not> s_rearm s \<and> p_live (prod_pc s)"

lemma c_active_data [simp]:
  "c_active j (s\<lparr>queue := a\<rparr>) = c_active j s" "c_active j (s\<lparr>meter := b\<rparr>) = c_active j s"
  "c_active j (s\<lparr>results := d\<rparr>) = c_active j s" "c_active j (s\<lparr>finished := e\<rparr>) = c_active j s"
  "p_active (s\<lparr>queue := a\<rparr>) = p_active s" "p_active (s\<lparr>meter := b\<rparr>) = p_active s"
  "p_active (s\<lparr>pulled := i\<rparr>) = p_active s"
  by (simp_all add: c_active_def p_active_def)

lemma c_tasks:
  assumes "c_active i s"
  shows "tasks_inv (stat s) (creqs s) (s_failed s) (s_group s) (s_caller s) (s_probe s) None False"
    and "Suc i < length (stat s)" and "live (stat s ! Suc i)"
  using assms by (auto simp: c_active_def task_inv_def)

lemma p_tasks:
  assumes "p_active s"
  shows "tasks_inv (stat s) (creqs s) (s_failed s) (s_group s) (s_caller s) (s_probe s) None False"
    and "0 < length (stat s)" and "live (stat s ! 0)"
  using assms by (auto simp: p_active_def task_inv_def)

lemma c_end_task:
  assumes a: "c_active i s"
    and x: "x = EndNormal \<or> x = EndCancelled \<and> (aborting (s_group s) \<or> s_stopping s)"
  shows "task_inv (c_end i x s)"
proof -
  note T = c_tasks [OF a]
  have "tasks_inv ((stat s)[Suc i := Ended x]) (creqs s) (s_failed s) (s_group s) (s_caller s)
      (s_probe s) None False"
    using x
  proof
    assume "x = EndNormal"
    then show ?thesis using tasks_normal [OF T] by simp
  next
    assume "x = EndCancelled \<and> (aborting (s_group s) \<or> s_stopping s)"
    then show ?thesis using tasks_cancelled [OF T] by (auto simp: s_stopping_def)
  qed
  then show ?thesis using a by (simp add: task_inv_def c_active_def)
qed

lemma c_live_task:
  assumes "c_active i s" and "c_live c"
  shows "task_inv (s\<lparr>cons := (cons s)[i := c]\<rparr>)"
  using tasks_live [OF c_tasks [OF assms(1)], of "pc_c c"] assms
  by (simp add: task_inv_def c_active_def)

lemma c_live_active:
  assumes "c_active i s" and "c_live c"
  shows "c_active i (s\<lparr>cons := (cons s)[i := c]\<rparr>)"
  using c_live_task [OF assms] assms by (simp add: c_active_def)

lemma c_fail_task:
  assumes a: "c_active i s" and e: "e = CancelledError \<longrightarrow> s_stopping s"
  shows "task_inv (c_end i (end_with e) (s\<lparr>s_failed := True\<rparr>))"
  using tasks_fails [OF c_tasks [OF a], of e] e a
  by (simp add: task_inv_def c_active_def s_stopping_def end_with_def)

lemma p_end_task:
  assumes a: "p_active s"
    and x: "x = EndNormal \<or> x = EndCancelled \<and> (aborting (s_group s) \<or> s_stopping s)"
  shows "task_inv (p_end x s)"
proof -
  note T = p_tasks [OF a]
  have "tasks_inv ((stat s)[0 := Ended x]) (creqs s) (s_failed s) (s_group s) (s_caller s)
      (s_probe s) None False"
    using x
  proof
    assume "x = EndNormal"
    then show ?thesis using tasks_normal [OF T] by simp
  next
    assume "x = EndCancelled \<and> (aborting (s_group s) \<or> s_stopping s)"
    then show ?thesis using tasks_cancelled [OF T] by (auto simp: s_stopping_def)
  qed
  then show ?thesis using a by (simp add: task_inv_def p_active_def)
qed

lemma p_live_task:
  assumes "p_active s" and "p_live p"
  shows "task_inv (s\<lparr>prod_pc := p\<rparr>)"
  using tasks_live [OF p_tasks [OF assms(1)], of "pc_p p"] assms
  by (simp add: task_inv_def p_active_def)

lemma p_live_active:
  assumes "p_active s" and "p_live p"
  shows "p_active (s\<lparr>prod_pc := p\<rparr>)"
  using p_live_task [OF assms] assms by (simp add: p_active_def)

lemma p_fail_task:
  assumes a: "p_active s"
  shows "task_inv (p_fail e s)"
proof -
  define x where "x = stray_cancellation_as_error e (s_stopping s) (Origin ''the producer'')"
  have "x = CancelledError \<longrightarrow> s_stopping s" by (simp add: x_def stray_not_cancelled)
  then show ?thesis
    unfolding p_fail_eq x_def [symmetric] using tasks_fails [OF p_tasks [OF a], of x] a
    by (simp add: task_inv_def p_fail_eq p_active_def s_stopping_def end_with_def)
qed

lemma p_spawn_active:
  assumes a: "p_active s" and ab: "\<not> aborting (s_group s)"
  shows "p_active (p_spawn s)"
  using tasks_spawn [OF p_tasks(1) [OF a] ab] a
  by (simp add: p_active_def task_inv_def p_spawn_def stat_def creqs_def)

text \<open>The operations, over those.\<close>

lemma task_inv_calls [simp]:
  "c_active j (s\<lparr>s_calls := f\<rparr>) = c_active j s"
  "c_active j (s\<lparr>consumed_index := h\<rparr>) = c_active j s"
  by (simp_all add: c_active_def)

lemma c_item_task: "c_active i s \<Longrightarrow> task_inv (c_item i it s)"
  using c_live_task [of i "s\<lparr>consumed_index := Suc (consumed_index s)\<rparr>" "CFn (consumed_index s) x" for x]
  by (auto simp: c_item_def c_end_task split: qitem.splits)

lemma c_got_task: "c_active i s \<Longrightarrow> task_inv (c_got i r s)"
  using c_live_task [of i "s\<lparr>queue := snd r\<rparr>" CGet] c_item_task [of i "s\<lparr>queue := snd r\<rparr>"]
  by (auto simp: c_got_def split: prod.splits option.splits)

lemma end_with_cancelled [simp]: "end_with CancelledError = EndCancelled"
  by (simp add: end_with_def)

lemma c_head_task: "c_active i s \<Longrightarrow> task_inv (c_head i s)"
  by (auto simp: c_head_def raise_if_cancellation_absorbed_def c_got_task c_end_task)

lemma c_start_task: "c_active i s \<Longrightarrow> task_inv (c_start i s)"
  using tasks_creq [OF c_tasks(1,2), of i s]
  by (auto simp: c_start_def c_head_task c_end_task)

lemma c_wake_task: "c_active i s \<Longrightarrow> task_inv (c_wake i s)"
  using tasks_creq [OF c_tasks(1,2), of i s]
  by (auto simp: c_wake_def c_got_task c_end_task)

lemma c_end_queue: "task_inv (c_end i x (s\<lparr>queue := q\<rparr>)) = task_inv (c_end i x s)"
  by (simp add: task_inv_def)

lemma c_fn_task:
  assumes a: "c_active i s" and e: "c = Propagate CancelledError \<longrightarrow> s_stopping s"
  shows "task_inv (c_fn c i s)"
proof (cases c)
  case (Store r)
  then show ?thesis using a by (simp add: c_fn_def c_head_task)
next
  case (Propagate x)
  then show ?thesis using c_fail_task [of i s x] a e by (simp add: c_fn_def c_end_queue)
qed

lemma p_put_done_task: "p_active s \<Longrightarrow> task_inv (p_put_done s)"
  using p_live_task [of s PPull] by (simp add: p_put_done_def)

lemma p_put_task: "p_active s \<Longrightarrow> task_inv (p_put x s)"
  using p_live_task [of "s\<lparr>queue := snd (q_put (QItem x) (queue s))\<rparr>" "PPut x"]
    p_put_done_task [of "s\<lparr>queue := snd (q_put (QItem x) (queue s))\<rparr>"]
  by (auto simp: p_put_def split: prod.splits bool.splits)

lemma p_item_task: "p_active s \<Longrightarrow> task_inv (p_item x s)"
  by (auto simp: p_item_def raise_if_cancellation_absorbed_def p_fail_task p_put_task p_spawn_active)

lemma p_send_task: "p_active s \<Longrightarrow> task_inv (p_send n s)"
proof (induction n arbitrary: s)
  case 0
  then show ?case by (simp add: p_end_task)
next
  case (Suc n)
  then show ?case
    using p_live_task [of "s\<lparr>queue := snd (q_put Sentinel (queue s))\<rparr>" "PSend (Suc n)"]
    by (auto split: prod.splits bool.splits)
qed

lemma p_source_task: "p_active s \<Longrightarrow> task_inv (p_source r s)"
  by (auto simp: p_source_def raise_if_cancellation_absorbed_def p_item_task p_fail_task p_send_task
      split: src.splits)

lemma p_start_task: "p_active s \<Longrightarrow> task_inv (p_start s)"
  using tasks_creq [OF p_tasks(1,2), of s]
  by (auto simp: p_start_def p_end_task p_live_task)

lemma p_wake_task:
  assumes a: "p_active s"
  shows "task_inv (p_wake dt s)"
proof -
  have ab: "prod_creq s \<Longrightarrow> aborting (s_group s)"
    using tasks_creq [OF p_tasks(1,2) [OF a]] by simp
  have w: "task_inv s" using a by (simp add: p_active_def)
  show ?thesis
    using a ab w
    by (auto simp: p_wake_def Let_def p_fail_task p_put_done_task p_send_task p_end_task
        split: ppc.splits prod.splits bool.splits)
qed

text \<open>The group's own steps.\<close>

lemma creqs_abort: "creqs (s_abort s) = aborted True (stat s) (creqs s)"
proof -
  have "map2 (\<lambda>p c. c \<or> c_live p) ps cs = map2 (\<lambda>p c. c \<or> live p) (map pc_c ps) cs" for ps :: "'a cpc list" and cs
    by (induction ps cs rule: list_induct2') auto
  then show ?thesis by (simp add: s_abort_def creqs_def stat_def aborted_def)
qed

lemma s_abort_fields [simp]:
  "stat (s_abort s) = stat s" "s_failed (s_abort s) = s_failed s" "s_group (s_abort s) = s_group s"
  "s_caller (s_abort s) = s_caller s" "s_probe (s_abort s) = s_probe s"
  "s_final (s_abort s) = s_final s" "s_rearm (s_abort s) = s_rearm s" "cons (s_abort s) = cons s"
  "prod_pc (s_abort s) = prod_pc s"
  by (simp_all add: s_abort_def stat_def)

lemma s_grp_fields [simp]:
  "stat (s_grp r s) = stat s" "s_failed (s_grp r s) = s_failed s" "s_group (s_grp r s) = fst r"
  "s_caller (s_grp r s) = fst (snd r)" "s_probe (s_grp r s) = s_probe s"
  "s_final (s_grp r s) = s_final s" "s_rearm (s_grp r s) = s_rearm s" "cons (s_grp r s) = cons s"
  "prod_pc (s_grp r s) = prod_pc s"
  "creqs (s_grp r s) = aborted (snd (snd r)) (stat s) (creqs s)"
  by (cases r; simp add: s_grp_def Let_def creqs_abort; simp add: aborted_def)+

lemma grp_task:
  assumes "tasks_inv (stat s) (aborted (snd (snd r)) (stat s) (creqs s)) (s_failed s) (fst r) (fst (snd r))
      (s_probe s) (s_final s) (s_rearm s)"
  shows "task_inv (s_grp r s)"
  using assms by (simp add: task_inv_def)

lemma aborted_reap:
  assumes "i < length ps" and "ps ! i = Ended x"
  shows "aborted ab (ps[i := Reaped x]) cs = aborted ab ps cs"
proof -
  have "map2 (\<lambda>p c. c \<or> live p) (ps[i := Reaped x]) cs = map2 (\<lambda>p c. c \<or> live p) ps cs"
    using assms by (intro nth_equalityI) (auto simp: nth_list_update)
  then show ?thesis by (simp add: aborted_def)
qed

lemma p_done_task:
  assumes t: "task_inv s" and fin: "s_final s = None" "\<not> s_rearm s" and x: "prod_pc s = PEnded x"
  shows "task_inv (p_done s)"
proof -
  obtain g u ab where r: "group_task_done x (s_group s) (s_caller s) = (g, u, ab)" by (metis prod_cases3)
  have e: "0 < length (stat s)" "stat s ! 0 = Ended x" by (simp_all add: x)
  have T: "tasks_inv (stat s) (creqs s) (s_failed s) (s_group s) (s_caller s) (s_probe s) None False"
    using t fin by (simp add: task_inv_def)
  have "task_inv (s_grp (g, u, ab) (s\<lparr>prod_pc := PReaped x\<rparr>))"
    using tasks_done [OF T e r] fin aborted_reap [OF e] by (intro grp_task) simp
  then show ?thesis by (simp add: p_done_def x r)
qed

lemma c_done_task:
  assumes t: "task_inv s" and fin: "s_final s = None" "\<not> s_rearm s"
    and i: "i < length (cons s)" and x: "cons s ! i = CEnded x"
  shows "task_inv (c_done i s)"
proof -
  obtain g u ab where r: "group_task_done x (s_group s) (s_caller s) = (g, u, ab)" by (metis prod_cases3)
  have e: "Suc i < length (stat s)" "stat s ! Suc i = Ended x" using i by (simp_all add: x)
  have T: "tasks_inv (stat s) (creqs s) (s_failed s) (s_group s) (s_caller s) (s_probe s) None False"
    using t fin by (simp add: task_inv_def)
  have "task_inv (s_grp (g, u, ab) (s\<lparr>cons := (cons s)[i := CReaped x]\<rparr>))"
    using tasks_done [OF T e r] fin aborted_reap [OF e] by (intro grp_task) simp
  then show ?thesis by (simp add: c_done_def x r)
qed

lemma s_reaped_stat:
  "s_reaped s = list_all (\<lambda>x. case x of Reaped _ \<Rightarrow> True | _ \<Rightarrow> False) (stat s)"
proof -
  have "(case pc_p p of Reaped _ \<Rightarrow> True | _ \<Rightarrow> False) = (case p of PReaped _ \<Rightarrow> True | _ \<Rightarrow> False)"
    for p :: "'a ppc" by (cases p) auto
  moreover have "(case pc_c c of Reaped _ \<Rightarrow> True | _ \<Rightarrow> False) = (case c of CReaped _ \<Rightarrow> True | _ \<Rightarrow> False)"
    for c :: "'a cpc" by (cases c) auto
  ultimately show ?thesis by (simp add: s_reaped_def stat_def list_all_iff)
qed

lemma s_reaped_grp [simp]: "s_reaped (s_grp r s) = s_reaped s"
  by (simp add: s_reaped_stat)

lemma parent_wake_task:
  assumes t: "task_inv s" and fin: "s_final s = None" "\<not> s_rearm s"
  shows "task_inv (s_grp (group_parent_wake (s_group s) (s_caller s)) s)"
proof -
  obtain g u ab where r: "group_parent_wake (s_group s) (s_caller s) = (g, u, ab)" by (metis prod_cases3)
  have T: "tasks_inv (stat s) (creqs s) (s_failed s) (s_group s) (s_caller s) (s_probe s) None False"
    using t fin by (simp add: task_inv_def)
  show ?thesis
    unfolding r using tasks_wake [OF T r] fin by (intro grp_task) simp
qed

lemma s_parent_task:
  assumes t: "task_inv s" and fin: "s_final s = None" "\<not> s_rearm s"
  shows "task_inv (s_parent ver s)"
proof -
  define s' where "s' = s_grp (group_parent_wake (s_group s) (s_caller s)) s"
  have t': "task_inv s'" unfolding s'_def using assms by (rule parent_wake_task)
  have fin': "s_final s' = None" "\<not> s_rearm s'" "\<not> must_cancel (s_caller s')"
    using fin by (simp_all add: s'_def)
  show ?thesis
  proof (cases "s_reaped s'")
    case False
    then show ?thesis using t' by (simp add: s_parent_def s'_def [symmetric])
  next
    case True
    obtain r u due where x: "group_exit ver (s_group s') (s_caller s') = (r, u, due)"
      by (metis prod_cases3)
    have T: "tasks_inv (stat s') (creqs s') (s_failed s') (s_group s') (s_caller s') (s_probe s') None False"
      using t' fin' by (simp add: task_inv_def)
    have "tasks_inv (stat s') (creqs s') (s_failed s') (s_group s') u (s_probe s') (Some r) due"
      using T fin'(3) True [unfolded s_reaped_stat] x by (rule tasks_exit)
    then show ?thesis
      using True by (simp add: s_parent_def s'_def [symmetric] x task_inv_def)
  qed
qed

lemma caller_events_task:
  assumes t: "task_inv s"
  shows "s_final s = None \<Longrightarrow> \<not> s_rearm s \<Longrightarrow> task_inv (s\<lparr>s_caller := task_cancel (s_caller s)\<rparr>)"
    and "s_final s = None \<Longrightarrow> \<not> s_rearm s \<Longrightarrow> 0 < num_cancels (s_caller s) \<Longrightarrow>
      task_inv (s\<lparr>s_caller := (task_cancel (task_uncancel ver (s_caller s)))
                   \<lparr>rearms := Suc (rearms (s_caller s))\<rparr>\<rparr>)"
    and "s_rearm s \<Longrightarrow> task_inv (s\<lparr>s_caller := u, s_rearm := False\<rparr>)"
  using t tasks_cancel [of "stat s" "creqs s" "s_failed s" "s_group s" "s_caller s" "s_probe s" False]
    tasks_rearm_other [of "stat s" "creqs s" "s_failed s" "s_group s" "s_caller s" "s_probe s" False ver]
    tasks_rearm [of "stat s" "creqs s" "s_failed s" "s_group s" "s_caller s" "s_probe s" "s_final s" u]
  by (simp_all add: task_inv_def)

section \<open>Waiting on the queue\<close>

text \<open>What \<open>q_get\<close> and a resumed \<open>get\<close> have in common; \<open>w\<close> is 1 where a wake-up was used.\<close>

definition got_ok :: "nat \<Rightarrow> nat \<Rightarrow> 'a aqueue \<Rightarrow> 'a option \<times> 'a aqueue \<Rightarrow> bool" where
  "got_ok i w q r \<longleftrightarrow>
     (case r of (x, t) \<Rightarrow>
        q_good t \<and> maxsize t = maxsize q \<and> unfinished t = unfinished q \<and> q_woken t + w = q_woken q \<and>
        (case x of
           None \<Rightarrow> buf q = [] \<and> buf t = [] \<and> putter t = putter q \<and>
                   q_gstate t = (q_gstate q)(i \<mapsto> WPending)
         | Some y \<Rightarrow> buf q = y # buf t \<and> q_gstate t = (q_gstate q)(i := None) \<and>
                     putter t = map_option (\<lambda>w. if w = WPending then WGranted else w) (putter q)))"

lemma get_ok: "q_good q \<Longrightarrow> q_gstate q i = None \<Longrightarrow> got_ok i 0 q (q_get i q)"
  using aq.get [of q _ _ i] aq.get_waits [of q i]
  by (cases "buf q") (fastforce simp: got_ok_def fun_upd_idem_iff)+

lemma resume_ok: "q_good q \<Longrightarrow> q_gstate q i = Some WGranted \<Longrightarrow> got_ok i 1 q (q_resume_get i q)"
  using aq.resume [of q i] aq.resume_waits [of q i]
  by (cases "buf q") (fastforce simp: got_ok_def)+

lemma wait_invD:
  assumes "wait_inv n d q p pcr cs ccr"
  shows "q_good q" "maxsize q = n" "length ccr = length cs"
    "i < length cs \<Longrightarrow> cs ! i \<noteq> CGet \<Longrightarrow> q_gstate q i = None"
    "dom (q_gstate q) = {i. i < length cs \<and> cs ! i = CGet}"
    "q_gstate q i = Some WPending \<Longrightarrow> \<not> ccr ! i" "q_gstate q i = Some WCancelled \<Longrightarrow> ccr ! i"
    "(putter q \<noteq> None) = waiting p"
    "putter q = Some WPending \<Longrightarrow> \<not> pcr" "putter q = Some WCancelled \<Longrightarrow> pcr"
    "unfinished q = d + length (buf q) + cnt is_fn cs"
  using assms unfolding wait_inv_def by blast+

lemma wait_cons:
  assumes inv: "wait_inv n d q p pcr cs ccr" and i: "i < length cs" "cs ! i \<noteq> CGet" "c \<noteq> CGet"
    and d: "d + of_bool (is_fn (cs ! i)) = d' + of_bool (is_fn c)"
  shows "wait_inv n d' q p pcr (cs[i := c]) ccr"
proof -
  note D = wait_invD [OF inv]
  have "{j. j < length (cs[i := c]) \<and> cs[i := c] ! j = CGet} = {j. j < length cs \<and> cs ! j = CGet}"
    using i by (auto simp: nth_list_update)
  then show ?thesis
    using D(1-3,5-11) d cnt_update [OF i(1), of is_fn c] unfolding wait_inv_def
    by (simp add: D(11) del: length_list_update) simp
qed

lemma wait_got_none:
  assumes inv: "wait_inv n 0 q p pcr cs ccr" and g: "got_ok i w q (None, t)"
    and i: "i < length cs" "\<not> is_fn (cs ! i)" "\<not> ccr ! i"
  shows "wait_inv n 0 t p pcr (cs[i := CGet]) ccr"
proof -
  note D = wait_invD [OF inv]
  have "dom (q_gstate t) = {j. j < length (cs[i := CGet]) \<and> cs[i := CGet] ! j = CGet}"
    using D(5) g i(1) by (auto simp: got_ok_def nth_list_update)
  moreover have "cnt is_fn (cs[i := CGet]) = cnt is_fn cs"
    using i by (intro cnt_update_same) auto
  ultimately show ?thesis
    using D(2,3,6-11) g i unfolding wait_inv_def by (auto simp: got_ok_def)
qed

lemma wait_got_item:
  assumes inv: "wait_inv n 0 q p pcr cs ccr" and g: "got_ok i w q (Some it, t)"
    and i: "i < length cs" "\<not> is_fn (cs ! i)"
  shows "wait_inv n 1 t p pcr (cs[i := CCreated]) ccr"
proof -
  note D = wait_invD [OF inv]
  have "dom (q_gstate t) = {j. j < length (cs[i := CCreated]) \<and> cs[i := CCreated] ! j = CGet}"
    using D(5) g i(1) by (auto simp: got_ok_def nth_list_update)
  moreover have "cnt is_fn (cs[i := CCreated]) = cnt is_fn cs"
    using i by (intro cnt_update_same) auto
  ultimately show ?thesis
    using D(2,3,6-11) g unfolding wait_inv_def
    by (auto simp: got_ok_def split: if_splits)
qed

lemma wait_task_done:
  assumes "wait_inv n (Suc d) q p pcr cs ccr"
  shows "wait_inv n d (q_task_done q) p pcr cs ccr"
  using assms aq.task_done [of q] unfolding wait_inv_def by auto

abbreviation s_wait :: "nat \<Rightarrow> ('i, 'r) stream \<Rightarrow> bool" where
  "s_wait n s \<equiv> wait_inv n 0 (queue s) (prod_pc s) (prod_creq s) (cons s) (cons_creq s)"

lemma c_item_wait:
  assumes inv: "wait_inv n 1 (queue s) (prod_pc s) (prod_creq s) ((cons s)[i := CCreated]) (cons_creq s)"
    and i: "i < length (cons s)"
  shows "s_wait n (c_item i it s)"
proof -
  have e: "wait_inv n 0 (q_task_done (queue s)) (prod_pc s) (prod_creq s) ((cons s)[i := CEnded x]) (cons_creq s)" for x
    using wait_cons [OF wait_task_done [OF inv [unfolded One_nat_def]], of i "CEnded x" 0] i by simp
  have f: "wait_inv n 0 (queue s) (prod_pc s) (prod_creq s) ((cons s)[i := CFn y z]) (cons_creq s)" for y z
    using wait_cons [OF inv, of i "CFn y z" 0] i by simp
  show ?thesis using e f by (auto simp: c_item_def split: qitem.splits)
qed

lemma c_got_wait:
  assumes inv: "s_wait n s" and g: "got_ok i w (queue s) r"
    and i: "i < length (cons s)" "\<not> is_fn (cons s ! i)" "\<not> cons_creq s ! i"
  shows "s_wait n (c_got i r s)"
proof (cases r)
  case (Pair x t)
  show ?thesis
  proof (cases x)
    case None
    then show ?thesis using wait_got_none [OF inv _ i] g Pair by (simp add: c_got_def)
  next
    case (Some it)
    have "wait_inv n 1 t (prod_pc s) (prod_creq s) ((cons s)[i := CCreated]) (cons_creq s)"
      using wait_got_item [OF inv _ i(1,2)] g Pair Some by simp
    then show ?thesis using c_item_wait [of n "s\<lparr>queue := t\<rparr>" i] i(1) Pair Some
      by (simp add: c_got_def)
  qed
qed

lemma c_end_wait:
  assumes inv: "s_wait n s" and i: "i < length (cons s)" "cons s ! i = CCreated"
  shows "s_wait n (c_end i x s)"
  using wait_cons [OF inv i(1), of "CEnded x" 0] i by (simp add: c_end_def)

lemma c_head_wait:
  assumes inv: "s_wait n s" and i: "i < length (cons s)" "cons s ! i = CCreated"
    and c: "\<not> cons_creq s ! i \<or> s_stopping s"
  shows "s_wait n (c_head i s)"
proof (cases "s_stopping s")
  case True
  then show ?thesis using c_end_wait [OF assms(1-3)]
    by (simp add: c_head_def raise_if_cancellation_absorbed_def)
next
  case False
  have "q_gstate (queue s) i = None" using wait_invD(4) [OF inv i(1)] i(2) by simp
  then have "got_ok i 0 (queue s) (q_get i (queue s))" using get_ok wait_invD(1) [OF inv] by blast
  then show ?thesis using c_got_wait [OF inv _ i(1)] i(2) c False
    by (simp add: c_head_def raise_if_cancellation_absorbed_def)
qed

lemma c_start_wait:
  assumes "s_wait n s" and "i < length (cons s)" "cons s ! i = CCreated"
  shows "s_wait n (c_start i s)"
  using c_end_wait [OF assms] c_head_wait [OF assms] by (simp add: c_start_def)

lemma c_wake_wait:
  assumes inv: "s_wait n s" and i: "i < length (cons s)" "cons s ! i = CGet"
    and g: "q_gstate (queue s) i = Some WGranted \<or> q_gstate (queue s) i = Some WCancelled \<and> cons_creq s ! i"
  shows "s_wait n (c_wake i s)"
proof (cases "cons_creq s ! i")
  case False
  then have "got_ok i 1 (queue s) (q_resume_get i (queue s))"
    using g resume_ok wait_invD(1) [OF inv] by blast
  then show ?thesis using c_got_wait [OF inv _ i(1)] i(2) False by (simp add: c_wake_def)
next
  case True
  note D = wait_invD [OF inv]
  obtain w where w: "q_gstate (queue s) i = Some w" "w \<noteq> WPending" using g by auto
  note A = aq.abandon [OF D(1) w] aq.abandon_keep [OF D(1)]
  have "dom (q_gstate (q_abandon_get i (queue s)))
      = {j. j < length ((cons s)[i := CEnded EndCancelled]) \<and> (cons s)[i := CEnded EndCancelled] ! j = CGet}"
    using A(1) D(5) i by (auto simp: nth_list_update)
  moreover have "cnt is_fn ((cons s)[i := CEnded EndCancelled]) = cnt is_fn (cons s)"
    using i by (intro cnt_update_same) auto
  ultimately show ?thesis
    using True A(1) A(2) [of i _ WPending] A(2) [of i _ WCancelled] D(2,3,6-11)
    by (simp add: c_wake_def wait_inv_def)
qed

text \<open>A consumer's place in the list is overwritten by its step, so its old entry is irrelevant.\<close>

lemma c_head_detach: "c_head i (s\<lparr>cons := (cons s)[i := c]\<rparr>) = c_head i s"
  by (simp add: c_head_def c_got_def c_item_def c_end_def s_stopping_def
      split: sum.splits prod.splits option.splits qitem.splits)

lemma c_fn_wait:
  assumes inv: "s_wait n s" and i: "i < length (cons s)" "is_fn (cons s ! i)"
    and c: "\<not> cons_creq s ! i \<or> s_stopping s"
  shows "s_wait n (c_fn r i s)"
proof -
  have notget: "cons s ! i \<noteq> CGet" using i(2) by auto
  have q: "wait_inv n 0 (q_task_done (queue s)) (prod_pc s) (prod_creq s) ((cons s)[i := x]) (cons_creq s)"
    if "x \<noteq> CGet" "\<not> is_fn x" for x
    using wait_task_done [of n 0] wait_cons [OF inv i(1) notget that(1), of 1] i(2) that(2) by simp
  show ?thesis
  proof (cases r)
    case (Store v)
    define s1 where "s1 = s\<lparr>results := results s @ [v], finished := finished s @ [cfn_index (cons s ! i)],
      queue := q_task_done (queue s),
      meter := map_option (\<lambda>m. m\<lparr>consumed := Suc (consumed m)\<rparr>) (meter s)\<rparr>"
    have "s_wait n (s1\<lparr>cons := (cons s1)[i := CCreated]\<rparr>)" using q [of CCreated] by (simp add: s1_def)
    then have "s_wait n (c_head i (s1\<lparr>cons := (cons s1)[i := CCreated]\<rparr>))"
      by (rule c_head_wait) (use i c in \<open>auto simp: s1_def s_stopping_def\<close>)
    then have "s_wait n (c_head i s1)" unfolding c_head_detach .
    then show ?thesis using Store by (simp add: c_fn_def s1_def)
  next
    case (Propagate e)
    then show ?thesis using q [of "CEnded (end_with e)"] by (simp add: c_fn_def)
  qed
qed

lemma wait_prod:
  assumes "wait_inv n d q p pcr cs ccr" and "waiting p' = waiting p"
  shows "wait_inv n d q p' pcr cs ccr"
  using assms by (simp add: wait_inv_def)

lemma wait_clear:
  assumes "wait_inv n d q p pcr cs ccr" and "\<not> waiting p'"
  shows "wait_inv n d (q_clear_putter q) p' pcr cs ccr"
  using assms aq.clear_putter [of q] unfolding wait_inv_def by auto

lemma wait_put:
  assumes inv: "wait_inv n d q p pcr cs ccr" and p: "\<not> waiting p" and r: "q_put x q = (True, t)"
  shows "wait_inv n d t p pcr cs ccr" and "buf t = buf q @ [x]"
proof -
  note D = wait_invD [OF inv]
  have nf: "\<not> q_full q" using r by (auto simp: q_put_def)
  have "putter q = None" using D(8) p by simp
  note P = aq.put [OF D(1) this nf, of x]
  show "buf t = buf q @ [x]" using P r by auto
  show "wait_inv n d t p pcr cs ccr"
    using P r D(2,3,5-8,11) p unfolding wait_inv_def by auto
qed

lemma wait_put_full:
  assumes inv: "wait_inv n d q p pcr cs ccr" and p: "\<not> waiting p" "waiting p'" "\<not> pcr"
    and r: "q_put x q = (False, t)"
  shows "wait_inv n d t p' pcr cs ccr" and "buf t = buf q"
proof -
  note D = wait_invD [OF inv]
  have f: "q_full q" using r by (auto simp: q_put_def split: if_splits)
  note P = aq.put_waits [OF D(1) f, of x]
  show "buf t = buf q" using P r by auto
  show "wait_inv n d t p' pcr cs ccr"
    using P r D(2,3,5-7,11) p unfolding wait_inv_def by auto
qed

lemma p_put_wait:
  assumes "s_wait n s" and "\<not> waiting (prod_pc s)" and "\<not> prod_creq s"
  shows "s_wait n (p_put x s)"
proof (cases "q_put (QItem x) (queue s)")
  case (Pair b q)
  show ?thesis
  proof (cases b)
    case True
    have "wait_inv n 0 q PPull (prod_creq s) (cons s) (cons_creq s)"
      by (rule wait_prod [OF wait_put(1) [OF assms(1,2)]]) (use Pair True assms(2) in simp_all)
    then show ?thesis using Pair True by (simp add: p_put_def p_put_done_def)
  next
    case False
    then show ?thesis
      using wait_put_full [OF assms(1,2) _ assms(3), of "PPut x"] Pair by (simp add: p_put_def)
  qed
qed

lemma p_fail_wait:
  assumes "s_wait n s" and "\<not> waiting (prod_pc s)"
  shows "s_wait n (p_fail e s)" "s_wait n (p_end x s)"
  using wait_prod [OF assms(1)] assms(2) by (simp_all add: p_fail_eq)

lemma wait_spawn:
  assumes "wait_inv n d q p pcr cs ccr"
  shows "wait_inv n d q p pcr (cs @ [CCreated]) (ccr @ [False])"
proof -
  note D = wait_invD [OF assms]
  have "dom (q_gstate q) = {i. i < length (cs @ [CCreated]) \<and> (cs @ [CCreated]) ! i = CGet}"
    using D(5) by (auto simp: nth_append less_Suc_eq)
  moreover have "(ccr @ [False]) ! i = ccr ! i" if "q_gstate q i = Some w" for i w
  proof -
    have "i < length cs" using D(5) that by blast
    then show ?thesis using D(3) by (simp add: nth_append)
  qed
  ultimately show ?thesis using D(1-3,6-11) unfolding wait_inv_def by auto
qed

lemma p_item_wait:
  assumes "s_wait n s" and "\<not> waiting (prod_pc s)" and "prod_creq s \<longrightarrow> s_stopping s"
  shows "s_wait n (p_item x s)"
proof (cases "s_stopping s")
  case True
  then show ?thesis using p_fail_wait(1) [OF assms(1,2)]
    by (simp add: p_item_def raise_if_cancellation_absorbed_def)
next
  case False
  have "s_wait n (p_spawn s)" using wait_spawn [OF assms(1)] by (simp add: p_spawn_def)
  then have "s_wait n (p_put x (p_spawn s))"
    by (rule p_put_wait) (use assms False in \<open>simp_all add: p_spawn_def\<close>)
  then show ?thesis
    using p_put_wait [OF assms(1,2)] p_fail_wait(1) [OF assms(1,2)] assms(3) False
    by (simp add: p_item_def raise_if_cancellation_absorbed_def)
qed

lemma p_send_wait:
  assumes "s_wait n s" and "\<not> waiting (prod_pc s)" and "\<not> prod_creq s"
  shows "s_wait n (p_send m s)"
  using assms
proof (induction m arbitrary: s)
  case 0
  then show ?case using p_fail_wait(2) [OF 0(1,2)] by simp
next
  case (Suc m)
  obtain b q where q: "q_put Sentinel (queue s) = (b, q)" by (metis surj_pair)
  show ?case
  proof (cases b)
    case True
    have "s_wait n (s\<lparr>queue := q\<rparr>)" using wait_put(1) [OF Suc.prems(1,2)] q True by simp
    then have "s_wait n (p_send m (s\<lparr>queue := q\<rparr>))"
      by (rule Suc.IH) (use Suc.prems in simp_all)
    then show ?thesis using q True by simp
  next
    case False
    then show ?thesis
      using wait_put_full [OF Suc.prems(1,2) _ Suc.prems(3), of "PSend (Suc m)"] q by simp
  qed
qed

lemma p_source_wait:
  assumes "s_wait n s" and "prod_pc s = PPull" and "prod_creq s \<longrightarrow> s_stopping s"
  shows "s_wait n (p_source r s)"
proof -
  have st: "s_stopping (s\<lparr>pulled := p\<rparr>) = s_stopping s" for p by (simp add: s_stopping_def)
  show ?thesis
    using p_item_wait [of n "s\<lparr>pulled := p\<rparr>" for p] p_fail_wait(1) [OF assms(1)]
      p_send_wait [OF assms(1)] assms
    by (auto simp: p_source_def raise_if_cancellation_absorbed_def st split: src.splits)
qed

text \<open>The producer's own status is overwritten too.\<close>

lemma p_send_detach: "p_send m (s\<lparr>prod_pc := p\<rparr>) = p_send m s"
proof (induction m arbitrary: s)
  case (Suc m)
  have "p_send m (s\<lparr>prod_pc := p, queue := q\<rparr>) = p_send m (s\<lparr>queue := q\<rparr>)" for q
  proof -
    have e: "s\<lparr>prod_pc := p, queue := q\<rparr> = s\<lparr>queue := q\<rparr>\<lparr>prod_pc := p\<rparr>" by simp
    show ?thesis unfolding e by (rule Suc.IH)
  qed
  then show ?case by (auto split: prod.splits bool.splits)
qed (simp add: p_end_def)

lemma p_put_detach: "p_put x (s\<lparr>prod_pc := p\<rparr>) = p_put x s"
  by (simp add: p_put_def p_put_done_def split: prod.splits bool.splits)

lemma p_wake_wait:
  assumes inv: "s_wait n s" and w: "waiting (prod_pc s)"
  shows "s_wait n (p_wake dt s)"
proof -
  have c: "wait_inv n 0 (q_clear_putter (queue s)) p' (prod_creq s) (cons s) (cons_creq s)"
    if "\<not> waiting p'" for p' using wait_clear [OF inv that] .
  define s' where "s' = s\<lparr>queue := q_clear_putter (queue s), prod_pc := PPull\<rparr>"
  have s': "s_wait n s'" "\<not> waiting (prod_pc s')" using c [of PPull] by (simp_all add: s'_def)
  have send: "p_send m (s\<lparr>queue := q_clear_putter (queue s)\<rparr>) = p_send m s'" for m
    using p_send_detach [where s = "s\<lparr>queue := q_clear_putter (queue s)\<rparr>" and p = PPull] by (simp add: s'_def)
  show ?thesis
  proof (cases "prod_pc s")
    case (PPut x)
    obtain b q where q: "q_put (QItem x) (q_clear_putter (queue s)) = (b, q)" by (metis surj_pair)
    have "wait_inv n 0 q PPull (prod_creq s) (cons s) (cons_creq s)" if b
      using wait_put(1) [OF c [of PPull]] q that by simp
    moreover have "wait_inv n 0 q (PPut x) (prod_creq s) (cons s) (cons_creq s)" if "\<not> b" "\<not> prod_creq s"
      using wait_put_full(1) [OF c [of PPull], of "PPut x"] q that by simp
    moreover have "wait_inv n 0 (q_clear_putter (queue s)) (PEnded e) (prod_creq s) (cons s) (cons_creq s)" for e
      using c by simp
    ultimately show ?thesis
      using PPut q by (cases "prod_creq s"; cases b) (simp_all add: p_wake_def Let_def p_put_done_def p_fail_eq)
  next
    case (PSend m)
    have "wait_inv n 0 (q_clear_putter (queue s)) (PEnded EndCancelled) (prod_creq s) (cons s) (cons_creq s)"
      using c by simp
    then show ?thesis using PSend p_send_wait [OF s', of m] send
      by (cases "prod_creq s") (simp_all add: p_wake_def Let_def s'_def)
  qed (use w in simp_all)
qed

lemma s_abort_wait:
  assumes inv: "s_wait n s"
  shows "s_wait n (s_abort s)"
proof -
  note D = wait_invD [OF inv]
  note C = aq.cancel_all [OF D(1)]
  have "map2 (\<lambda>p c. c \<or> c_live p) (cons s) (cons_creq s) ! i"
    if "q_gstate (q_cancel_all (queue s)) i = Some w" for i w
  proof -
    have "i < length (cons s) \<and> cons s ! i = CGet" using C D(5) that by blast
    then show ?thesis using D(3) by simp
  qed
  moreover have "waiting p \<Longrightarrow> p_live p" for p :: "'a ppc" by (cases p) auto
  ultimately show ?thesis
    using C D(2,3,5,8,11) unfolding wait_inv_def by (auto simp: s_abort_def)
qed

lemma s_grp_wait: "s_wait n s \<Longrightarrow> s_wait n (s_grp r s)"
  using s_abort_wait [of n "s\<lparr>s_group := fst r, s_caller := fst (snd r)\<rparr>"]
  by (auto simp: s_grp_def Let_def split: prod.splits)

lemma done_wait:
  assumes "s_wait n s"
  shows "prod_pc s = PEnded x \<Longrightarrow> s_wait n (p_done s)"
    and "i < length (cons s) \<Longrightarrow> cons s ! i = CEnded x \<Longrightarrow> s_wait n (c_done i s)"
    and "s_wait n (s_parent ver s)"
proof -
  show "s_wait n (p_done s)" if "prod_pc s = PEnded x"
    using s_grp_wait [of n "s\<lparr>prod_pc := PReaped x\<rparr>"] wait_prod [OF assms] that
    by (simp add: p_done_def)
  show "s_wait n (c_done i s)" if "i < length (cons s)" "cons s ! i = CEnded x"
    using s_grp_wait [of n "s\<lparr>cons := (cons s)[i := CReaped x]\<rparr>"]
      wait_cons [OF assms that(1), of "CReaped x" 0] that
    by (simp add: c_done_def)
  have "s_wait n (s_grp r s)" for r using s_grp_wait [OF assms] .
  then show "s_wait n (s_parent ver s)"
    by (auto simp: s_parent_def Let_def split: prod.splits)
qed

end
