(* ===== verification/Stream_Data.thy ===== *)
theory Stream_Data
  imports Stream_Inv
begin

text \<open>
  Every operation of \<open>stream\<close> keeps \<open>data_inv\<close>: what is in the queue is what was pulled and
  not yet passed on, in order; the indices and the sentinels add up. Then the whole invariant
  is kept by every event.
\<close>

section \<open>Lists of consumers\<close>

lemma infl_update:
  assumes "i < length cs"
  shows "infl (cs[i := c]) + idx_of (cs ! i) = infl cs + idx_of c"
  using assms
proof (induction cs arbitrary: i)
  case (Cons a cs)
  have step: "infl (a # cs) = idx_of a + infl cs" for a and cs :: "'a cpc list"
    by (simp add: infl_def)
  show ?case
  proof (cases i)
    case (Suc j)
    then have "infl (cs[j := c]) + idx_of (cs ! j) = infl cs + idx_of c" using Cons by simp
    then show ?thesis using Suc by (simp add: step add.assoc)
  qed (simp add: step ac_simps)
qed simp

lemma infl_snoc [simp]: "infl (cs @ [c]) = infl cs + idx_of c"
  by (simp add: infl_def)

text \<open>A consumer that is neither in \<open>fn\<close> nor ended.\<close>

fun is_idle :: "'i cpc \<Rightarrow> bool" where
  "is_idle CCreated = True"
| "is_idle CGet = True"
| "is_idle _ = False"

lemma is_idle_simps [simp]:
  "is_idle c \<Longrightarrow> idx_of c = {#}" "is_idle c \<Longrightarrow> \<not> ended_normal c" "is_idle c \<Longrightarrow> \<not> is_fn c"
  "is_fn c \<Longrightarrow> \<not> ended_normal c"
  by (cases c; simp)+

lemma CFn_update:
  assumes "\<forall>idx x. CFn idx x \<in> set cs \<longrightarrow> (idx, x) \<in> S" and "\<And>idx x. c = CFn idx x \<Longrightarrow> (idx, x) \<in> S"
  shows "\<forall>idx x. CFn idx x \<in> set (cs[i := c]) \<longrightarrow> (idx, x) \<in> S"
  using assms set_update_subset_insert [of cs i c] by blast

section \<open>The calls\<close>

lemma calls_okD:
  assumes "calls_ok l cl fin cs"
  shows "map fst cl = [0..<length cl]" "mset fin + infl cs \<subseteq># mset [0..<length cl]"
    "\<forall>idx x. CFn idx x \<in> set cs \<longrightarrow> (idx, x) \<in> set cl"
    "\<not> l \<Longrightarrow> mset fin + infl cs = mset [0..<length cl]"
  using assms unfolding calls_ok_def by blast+

lemma calls_ok_same:
  assumes ok: "calls_ok l cl fin cs" and i: "i < length cs"
    and c: "idx_of c = idx_of (cs ! i)" "\<And>idx x. c \<noteq> CFn idx x"
  shows "calls_ok l cl fin (cs[i := c])"
proof -
  have "infl (cs[i := c]) = infl cs" using infl_update [OF i, of c] c(1) by simp
  then show ?thesis
    using calls_okD [OF ok] CFn_update [of cs "set cl" c i] c(2) unfolding calls_ok_def by metis
qed

lemma calls_ok_call:
  assumes ok: "calls_ok l cl fin cs" and i: "i < length cs" and c: "idx_of (cs ! i) = {#}"
  shows "calls_ok l (cl @ [(length cl, x)]) fin (cs[i := CFn (length cl) x])"
proof -
  note D = calls_okD [OF ok]
  have e: "infl (cs[i := CFn (length cl) x]) = add_mset (length cl) (infl cs)"
    using infl_update [OF i, of "CFn (length cl) x"] c by simp
  have "\<forall>idx x'. CFn idx x' \<in> set (cs[i := CFn (length cl) x]) \<longrightarrow> (idx, x') \<in> set (cl @ [(length cl, x)])"
    by (rule CFn_update) (use D(3) in auto)
  moreover have "mset [0..<length (cl @ [(length cl, x)])] = add_mset (length cl) (mset [0..<length cl])"
    by simp
  ultimately show ?thesis
    using D(1,2,4) unfolding calls_ok_def e by (simp del: mset_upt)
qed

lemma calls_ok_finish:
  assumes ok: "calls_ok l cl fin cs" and i: "i < length cs" and c: "cs ! i = CFn idx y"
  shows "calls_ok l cl (fin @ [idx]) (cs[i := CCreated])"
proof -
  note D = calls_okD [OF ok]
  have "infl cs = add_mset idx (infl (cs[i := CCreated]))"
    using infl_update [OF i, of CCreated] c by simp
  moreover have "\<forall>idx x. CFn idx x \<in> set (cs[i := CCreated]) \<longrightarrow> (idx, x) \<in> set cl"
    by (rule CFn_update) (use D(3) in auto)
  ultimately show ?thesis using D unfolding calls_ok_def by simp
qed

lemma calls_ok_drop:
  assumes ok: "calls_ok l cl fin cs" and i: "i < length cs" and c: "idx_of c = {#}"
  shows "calls_ok True cl fin (cs[i := c])"
proof -
  note D = calls_okD [OF ok]
  have e: "infl (cs[i := c]) + idx_of (cs ! i) = infl cs" using infl_update [OF i, of c] c by simp
  have "infl (cs[i := c]) \<subseteq># infl cs" unfolding e [symmetric] by simp
  then have "mset fin + infl (cs[i := c]) \<subseteq># mset [0..<length cl]"
    using D(2) by (meson mset_subset_eq_add_left mset_subset_eq_mono_add subset_mset.order_refl subset_mset.trans)
  moreover have "\<forall>idx x. CFn idx x \<in> set (cs[i := c]) \<longrightarrow> (idx, x) \<in> set cl"
    by (rule CFn_update) (use D(3) c in auto)
  ultimately show ?thesis using D(1) unfolding calls_ok_def by blast
qed

lemma calls_ok_latch: "calls_ok l cl fin cs \<Longrightarrow> calls_ok True cl fin cs"
  by (simp add: calls_ok_def)

lemma calls_ok_spawn: "calls_ok l cl fin cs \<Longrightarrow> calls_ok l cl fin (cs @ [CCreated])"
  by (auto simp: calls_ok_def)

section \<open>The queue's contents\<close>

lemma fifoE:
  assumes "fifo b pl cl p cs"
  obtains xs m where "b = map QItem xs @ replicate m Sentinel" "pl = cl @ xs @ hand p"
    "m + cnt ended_normal cs + rest_of p (length cs) \<le> length cs"
    "\<not> gave_up p \<longrightarrow> m + cnt ended_normal cs + rest_of p (length cs) = length cs"
    "0 < cnt ended_normal cs \<longrightarrow> xs = []"
  using assms unfolding fifo_def by (elim exE conjE) (rule that)

lemma fifo_same:
  assumes "fifo b pl cl p cs" and "i < length cs" and "ended_normal c = ended_normal (cs ! i)"
  shows "fifo b pl cl p (cs[i := c])"
  using assms(1) cnt_update_same [OF assms(2), of ended_normal c] assms(3)
  unfolding fifo_def by simp

lemma fifo_sentinel:
  assumes f: "fifo (Sentinel # b) pl cl p cs" and i: "i < length cs" "\<not> ended_normal (cs ! i)"
  shows "fifo b pl cl p (cs[i := CEnded EndNormal])"
proof -
  obtain xs m where x: "Sentinel # b = map QItem xs @ replicate m Sentinel" "pl = cl @ xs @ hand p"
    "m + cnt ended_normal cs + rest_of p (length cs) \<le> length cs"
    "\<not> gave_up p \<longrightarrow> m + cnt ended_normal cs + rest_of p (length cs) = length cs"
    using f by (rule fifoE)
  have xs: "xs = []" using x(1) by (cases xs) auto
  then obtain m' where m: "m = Suc m'" using x(1) by (cases m) auto
  have c: "cnt ended_normal (cs[i := CEnded EndNormal]) = Suc (cnt ended_normal cs)"
    using cnt_update [OF i(1), of ended_normal "CEnded EndNormal"] i(2) by simp
  show ?thesis
    unfolding fifo_def by (rule exI [of _ "[]"], rule exI [of _ m']) (use x xs m c in auto)
qed

lemma fifo_item:
  assumes f: "fifo (QItem x # b) pl cl p cs" and i: "i < length cs" "\<not> ended_normal (cs ! i)"
    and c: "\<not> ended_normal c"
  shows "fifo b pl (cl @ [x]) p (cs[i := c])"
proof -
  obtain xs m where x: "QItem x # b = map QItem xs @ replicate m Sentinel" "pl = cl @ xs @ hand p"
    "m + cnt ended_normal cs + rest_of p (length cs) \<le> length cs"
    "\<not> gave_up p \<longrightarrow> m + cnt ended_normal cs + rest_of p (length cs) = length cs"
    "0 < cnt ended_normal cs \<longrightarrow> xs = []"
    using f by (rule fifoE)
  obtain ys where xs: "xs = x # ys" using x(1) by (cases xs; cases m) auto
  have "cnt ended_normal (cs[i := c]) = cnt ended_normal cs"
    using i c by (intro cnt_update_same) auto
  then show ?thesis
    unfolding fifo_def by (intro exI [of _ ys] exI [of _ m]) (use x xs in auto)
qed

lemma fifo_put:
  assumes f: "fifo b pl cl (PPut x) cs" and cs: "cs \<noteq> []"
  shows "fifo (b @ [QItem x]) pl cl PPull cs"
proof -
  obtain xs m where x: "b = map QItem xs @ replicate m Sentinel" "pl = cl @ xs @ [x]"
    "m + cnt ended_normal cs + length cs = length cs"
    using f by (rule fifoE) auto
  then show ?thesis unfolding fifo_def
    by (intro exI [of _ "xs @ [x]"] exI [of _ 0]) auto
qed

lemma fifo_pulled: "fifo b pl cl PPull cs \<Longrightarrow> fifo b (pl @ [x]) cl (PPut x) cs"
  unfolding fifo_def by auto

lemma fifo_spawn: "fifo b pl cl (PPut x) cs \<Longrightarrow> fifo b pl cl (PPut x) (cs @ [CCreated])"
  unfolding fifo_def by auto

lemma fifo_send_start: "fifo b pl cl PPull cs \<Longrightarrow> fifo b pl cl (PSend (length cs)) cs"
  unfolding fifo_def by auto

lemma fifo_send: "fifo b pl cl (PSend (Suc m)) cs \<Longrightarrow> fifo (b @ [Sentinel]) pl cl (PSend m) cs"
proof -
  assume "fifo b pl cl (PSend (Suc m)) cs"
  then obtain xs j where x: "b = map QItem xs @ replicate j Sentinel" "pl = cl @ xs"
    "j + cnt ended_normal cs + Suc m = length cs" "0 < cnt ended_normal cs \<longrightarrow> xs = []"
    unfolding fifo_def by auto
  then show ?thesis unfolding fifo_def
    by (intro exI [of _ xs] exI [of _ "Suc j"]) (auto simp: replicate_append_same)
qed

lemma fifo_sent: "fifo b pl cl (PSend 0) cs \<Longrightarrow> fifo b pl cl (PEnded EndNormal) cs"
  unfolding fifo_def by auto

lemma fifo_gave_up: "fifo b pl cl p cs \<Longrightarrow> hand p = [] \<Longrightarrow> x \<noteq> EndNormal \<Longrightarrow> fifo b pl cl (PEnded x) cs"
  unfolding fifo_def by fastforce

lemma fifo_reap: "fifo b pl cl (PEnded x) cs \<Longrightarrow> fifo b pl cl (PReaped x) cs"
  unfolding fifo_def by auto

lemma fifo_start: "fifo b pl cl PCreated cs \<Longrightarrow> fifo b pl cl PPull cs"
  unfolding fifo_def by auto

section \<open>Consumers\<close>

lemma data_invD:
  assumes "data_inv k s"
  shows "concur s = k" "started s = length (cons s)" "length (cons s) \<le> k"
    "consumed_index s = length (s_calls s)" "length (results s) = length (finished s)"
    "calls_ok (s_failed s) (s_calls s) (finished s) (cons s)"
    "\<not> s_failed s \<Longrightarrow> fifo (buf (queue s)) (pulled s) (map snd (s_calls s)) (prod_pc s) (cons s)"
    "\<not> s_failed s \<Longrightarrow> pulled s \<noteq> [] \<Longrightarrow> cons s \<noteq> []"
  using assms unfolding data_inv_def by blast+

text \<open>A consumer's status changes without a call being made or finished.\<close>

lemma data_cons:
  assumes inv: "data_inv k s" and i: "i < length (cons s)"
    and c: "idx_of c = idx_of (cons s ! i)" "\<And>idx x. c \<noteq> CFn idx x"
      "ended_normal c = ended_normal (cons s ! i)"
    and q: "buf q = buf (queue s)"
  shows "data_inv k (s\<lparr>queue := q, cons := (cons s)[i := c]\<rparr>)"
  using data_invD [OF inv] calls_ok_same [OF data_invD(6) [OF inv] i c(1,2)]
    fifo_same [OF data_invD(7) [OF inv] i c(3)] q
  by (simp add: data_inv_def)

lemma c_end_data:
  assumes inv: "data_inv k s" and i: "i < length (cons s)" "is_idle (cons s ! i)" and x: "x \<noteq> EndNormal"
  shows "data_inv k (c_end i x s)"
  using data_cons [OF inv i(1), of "CEnded x" "queue s"] i(2) x by (simp add: c_end_def)

lemma c_item_data:
  assumes inv: "data_inv k s" and i: "i < length (cons s)" "is_idle (cons s ! i)"
    and b: "buf (queue s) = it # buf q"
  shows "data_inv k (c_item i it (s\<lparr>queue := q\<rparr>))"
proof -
  note D = data_invD [OF inv]
  have e: "idx_of (cons s ! i) = {#}" "\<not> ended_normal (cons s ! i)" using i(2) by simp_all
  have stop: "data_inv k (c_end i EndNormal (s\<lparr>queue := q_task_done q\<rparr>))"
    if "it = Sentinel \<or> s_failed s"
    using D calls_ok_same [OF D(6) i(1), of "CEnded EndNormal"] e
      fifo_sentinel [of "buf q" _ _ _ _, OF _ i(1) e(2)] b that
    by (auto simp: data_inv_def c_end_def q_task_done_def)
  show ?thesis
  proof (cases it)
    case Sentinel
    then show ?thesis using stop by (simp add: c_item_def)
  next
    case (QItem x)
    show ?thesis
    proof (cases "s_failed s")
      case True
      then show ?thesis using stop QItem by (simp add: c_item_def)
    next
      case False
      then show ?thesis
        using D calls_ok_call [OF D(6) i(1) e(1), of x]
          fifo_item [OF D(7) [OF False, unfolded b QItem] i(1) e(2)] QItem
        by (simp add: data_inv_def c_item_def)
    qed
  qed
qed

lemma c_got_data:
  assumes inv: "data_inv k s" and i: "i < length (cons s)" "is_idle (cons s ! i)"
    and g: "got_ok i w (queue s) r"
  shows "data_inv k (c_got i r s)"
proof (cases r)
  case (Pair x q)
  show ?thesis
  proof (cases x)
    case None
    then show ?thesis
      using data_cons [OF inv i(1), of CGet q] i(2) g Pair by (simp add: c_got_def got_ok_def)
  next
    case (Some it)
    then show ?thesis
      using c_item_data [OF inv i, of it q] g Pair by (simp add: c_got_def got_ok_def)
  qed
qed

lemma c_head_data:
  assumes inv: "data_inv k s" and w: "s_wait n s" and i: "i < length (cons s)" "cons s ! i = CCreated"
  shows "data_inv k (c_head i s)"
proof -
  have "got_ok i 0 (queue s) (q_get i (queue s))"
    using get_ok wait_invD(1) [OF w] wait_invD(4) [OF w i(1)] i(2) by simp
  then show ?thesis
    using c_got_data [OF inv i(1)] c_end_data [OF inv i(1)] i(2)
    by (simp add: c_head_def raise_if_cancellation_absorbed_def)
qed

lemma c_start_data:
  assumes "data_inv k s" and "s_wait n s" and "i < length (cons s)" "cons s ! i = CCreated"
  shows "data_inv k (c_start i s)"
  using c_head_data [OF assms] c_end_data [OF assms(1,3)] assms(4) by (simp add: c_start_def)

lemma c_wake_data:
  assumes inv: "data_inv k s" and w: "s_wait n s" and i: "i < length (cons s)" "cons s ! i = CGet"
    and g: "q_gstate (queue s) i = Some WGranted \<or> q_gstate (queue s) i = Some WCancelled \<and> cons_creq s ! i"
  shows "data_inv k (c_wake i s)"
proof (cases "cons_creq s ! i")
  case False
  then have "got_ok i 1 (queue s) (q_resume_get i (queue s))"
    using g resume_ok wait_invD(1) [OF w] by blast
  then show ?thesis using c_got_data [OF inv i(1)] i(2) False by (simp add: c_wake_def)
next
  case True
  obtain v where v: "q_gstate (queue s) i = Some v" "v \<noteq> WPending" using g by auto
  have "buf (q_abandon_get i (queue s)) = buf (queue s)" using aq.abandon [OF wait_invD(1) [OF w] v] by simp
  then show ?thesis
    using data_cons [OF inv i(1), of "CEnded EndCancelled"] i(2) True by (simp add: c_wake_def c_end_def)
qed

text \<open>The step after \<open>fn\<close>: the state the loop's head is reached in.\<close>

definition c_stored :: "'r \<Rightarrow> nat \<Rightarrow> ('i, 'r) stream \<Rightarrow> ('i, 'r) stream" where
  "c_stored r i s = s\<lparr>results := results s @ [r], finished := finished s @ [cfn_index (cons s ! i)],
     queue := q_task_done (queue s),
     meter := map_option (\<lambda>m. m\<lparr>consumed := Suc (consumed m)\<rparr>) (meter s),
     cons := (cons s)[i := CCreated]\<rparr>"

lemma c_fn_store: "c_fn (Store r) i s = c_head i (c_stored r i s)"
proof -
  let ?u = "s\<lparr>results := results s @ [r], finished := finished s @ [cfn_index (cons s ! i)],
      queue := q_task_done (queue s),
      meter := map_option (\<lambda>m. m\<lparr>consumed := Suc (consumed m)\<rparr>) (meter s)\<rparr>"
  have "c_stored r i s = ?u\<lparr>cons := (cons ?u)[i := CCreated]\<rparr>" by (simp add: c_stored_def)
  then have "c_head i (c_stored r i s) = c_head i ?u" by (simp only: c_head_detach)
  then show ?thesis by (simp add: c_fn_def)
qed

lemma c_stored_wait:
  assumes "s_wait n s" and "i < length (cons s)" "is_fn (cons s ! i)"
  shows "s_wait n (c_stored r i s)"
proof -
  have "cons s ! i \<noteq> CGet" using assms(3) by auto
  then show ?thesis
    using wait_task_done [of n 0] wait_cons [OF assms(1,2), of CCreated 1] assms(3)
    by (simp add: c_stored_def)
qed

lemma c_fn_data:
  assumes inv: "data_inv k s" and w: "s_wait n s" and i: "i < length (cons s)" "is_fn (cons s ! i)"
  shows "data_inv k (c_fn c i s)"
proof -
  note D = data_invD [OF inv]
  obtain idx x where x: "cons s ! i = CFn idx x" using i(2) by (cases "cons s ! i") auto
  show ?thesis
  proof (cases c)
    case (Store r)
    have "data_inv k (c_stored r i s)"
      using D calls_ok_finish [OF D(6) i(1) x] fifo_same [OF D(7) i(1), of CCreated] x
      by (simp add: data_inv_def c_stored_def cfn_index_def q_task_done_def)
    then show ?thesis
      using c_head_data [OF _ c_stored_wait [OF w i]] i(1) Store
      by (simp add: c_fn_store) (simp add: c_stored_def)
  next
    case (Propagate e)
    then show ?thesis
      using D calls_ok_drop [OF D(6) i(1), of "CEnded (end_with e)"]
      by (simp add: c_fn_def c_end_def data_inv_def)
  qed
qed

section \<open>The producer\<close>

lemma put_buf:
  "q_put x q = (True, t) \<Longrightarrow> buf t = buf q @ [x]" "q_put x q = (False, t) \<Longrightarrow> buf t = buf q"
  by (auto simp: q_put_def split: if_splits)

lemma p_put_data:
  assumes inv: "data_inv k (s\<lparr>prod_pc := PPut x\<rparr>)" and c: "cons s \<noteq> []"
  shows "data_inv k (p_put x s)"
proof -
  note D = data_invD [OF inv]
  obtain b q where q: "q_put (QItem x) (queue s) = (b, q)" by (metis surj_pair)
  show ?thesis
    using D q c put_buf [of "QItem x" "queue s" q] fifo_put [of "buf (queue s)" "pulled s" _ x "cons s"]
    by (cases b) (simp_all add: data_inv_def p_put_def p_put_done_def)
qed

lemma p_fail_data:
  assumes inv: "data_inv k s"
  shows "data_inv k (p_fail e s)"
  using data_invD [OF inv] calls_ok_latch
  by (simp add: data_inv_def p_fail_eq) (simp add: p_end_def calls_ok_def)

lemma data_prod:
  assumes inv: "data_inv k s"
    and f: "\<And>b pl cl. fifo b pl cl (prod_pc s) (cons s) \<Longrightarrow> fifo b pl cl p (cons s)"
  shows "data_inv k (s\<lparr>prod_pc := p\<rparr>)"
  using data_invD [OF inv] f [OF data_invD(7) [OF inv]] by (simp add: data_inv_def)

lemma p_end_data:
  assumes inv: "data_inv k s" and h: "hand (prod_pc s) = []" and x: "x \<noteq> EndNormal"
  shows "data_inv k (p_end x s)"
  unfolding p_end_def by (rule data_prod [OF inv]) (rule fifo_gave_up [OF _ h x])

lemma p_item_data:
  assumes inv: "data_inv k s" and p: "prod_pc s = PPull" and k: "0 < k"
  shows "data_inv k (p_item x (s\<lparr>pulled := pulled s @ [x]\<rparr>))"
proof -
  note D = data_invD [OF inv]
  let ?s = "s\<lparr>pulled := pulled s @ [x]\<rparr>"
  have f: "fifo (buf (queue s)) (pulled s @ [x]) (map snd (s_calls s)) (PPut x) (cons s)" if "\<not> s_failed s"
    using fifo_pulled D(7) [OF that] p by simp
  have fail: "data_inv k (p_fail e ?s)" for e
    using D calls_ok_latch by (simp add: data_inv_def p_fail_eq p_end_def)
  have spawn: "data_inv k (p_put x (p_spawn ?s))" if "started s < k"
    by (rule p_put_data)
       (use D f that in \<open>simp_all add: data_inv_def p_spawn_def calls_ok_spawn fifo_spawn\<close>)
  have put: "data_inv k (p_put x ?s)" if "\<not> (started s < k \<and> \<not> s_failed s)"
  proof (cases "s_failed s")
    case True
    then show ?thesis using D
      by (simp add: data_inv_def p_put_def p_put_done_def split: prod.splits bool.splits)
  next
    case False
    then have "cons s \<noteq> []" using D(2,3) k that by auto
    then show ?thesis by (intro p_put_data) (use D f False in \<open>simp_all add: data_inv_def\<close>)
  qed
  show ?thesis
    using fail spawn put D(1) by (simp add: p_item_def raise_if_cancellation_absorbed_def)
qed

lemma p_send_data: "data_inv k (s\<lparr>prod_pc := PSend m\<rparr>) \<Longrightarrow> data_inv k (p_send m s)"
proof (induction m arbitrary: s)
  case 0
  have "data_inv k (s\<lparr>prod_pc := PSend 0, prod_pc := PEnded EndNormal\<rparr>)"
    by (rule data_prod [OF 0]) (simp add: fifo_sent)
  then show ?case by (simp add: p_end_def)
next
  case (Suc m)
  note D = data_invD [OF Suc.prems]
  obtain b q where q: "q_put Sentinel (queue s) = (b, q)" by (metis surj_pair)
  show ?case
  proof (cases b)
    case True
    have "buf q = buf (queue s) @ [Sentinel]" using put_buf(1) q True by simp
    then have "data_inv k (s\<lparr>queue := q\<rparr>\<lparr>prod_pc := PSend m\<rparr>)"
      using D(1-6) fifo_send [of "buf (queue s)" "pulled s" _ m "cons s"] D(7,8) by (simp add: data_inv_def)
    then show ?thesis using Suc.IH [of "s\<lparr>queue := q\<rparr>"] q True by simp
  next
    case False
    then show ?thesis using D q put_buf(2) [of Sentinel "queue s" q] by (simp add: data_inv_def)
  qed
qed

lemma p_source_data:
  assumes inv: "data_inv k s" and p: "prod_pc s = PPull" and k: "0 < k"
  shows "data_inv k (p_source r s)"
proof -
  have "data_inv k (s\<lparr>prod_pc := PSend (started s)\<rparr>)"
    unfolding data_invD(2) [OF inv] by (rule data_prod [OF inv]) (simp add: p fifo_send_start)
  then have "data_inv k (p_send (started s) s)" by (rule p_send_data)
  then show ?thesis
    using p_item_data [OF inv p k] p_fail_data [OF inv]
    by (simp add: p_source_def raise_if_cancellation_absorbed_def split: src.splits)
qed

lemma p_start_data:
  assumes inv: "data_inv k s" and p: "prod_pc s = PCreated"
  shows "data_inv k (p_start s)"
proof -
  have "data_inv k (s\<lparr>prod_pc := PPull\<rparr>)" by (rule data_prod [OF inv]) (simp add: p fifo_start)
  then show ?thesis using p_end_data [OF inv] p by (simp add: p_start_def)
qed

lemma p_wake_data:
  assumes inv: "data_inv k s" and w: "waiting (prod_pc s)"
  shows "data_inv k (p_wake dt s)"
proof -
  note D = data_invD [OF inv]
  let ?q = "q_clear_putter (queue s)"
  have b: "buf ?q = buf (queue s)" by (simp add: q_clear_putter_def)
  have clear: "data_inv k (s\<lparr>queue := ?q\<rparr>)" using D b by (simp add: data_inv_def)
  show ?thesis
  proof (cases "prod_pc s")
    case (PPut x)
    have c: "cons s \<noteq> []" if "\<not> s_failed s" using D(7) [OF that] D(8) [OF that] PPut by (auto simp: fifo_def)
    obtain r q where q: "q_put (QItem x) ?q = (r, q)" by (metis surj_pair)
    show ?thesis
      using D q c b put_buf [of "QItem x" ?q q] fifo_put [of "buf (queue s)" "pulled s" _ x "cons s"]
        p_fail_data [OF clear] PPut
      by (cases r) (simp_all add: data_inv_def p_wake_def Let_def p_put_done_def)
  next
    case (PSend m)
    then have "data_inv k (s\<lparr>queue := ?q\<rparr>\<lparr>prod_pc := PSend m\<rparr>)"
      by (intro data_prod [OF clear]) simp
    then have "data_inv k (p_send m (s\<lparr>queue := ?q\<rparr>))" by (rule p_send_data)
    then show ?thesis
      using p_end_data [OF clear, of EndCancelled] PSend by (simp add: p_wake_def Let_def)
  qed (use w in simp_all)
qed

section \<open>The group\<close>

lemma data_grp:
  assumes "data_inv k s"
  shows "data_inv k (s_grp r s)"
  using data_invD [OF assms]
  by (simp add: s_grp_def Let_def s_abort_def data_inv_def q_cancel_all_def split: prod.splits)

lemma done_data:
  assumes inv: "data_inv k s"
  shows "prod_pc s = PEnded x \<Longrightarrow> data_inv k (p_done s)"
    and "i < length (cons s) \<Longrightarrow> cons s ! i = CEnded x \<Longrightarrow> data_inv k (c_done i s)"
    and "data_inv k (s_parent ver s)"
    and "data_inv k (s\<lparr>s_caller := t\<rparr>)" and "data_inv k (s\<lparr>s_caller := t, s_rearm := b\<rparr>)"
proof -
  show "data_inv k (p_done s)" if x: "prod_pc s = PEnded x"
  proof -
    have "data_inv k (s\<lparr>prod_pc := PReaped x\<rparr>)" by (rule data_prod [OF inv]) (simp add: x fifo_reap)
    then show ?thesis by (simp add: p_done_def x data_grp)
  qed
  show "data_inv k (c_done i s)" if "i < length (cons s)" "cons s ! i = CEnded x"
    using data_grp data_cons [OF inv that(1), of "CReaped x" "queue s"] that
    by (simp add: c_done_def)
  have "data_inv k (s_grp r s)" for r using data_grp [OF inv] .
  then show "data_inv k (s_parent ver s)"
    by (simp add: s_parent_def Let_def data_inv_def split: prod.splits)
qed (use inv in \<open>simp_all add: data_inv_def\<close>)

section \<open>Every event\<close>

text \<open>The handler of \<open>fn\<close> ends in a \<open>CancelledError\<close> only where the run is stopping.\<close>

lemma inv_running:
  assumes "task_inv s" and "i < length (stat s)" and "\<And>x. stat s ! i \<noteq> Reaped x"
  shows "s_final s = None" and "\<not> s_rearm s"
proof -
  show f: "s_final s = None"
    using tasks_running [of "stat s"] assms unfolding task_inv_def by blast
  show "\<not> s_rearm s"
    using tasks_invD(7) [OF assms(1) [unfolded task_inv_def]] f by simp
qed

lemma p_activeI:
  assumes "task_inv s" and "p_live (prod_pc s)"
  shows "p_active s"
proof -
  have "stat s ! 0 \<noteq> Reaped x" for x using assms(2) by (cases "prod_pc s") auto
  then show ?thesis using inv_running [OF assms(1), of 0] assms by (simp add: p_active_def)
qed

lemma c_activeI:
  assumes "task_inv s" and "i < length (cons s)" and "c_live (cons s ! i)"
  shows "c_active i s"
proof -
  have "stat s ! Suc i \<noteq> Reaped x" for x using assms(2,3) by (cases "cons s ! i") auto
  then show ?thesis using inv_running [OF assms(1), of "Suc i"] assms by (simp add: c_active_def)
qed

lemma creq_stopping:
  assumes "task_inv s" and "s_final s = None"
  shows "prod_creq s \<Longrightarrow> s_stopping s" and "i < length (cons s) \<Longrightarrow> cons_creq s ! i \<Longrightarrow> s_stopping s"
proof -
  note T = assms(1) [unfolded task_inv_def]
  have "aborting (s_group s) \<Longrightarrow> s_stopping s"
    using tasks_aborting [of "stat s" "creqs s"] T assms(2) by (simp add: s_stopping_def)
  then show "prod_creq s \<Longrightarrow> s_stopping s" "i < length (cons s) \<Longrightarrow> cons_creq s ! i \<Longrightarrow> s_stopping s"
    using tasks_creq [OF T, of 0] tasks_creq [OF T, of "Suc i"] by simp_all
qed

end
