(* ===== verification/Stream_Runs.thy ===== *)
theory Stream_Runs
  imports Stream_Data
begin

text \<open>
  The runs of \<open>stream\<close>: every event keeps the invariant, every internal event lowers a rank,
  and an unfinished run always has an internal event, so no run hangs and each can be
  completed. The locale \<open>stream_run_machine\<close> collects what holds of every run.
\<close>

section \<open>Every event keeps the invariant\<close>

context fan_handler
begin

lemma fn_no_stray:
  assumes "task_inv s" and "s_final s = None" and "i < length (cons s)"
  shows "handler idx (s_stopping s) (cons_creq s ! i) f = Propagate CancelledError \<longrightarrow> s_stopping s"
  using no_stray by blast

lemma stream_step_inv:
  fixes s :: "('i, 'r) stream"
  assumes inv: "stream_inv k n s" and k: "0 < k" and st: "s_step ver handler s e = Some t"
  shows "stream_inv k n t"
proof -
  have en: "s_enabled ver s e" and t: "t = s_do ver handler s e"
    using st by (auto simp: s_step_def split: if_splits)
  note I = stream_invD [OF inv]
  have rearm: "\<not> s_rearm s" if "s_final s = None"
    using tasks_invD(7) [OF I(1) [unfolded task_inv_def]] that by simp
  have pcr: "prod_creq s \<longrightarrow> s_stopping s" if "s_final s = None"
    using creq_stopping(1) [OF I(1) that] by blast
  have ccr: "\<not> cons_creq s ! i \<or> s_stopping s" if "s_final s = None" "i < length (cons s)" for i
    using creq_stopping(2) [OF I(1) that] by blast
  show ?thesis
  proof (cases e)
    case SPStart
    then have p: "prod_pc s = PCreated" using en by simp
    then have "p_active s" using p_activeI [OF I(1)] by simp
    moreover have "s_wait n (p_start s)"
      using p_fail_wait(2) [OF I(2), of EndCancelled] wait_prod [OF I(2), of PPull] p
      by (cases "prod_creq s") (simp_all add: p_start_def)
    ultimately show ?thesis
      using t SPStart p_start_task p_start_data [OF I(3) p] by (simp add: stream_inv_def)
  next
    case (SPWake dt)
    then have p: "waiting (prod_pc s)" using en by (cases "prod_pc s") auto
    then have "p_active s" using p_activeI [OF I(1)] by (cases "prod_pc s") auto
    then show ?thesis
      using t SPWake p_wake_task p_wake_wait [OF I(2) p] p_wake_data [OF I(3) p]
      by (simp add: stream_inv_def)
  next
    case (SSource r)
    then have p: "prod_pc s = PPull" using en by simp
    then have a: "p_active s" using p_activeI [OF I(1)] by simp
    then have "s_final s = None" by (simp add: p_active_def)
    then show ?thesis
      using t SSource p_source_task [OF a] p_source_wait [OF I(2) p pcr] p_source_data [OF I(3) p k]
      by (simp add: stream_inv_def)
  next
    case (SCStart i)
    then have i: "i < length (cons s)" "cons s ! i = CCreated" using en by simp_all
    then have a: "c_active i s" using c_activeI [OF I(1)] by simp
    show ?thesis
      using t SCStart c_start_task [OF a] c_start_wait [OF I(2) i] c_start_data [OF I(3,2) i]
      by (simp add: stream_inv_def)
  next
    case (SCWake i)
    then have i: "i < length (cons s)" "cons s ! i = CGet"
      and g: "q_gstate (queue s) i = Some WGranted \<or> q_gstate (queue s) i = Some WCancelled \<and> cons_creq s ! i"
      using en by auto
    then have a: "c_active i s" using c_activeI [OF I(1)] by simp
    show ?thesis
      using t SCWake c_wake_task [OF a] c_wake_wait [OF I(2) i g] c_wake_data [OF I(3,2) i g]
      by (simp add: stream_inv_def)
  next
    case (SCFn i f)
    then have i: "i < length (cons s)" "is_fn (cons s ! i)"
      using en by (auto split: cpc.splits)
    have a: "c_active i s" using c_activeI [OF I(1) i(1)] i(2) by (cases "cons s ! i") auto
    then have fin: "s_final s = None" by (simp add: c_active_def)
    show ?thesis
      using t SCFn c_fn_task [OF a fn_no_stray [OF I(1) fin i(1)]]
        c_fn_wait [OF I(2) i ccr [OF fin i(1)]] c_fn_data [OF I(3,2) i]
      by (simp add: stream_inv_def)
  next
    case SPDone
    then obtain x where x: "prod_pc s = PEnded x" "s_final s = None"
      using en by (auto split: ppc.splits)
    show ?thesis
      using t SPDone p_done_task [OF I(1) x(2) rearm [OF x(2)] x(1)] done_wait(1) [OF I(2) x(1)]
        done_data(1) [OF I(3) x(1)]
      by (simp add: stream_inv_def)
  next
    case (SCDone i)
    then obtain x where x: "i < length (cons s)" "cons s ! i = CEnded x" "s_final s = None"
      using en by (auto split: cpc.splits)
    show ?thesis
      using t SCDone c_done_task [OF I(1) x(3) rearm [OF x(3)] x(1,2)] done_wait(2) [OF I(2) x(1,2)]
        done_data(2) [OF I(3) x(1,2)]
      by (simp add: stream_inv_def)
  next
    case SParent
    then have fin: "s_final s = None" using en by simp
    show ?thesis
      using t SParent s_parent_task [OF I(1) fin rearm [OF fin]] done_wait(3) [OF I(2)]
        done_data(3) [OF I(3)]
      by (simp add: stream_inv_def)
  next
    case SRearm
    then show ?thesis
      using t en I caller_events_task(3) [OF I(1)] done_data(5) [OF I(3)] by (simp add: stream_inv_def)
  next
    case SCancel
    then have fin: "s_final s = None" using en by simp
    show ?thesis
      using t SCancel I caller_events_task(1) [OF I(1) fin rearm [OF fin]] done_data(4) [OF I(3)]
      by (simp add: stream_inv_def)
  next
    case SRearmOther
    then have fin: "s_final s = None" "0 < num_cancels (s_caller s)" using en by simp_all
    show ?thesis
      using t SRearmOther I caller_events_task(2) [OF I(1) fin(1) rearm [OF fin(1)] fin(2)] done_data(4) [OF I(3)]
      by (simp add: stream_inv_def)
  qed
qed

end

section \<open>A rank that every internal event lowers\<close>

text \<open>
  A task counts for the awaits it still has; the producer also for the sentinels it will put,
  each worth a buffered item and a wake-up.
\<close>

fun c_rank :: "'i cpc \<Rightarrow> nat" where
  "c_rank CCreated = 6"
| "c_rank (CFn _ _) = 6"
| "c_rank CGet = 2"
| "c_rank (CEnded _) = 1"
| "c_rank (CReaped _) = 0"

fun p_rank :: "nat \<Rightarrow> 'i ppc \<Rightarrow> nat" where
  "p_rank n PCreated = 6 * n + 4"
| "p_rank n PPull = 6 * n + 3"
| "p_rank n (PPut _) = 6 * n + 9"
| "p_rank n (PSend m) = 6 * m + 2"
| "p_rank n (PEnded _) = 1"
| "p_rank n (PReaped _) = 0"

definition q_rank :: "'a aqueue \<Rightarrow> nat" where
  "q_rank q = 5 * length (buf q) + q_woken q + of_bool (putter q = Some WGranted)"

definition work :: "('i, 'r) stream \<Rightarrow> nat" where
  "work s = p_rank (started s) (prod_pc s) + sum_list (map c_rank (cons s)) + q_rank (queue s)"

definition group_work :: "('i, 'r) stream \<Rightarrow> nat" where
  "group_work s = (if s_final s = None then 4 else 0) + of_bool (must_cancel (s_caller s)) +
     of_bool (\<not> aborting (s_group s)) + 2 * of_bool (s_rearm s)"

definition stream_rank :: "('i, 'r) stream \<Rightarrow> nat" where
  "stream_rank s = work s + group_work s"

lemma q_rank_put:
  "q_put x q = (b, t) \<Longrightarrow> q_rank t \<le> q_rank q + (if b then 6 else 0)"
  by (auto simp: q_put_def q_rank_def wake_getter_woken split: if_splits)

lemma q_rank_got:
  assumes "got_ok i w q (x, t)"
  shows "q_rank t + w + (if x = None then 0 else 4) \<le> q_rank q"
  using assms by (cases x) (auto simp: got_ok_def q_rank_def)

lemma q_rank_same [simp]:
  "q_rank (q_task_done q) = q_rank q" "q_rank (q_cancel_all q) = q_rank q"
proof -
  show "q_rank (q_task_done q) = q_rank q" by (simp add: q_rank_def q_task_done_def q_woken_def)
  have "q_woken (q_cancel_all q) = q_woken q"
    unfolding q_woken_def q_cancel_all_def by (simp add: comp_def split_def) (rule cnt_cong, auto)
  moreover have "(map_option (\<lambda>w. if w = WPending then WCancelled else w) p = Some WGranted) = (p = Some WGranted)"
    for p by (cases p) auto
  ultimately show "q_rank (q_cancel_all q) = q_rank q"
    unfolding q_rank_def by (simp add: q_cancel_all_def)
qed

lemma q_rank_clear: "q_rank (q_clear_putter q) + of_bool (putter q = Some WGranted) = q_rank q"
  by (simp add: q_rank_def q_clear_putter_def)

lemma work_cons:
  assumes "i < length (cons s)"
  shows "work (s\<lparr>queue := q, cons := (cons s)[i := c]\<rparr>) + c_rank (cons s ! i) + q_rank (queue s) =
    work s + c_rank c + q_rank q"
  using sum_list_update_nat [OF assms, of c_rank c] by (simp add: work_def)

lemma work_data [simp]:
  "work (s\<lparr>s_failed := l\<rparr>) = work s" "work (s\<lparr>meter := b\<rparr>) = work s"
  "work (s\<lparr>results := d\<rparr>) = work s" "work (s\<lparr>finished := e\<rparr>) = work s"
  "work (s\<lparr>s_calls := f\<rparr>) = work s" "work (s\<lparr>consumed_index := h\<rparr>) = work s"
  "work (s\<lparr>pulled := j\<rparr>) = work s"
  by (simp_all add: work_def)

lemma c_item_work:
  assumes "i < length (cons s)"
  shows "work (c_item i it (s\<lparr>queue := q\<rparr>)) + c_rank (cons s ! i) + q_rank (queue s) \<le> work s + 6 + q_rank q"
proof -
  note W = work_cons [OF assms]
  have e: "work (c_end i x (s\<lparr>queue := q_task_done q\<rparr>)) + c_rank (cons s ! i) + q_rank (queue s) =
      work s + 1 + q_rank q" for x
    using W [where q = "q_task_done q" and c = "CEnded x"] by (simp add: c_end_def)
  have f: "work (s\<lparr>queue := q, consumed_index := a, cons := (cons s)[i := CFn y z], s_calls := b\<rparr>)
      = work (s\<lparr>queue := q, cons := (cons s)[i := CFn y z]\<rparr>)" for a b y z
    by (simp add: work_def)
  show ?thesis
    using e W [where q = q and c = "CFn (consumed_index s) z" for z] f
    by (auto simp: c_item_def split: qitem.splits)
qed

lemma c_got_work:
  assumes i: "i < length (cons s)" and g: "got_ok i w (queue s) r"
  shows "work (c_got i r s) + w + c_rank (cons s ! i) \<le> work s + 2"
proof (cases r)
  case (Pair x t)
  note Q = q_rank_got [OF g [unfolded Pair]]
  show ?thesis
  proof (cases x)
    case None
    then show ?thesis using Q work_cons [OF i, where q = t and c = CGet] Pair by (simp add: c_got_def)
  next
    case (Some it)
    then show ?thesis using Q c_item_work [OF i, of it t] Pair by (simp add: c_got_def)
  qed
qed

lemma c_end_work:
  assumes "i < length (cons s)"
  shows "work (c_end i x s) + c_rank (cons s ! i) = work s + 1"
  using work_cons [OF assms, where q = "queue s" and c = "CEnded x"] by (simp add: c_end_def)

lemma c_head_work:
  assumes w: "s_wait n s" and i: "i < length (cons s)" "cons s ! i = CCreated"
  shows "work (c_head i s) + 4 \<le> work s"
proof -
  have "got_ok i 0 (queue s) (q_get i (queue s))"
    using get_ok wait_invD(1) [OF w] wait_invD(4) [OF w i(1)] i(2) by simp
  from c_got_work [OF i(1) this] show ?thesis
    using c_end_work [OF i(1), of EndCancelled] i(2)
    by (simp add: c_head_def raise_if_cancellation_absorbed_def)
qed

lemma c_start_work:
  assumes "s_wait n s" and "i < length (cons s)" "cons s ! i = CCreated"
  shows "work (c_start i s) < work s"
  using c_head_work [OF assms] c_end_work [OF assms(2), of EndCancelled] assms(3)
  by (simp add: c_start_def)

lemma c_wake_work:
  assumes w: "s_wait n s" and i: "i < length (cons s)" "cons s ! i = CGet"
    and g: "q_gstate (queue s) i = Some WGranted \<or> q_gstate (queue s) i = Some WCancelled \<and> cons_creq s ! i"
  shows "work (c_wake i s) < work s"
proof (cases "cons_creq s ! i")
  case False
  then have "got_ok i 1 (queue s) (q_resume_get i (queue s))"
    using g resume_ok wait_invD(1) [OF w] by blast
  from c_got_work [OF i(1) this] show ?thesis using i(2) False by (simp add: c_wake_def)
next
  case True
  obtain v where v: "q_gstate (queue s) i = Some v" "v \<noteq> WPending" using g by auto
  have "q_rank (q_abandon_get i (queue s)) \<le> q_rank (queue s)"
    using aq.abandon [OF wait_invD(1) [OF w] v] by (simp add: q_rank_def)
  then show ?thesis
    using work_cons [OF i(1), where q = "q_abandon_get i (queue s)" and c = "CEnded EndCancelled"] i(2) True
    by (simp add: c_wake_def c_end_def)
qed

lemma c_fn_work:
  assumes w: "s_wait n s" and i: "i < length (cons s)" "is_fn (cons s ! i)"
  shows "work (c_fn c i s) < work s"
proof -
  have r: "c_rank (cons s ! i) = 6" using i(2) by (cases "cons s ! i") simp_all
  show ?thesis
  proof (cases c)
    case (Store v)
    have "work (c_stored v i s) = work (s\<lparr>queue := q_task_done (queue s), cons := (cons s)[i := CCreated]\<rparr>)"
      by (simp add: c_stored_def work_def)
    then have "work (c_stored v i s) = work s" using work_cons [OF i(1), where q = "q_task_done (queue s)" and c = CCreated] r by simp
    moreover have "i < length (cons (c_stored v i s))" "cons (c_stored v i s) ! i = CCreated"
      using i(1) by (simp_all add: c_stored_def)
    note c_head_work [OF c_stored_wait [OF w i] this]
    ultimately show ?thesis using Store by (simp add: c_fn_store)
  next
    case (Propagate e)
    then show ?thesis
      using c_end_work [of i "s\<lparr>s_failed := True, queue := q_task_done (queue s)\<rparr>" "end_with e"] i(1) r
      by (simp add: c_fn_def) (simp add: work_def)
  qed
qed

text \<open>The producer: what a put adds is what its place in the loop had set aside.\<close>

lemma work_prod:
  "work (s\<lparr>queue := q, prod_pc := p\<rparr>) + p_rank (started s) (prod_pc s) + q_rank (queue s) =
    work s + p_rank (started s) p + q_rank q"
  by (simp add: work_def)

lemma p_end_work:
  "work (p_end x s) + p_rank (started s) (prod_pc s) = work s + 1"
  "work (p_fail e s) + p_rank (started s) (prod_pc s) = work s + 1"
  by (simp_all add: p_fail_eq) (simp_all add: p_end_def work_def)

lemma p_put_work:
  "work (p_put x s) + p_rank (started s) (prod_pc s) \<le> work s + 6 * started s + 9"
proof -
  obtain b q where q: "q_put (QItem x) (queue s) = (b, q)" by (metis surj_pair)
  show ?thesis using q q_rank_put [OF q] by (cases b) (simp_all add: p_put_def p_put_done_def work_def)
qed

lemma p_send_work:
  "work (p_send m s) + p_rank (started s) (prod_pc s) \<le> work s + 6 * m + 2"
proof (induction m arbitrary: s)
  case 0
  then show ?case using p_end_work(1) [of EndNormal s] by simp
next
  case (Suc m)
  obtain b q where q: "q_put Sentinel (queue s) = (b, q)" by (metis surj_pair)
  have "work (s\<lparr>queue := q\<rparr>) + q_rank (queue s) = work s + q_rank q" by (simp add: work_def)
  then show ?case
    using q q_rank_put [OF q] Suc [of "s\<lparr>queue := q\<rparr>"] by (cases b) (simp_all add: work_def)
qed

lemma p_item_work:
  assumes "prod_pc s = PPull"
  shows "work (p_item x s) \<le> work s + 18"
proof -
  have "work (p_spawn s) = work s + 12" using assms by (simp add: p_spawn_def work_def)
  then have "work (p_put x (p_spawn s)) \<le> work s + 18"
    using p_put_work [of x "p_spawn s"] assms by (simp add: p_spawn_def)
  moreover have "work (p_put x s) \<le> work s + 18" using p_put_work [of x s] assms by simp
  moreover have "work (p_fail e s) \<le> work s + 18" for e using p_end_work(2) [of e s] assms by simp
  ultimately show ?thesis by (simp add: p_item_def raise_if_cancellation_absorbed_def)
qed

lemma p_source_work:
  assumes d: "started s = length (cons s)" and p: "prod_pc s = PPull"
  shows "work (p_source (SrcItem x) s) \<le> work s + 18"
    and "work (p_source SrcEnd s) < work s" and "work (p_source (SrcRaise e) s) < work s"
proof -
  have f: "work (p_fail e s) < work s" for e using p_end_work(2) [of e s] p by simp
  show "work (p_source (SrcRaise e) s) < work s" using f by (simp add: p_source_def)
  have "work (p_send (started s) s) < work s" using p_send_work [of "started s" s] p by simp
  then show "work (p_source SrcEnd s) < work s"
    using f by (simp add: p_source_def raise_if_cancellation_absorbed_def)
  show "work (p_source (SrcItem x) s) \<le> work s + 18"
    using p_item_work [of "s\<lparr>pulled := pulled s @ [x]\<rparr>" x] p by (simp add: p_source_def)
qed

lemma p_start_work:
  assumes "prod_pc s = PCreated"
  shows "work (p_start s) < work s"
  using p_end_work(1) [of EndCancelled s] assms by (simp add: p_start_def) (simp add: work_def)

lemma p_wake_work:
  assumes p: "waiting (prod_pc s)"
    and g: "putter (queue s) = Some WGranted \<or> putter (queue s) = Some WCancelled \<and> prod_creq s"
  shows "work (p_wake dt s) < work s"
proof -
  let ?s = "s\<lparr>queue := q_clear_putter (queue s)\<rparr>"
  have c: "work ?s + of_bool (putter (queue s) = Some WGranted) = work s"
    using q_rank_clear [of "queue s"] by (simp add: work_def)
  show ?thesis
  proof (cases "prod_pc s")
    case (PPut x)
    obtain b q where q: "q_put (QItem x) (queue ?s) = (b, q)" by (metis surj_pair)
    have r: "q_rank q + of_bool (putter (queue s) = Some WGranted) \<le> q_rank (queue s) + (if b then 6 else 0)"
      using q_rank_put [OF q] q_rank_clear [of "queue s"] by simp
    have "work (p_wake dt s) < work s" if "\<not> prod_creq s"
      using that q r g PPut
      by (cases b) (simp_all add: p_wake_def Let_def p_put_done_def work_def)
    moreover have "work (p_wake dt s) < work s" if "prod_creq s"
      using p_end_work(2) [of CancelledError ?s] c that PPut by (simp add: p_wake_def Let_def)
    ultimately show ?thesis by blast
  next
    case (PSend m)
    have "work (p_send m ?s) + of_bool (putter (queue s) = Some WGranted) \<le> work s"
      using p_send_work [of m ?s] c PSend by simp
    moreover have "work (p_end EndCancelled ?s) < work s"
      using p_end_work(1) [of EndCancelled ?s] c PSend by simp
    ultimately show ?thesis using g PSend by (auto simp: p_wake_def Let_def)
  qed (use p in simp_all)
qed

text \<open>The group and the caller, which a task's own step leaves alone.\<close>

definition owner :: "('i, 'r) stream \<Rightarrow> group \<times> task \<times> probe \<times> exc option option \<times> bool" where
  "owner s = (s_group s, s_caller s, s_probe s, s_final s, s_rearm s)"

lemma owner_update [simp]:
  "owner (s\<lparr>queue := a\<rparr>) = owner s" "owner (s\<lparr>meter := b\<rparr>) = owner s"
  "owner (s\<lparr>s_failed := c\<rparr>) = owner s" "owner (s\<lparr>results := d\<rparr>) = owner s"
  "owner (s\<lparr>finished := e\<rparr>) = owner s" "owner (s\<lparr>s_calls := f\<rparr>) = owner s"
  "owner (s\<lparr>consumed_index := h\<rparr>) = owner s" "owner (s\<lparr>pulled := i\<rparr>) = owner s"
  "owner (s\<lparr>prod_pc := p\<rparr>) = owner s" "owner (s\<lparr>cons := cs\<rparr>) = owner s"
  "owner (s\<lparr>cons_creq := r\<rparr>) = owner s" "owner (s\<lparr>started := n\<rparr>) = owner s"
  by (simp_all add: owner_def)

lemma owner_consumer [simp]:
  "owner (c_end i x s) = owner s" "owner (c_item i it s) = owner s" "owner (c_got i r s) = owner s"
  "owner (c_head i s) = owner s" "owner (c_start i s) = owner s" "owner (c_wake i s) = owner s"
proof -
  show e: "owner (c_end i x s) = owner s" for x s by (simp add: c_end_def)
  show item: "owner (c_item i it s) = owner s" for it s
    by (simp add: c_item_def e split: qitem.splits)
  show got: "owner (c_got i r s) = owner s" for r s
    by (simp add: c_got_def item split: prod.splits option.splits)
  show head: "owner (c_head i s) = owner s" by (simp add: c_head_def e got split: sum.splits)
  show "owner (c_start i s) = owner s" "owner (c_wake i s) = owner s"
    by (simp_all add: c_start_def c_wake_def e got head)
qed

lemma owner_fn [simp]: "owner (c_fn c i s) = owner s"
  by (simp add: c_fn_def split: completion.splits)

lemma owner_send [simp]: "owner (p_send n s) = owner s"
  by (induction n arbitrary: s) (simp_all add: p_end_def split: prod.splits bool.splits)

lemma owner_put [simp]:
  "owner (p_end x s) = owner s" "owner (p_put_done s) = owner s" "owner (p_spawn s) = owner s"
  by (simp_all add: p_end_def p_put_done_def p_spawn_def)

lemma owner_producer [simp]:
  "owner (p_fail e s) = owner s" "owner (p_put y s) = owner s"
  by (simp_all add: p_fail_eq p_put_def split: prod.splits bool.splits)

lemma owner_source [simp]:
  "owner (p_item y s) = owner s" "owner (p_start s) = owner s" "owner (p_wake dt s) = owner s"
  by (simp_all add: p_item_def p_start_def p_wake_def Let_def
      split: sum.splits ppc.splits prod.splits bool.splits)

lemma owner_source' [simp]: "owner (p_source r s) = owner s"
  by (simp add: p_source_def split: src.splits sum.splits)

lemma group_work_owner: "owner t = owner s \<Longrightarrow> group_work t = group_work s"
  by (simp add: owner_def group_work_def)

lemma work_grp: "work (s_grp r s) = work s"
  by (simp add: s_grp_def Let_def s_abort_def work_def split: prod.splits)

lemma group_work_grp:
  "group_work (s_grp (g, t, ab) s) =
     (if s_final s = None then 4 else 0) + of_bool (must_cancel t) + of_bool (\<not> aborting g) +
     2 * of_bool (s_rearm s)"
  by (simp add: group_work_def)

lemma done_work:
  assumes r: "group_task_done x (s_group s) (s_caller s) = (g, t, ab)"
    and u: "work u < work s" "owner u = owner s"
  shows "stream_rank (s_grp (g, t, ab) u) < stream_rank s"
proof -
  have "of_bool (must_cancel t) + of_bool (\<not> aborting g)
      \<le> (of_bool (must_cancel (s_caller s)) + of_bool (\<not> aborting (s_group s)) :: nat)"
    using r by (auto simp: group_task_done_def Let_def split: task_end.splits if_splits)
  then show ?thesis
    using u unfolding stream_rank_def work_grp group_work_grp unfolding group_work_def
    by (auto simp: owner_def)
qed

lemma p_done_rank:
  assumes "prod_pc s = PEnded x"
  shows "stream_rank (p_done s) < stream_rank s"
proof -
  obtain g t ab where r: "group_task_done x (s_group s) (s_caller s) = (g, t, ab)" by (metis prod_cases3)
  have "work (s\<lparr>prod_pc := PReaped x\<rparr>) < work s" using assms by (simp add: work_def)
  from done_work [OF r this] show ?thesis using assms r by (simp add: p_done_def)
qed

lemma c_done_rank:
  assumes "i < length (cons s)" and "cons s ! i = CEnded x"
  shows "stream_rank (c_done i s) < stream_rank s"
proof -
  obtain g t ab where r: "group_task_done x (s_group s) (s_caller s) = (g, t, ab)" by (metis prod_cases3)
  have "work (s\<lparr>cons := (cons s)[i := CReaped x]\<rparr>) < work s"
    using work_cons [OF assms(1), where q = "queue s" and c = "CReaped x"] assms(2) by simp
  from done_work [OF r this] show ?thesis using assms r by (simp add: c_done_def)
qed

lemma s_parent_rank:
  assumes fin: "s_final s = None" and en: "must_cancel (s_caller s) \<or> s_reaped s"
    and due: "\<not> s_rearm s"
  shows "stream_rank (s_parent ver s) < stream_rank s"
proof -
  obtain g t ab where r: "group_parent_wake (s_group s) (s_caller s) = (g, t, ab)" by (metis prod_cases3)
  have w: "of_bool (\<not> aborting g) \<le> (of_bool (\<not> aborting (s_group s)) :: nat)" "\<not> must_cancel t"
    using r by (auto simp: group_parent_wake_def split: if_splits)
  obtain e t' du where x: "group_exit ver g t = (e, t', du)" by (metis prod_cases3)
  show ?thesis
  proof (cases "s_reaped s")
    case True
    have eq: "stream_rank (s_parent ver s) = work s + of_bool (must_cancel t') + of_bool (\<not> aborting g)
        + 2 * of_bool du"
      using True x work_grp [of "(g, t, ab)" s]
      by (simp add: s_parent_def r Let_def stream_rank_def group_work_def) (simp add: work_def)
    have rs: "stream_rank s = work s + (4 + of_bool (must_cancel (s_caller s)) + of_bool (\<not> aborting (s_group s)))"
      by (simp add: stream_rank_def group_work_def fin due)
    have "of_bool (must_cancel t') \<le> (1::nat)" "of_bool du \<le> (1::nat)" by simp_all
    then show ?thesis using w(1) unfolding eq rs by linarith
  next
    case False
    then have "stream_rank (s_parent ver s) = work s + group_work (s_grp (g, t, ab) s)"
      using work_grp [of "(g, t, ab)" s] by (simp add: s_parent_def r Let_def stream_rank_def)
    moreover have "must_cancel (s_caller s)" using False en by simp
    ultimately show ?thesis
      using w fin due unfolding group_work_grp by (simp add: stream_rank_def group_work_def)
  qed
qed

section \<open>Internal events and progress\<close>

text \<open>What the source yields, and what happens to the caller, comes from outside.\<close>

fun s_external :: "('i, 'v) sevent \<Rightarrow> bool" where
  "s_external (SSource (SrcItem x)) = True"
| "s_external SCancel = True"
| "s_external SRearmOther = True"
| "s_external _ = False"

lemma task_rank: "work t < work s \<Longrightarrow> owner t = owner s \<Longrightarrow> stream_rank t < stream_rank s"
  using group_work_owner [of t s] by (simp add: stream_rank_def)

context fan_handler
begin

lemma stream_internal_rank:
  fixes s :: "('i, 'r) stream"
  assumes inv: "stream_inv k n s" and st: "s_step ver handler s e = Some t" and int: "\<not> s_external e"
  shows "stream_rank t < stream_rank s"
proof -
  have en: "s_enabled ver s e" and t: "t = s_do ver handler s e"
    using st by (auto simp: s_step_def split: if_splits)
  note I = stream_invD [OF inv]
  show ?thesis
  proof (cases e)
    case SPStart
    then show ?thesis using en t by (auto intro!: task_rank p_start_work)
  next
    case (SPWake dt)
    then have "waiting (prod_pc s)" using en by (cases "prod_pc s") auto
    then show ?thesis using en t SPWake by (auto intro!: task_rank p_wake_work)
  next
    case (SSource r)
    then show ?thesis using en t int p_source_work(2,3) [OF data_invD(2) [OF I(3)]]
      by (cases r) (auto intro!: task_rank)
  next
    case (SCStart i)
    then show ?thesis using en t by (auto intro!: task_rank c_start_work [OF I(2)])
  next
    case (SCWake i)
    then show ?thesis using en t by (auto intro!: task_rank c_wake_work [OF I(2)])
  next
    case (SCFn i f)
    then have "i < length (cons s)" "is_fn (cons s ! i)" using en by (auto split: cpc.splits)
    then show ?thesis using t SCFn by (auto intro!: task_rank c_fn_work [OF I(2)])
  next
    case SPDone
    then obtain x where "prod_pc s = PEnded x" using en by (auto split: ppc.splits)
    then show ?thesis using t SPDone p_done_rank by simp
  next
    case (SCDone i)
    then obtain x where "i < length (cons s)" "cons s ! i = CEnded x" using en by (auto split: cpc.splits)
    then show ?thesis using t SCDone c_done_rank by simp
  next
    case SParent
    then have "s_final s = None" using en by simp
    moreover have "\<not> s_rearm s"
      using tasks_invD(7) [OF I(1) [unfolded task_inv_def]] calculation by simp
    ultimately show ?thesis using en t SParent s_parent_rank by simp
  next
    case SRearm
    have "work (s\<lparr>s_caller := c, s_rearm := False\<rparr>) = work s" for c by (simp add: work_def)
    then show ?thesis using en t SRearm
      by (simp add: stream_rank_def group_work_def)
  qed (use int in simp_all)
qed

lemma stream_external_rank:
  fixes s :: "('i, 'r) stream"
  assumes inv: "stream_inv k n s" and st: "s_step ver handler s e = Some t" and ext: "s_external e"
  shows "stream_rank t \<le> stream_rank s + 18"
proof -
  have en: "s_enabled ver s e" and t: "t = s_do ver handler s e"
    using st by (auto simp: s_step_def split: if_splits)
  have c: "work (s\<lparr>s_caller := u\<rparr>) = work s" for u by (simp add: work_def)
  show ?thesis
  proof (cases e)
    case (SSource r)
    then show ?thesis
      using en t ext p_source_work(1) [OF data_invD(2) [OF stream_invD(3) [OF inv]]]
        group_work_owner [OF owner_source', of r s]
      by (cases r) (simp_all add: stream_rank_def)
  next
    case SCancel
    then show ?thesis using t c by (simp add: stream_rank_def group_work_def)
  next
    case SRearmOther
    then show ?thesis using t c by (simp add: stream_rank_def group_work_def)
  qed (use ext in simp_all)
qed

end

text \<open>With no stop on record, a task that has been reaped came to its normal end.\<close>

lemma reaped_normal:
  assumes t: "task_inv s" and fin: "s_final s = None" and q: "\<not> s_stopping s"
    and i: "i < length (stat s)" "stat s ! i = Reaped x"
  shows "x = EndNormal"
proof -
  note T = t [unfolded task_inv_def]
  have "end_ok (Reaped x) (s_failed s) (aborting (s_group s)) (probe_cancelled (s_probe s) (s_caller s))"
    using tasks_invD(4) [OF T fin] nth_mem [OF i(1)] i(2) by metis
  moreover have "\<not> aborting (s_group s)"
    using tasks_aborting [OF T [unfolded fin]] q by (auto simp: s_stopping_def)
  ultimately show ?thesis using q by (cases x) (auto simp: end_ok_def s_stopping_def)
qed

text \<open>
  Nobody waits in vain: where every live task waits on the queue and nothing has stopped, one
  of them has its turn.
\<close>

lemma someone_wakes:
  assumes inv: "stream_inv k n s" and n: "0 < n" and fin: "s_final s = None" and q: "\<not> s_stopping s"
    and p: "waiting (prod_pc s) \<or> (\<exists>x. prod_pc s = PReaped x)"
    and c: "\<And>i. i < length (cons s) \<Longrightarrow> cons s ! i = CGet \<or> (\<exists>x. cons s ! i = CReaped x)"
    and w: "waiting (prod_pc s) \<or> (\<exists>i < length (cons s). cons s ! i = CGet)"
  shows "putter (queue s) = Some WGranted \<or> (\<exists>i. q_gstate (queue s) i = Some WGranted)"
proof (rule ccontr)
  assume none: "\<not> ?thesis"
  note I = stream_invD [OF inv] note W = wait_invD [OF I(2)] note D = data_invD [OF I(3)]
  have nf: "\<not> s_failed s" using q by (simp add: s_stopping_def)
  have pcr: "\<not> prod_creq s" using creq_stopping(1) [OF I(1) fin] q by blast
  have get: "q_gstate (queue s) i = Some WPending" if "i < length (cons s)" "cons s ! i = CGet" for i
  proof -
    have "\<not> cons_creq s ! i" using creq_stopping(2) [OF I(1) fin that(1)] q by blast
    moreover have "i \<in> dom (q_gstate (queue s))" unfolding W(5) using that by simp
    then obtain v where "q_gstate (queue s) i = Some v" unfolding dom_def by blast
    ultimately show ?thesis using none W(7) [of i] by (cases v) auto
  qed
  have empty: "buf (queue s) = []" if "i < length (cons s)" "cons s ! i = CGet" for i
    using aq.no_lost_get [OF W(1) get [OF that]] none by blast
  have normal: "x = EndNormal" if "i < length (cons s)" "cons s ! i = CReaped x" for i x
    using reaped_normal [OF I(1) fin q, of "Suc i" x] that by simp
  obtain xs m where f: "buf (queue s) = map QItem xs @ replicate m Sentinel"
    "pulled s = map snd (s_calls s) @ xs @ hand (prod_pc s)"
    "\<not> gave_up (prod_pc s) \<longrightarrow>
      m + cnt ended_normal (cons s) + rest_of (prod_pc s) (length (cons s)) = length (cons s)"
    "0 < cnt ended_normal (cons s) \<longrightarrow> xs = []"
    using fifoE [OF D(7) [OF nf]] by metis
  show False
  proof (cases "waiting (prod_pc s)")
    case True
    then obtain v where "putter (queue s) = Some v" using W(8) by auto
    then have "putter (queue s) = Some WPending" using none W(10) pcr by (cases v) auto
    then have "length (buf (queue s)) = n" using aq.no_lost_put [OF W(1)] W(2) by simp
    then have b: "buf (queue s) \<noteq> []" using n by auto
    have all: "ended_normal (cons s ! i)" if "i < length (cons s)" for i
    proof -
      have "\<exists>x. cons s ! i = CReaped x" using c [OF that] empty [OF that] b by blast
      then obtain x where "cons s ! i = CReaped x" by blast
      then show ?thesis using normal [OF that] by simp
    qed
    then have len: "cnt ended_normal (cons s) = length (cons s)"
      unfolding cnt_def using filter_True [of "cons s" ended_normal] by (metis in_set_conv_nth)
    have "\<not> gave_up (prod_pc s)" using True by (cases "prod_pc s") simp_all
    then have m: "m = 0" using f(3) len by simp
    then have "xs \<noteq> []" using b f(1) by auto
    then have "cons s = []" using f(4) len by auto
    then show False using D(8) [OF nf] f(2) \<open>xs \<noteq> []\<close> by simp
  next
    case False
    then obtain x where x: "prod_pc s = PReaped x" using p by blast
    then have "x = EndNormal" using reaped_normal [OF I(1) fin q, of 0 x] by simp
    then have e: "m + cnt ended_normal (cons s) = length (cons s)" using f(3) x by simp
    obtain i where i: "i < length (cons s)" "cons s ! i = CGet" using w False by blast
    then have "m = 0" using empty [OF i] f(1) by simp
    then have "length (filter ended_normal (cons s)) = length (cons s)" using e by (simp add: cnt_def)
    then have "ended_normal (cons s ! i)" using i(1) by (metis filter_id_conv length_filter_less less_irrefl nth_mem)
    then show False using i(2) by simp
  qed
qed

text \<open>An internal event is enabled as long as the group has not been left and settled.\<close>

lemma stream_enabled:
  assumes inv: "stream_inv k n s" and n: "0 < n" and nd: "\<not> (s_final s \<noteq> None \<and> \<not> s_rearm s)"
  shows "\<exists>e :: ('i, 'v) sevent. \<not> s_external e \<and> s_enabled ver s e"
proof -
  note I = stream_invD [OF inv] note W = wait_invD [OF I(2)]
  have go: ?thesis if "s_enabled ver s e" "\<not> s_external e" for e :: "('i, 'v) sevent" using that by blast
  show ?thesis
  proof (cases "s_final s = None")
    case False
    then show ?thesis using nd go [of SRearm] by simp
  next
    case fin: True
    note T = I(1) [unfolded task_inv_def fin]
    have turn: ?thesis if "q_gstate (queue s) i = Some WGranted" for i
    proof -
      have "i < length (cons s) \<and> cons s ! i = CGet" using W(5) that by blast
      then show ?thesis using go [of "SCWake i"] that by simp
    qed
    have pturn: ?thesis if "putter (queue s) = Some WGranted"
    proof -
      have "waiting (prod_pc s)" using W(8) that by simp
      then show ?thesis using go [of "SPWake 0"] that by (cases "prod_pc s") simp_all
    qed
    show ?thesis
    proof (rule ccontr)
      assume no: "\<not> ?thesis"
      have p: "waiting (prod_pc s) \<or> (\<exists>x. prod_pc s = PReaped x)"
        using go [of SPStart] go [of "SSource SrcEnd"] go [of SPDone] fin no by (cases "prod_pc s") auto
      have c: "cons s ! i = CGet \<or> (\<exists>x. cons s ! i = CReaped x)" if "i < length (cons s)" for i
        using go [of "SCStart i"] go [of "SCFn i f" for f] go [of "SCDone i"] that fin no
        by (cases "cons s ! i") auto
      have mc: "\<not> must_cancel (s_caller s) \<and> \<not> s_reaped s" using go [of SParent] fin no by auto
      have w: "waiting (prod_pc s) \<or> (\<exists>i < length (cons s). cons s ! i = CGet)"
      proof (rule ccontr)
        assume "\<not> ?thesis"
        then have "(\<exists>x. prod_pc s = PReaped x) \<and> (\<forall>i < length (cons s). \<exists>x. cons s ! i = CReaped x)"
          using p c by blast
        then have "s_reaped s" by (auto simp: s_reaped_def list_all_length)
        then show False using mc by simp
      qed
      show False
      proof (cases "s_stopping s")
        case False
        then show False using someone_wakes [OF inv n fin _ p c w] turn pturn no by blast
      next
        case True
        have noend: "stat s ! j \<noteq> Ended x" if "j < length (stat s)" for j x
          using that p c [of "j - 1"] by (cases j) (auto elim: waiting.elims)
        have "s_failed s \<or> probe_cancelled (s_probe s) (s_caller s)" using True by (simp add: s_stopping_def)
        then have cr: "\<forall>j < length (stat s). live (stat s ! j) \<longrightarrow> creqs s ! j"
          using tasks_stopping [of "stat s" "creqs s"] I(1) [unfolded task_inv_def fin] mc noend by blast
        from w show False
        proof
          assume wp: "waiting (prod_pc s)"
          then have "prod_creq s" using cr [rule_format, of 0] by (cases "prod_pc s") auto
          moreover obtain v where v: "putter (queue s) = Some v" using W(8) wp by auto
          ultimately have "v \<noteq> WPending" using W(9) by auto
          then show False
            using go [of "SPWake 0"] \<open>prod_creq s\<close> v wp no by (cases v; cases "prod_pc s") auto
        next
          assume "\<exists>i < length (cons s). cons s ! i = CGet"
          then obtain i where i: "i < length (cons s)" "cons s ! i = CGet" by blast
          then have "cons_creq s ! i" using cr [rule_format, of "Suc i"] by auto
          moreover have "q_gstate (queue s) i \<noteq> None" using W(5) i by blast
          ultimately show False
            using go [of "SCWake i"] W(6) [of i] i no by (cases "the (q_gstate (queue s) i)") auto
        qed
      qed
    qed
  qed
qed

section \<open>The interface of a run\<close>

locale stream_machine = fan_handler handler
  for handler :: "nat \<Rightarrow> bool \<Rightarrow> bool \<Rightarrow> 'v fn_end \<Rightarrow> 'r completion" +
  fixes ver :: pyver and k :: nat and n :: nat
  assumes some_consumer: "0 < k" and some_room: "0 < n"

sublocale stream_machine \<subseteq> machine: live_machine
  "s_step ver handler :: ('i, 'r) stream \<Rightarrow> ('i, 'v) sevent \<Rightarrow> ('i, 'r) stream option"
  "stream_inv k n" s_external stream_rank 18 "\<lambda>s. s_final s \<noteq> None \<and> \<not> s_rearm s"
proof
  show "stream_inv k n t" if "stream_inv k n s" "s_step ver handler s e = Some t"
    for s t :: "('i, 'r) stream" and e using that(1) some_consumer that(2) by (rule stream_step_inv)
  show "stream_rank t < stream_rank s"
    if "stream_inv k n s" "s_step ver handler s e = Some t" "\<not> s_external e"
    for s t :: "('i, 'r) stream" and e using that by (rule stream_internal_rank)
  show "stream_rank t \<le> stream_rank s + 18"
    if "stream_inv k n s" "s_step ver handler s e = Some t" "s_external e"
    for s t :: "('i, 'r) stream" and e using that by (rule stream_external_rank)
  show "\<exists>e t. \<not> s_external e \<and> s_step ver handler s e = Some t"
    if "stream_inv k n s" "\<not> (s_final s \<noteq> None \<and> \<not> s_rearm s)" for s :: "('i, 'r) stream"
    using stream_enabled [OF that(1) some_room that(2)] unfolding s_step_def by fastforce
qed

end
