(* ===== verification/Group_Caller.thy ===== *)
theory Group_Caller
  imports Group_Tasks
begin

text \<open>
  What the caller of a task group can be told from its own task: how many cancels it carries
  while the group runs, why the group may propagate one, and how the task stands once the
  group has been left. Over the group, the task and the outside events, for any machine that
  owns a group; \<open>fs\<close> holds the cancels and re-arms that came from outside.
\<close>

section \<open>The predicate\<close>

definition known :: "pyver \<Rightarrow> task \<Rightarrow> 'v fevent list \<Rightarrow> probe \<Rightarrow> group \<Rightarrow> task \<Rightarrow>
    exc option option \<Rightarrow> bool \<Rightarrow> bool" where
  "known ver t0 fs p g t fin due \<longleftrightarrow>
     p = probe_init t0 \<and> entry_probe g = probe_init t0 \<and> entry_cancelling g = num_cancels t0 \<and>
     (0 < rearms_seen fs \<longrightarrow> 0 < num_cancels t0 + cancels fs) \<and>
     (propagate g \<longrightarrow> live_cancel t0 fs) \<and>
     (fin = None \<longrightarrow>
        num_cancels t = num_cancels t0 + cancels fs + of_bool (parent_cancel_requested g) \<and>
        rearms t = rearms t0 + rearms_seen fs \<and>
        (must_cancel t \<longrightarrow> aborting g \<or> live_cancel t0 fs)) \<and>
     (fin \<noteq> None \<longrightarrow> (must_cancel t0 \<longrightarrow> 0 < num_cancels t0) \<longrightarrow> base_error g = None \<longrightarrow>
        num_cancels t = num_cancels t0 + cancels fs \<and>
        (errors g = [] \<longrightarrow> \<not> due \<and> \<not> must_cancel t) \<and>
        (errors g \<noteq> [] \<longrightarrow>
           (if Py313 \<le> ver then \<not> due \<and> must_cancel t = (0 < num_cancels t0 + cancels fs)
            else if due then \<not> must_cancel t \<and> rearms t = rearms t0 + rearms_seen fs
            else must_cancel t = live_cancel t0 fs)))"

lemma known_init:
  assumes "group_begin_exit ver (group_enter t0) t0 = (g, t)"
  shows "known ver t0 [] (probe_init t0) g t None due"
proof -
  have "g = group_enter t0" "t = t0" using assms
    by (auto simp: group_begin_exit_def group_enter_def split: if_splits)
  then show ?thesis by (simp add: known_def group_enter_def live_cancel_def)
qed

section \<open>Steps\<close>

lemma known_done:
  assumes "known ver t0 fs p g t None due"
  shows "known ver t0 fs p (fst (group_task_done x g t)) (fst (snd (group_task_done x g t))) None due"
proof -
  have "propagate (fst (group_task_done x g t)) = propagate g"
    "must_cancel (fst (snd (group_task_done x g t))) \<longrightarrow>
       must_cancel t \<or> aborting (fst (group_task_done x g t))"
    "aborting g \<longrightarrow> aborting (fst (group_task_done x g t))"
    by (auto simp: group_task_done_def Let_def split: task_end.splits)
  then show ?thesis using assms group_done_count [of x g t] by (auto simp: known_def)
qed

lemma known_wake:
  assumes "known ver t0 fs p g t None due"
  shows "known ver t0 fs p (fst (group_parent_wake g t)) (fst (snd (group_parent_wake g t))) None due"
proof -
  have "propagate (fst (group_parent_wake g t)) \<longrightarrow> live_cancel t0 fs"
    using assms by (auto simp: known_def group_parent_wake_def)
  then show ?thesis using assms by (simp add: known_def)
qed

lemma known_exit:
  assumes "known ver t0 fs p g t None due" and ok: "group_ok g" and nm: "\<not> must_cancel t"
    and x: "group_exit ver g t = (r, u, due')"
  shows "known ver t0 fs p g u (Some r) due'"
proof (cases "base_error g = None")
  case True
  have "num_cancels t = (num_cancels t0 + cancels fs) + of_bool (parent_cancel_requested g)"
    using assms(1) by (simp add: known_def)
  note X = exit_state [OF ok True nm this x]
  show ?thesis using assms(1) X by (auto simp: known_def)
qed (use assms in \<open>auto simp: known_def\<close>)

lemma known_rearm:
  assumes k: "known ver t0 fs p g t (Some r) True"
  shows "known ver t0 fs p g (rearm_pending_cancel ver False (entry_cancelling g) (entry_probe g) t)
    (Some r) False"
proof (cases "base_error g = None \<and> (must_cancel t0 \<longrightarrow> 0 < num_cancels t0)")
  case True
  then have wf: "must_cancel t0 \<longrightarrow> 0 < num_cancels t0" by blast
  let ?u = "rearm_pending_cancel ver False (entry_cancelling g) (entry_probe g) t"
  have a: "errors g \<noteq> []" "\<not> Py313 \<le> ver" "\<not> must_cancel t" "rearms t = rearms t0 + rearms_seen fs"
    "num_cancels t = num_cancels t0 + cancels fs" "0 < rearms_seen fs \<longrightarrow> 0 < num_cancels t0 + cancels fs"
    "?u = rearm_pending_cancel ver False (num_cancels t0) (probe_init t0) t"
    using k True by (auto simp: known_def split: if_splits)
  show ?thesis using rearm_state [OF wf a(5,4,3,6,2,7)] a k by (simp add: known_def)
next
  case False
  have "p = probe_init t0 \<and> entry_probe g = probe_init t0 \<and> entry_cancelling g = num_cancels t0 \<and>
     (0 < rearms_seen fs \<longrightarrow> 0 < num_cancels t0 + cancels fs) \<and> (propagate g \<longrightarrow> live_cancel t0 fs)"
    using k unfolding known_def by (elim conjE) (intro conjI; assumption)
  then show ?thesis unfolding known_def using False by (elim conjE) (intro conjI; blast)
qed

lemma known_outside:
  assumes "known ver t0 fs p g t None due"
  shows "known ver t0 (fs @ [ECancel]) p g (task_cancel t) None due"
    and "0 < num_cancels t \<Longrightarrow> \<not> parent_cancel_requested g \<Longrightarrow>
      known ver t0 (fs @ [ERearmOther]) p g
        ((task_cancel (task_uncancel v t))\<lparr>rearms := Suc (rearms t)\<rparr>) None due"
  using assms by (auto simp: known_def cancels_snoc)

end
