(* ===== verification/Stream_Results.thy ===== *)
theory Stream_Results
  imports Stream_Runs Group_Caller
begin

text \<open>
  What a run of \<open>stream\<close> shows: the bounds at every moment, that a stopped stream makes no
  more calls, where results and errors come from, and what a normal return has done. Then the
  properties of \<open>stream\<close> itself, for every schedule of events.
\<close>

section \<open>What an operation records\<close>

text \<open>The calls made, the results in order of completion, and their indices.\<close>

definition outs :: "('i, 'r) stream \<Rightarrow> 'r list \<times> nat list" where
  "outs s = (results s, finished s)"

lemma outs_update [simp]:
  "outs (s\<lparr>queue := a\<rparr>) = outs s" "outs (s\<lparr>meter := b\<rparr>) = outs s"
  "outs (s\<lparr>s_failed := c\<rparr>) = outs s" "outs (s\<lparr>s_calls := f\<rparr>) = outs s"
  "outs (s\<lparr>consumed_index := h\<rparr>) = outs s" "outs (s\<lparr>pulled := i\<rparr>) = outs s"
  "outs (s\<lparr>prod_pc := p\<rparr>) = outs s" "outs (s\<lparr>cons := cs\<rparr>) = outs s"
  "outs (s\<lparr>cons_creq := r\<rparr>) = outs s" "outs (s\<lparr>started := n\<rparr>) = outs s"
  "outs (s\<lparr>s_caller := t\<rparr>) = outs s" "outs (s\<lparr>s_rearm := z\<rparr>) = outs s"
  "outs (s\<lparr>s_final := y\<rparr>) = outs s" "outs (s\<lparr>s_group := g\<rparr>) = outs s"
  "outs (s\<lparr>prod_creq := x\<rparr>) = outs s"
  by (simp_all add: outs_def)

lemma outs_consumer [simp]: "outs (c_end i x s) = outs s" "outs (c_item i it s) = outs s"
  by (simp_all add: c_end_def c_item_def split: qitem.splits)

lemma outs_got [simp]: "outs (c_got i r s) = outs s"
  by (simp add: c_got_def split: prod.splits option.splits)

lemma outs_loop [simp]:
  "outs (c_head i s) = outs s" "outs (c_start i s) = outs s" "outs (c_wake i s) = outs s"
  by (simp_all add: c_start_def c_wake_def c_head_def split: sum.splits)

lemma outs_send [simp]: "outs (p_send n s) = outs s"
  by (induction n arbitrary: s) (simp_all add: p_end_def split: prod.splits bool.splits)

lemma outs_put [simp]:
  "outs (p_end x s) = outs s" "outs (p_put_done s) = outs s" "outs (p_spawn s) = outs s"
  by (simp_all add: p_end_def p_put_done_def p_spawn_def)

lemma outs_producer [simp]: "outs (p_fail e s) = outs s" "outs (p_put y s) = outs s"
  by (simp_all add: p_fail_eq p_put_def split: prod.splits bool.splits)

lemma outs_source [simp]:
  "outs (p_item y s) = outs s" "outs (p_start s) = outs s" "outs (p_wake dt s) = outs s"
  by (simp_all add: p_item_def p_start_def p_wake_def Let_def
      split: sum.splits ppc.splits prod.splits bool.splits)

lemma outs_source' [simp]: "outs (p_source r s) = outs s"
  by (simp add: p_source_def split: src.splits sum.splits)

lemma outs_group [simp]: "outs (s_grp r s) = outs s"
  by (simp add: s_grp_def Let_def s_abort_def split: prod.splits)

lemma outs_done [simp]:
  "outs (p_done s) = outs s" "outs (c_done i s) = outs s" "outs (s_parent ver s) = outs s"
  by (simp_all add: p_done_def c_done_def s_parent_def Let_def split: ppc.splits cpc.splits prod.splits)

lemma s_stepD:
  assumes "s_step ver handler s e = Some t"
  shows "s_enabled ver s e" and "t = s_do ver handler s e"
  using assms by (simp_all add: s_step_def split: if_splits)

text \<open>Only the end of a call adds a result.\<close>

lemma outs_step:
  assumes "s_step ver handler s e = Some t"
  shows "outs t = outs s \<or>
    (\<exists>i f r. e = SCFn i f \<and> i < length (cons s) \<and>
       handler (cfn_index (cons s ! i)) (s_stopping s) (cons_creq s ! i) f = Store r \<and>
       outs t = (results s @ [r], finished s @ [cfn_index (cons s ! i)]))"
proof (cases e)
  case (SCFn i f)
  show ?thesis
  proof (cases "handler (cfn_index (cons s ! i)) (s_stopping s) (cons_creq s ! i) f")
    case (Store r)
    then have "outs t = outs (c_stored r i s)"
      using s_stepD(2) [OF assms] SCFn by (simp add: c_fn_store)
    moreover have "i < length (cons s)" using s_stepD(1) [OF assms] SCFn by simp
    ultimately show ?thesis using SCFn Store by (auto simp: outs_def c_stored_def)
  next
    case (Propagate x)
    then show ?thesis using s_stepD(2) [OF assms] SCFn by (simp add: c_fn_def)
  qed
qed (use s_stepD(2) [OF assms] in \<open>simp_all\<close>)

section \<open>Fail-fast\<close>

definition s_stopped :: "('i, 'r) stream \<Rightarrow> bool" where
  "s_stopped s = (s_failed s \<or> aborting (s_group s))"

lemma calls_send [simp]: "s_calls (p_send n s) = s_calls s"
  by (induction n arbitrary: s) (simp_all split: prod.splits bool.splits)

lemma calls_producer [simp]:
  "s_calls (p_put_done s) = s_calls s" "s_calls (p_put y s) = s_calls s" "s_calls (p_spawn s) = s_calls s"
  "s_calls (p_fail e s) = s_calls s" "s_calls (p_item y s) = s_calls s" "s_calls (p_start s) = s_calls s"
  "s_calls (p_wake dt s) = s_calls s"
  by (simp_all add: p_fail_eq p_put_def p_put_done_def p_spawn_def p_item_def p_start_def p_wake_def
      Let_def split: sum.splits ppc.splits prod.splits bool.splits)

lemma calls_source [simp]: "s_calls (p_source r s) = s_calls s"
  by (simp add: p_source_def split: src.splits sum.splits)

lemma calls_group [simp]:
  "s_calls (s_grp r s) = s_calls s" "s_calls (p_done s) = s_calls s" "s_calls (c_done i s) = s_calls s"
  "s_calls (s_parent ver s) = s_calls s"
  by (simp_all add: p_done_def c_done_def s_parent_def s_grp_def s_abort_def Let_def
      split: ppc.splits cpc.splits prod.splits)

text \<open>\<open>s_failed\<close> is only ever set.\<close>

lemma failed_send [simp]: "s_failed (p_send n s) = s_failed s"
  by (induction n arbitrary: s) (simp_all split: prod.splits bool.splits)

lemma failed_producer [simp]:
  "s_failed (p_put_done s) = s_failed s" "s_failed (p_put y s) = s_failed s"
  "s_failed (p_spawn s) = s_failed s" "s_failed (p_fail e s)" "s_failed (p_start s) = s_failed s"
  by (simp_all add: p_fail_eq p_put_def p_put_done_def p_spawn_def p_start_def
      split: prod.splits bool.splits)

lemma failed_consumer [simp]:
  "s_failed (c_item i it s) = s_failed s"
  by (simp add: c_item_def split: qitem.splits)

lemma failed_got [simp]: "s_failed (c_got i r s) = s_failed s"
  by (simp add: c_got_def split: prod.splits option.splits)

lemma failed_loop [simp]:
  "s_failed (c_head i s) = s_failed s" "s_failed (c_start i s) = s_failed s"
  "s_failed (c_wake i s) = s_failed s"
  by (simp_all add: c_start_def c_wake_def c_head_def split: sum.splits)

lemma failed_mono:
  "s_failed s \<Longrightarrow> s_failed (p_item y s)" "s_failed s \<Longrightarrow> s_failed (p_source r s)"
  "s_failed s \<Longrightarrow> s_failed (p_wake dt s)" "s_failed s \<Longrightarrow> s_failed (c_fn c i s)"
proof -
  show p: "s_failed (p_item y s)" if "s_failed s" for y and s :: "('a, 'b) stream"
    using that by (simp add: p_item_def split: sum.splits)
  show "s_failed s \<Longrightarrow> s_failed (p_source r s)"
    by (simp add: p_source_def p split: src.splits sum.splits)
  show "s_failed s \<Longrightarrow> s_failed (p_wake dt s)"
    by (simp add: p_wake_def Let_def split: ppc.splits prod.splits bool.splits)
  show "s_failed s \<Longrightarrow> s_failed (c_fn c i s)"
    by (simp add: c_fn_def split: completion.splits)
qed

lemma failed_group [simp]:
  "s_failed (p_done s) = s_failed s" "s_failed (c_done i s) = s_failed s"
  "s_failed (s_parent ver s) = s_failed s"
  by (simp_all add: p_done_def c_done_def s_parent_def Let_def split: ppc.splits cpc.splits prod.splits)

section \<open>How a task can have failed\<close>

definition fails :: "('i, 'r) stream \<Rightarrow> exc \<Rightarrow> bool" where
  "fails s x \<longleftrightarrow> (\<exists>y \<in> set (stat s). end_of y = Some (EndFailed x))"

text \<open>A step of one consumer, or of the producer, that fails nobody.\<close>

definition c_quiet :: "nat \<Rightarrow> ('i, 'r) stream \<Rightarrow> ('i, 'r) stream \<Rightarrow> bool" where
  "c_quiet i s t \<longleftrightarrow> prod_pc t = prod_pc s \<and>
     (\<exists>c. cons t = (cons s)[i := c] \<and> (\<forall>x. end_of (pc_c c) \<noteq> Some (EndFailed x)))"

definition p_quiet :: "('i, 'r) stream \<Rightarrow> ('i, 'r) stream \<Rightarrow> bool" where
  "p_quiet s t \<longleftrightarrow> (cons t = cons s \<or> cons t = cons s @ [CCreated]) \<and>
     (\<forall>x. end_of (pc_p (prod_pc t)) \<noteq> Some (EndFailed x))"

lemma c_quiet_fails: "c_quiet i s t \<Longrightarrow> fails t x \<Longrightarrow> fails s x"
  using set_update_subset_insert [of "cons s" i] by (fastforce simp: c_quiet_def fails_def stat_def)

lemma p_quiet_fails: "p_quiet s t \<Longrightarrow> fails t x \<Longrightarrow> fails s x"
  by (auto simp: p_quiet_def fails_def stat_def)

lemma c_quiet_loop:
  "x = EndNormal \<or> x = EndCancelled \<Longrightarrow> c_quiet i s (c_end i x s)" "c_quiet i s (c_item i it s)"
  by (auto simp: c_quiet_def c_end_def c_item_def split: qitem.splits)

lemma c_quiet_got: "c_quiet i s (c_got i r s)"
  using c_quiet_loop(2) [of i "s\<lparr>queue := snd r\<rparr>"]
  by (fastforce simp: c_quiet_def c_got_def split: prod.splits option.splits)

lemma c_quiet_head: "c_quiet i s (c_head i s)" "c_quiet i s (c_start i s)" "c_quiet i s (c_wake i s)"
proof -
  have e: "c_quiet i s (c_end i EndCancelled s)"
    "c_quiet i s (c_end i EndCancelled (s\<lparr>queue := q\<rparr>))" for q
    by (auto simp: c_quiet_def c_end_def)
  show "c_quiet i s (c_head i s)"
    using e by (simp add: c_head_def raise_if_cancellation_absorbed_def c_quiet_got)
  then show "c_quiet i s (c_start i s)" "c_quiet i s (c_wake i s)"
    using e by (simp_all add: c_start_def c_wake_def c_quiet_got)
qed

lemma cons_send [simp]: "cons (p_send n s) = cons s"
  by (induction n arbitrary: s) (simp_all split: prod.splits bool.splits)

lemma p_quiet_send: "p_quiet s (p_send n s)"
  unfolding p_quiet_def cons_send
  by (induction n arbitrary: s) (auto split: prod.splits bool.splits)

lemma p_quiet_put: "p_quiet s (p_put y s)" "p_quiet s (p_put y (p_spawn s))"
  by (auto simp: p_quiet_def p_put_def p_put_done_def p_spawn_def split: prod.splits bool.splits)

lemma p_quiet_fail: "s_stopping s \<Longrightarrow> p_quiet s (p_fail CancelledError s)"
  by (simp add: p_quiet_def p_fail_eq stray_cancellation_as_error_def)

lemma p_quiet_item: "(aborting (s_group s) \<Longrightarrow> s_stopping s) \<Longrightarrow> p_quiet s (p_item y s)"
  by (simp add: p_item_def raise_if_cancellation_absorbed_def p_quiet_put p_quiet_fail)

lemma p_quiet_source:
  assumes "aborting (s_group s) \<Longrightarrow> s_stopping s"
  shows "p_quiet s (p_source (SrcItem y) s)" "p_quiet s (p_source SrcEnd s)"
proof -
  have "p_quiet (s\<lparr>pulled := pulled s @ [y]\<rparr>) (p_item y (s\<lparr>pulled := pulled s @ [y]\<rparr>))"
    by (rule p_quiet_item) (use assms in \<open>simp add: s_stopping_def\<close>)
  then show "p_quiet s (p_source (SrcItem y) s)" by (simp add: p_source_def p_quiet_def)
  show "p_quiet s (p_source SrcEnd s)"
    by (simp add: p_source_def raise_if_cancellation_absorbed_def p_quiet_send p_quiet_fail)
qed

lemma p_quiet_wake:
  assumes "prod_creq s \<Longrightarrow> s_stopping s" and "waiting (prod_pc s)"
  shows "p_quiet s (p_wake dt s)"
proof -
  let ?s = "s\<lparr>queue := q_clear_putter (queue s)\<rparr>"
  have st: "s_stopping ?s = s_stopping s" by (simp add: s_stopping_def)
  have "p_quiet s (p_fail CancelledError ?s)" if "prod_creq s"
    using p_quiet_fail [of ?s] st assms(1) [OF that] by (simp add: p_quiet_def)
  moreover have "p_quiet s (p_send m ?s)" for m using p_quiet_send [of ?s m] by (simp add: p_quiet_def)
  ultimately show ?thesis
    using assms(2)
    by (cases "prod_pc s")
       (auto simp: p_wake_def Let_def p_quiet_def p_put_done_def split: prod.splits bool.splits)
qed

section \<open>Steps of a stream\<close>

lemma loop_calls:
  "s_failed s \<Longrightarrow> s_calls (c_item i it s) = s_calls s"
  "s_failed s \<Longrightarrow> s_calls (c_got i r s) = s_calls s"
  "s_stopping s \<Longrightarrow> s_calls (c_head i s) = s_calls s"
  by (auto simp: c_item_def c_got_def c_head_def raise_if_cancellation_absorbed_def
      split: qitem.splits prod.splits option.splits)

lemma owner_fields:
  "owner t = owner s \<Longrightarrow> s_group t = s_group s \<and> s_caller t = s_caller s \<and> s_probe t = s_probe s \<and>
     s_final t = s_final s \<and> s_rearm t = s_rearm s"
  by (simp add: owner_def)

fun own_step :: "('i, 'v) sevent \<Rightarrow> bool" where
  "own_step SPStart = True"
| "own_step (SPWake dt) = True"
| "own_step (SSource r) = True"
| "own_step (SCStart i) = True"
| "own_step (SCWake i) = True"
| "own_step (SCFn i f) = True"
| "own_step _ = False"

lemma owner_step:
  "s_step ver handler s e = Some t \<Longrightarrow> own_step e \<Longrightarrow> owner t = owner s"
  using s_stepD [of ver handler s e t] by (cases e) simp_all

lemma inv_aborting:
  assumes "task_inv s" and "s_final s = None" and "aborting (s_group s)"
  shows "s_stopping s"
  using tasks_aborting [of "stat s" "creqs s"] assms by (auto simp: task_inv_def s_stopping_def)

lemma inv_creq:
  assumes "task_inv s" and "aborting (s_group s)" and "i < length (cons s)" and "c_live (cons s ! i)"
  shows "cons_creq s ! i"
proof -
  have "Suc i < length (stat s)" using assms(3) by simp
  then have "creq_ok (stat s ! Suc i) (creqs s ! Suc i) (aborting (s_group s))"
    using tasks_invD(1) [OF assms(1) [unfolded task_inv_def]] unfolding creqs_ok_def by blast
  then show ?thesis using assms by (simp add: creq_ok_def)
qed

lemma failed_step_mono:
  assumes "s_step ver handler s e = Some t" and "s_failed s"
  shows "s_failed t"
  using s_stepD(2) [OF assms(1)] assms(2) by (cases e) (simp_all add: failed_mono)

lemma aborting_step_mono:
  assumes st: "s_step ver handler s e = Some t" and "aborting (s_group s)"
  shows "aborting (s_group t)"
proof (cases "own_step e")
  case True
  then show ?thesis using owner_fields [OF owner_step [OF st True]] assms(2) by simp
next
  case False
  have d: "s_group (p_done s) = (case prod_pc s of PEnded x \<Rightarrow> fst (group_task_done x (s_group s) (s_caller s)) | _ \<Rightarrow> s_group s)"
    "s_group (c_done i s) = (case cons s ! i of CEnded x \<Rightarrow> fst (group_task_done x (s_group s) (s_caller s)) | _ \<Rightarrow> s_group s)"
    "s_group (s_parent ver s) = fst (group_parent_wake (s_group s) (s_caller s))" for i
    by (simp_all add: p_done_def c_done_def s_parent_def Let_def split: ppc.splits cpc.splits prod.splits)
  show ?thesis
    using s_stepD(2) [OF st] False assms(2)
    by (cases e) (auto simp: d group_keeps_aborting split: ppc.splits cpc.splits)
qed

lemma s_stopped_step:
  assumes inv: "stream_inv k n s" and st: "s_step ver handler s e = Some t" and stop: "s_stopped s"
  shows "s_stopped t \<and> s_calls t = s_calls s"
proof -
  note I = stream_invD [OF inv] and en = s_stepD(1) [OF st] and t = s_stepD(2) [OF st]
  have "s_stopped t"
    using stop failed_step_mono [OF st] aborting_step_mono [OF st] by (auto simp: s_stopped_def)
  moreover have "s_calls t = s_calls s"
  proof (cases e)
    case (SCStart i)
    then have i: "i < length (cons s)" "cons s ! i = CCreated" using en by simp_all
    then have "s_final s = None" using c_activeI [OF I(1)] by (simp add: c_active_def)
    then have "s_stopping s" using stop inv_aborting [OF I(1)] by (auto simp: s_stopped_def s_stopping_def)
    then show ?thesis using t SCStart by (simp add: c_start_def loop_calls)
  next
    case (SCWake i)
    then have i: "i < length (cons s)" "cons s ! i = CGet" using en by simp_all
    then have "s_failed s \<or> cons_creq s ! i" using stop inv_creq [OF I(1)] by (auto simp: s_stopped_def)
    then show ?thesis using t SCWake by (auto simp: c_wake_def loop_calls)
  next
    case (SCFn i f)
    then have i: "i < length (cons s)" "is_fn (cons s ! i)" using en by (auto split: cpc.splits)
    then have "c_active i s" using c_activeI [OF I(1)] by (cases "cons s ! i") auto
    then have "s_final s = None" by (simp add: c_active_def)
    then have "s_stopping s" using stop inv_aborting [OF I(1)] by (auto simp: s_stopped_def s_stopping_def)
    then have c: "s_calls (c_head i (c_stored r i s)) = s_calls s" for r
      using loop_calls(3) [of "c_stored r i s" i] by (simp add: s_stopping_def c_stored_def)
    show ?thesis
      using t SCFn c [folded c_fn_store]
      by (cases "handler (cfn_index (cons s ! i)) (s_stopping s) (cons_creq s ! i) f")
         (simp_all add: c_fn_def)
  qed (use t in simp_all)
  ultimately show ?thesis by blast
qed

lemma fails_step:
  assumes inv: "stream_inv k n s" and st: "s_step ver handler s e = Some t" and x: "fails t x"
  shows "fails s x \<or> x \<noteq> CancelledError \<and>
    ((\<exists>y. e = SSource (SrcRaise y) \<and>
       x = stray_cancellation_as_error y (s_stopping s) (Origin ''the producer'')) \<or>
    (\<exists>i f. e = SCFn i f \<and>
       handler (cfn_index (cons s ! i)) (s_stopping s) (cons_creq s ! i) f = Propagate x))"
proof -
  note I = stream_invD [OF inv] and en = s_stepD(1) [OF st] and t = s_stepD(2) [OF st]
  have same: "fails s x" if "set (stat t) = set (stat s)" using x that by (simp add: fails_def)
  show ?thesis
  proof (cases e)
    case SPStart
    have "p_quiet s (p_start s)" by (simp add: p_quiet_def p_start_def)
    then show ?thesis using p_quiet_fails [of s t x] x t SPStart by simp
  next
    case (SPWake dt)
    then have w: "waiting (prod_pc s)" using en by (cases "prod_pc s") auto
    then have "p_active s" using p_activeI [OF I(1)] by (cases "prod_pc s") auto
    then have "s_final s = None" by (simp add: p_active_def)
    then have "p_quiet s (p_wake dt s)" using p_quiet_wake [OF creq_stopping(1) [OF I(1)] w] by simp
    then show ?thesis using p_quiet_fails [of s t x] x t SPWake by simp
  next
    case (SSource r)
    then have "p_active s" using p_activeI [OF I(1)] en by simp
    then have "s_final s = None" by (simp add: p_active_def)
    then have ab: "aborting (s_group s) \<Longrightarrow> s_stopping s" using inv_aborting [OF I(1)] by simp
    show ?thesis
    proof (cases r)
      case (SrcRaise y)
      then show ?thesis
        using x t SSource
        by (auto simp: fails_def stat_def p_source_def p_fail_eq end_with_def split: if_splits)
    qed (use p_quiet_source [OF ab] p_quiet_fails [of s t x] x t SSource in simp_all)
  next
    case (SCStart i)
    then show ?thesis using c_quiet_fails [of i s t x] c_quiet_head(2) [of i s] x t by simp
  next
    case (SCWake i)
    then show ?thesis using c_quiet_fails [of i s t x] c_quiet_head(3) [of i s] x t by simp
  next
    case (SCFn i f)
    show ?thesis
    proof (cases "handler (cfn_index (cons s ! i)) (s_stopping s) (cons_creq s ! i) f")
      case (Store r)
      have "c_quiet i (c_stored r i s) t" using t SCFn Store c_quiet_head(1) by (simp add: c_fn_store)
      then have "c_quiet i s t" by (auto simp: c_quiet_def c_stored_def)
      then show ?thesis using c_quiet_fails x by blast
    next
      case (Propagate y)
      then have "stat t = (stat s)[Suc i := Ended (end_with y)]" using t SCFn by (simp add: c_fn_def)
      then have "fails s x \<or> end_with y = EndFailed x"
        using x set_update_subset_insert [of "stat s" "Suc i"] by (fastforce simp: fails_def)
      then show ?thesis using SCFn Propagate by (auto simp: end_with_def split: if_splits)
    qed
  next
    case SPDone
    then obtain y where y: "prod_pc s = PEnded y" using en by (auto split: ppc.splits)
    have "end_of (pc_p (prod_pc t)) = end_of (pc_p (prod_pc s))" "cons t = cons s"
      using t SPDone by (simp_all add: p_done_def y)
    then show ?thesis using x by (auto simp: fails_def stat_def)
  next
    case (SCDone i)
    then obtain y where y: "i < length (cons s)" "cons s ! i = CEnded y" using en by (auto split: cpc.splits)
    have "stat t = (stat s)[Suc i := Reaped y]" using t SCDone by (simp add: c_done_def y)
    then have "fails s x \<or> y = EndFailed x"
      using x set_update_subset_insert [of "stat s" "Suc i"] by (fastforce simp: fails_def)
    moreover have "Ended y \<in> set (stat s)" using y nth_mem [of "Suc i" "stat s"] by simp
    then have "fails s x" if "y = EndFailed x" unfolding fails_def using that by (intro bexI) auto
    ultimately show ?thesis by blast
  next
    case SParent
    have "stat t = stat s" using t SParent by (simp add: s_parent_def Let_def split: prod.splits)
    then show ?thesis using same by simp
  qed (use t same in simp_all)
qed

section \<open>The caller, event by event\<close>

fun signal :: "('i, 'v) sevent \<Rightarrow> 'v fevent list" where
  "signal SCancel = [ECancel]"
| "signal SRearmOther = [ERearmOther]"
| "signal _ = []"

definition signals :: "('i, 'v) sevent list \<Rightarrow> 'v fevent list" where
  "signals es = concat (map signal es)"

lemma signals_simps [simp]: "signals [] = []" "signals (es @ [e]) = signals es @ signal e"
  by (simp_all add: signals_def)

definition s_known :: "pyver \<Rightarrow> task \<Rightarrow> ('i, 'v) sevent list \<Rightarrow> ('i, 'r) stream \<Rightarrow> bool" where
  "s_known ver t0 es s = known ver t0 (signals es) (s_probe s) (s_group s) (s_caller s) (s_final s) (s_rearm s)"

lemma s_known_init: "s_known ver t0 ([] :: ('i, 'v) sevent list) (stream_init ver k n m t0)"
proof -
  obtain g t where g: "group_begin_exit ver (group_enter t0) t0 = (g, t)" by (metis surj_pair)
  show ?thesis using known_init [OF g] by (simp add: s_known_def stream_init_def g)
qed

lemma s_running:
  assumes inv: "stream_inv k n s" and st: "s_step ver handler s e = Some t" and e: "e \<noteq> SRearm"
  shows "s_final s = None" and "\<not> s_rearm s"
proof -
  note I = stream_invD [OF inv] and en = s_stepD(1) [OF st]
  show f: "s_final s = None"
  proof (cases e)
    case SPStart
    then show ?thesis using p_activeI [OF I(1)] en by (simp add: p_active_def)
  next
    case (SPWake dt)
    then have "p_live (prod_pc s)" using en by (cases "prod_pc s") auto
    then show ?thesis using p_activeI [OF I(1)] by (simp add: p_active_def)
  next
    case (SSource r)
    then show ?thesis using p_activeI [OF I(1)] en by (simp add: p_active_def)
  next
    case (SCStart i)
    then show ?thesis using c_activeI [OF I(1), of i] en by (simp add: c_active_def)
  next
    case (SCWake i)
    then show ?thesis using c_activeI [OF I(1), of i] en by (simp add: c_active_def)
  next
    case (SCFn i f)
    then have "i < length (cons s)" "c_live (cons s ! i)" using en by (auto split: cpc.splits)
    then show ?thesis using c_activeI [OF I(1), of i] by (simp add: c_active_def)
  qed (use en e in simp_all)
  show "\<not> s_rearm s" using tasks_invD(7) [OF I(1) [unfolded task_inv_def]] f by simp
qed

lemma s_known_step:
  assumes inv: "stream_inv k n s" and st: "s_step ver handler s e = Some t"
    and ok: "s_known ver t0 es s"
  shows "s_known ver t0 (es @ [e]) t"
proof (cases "own_step e")
  case True
  then have "signal e = []" by (cases e) simp_all
  then show ?thesis using owner_fields [OF owner_step [OF st True]] ok by (simp add: s_known_def)
next
  case False
  note I = stream_invD [OF inv] and en = s_stepD(1) [OF st] and t = s_stepD(2) [OF st]
  have fin: "s_final s = None" if "e \<noteq> SRearm" using s_running [OF inv st that] by blast
  note K = ok [unfolded s_known_def]
  show ?thesis
  proof (cases e)
    case SPDone
    then obtain x where x: "prod_pc s = PEnded x" using en by (auto split: ppc.splits)
    show ?thesis
      using t SPDone known_done [of ver t0 "signals es" "s_probe s" "s_group s" "s_caller s" "s_rearm s" x]
        K fin by (simp add: s_known_def p_done_def x)
  next
    case (SCDone i)
    then obtain x where x: "cons s ! i = CEnded x" using en by (auto split: cpc.splits)
    show ?thesis
      using t SCDone known_done [of ver t0 "signals es" "s_probe s" "s_group s" "s_caller s" "s_rearm s" x]
        K fin by (simp add: s_known_def c_done_def x)
  next
    case SParent
    define s' where "s' = s_grp (group_parent_wake (s_group s) (s_caller s)) s"
    have K': "known ver t0 (signals es) (s_probe s) (s_group s') (s_caller s') None (s_rearm s)"
      using known_wake [of ver t0 "signals es" "s_probe s" "s_group s" "s_caller s" "s_rearm s"] K fin SParent
      by (simp add: s'_def)
    show ?thesis
    proof (cases "s_reaped s'")
      case False
      then show ?thesis using t SParent K' fin
        by (simp add: s_known_def s_parent_def s'_def [symmetric]) (simp add: s'_def)
    next
      case True
      obtain r u due where x: "group_exit ver (s_group s') (s_caller s') = (r, u, due)" by (metis prod_cases3)
      have "task_inv s'" unfolding s'_def using I(1) s_running [OF inv st] SParent by (intro parent_wake_task) auto
      then have "group_ok (s_group s')" using tasks_invD(3) unfolding task_inv_def by blast
      moreover have "\<not> must_cancel (s_caller s')" by (simp add: s'_def)
      ultimately have "known ver t0 (signals es) (s_probe s) (s_group s') u (Some r) due"
        using known_exit [OF K' _ _ x] by blast
      then show ?thesis using t SParent True
        by (simp add: s_known_def s_parent_def s'_def [symmetric] x) (simp add: s'_def)
    qed
  next
    case SRearm
    then have due: "s_rearm s" using en by simp
    then have "s_final s \<noteq> None" using tasks_invD(7) [OF I(1) [unfolded task_inv_def]] by blast
    then obtain r where r: "s_final s = Some r" by blast
    then show ?thesis using t SRearm K known_rearm due by (simp add: s_known_def)
  next
    case SCancel
    then show ?thesis using t K fin known_outside(1) by (simp add: s_known_def)
  next
    case SRearmOther
    then have k: "known ver t0 (signals es) (s_probe s) (s_group s) (s_caller s) None (s_rearm s)"
      and n: "0 < num_cancels (s_caller s)" "\<not> parent_cancel_requested (s_group s)" and f: "s_final s = None"
      using en K fin by simp_all
    show ?thesis using t f known_outside(2) [OF k n, of ver] SRearmOther by (simp add: s_known_def)
  qed (use False in simp_all)
qed

section \<open>A stop stays on record\<close>

definition s_over :: "('i, 'r) stream \<Rightarrow> bool" where
  "s_over s = (s_stopping s \<or> (\<exists>x. s_final s = Some (Some x)))"

lemma s_over_step:
  assumes inv: "stream_inv k n s" and st: "s_step ver handler s e = Some t" and stop: "s_over s"
  shows "s_over t"
proof -
  note I = stream_invD [OF inv] and en = s_stepD(1) [OF st] and t = s_stepD(2) [OF st]
  note F = failed_step_mono [OF st]
  have run: "s_final s = None \<and> s_stopping s \<and> caller_inv (s_failed s) (s_group s) (s_caller s) (s_probe s)"
    if "e \<noteq> SRearm"
    using s_running [OF inv st that] stop tasks_invD(6) [OF I(1) [unfolded task_inv_def]]
    by (simp add: s_over_def)
  have keep: "s_over t"
    if "e \<noteq> SRearm" "s_probe t = s_probe s" "num_cancels (s_caller s) \<le> num_cancels (s_caller t)"
      "rearms (s_caller t) = rearms (s_caller s)"
    using run [OF that(1)] F that probe_cancelled_mono [of "s_probe s" "s_caller s" "s_caller t"]
    by (auto simp: s_over_def s_stopping_def)
  show ?thesis
  proof (cases "own_step e")
    case True
    then show ?thesis using keep owner_fields [OF owner_step [OF st True]] by (cases e) auto
  next
    case False
    show ?thesis
    proof (cases e)
      case SPDone
      then obtain x where "prod_pc s = PEnded x" using en by (auto split: ppc.splits)
      then show ?thesis using SPDone t group_done_mono group_done_count(2) by (intro keep) (simp_all add: p_done_def)
    next
      case (SCDone i)
      then obtain x where "cons s ! i = CEnded x" using en by (auto split: cpc.splits)
      then show ?thesis using SCDone t group_done_mono group_done_count(2) by (intro keep) (simp_all add: c_done_def)
    next
      case SParent
      define s' where "s' = s_grp (group_parent_wake (s_group s) (s_caller s)) s"
      have same: "num_cancels (s_caller s') = num_cancels (s_caller s)" "rearms (s_caller s') = rearms (s_caller s)"
        "s_probe s' = s_probe s" "s_failed s' = s_failed s" "\<not> must_cancel (s_caller s')"
        by (simp_all add: s'_def)
      obtain r u due where x: "group_exit ver (s_group s') (s_caller s') = (r, u, due)" by (metis prod_cases3)
      have "task_inv s'" unfolding s'_def using I(1) s_running [OF inv st] SParent by (intro parent_wake_task) auto
      then have ok: "group_ok (s_group s')" using tasks_invD(3) unfolding task_inv_def by blast
      show ?thesis
      proof (cases "s_reaped s' \<and> r \<noteq> None")
        case True
        then show ?thesis using t SParent x by (auto simp: s_over_def s_parent_def s'_def [symmetric])
      next
        case no: False
        have "s_caller t = s_caller s' \<and> s_probe t = s_probe s"
          using t SParent x no group_exit_result [OF x ok] same(3)
          by (auto simp: s_parent_def s'_def [symmetric])
        then show ?thesis using SParent same by (intro keep) simp_all
      qed
    next
      case SRearm
      have due: "s_rearm s" using en SRearm by simp
      have "inv_final (s_final s) True (s_failed s) (probe_cancelled (s_probe s) (s_caller s)) (s_group s) (stat s)"
        using tasks_invD(8) [OF I(1) [unfolded task_inv_def]] due by simp
      then obtain e' where "s_final s = Some (Some e')" using rearm_final(1) by blast
      then show ?thesis using t SRearm by (simp add: s_over_def)
    next
      case SCancel
      then show ?thesis using t by (intro keep) simp_all
    next
      case SRearmOther
      then show ?thesis using t run by (auto simp: s_over_def s_stopping_def caller_inv_def probe_defs)
    qed (use False in simp_all)
  qed
qed

section \<open>The awaits of \<open>fn\<close>\<close>

text \<open>How the awaits of \<open>fn\<close> ended in a run, in order, each with the index of its call.\<close>

definition fn_entry_of :: "('i, 'r) stream \<Rightarrow> ('i, 'v) sevent \<Rightarrow> (nat \<times> 'v fn_end) list" where
  "fn_entry_of s e = (case e of SCFn i f \<Rightarrow> [(cfn_index (cons s ! i), f)] | _ \<Rightarrow> [])"

fun fn_log :: "(('i, 'r) stream \<Rightarrow> ('i, 'v) sevent \<Rightarrow> ('i, 'r) stream option) \<Rightarrow> ('i, 'r) stream \<Rightarrow>
    ('i, 'v) sevent list \<Rightarrow> (nat \<times> 'v fn_end) list" where
  "fn_log step s [] = []"
| "fn_log step s (e # es) =
     (case step s e of None \<Rightarrow> [] | Some t \<Rightarrow> fn_entry_of s e @ fn_log step t es)"

lemma fn_log_snoc:
  assumes "run step s es = Some u" and "step u e = Some t"
  shows "fn_log step s (es @ [e]) = fn_log step s es @ fn_entry_of u e"
  using assms by (induction es arbitrary: s) (auto split: option.splits)

lemma fn_log_events:
  "(idx, f) \<in> set (fn_log step s es) \<Longrightarrow> \<exists>i. SCFn i f \<in> set es"
  by (induction es arbitrary: s) (auto simp: fn_entry_of_def split: option.splits sevent.splits)

section \<open>What a run shows\<close>

context stream_machine
begin

abbreviation go :: "stream_metrics option \<Rightarrow> task \<Rightarrow> ('i, 'v) sevent list \<Rightarrow> ('i, 'r) stream option" where
  "go m t0 es \<equiv> run (s_step ver handler) (stream_init ver k n m t0) es"

abbreviation awaits :: "stream_metrics option \<Rightarrow> task \<Rightarrow> ('i, 'v) sevent list \<Rightarrow> (nat \<times> 'v fn_end) list" where
  "awaits m t0 es \<equiv>
     fn_log (s_step ver handler) (stream_init ver k n m t0 :: ('i, 'r) stream) es"

lemma go_inv: "go m t0 es = Some s \<Longrightarrow> stream_inv k n s"
  using machine.inv_run [OF stream_init_inv] .

lemmas go_trace = machine.run_trace [OF stream_init_inv]

text \<open>The bounds: the queue, the calls in flight, and how far the source is read ahead.\<close>

lemma infl_size: "size (infl cs) = cnt is_fn cs"
proof (induction cs)
  case (Cons c cs)
  have "size (idx_of c) = of_bool (is_fn c)" by (cases c) simp_all
  then show ?case using Cons by (simp add: infl_def)
qed (simp add: infl_def)

lemma bounds:
  assumes "go m t0 es = Some s"
  shows "length (buf (queue s)) \<le> n" and "cnt is_fn (cons s) \<le> k" and "length (cons s) \<le> k"
    and "unfinished (queue s) = length (buf (queue s)) + cnt is_fn (cons s)"
    and "\<not> s_failed s \<Longrightarrow> length (pulled s) \<le> length (s_calls s) + n + 1"
    and "\<not> s_failed s \<Longrightarrow> length (s_calls s) = length (results s) + cnt is_fn (cons s)"
proof -
  note I = stream_invD [OF go_inv [OF assms]] note W = wait_invD [OF I(2)] note D = data_invD [OF I(3)]
  show b: "length (buf (queue s)) \<le> n" using aq.bound [OF W(1)] W(2) by simp
  show "length (cons s) \<le> k" using D(3) .
  then show "cnt is_fn (cons s) \<le> k" using cnt_le_length [of is_fn "cons s"] by simp
  show "unfinished (queue s) = length (buf (queue s)) + cnt is_fn (cons s)" using W(11) by simp
  show "length (pulled s) \<le> length (s_calls s) + n + 1" if nf: "\<not> s_failed s"
  proof -
    obtain xs j where "buf (queue s) = map QItem xs @ replicate j Sentinel"
      "pulled s = map snd (s_calls s) @ xs @ hand (prod_pc s)"
      using fifoE [OF D(7) [OF nf]] by metis
    moreover have "length (hand (prod_pc s)) \<le> 1" by (cases "prod_pc s") simp_all
    ultimately show ?thesis using b by simp
  qed
  show "length (s_calls s) = length (results s) + cnt is_fn (cons s)" if nf: "\<not> s_failed s"
  proof -
    have "size (mset (finished s) + infl (cons s)) = size (mset [0..<length (s_calls s)])"
      using calls_okD(4) [OF D(6) nf] by simp
    then show ?thesis using D(5) by (simp only: size_union size_mset infl_size length_upt)
  qed
qed

text \<open>Fail-fast.\<close>

lemma no_call_after_stop:
  assumes "go m t0 es = Some s" and "s_stopped s" and "run (s_step ver handler) s fs = Some t"
  shows "s_calls t = s_calls s"
proof -
  have "s_stopped t \<and> s_calls t = s_calls s"
    using go_inv [OF assms(1)] assms(3)
  proof (rule machine.run_trace [where P = "\<lambda>_ t. s_stopped t \<and> s_calls t = s_calls s"])
    show "s_stopped s \<and> s_calls s = s_calls s" using assms(2) by simp
    show "s_stopped t \<and> s_calls t = s_calls s"
      if "stream_inv k n u" "s_stopped u \<and> s_calls u = s_calls s" "s_step ver handler u e = Some t"
      for es u e t using s_stopped_step [OF that(1,3)] that(2) by simp
  qed
  then show ?thesis by simp
qed

text \<open>A run ends, and can always be completed.\<close>

lemma rank_init: "stream_rank (stream_init ver k n m t0 :: ('i, 'r) stream) \<le> 10"
  by (simp add: stream_rank_def work_def group_work_def stream_init_def q_rank_def q_init_def q_woken_def
      Let_def split: prod.splits)

lemma steps_bounded:
  fixes s :: "('i, 'r) stream"
  assumes "go m t0 es = Some s"
  shows "cnt (\<lambda>e. \<not> s_external e) es \<le> 10 + 18 * cnt s_external es"
proof -
  have "stream_rank (stream_init ver k n m t0 :: ('i, 'r) stream) \<le> 10" by (rule rank_init)
  then show ?thesis using machine.internal_steps_bounded [OF stream_init_inv assms] by linarith
qed

lemma can_complete:
  assumes "go m t0 es = Some s"
  shows "\<exists>fs t. go m t0 (es @ fs) = Some t \<and> s_final t \<noteq> None \<and> \<not> s_rearm t \<and>
           (\<forall>e \<in> set fs. \<not> s_external e)"
  using machine.completes [OF go_inv [OF assms]] assms by (auto simp: run_append)

lemma known_trace:
  assumes "go m t0 es = Some s"
  shows "s_known ver t0 es s"
  by (rule go_trace [OF assms, where P = "s_known ver t0"]) (auto simp: s_known_init intro: s_known_step)

text \<open>The results are, in order, what the handler stored for the awaits that ended.\<close>

lemma log_trace:
  assumes "go m t0 es = Some s" and "\<not> s_failed s"
  shows "map fst (awaits m t0 es) = finished s"
    and "j < length (results s) \<Longrightarrow> \<exists>st c.
      handler (fst (awaits m t0 es ! j)) st c (snd (awaits m t0 es ! j)) = Store (results s ! j) \<and>
      (st \<longrightarrow> s_over s) \<and> (c \<longrightarrow> aborting (s_group s))"
proof -
  let ?good = "\<lambda>s :: ('i, 'r) stream. \<lambda>L. map fst L = finished s \<and> length (results s) = length L \<and>
      (\<forall>j < length L. \<exists>st c. handler (fst (L ! j)) st c (snd (L ! j)) = Store (results s ! j) \<and>
         (st \<longrightarrow> s_over s) \<and> (c \<longrightarrow> aborting (s_group s)))"
  let ?P = "\<lambda>es s. go m t0 es = Some s \<and> (\<not> s_failed s \<longrightarrow> ?good s (awaits m t0 es))"
  have "?P es s"
  proof (rule go_trace [OF assms(1), where P = ?P])
    show "?P [] (stream_init ver k n m t0)" by (simp add: stream_init_def Let_def split: prod.splits)
  next
    fix es :: "('i, 'v) sevent list" and s e t
    assume inv: "stream_inv k n s" and P: "?P es s" and st: "s_step ver handler s e = Some t"
    have L: "awaits m t0 (es @ [e]) = awaits m t0 es @ fn_entry_of s e" using fn_log_snoc P st by blast
    have over: "s_over s \<Longrightarrow> s_over t" using s_over_step [OF inv st] .
    have ab: "aborting (s_group s) \<Longrightarrow> aborting (s_group t)" using aborting_step_mono [OF st] .
    have "?good t (awaits m t0 (es @ [e]))" if nf: "\<not> s_failed t"
    proof -
      have "\<not> s_failed s" using failed_step_mono [OF st] nf by blast
      then have G: "?good s (awaits m t0 es)" using P by blast
      have keep: "\<exists>st c. handler (fst (awaits m t0 es ! j)) st c (snd (awaits m t0 es ! j)) = Store (results s ! j) \<and>
         (st \<longrightarrow> s_over t) \<and> (c \<longrightarrow> aborting (s_group t))" if "j < length (awaits m t0 es)" for j
        using G that over ab by blast
      show ?thesis
      proof (cases "\<exists>i f. e = SCFn i f")
        case False
        then have "fn_entry_of s e = []" by (cases e) (auto simp: fn_entry_of_def)
        moreover have "outs t = outs s" using outs_step [OF st] False by auto
        ultimately show ?thesis using G keep L by (simp add: outs_def)
      next
        case True
        then obtain i f where e: "e = SCFn i f" by blast
        have i: "i < length (cons s)" using s_stepD(1) [OF st] e by simp
        have entry: "fn_entry_of s e = [(cfn_index (cons s ! i), f)]" by (simp add: fn_entry_of_def e)
        obtain r where r: "handler (cfn_index (cons s ! i)) (s_stopping s) (cons_creq s ! i) f = Store r"
          using nf s_stepD(2) [OF st] e
          by (cases "handler (cfn_index (cons s ! i)) (s_stopping s) (cons_creq s ! i) f") (simp_all add: c_fn_def)
        have o: "results t = results s @ [r]" "finished t = finished s @ [cfn_index (cons s ! i)]"
        proof -
          have "outs t = outs (c_stored r i s)" using s_stepD(2) [OF st] e r by (simp add: c_fn_store)
          then show "results t = results s @ [r]" "finished t = finished s @ [cfn_index (cons s ! i)]"
            by (simp_all add: outs_def c_stored_def)
        qed
        have fin: "s_final s = None" using s_running [OF inv st] e by simp
        have c: "cons_creq s ! i \<longrightarrow> aborting (s_group s)"
          using tasks_creq [OF stream_invD(1) [OF inv, unfolded task_inv_def], of "Suc i"] i by simp
        have new: "\<exists>st c. handler (cfn_index (cons s ! i)) st c f = Store r \<and>
            (st \<longrightarrow> s_over t) \<and> (c \<longrightarrow> aborting (s_group t))"
          by (intro exI [of _ "s_stopping s"] exI [of _ "cons_creq s ! i"])
             (use r c over ab in \<open>auto simp: s_over_def\<close>)
        show ?thesis
          unfolding L entry o using G keep new by (auto simp: nth_append less_Suc_eq)
      qed
    qed
    then show "?P (es @ [e]) t" using P st by (simp add: run_snoc)
  qed
  then show "map fst (awaits m t0 es) = finished s"
    and "j < length (results s) \<Longrightarrow> \<exists>st c.
      handler (fst (awaits m t0 es ! j)) st c (snd (awaits m t0 es ! j)) = Store (results s ! j) \<and>
      (st \<longrightarrow> s_over s) \<and> (c \<longrightarrow> aborting (s_group s))"
    using assms(2) by auto
qed

text \<open>
  Where a task's error comes from: the source, or the end of an await, which is blamed on the
  index and the item that its consumer held at that moment.
\<close>

definition blamed :: "stream_metrics option \<Rightarrow> task \<Rightarrow> ('i, 'v) sevent list \<Rightarrow> exc \<Rightarrow> bool" where
  "blamed m t0 es x \<longleftrightarrow> x \<noteq> CancelledError \<and>
     ((\<exists>y st. SSource (SrcRaise y) \<in> set es \<and>
        x = stray_cancellation_as_error y st (Origin ''the producer'')) \<or>
     (\<exists>pre post i f u idx it. es = pre @ SCFn i f # post \<and> go m t0 pre = Some u \<and>
        i < length (cons u) \<and> cons u ! i = CFn idx it \<and> (cons_creq u ! i \<longrightarrow> s_stopping u) \<and>
        handler idx (s_stopping u) (cons_creq u ! i) f = Propagate x))"

lemma blamed_snoc: "blamed m t0 es x \<Longrightarrow> blamed m t0 (es @ [e]) x"
  unfolding blamed_def by fastforce

lemma blame_step:
  assumes g: "go m t0 es = Some s" and st: "s_step ver handler s e = Some t" and x: "fails t x"
  shows "fails s x \<or> blamed m t0 (es @ [e]) x"
proof -
  note inv = go_inv [OF g] note I = stream_invD [OF inv]
  from fails_step [OF inv st x] show ?thesis
  proof (elim disjE conjE exE)
    fix i f
    assume x: "x \<noteq> CancelledError" and e: "e = SCFn i f"
      and h: "handler (cfn_index (cons s ! i)) (s_stopping s) (cons_creq s ! i) f = Propagate x"
    have i: "i < length (cons s)" "is_fn (cons s ! i)" using s_stepD(1) [OF st] e by (auto split: cpc.splits)
    then obtain idx it where c: "cons s ! i = CFn idx it" by (cases "cons s ! i") auto
    have "s_final s = None" using s_running(1) [OF inv st] e by simp
    then have "cons_creq s ! i \<longrightarrow> s_stopping s" using creq_stopping(2) [OF I(1) _ i(1)] by blast
    then show ?thesis
      unfolding blamed_def using x e h i(1) c g
      by (intro disjI2 conjI exI [of _ es] exI [of _ "[]"] exI [of _ i] exI [of _ f] exI [of _ s]
          exI [of _ idx] exI [of _ it]) (simp_all add: cfn_index_def)
  qed (auto simp: blamed_def)
qed

lemma blame_trace:
  assumes "go m t0 es = Some s" and "fails s x"
  shows "blamed m t0 es x"
proof -
  have "go m t0 es = Some s \<and> (\<forall>x. fails s x \<longrightarrow> blamed m t0 es x)"
  proof (rule go_trace [OF assms(1), where P = "\<lambda>es s. go m t0 es = Some s \<and> (\<forall>x. fails s x \<longrightarrow> blamed m t0 es x)"])
    show "go m t0 [] = Some (stream_init ver k n m t0) \<and>
        (\<forall>x. fails (stream_init ver k n m t0 :: ('i, 'r) stream) x \<longrightarrow> blamed m t0 [] x)"
      by (simp add: fails_def stat_def stream_init_def Let_def split: prod.splits)
    show "go m t0 (es @ [e]) = Some t \<and> (\<forall>x. fails t x \<longrightarrow> blamed m t0 (es @ [e]) x)"
      if "go m t0 es = Some s \<and> (\<forall>x. fails s x \<longrightarrow> blamed m t0 es x)" "s_step ver handler s e = Some t"
      for es and s :: "('i, 'r) stream" and e t
    proof (intro conjI allI impI)
      show "go m t0 (es @ [e]) = Some t" using that by (simp add: run_snoc)
      fix x assume "fails t x"
      then show "blamed m t0 (es @ [e]) x"
        using blame_step [OF conjunct1 [OF that(1)] that(2)] that(1) blamed_snoc by blast
    qed
  qed
  then show ?thesis using assms(2) by blast
qed

lemma group_errors:
  assumes g: "go m t0 es = Some s" and x: "x \<in> set (errors (s_group s))"
  shows "blamed m t0 es x"
proof -
  have "inv_group (s_group s) (stat s)"
    using tasks_invD(2) stream_invD(1) [OF go_inv [OF g]] unfolding task_inv_def by blast
  then have "Reaped (EndFailed x) \<in> set (stat s)" using x by (simp add: inv_group_def)
  then have "fails s x" unfolding fails_def by (intro bexI) simp_all
  then show ?thesis using blame_trace [OF g] by blast
qed

lemma raised:
  assumes g: "go m t0 es = Some s" and fin: "s_final s = Some (Some e)"
  shows "e = CancelledError \<and> live_cancel t0 (signals es) \<or>
    (\<exists>xs. e = ExcGroup xs \<and> xs \<noteq> [] \<and> (\<forall>x \<in> set xs. blamed m t0 es x)) \<or>
    is_base_error e \<and> blamed m t0 es e"
proof -
  note T = stream_invD(1) [OF go_inv [OF g], unfolded task_inv_def]
  have ok: "group_ok (s_group s)" using tasks_invD(3) [OF T] .
  from tasks_invD(8) [OF T] fin
  consider "e = CancelledError" "propagate (s_group s)"
    | "e = ExcGroup (errors (s_group s))" "errors (s_group s) \<noteq> []" | "base_error (s_group s) = Some e"
    by (auto simp: inv_final_def)
  then show ?thesis
  proof cases
    case 1
    then show ?thesis using known_trace [OF g] by (simp add: s_known_def known_def)
  next
    case 2
    then show ?thesis using group_errors [OF g] by blast
  next
    case 3
    then show ?thesis using ok group_errors [OF g, of e] by (simp add: group_ok_def)
  qed
qed

lemma all_normal:
  assumes "\<And>c. c \<in> set cs \<Longrightarrow> c = CReaped EndNormal"
  shows "cnt ended_normal cs = length cs" "infl cs = {#}" "cnt is_fn cs = 0"
proof -
  have "(\<forall>c \<in> set cs. c = CReaped EndNormal) \<longrightarrow>
      cnt ended_normal cs = length cs \<and> infl cs = {#} \<and> cnt is_fn cs = 0"
    by (induction cs) (auto simp: infl_def)
  then show "cnt ended_normal cs = length cs" "infl cs = {#}" "cnt is_fn cs = 0"
    using assms by blast+
qed

text \<open>A normal return: everything that was pulled has been through \<open>fn\<close>, in source order.\<close>

lemma returned:
  assumes g: "go m t0 es = Some s" and fin: "s_final s = Some None"
  shows "map snd (s_calls s) = pulled s" and "mset (finished s) = mset [0..<length (pulled s)]"
    and "length (results s) = length (pulled s)" and "\<not> s_failed s" and "\<not> s_over s"
    and "\<not> aborting (s_group s)" and "buf (queue s) = []" and "unfinished (queue s) = 0"
proof -
  note I = stream_invD [OF go_inv [OF g]] note T = I(1) [unfolded task_inv_def] note D = data_invD [OF I(3)]
  have q: "\<not> aborting (s_group s) \<and> \<not> s_failed s \<and> \<not> probe_cancelled (s_probe s) (s_caller s)"
    using tasks_invD(8) [OF T] fin by (auto simp: inv_final_def)
  then show nf: "\<not> s_failed s" and "\<not> aborting (s_group s)" and "\<not> s_over s"
    using fin by (auto simp: s_over_def s_stopping_def)
  have ps: "\<forall>x \<in> set (stat s). x = Reaped EndNormal" using T fin by (simp add: tasks_inv_def)
  then have pp: "prod_pc s = PReaped EndNormal" by (cases "prod_pc s") (auto simp: stat_def)
  have cc: "c = CReaped EndNormal" if "c \<in> set (cons s)" for c
    using ps that by (cases c) (auto simp: stat_def)
  note e = all_normal [of "cons s", OF cc]
  obtain xs j where f: "buf (queue s) = map QItem xs @ replicate j Sentinel"
    "pulled s = map snd (s_calls s) @ xs @ hand (prod_pc s)"
    "\<not> gave_up (prod_pc s) \<longrightarrow>
      j + cnt ended_normal (cons s) + rest_of (prod_pc s) (length (cons s)) = length (cons s)"
    "0 < cnt ended_normal (cons s) \<longrightarrow> xs = []"
    using fifoE [OF D(7) [OF nf]] by metis
  have j: "j = 0" using f(3) pp e(1) by simp
  have xs: "xs = []"
  proof (cases "cons s = []")
    case True
    then have "pulled s = []" using D(8) [OF nf] by blast
    then show ?thesis using f(2) by simp
  qed (use f(4) e(1) in simp)
  show b: "buf (queue s) = []" using f(1) j xs by simp
  show p: "map snd (s_calls s) = pulled s" using f(2) xs pp by simp
  then have len: "length (pulled s) = length (s_calls s)" by (metis length_map)
  show m: "mset (finished s) = mset [0..<length (pulled s)]"
    using calls_okD(4) [OF D(6) nf] e(2) len by simp
  show "length (results s) = length (pulled s)"
    using D(5) m by (metis length_upt minus_nat.diff_0 size_mset)
  show "unfinished (queue s) = 0" using wait_invD(11) [OF I(2)] b e(3) by simp
qed

lemma returned_log:
  assumes g: "go m t0 es = Some s" and fin: "s_final s = Some None"
  shows "map fst (awaits m t0 es) = finished s"
    and "map (\<lambda>(idx, f). handler idx False False f) (awaits m t0 es) = map Store (results s)"
proof -
  note R = returned [OF g fin]
  note L = log_trace [OF g R(4)]
  show "map fst (awaits m t0 es) = finished s" using L(1) .
  then have len: "length (awaits m t0 es) = length (results s)"
    using R(2,3) by (metis length_map length_upt minus_nat.diff_0 size_mset)
  have "handler (fst (awaits m t0 es ! j)) False False (snd (awaits m t0 es ! j)) = Store (results s ! j)"
    if "j < length (results s)" for j
    using L(2) [OF that] R(5,6) by (metis (full_types))
  then show "map (\<lambda>(idx, f). handler idx False False f) (awaits m t0 es) = map Store (results s)"
    by (intro nth_equalityI) (simp_all add: len split_def)
qed

end

end
