(* ===== verification/Stream_Metrics.thy ===== *)
theory Stream_Metrics
  imports Stream_Results
begin

text \<open>
  The \<open>StreamMetrics\<close> a caller passes in: what its counters say at every moment, whatever they
  held at the start.
\<close>

section \<open>The counters\<close>

definition meter_ok :: "nat \<Rightarrow> stream_metrics \<Rightarrow> ('i, 'r) stream \<Rightarrow> bool" where
  "meter_ok n m0 s \<longleftrightarrow>
     (case meter s of
        None \<Rightarrow> False
      | Some m \<Rightarrow>
          consumed m = consumed m0 + length (finished s) \<and>
          max_queue_depth m0 \<le> max_queue_depth m \<and>
          max_queue_depth m \<le> max (max_queue_depth m0) n \<and>
          produced m0 \<le> produced m \<and>
          produced m + length (hand (prod_pc s)) \<le> produced m0 + length (pulled s) \<and>
          (\<not> s_failed s \<longrightarrow>
             produced m + length (hand (prod_pc s)) = produced m0 + length (pulled s)))"

definition tally :: "('i, 'r) stream \<Rightarrow> stream_metrics option \<times> nat list \<times> 'i list \<times> 'i list \<times> bool" where
  "tally s = (meter s, finished s, pulled s, hand (prod_pc s), s_failed s)"

lemma tally_meter: "tally t = tally s \<Longrightarrow> meter_ok n m0 s \<Longrightarrow> meter_ok n m0 t"
  by (simp add: tally_def meter_ok_def split: option.splits)

lemma tally_update [simp]:
  "tally (s\<lparr>queue := a\<rparr>) = tally s" "tally (s\<lparr>cons := cs\<rparr>) = tally s"
  "tally (s\<lparr>cons_creq := r\<rparr>) = tally s" "tally (s\<lparr>consumed_index := h\<rparr>) = tally s"
  "tally (s\<lparr>s_calls := f\<rparr>) = tally s" "tally (s\<lparr>started := n\<rparr>) = tally s"
  "tally (s\<lparr>s_caller := t\<rparr>) = tally s" "tally (s\<lparr>s_rearm := z\<rparr>) = tally s"
  "tally (s\<lparr>s_final := y\<rparr>) = tally s" "tally (s\<lparr>s_group := g\<rparr>) = tally s"
  "tally (s\<lparr>prod_creq := x\<rparr>) = tally s"
  by (simp_all add: tally_def)

lemma tally_consumer [simp]: "tally (c_end i x s) = tally s" "tally (c_item i it s) = tally s"
  by (simp_all add: c_end_def c_item_def split: qitem.splits)

lemma tally_got [simp]: "tally (c_got i r s) = tally s"
  by (simp add: c_got_def split: prod.splits option.splits)

lemma tally_loop [simp]:
  "tally (c_head i s) = tally s" "tally (c_start i s) = tally s" "tally (c_wake i s) = tally s"
  by (simp_all add: c_start_def c_wake_def c_head_def split: sum.splits)

lemma tally_group [simp]: "tally (s_grp r s) = tally s"
  by (simp add: s_grp_def Let_def s_abort_def split: prod.splits)

lemma tally_done [simp]:
  "tally (p_done s) = tally s" "tally (c_done i s) = tally s" "tally (s_parent ver s) = tally s"
proof -
  show "tally (p_done s) = tally s"
  proof (cases "prod_pc s")
    case (PEnded x)
    then have "tally (s\<lparr>prod_pc := PReaped x\<rparr>) = tally s" by (simp add: tally_def)
    then show ?thesis using PEnded by (simp add: p_done_def)
  qed (simp_all add: p_done_def)
qed (simp_all add: c_done_def s_parent_def Let_def split: cpc.splits prod.splits)

section \<open>The producer's steps\<close>

lemma tally_prod: "hand p = hand (prod_pc s) \<Longrightarrow> tally (s\<lparr>prod_pc := p\<rparr>) = tally s"
  by (simp add: tally_def)

lemma tally_send: "hand (prod_pc s) = [] \<Longrightarrow> tally (p_send j s) = tally s"
proof (induction j arbitrary: s)
  case (Suc j)
  then show ?case using tally_prod [of "PSend (Suc j)" "s\<lparr>queue := q\<rparr>" for q]
    by (simp split: prod.splits bool.splits)
qed (simp add: p_end_def tally_prod)

lemma meter_send: "meter_ok n m0 s \<Longrightarrow> hand (prod_pc s) = [] \<Longrightarrow> meter_ok n m0 (p_send j s)"
  using tally_meter tally_send by blast

lemma meter_fail: "meter_ok n m0 s \<Longrightarrow> meter_ok n m0 (p_fail e s)"
  by (auto simp: meter_ok_def p_fail_eq p_end_def split: option.splits)

text \<open>An item pulled and not yet counted, up to its put.\<close>

definition meter_in_hand :: "nat \<Rightarrow> stream_metrics \<Rightarrow> ('i, 'r) stream \<Rightarrow> bool" where
  "meter_in_hand n m0 s \<longleftrightarrow>
     (case meter s of
        None \<Rightarrow> False
      | Some m \<Rightarrow>
          consumed m = consumed m0 + length (finished s) \<and>
          max_queue_depth m0 \<le> max_queue_depth m \<and>
          max_queue_depth m \<le> max (max_queue_depth m0) n \<and>
          produced m0 \<le> produced m \<and> Suc (produced m) \<le> produced m0 + length (pulled s) \<and>
          (\<not> s_failed s \<longrightarrow> Suc (produced m) = produced m0 + length (pulled s)))"

lemma in_hand_data [simp]:
  "meter_in_hand n m0 (s\<lparr>queue := q\<rparr>) = meter_in_hand n m0 s"
  "meter_in_hand n m0 (s\<lparr>prod_pc := p\<rparr>) = meter_in_hand n m0 s"
  "meter_in_hand n m0 (p_spawn s) = meter_in_hand n m0 s"
  by (simp_all add: meter_in_hand_def p_spawn_def split: option.splits)

lemma meter_put_done:
  assumes "meter_in_hand n m0 s" and "length (buf (queue s)) \<le> n"
  shows "meter_ok n m0 (p_put_done s)"
  using assms by (auto simp: meter_in_hand_def meter_ok_def p_put_done_def split: option.splits)

lemma meter_put:
  assumes "meter_in_hand n m0 s" and "length (buf (queue (p_put x s))) \<le> n"
  shows "meter_ok n m0 (p_put x s)"
proof -
  obtain b q where q: "q_put (QItem x) (queue s) = (b, q)" by (metis surj_pair)
  show ?thesis
  proof (cases b)
    case True
    then have "p_put x s = p_put_done (s\<lparr>queue := q\<rparr>)" using q by (simp add: p_put_def)
    then show ?thesis using meter_put_done [of n m0 "s\<lparr>queue := q\<rparr>"] assms
      by (simp add: p_put_done_def)
  next
    case False
    then show ?thesis using q assms(1)
      by (auto simp: p_put_def meter_in_hand_def meter_ok_def split: option.splits)
  qed
qed

lemma meter_fail_in_hand: "meter_in_hand n m0 s \<Longrightarrow> meter_ok n m0 (p_fail e s)"
  by (auto simp: meter_in_hand_def meter_ok_def p_fail_eq p_end_def split: option.splits)

lemma meter_item:
  assumes "meter_in_hand n m0 s" and "length (buf (queue (p_item x s))) \<le> n"
  shows "meter_ok n m0 (p_item x s)"
  using assms meter_put [of n m0 _ x] meter_fail_in_hand
  by (auto simp: p_item_def raise_if_cancellation_absorbed_def split: if_splits)

lemma meter_source:
  assumes "meter_ok n m0 s" and "prod_pc s = PPull" and "length (buf (queue (p_source r s))) \<le> n"
  shows "meter_ok n m0 (p_source r s)"
proof (cases r)
  case (SrcItem x)
  have "meter_in_hand n m0 (s\<lparr>pulled := pulled s @ [x]\<rparr>)"
    using assms(1,2) by (auto simp: meter_ok_def meter_in_hand_def split: option.splits)
  then show ?thesis using meter_item assms(3) SrcItem by (simp add: p_source_def)
next
  case SrcEnd
  then show ?thesis
    using meter_send [OF assms(1), of "started s"] meter_fail [OF assms(1)] assms(2)
    by (simp add: p_source_def raise_if_cancellation_absorbed_def)
next
  case (SrcRaise e)
  then show ?thesis using assms meter_fail by (simp add: p_source_def)
qed

lemma meter_wake:
  assumes m: "meter_ok n m0 s" and w: "waiting (prod_pc s)"
    and len: "length (buf (queue (p_wake dt s))) \<le> n"
  shows "meter_ok n m0 (p_wake dt s)"
proof (cases "prod_pc s")
  case (PSend j)
  have "meter_ok n m0 (s\<lparr>queue := q\<rparr>)" for q using m by (simp add: meter_ok_def split: option.splits)
  then have "meter_ok n m0 (p_send j (s\<lparr>queue := q\<rparr>))" for q
    by (rule meter_send) (use PSend in simp)
  moreover have "meter_ok n m0 (p_end EndCancelled (s\<lparr>queue := q\<rparr>))" for q
    using m PSend by (simp add: meter_ok_def p_end_def split: option.splits)
  ultimately show ?thesis using PSend by (simp add: p_wake_def Let_def)
next
  case (PPut x)
  have h: "meter_in_hand n m0 (s\<lparr>queue := q\<rparr>)" for q
    using m PPut by (auto simp: meter_ok_def meter_in_hand_def split: option.splits)
  obtain b q where q: "q_put (QItem x) (q_clear_putter (queue s)) = (b, q)" by (metis surj_pair)
  let ?m = "map_option (\<lambda>m. m\<lparr>producer_pause_seconds := producer_pause_seconds m + dt\<rparr>) (meter s)"
  have "meter_in_hand n m0 (s\<lparr>queue := q, meter := ?m\<rparr>)"
    using h [of q] by (simp add: meter_in_hand_def split: option.splits)
  note D = meter_put_done [OF this]
  show ?thesis
  proof (cases "prod_creq s")
    case True
    then show ?thesis using meter_fail_in_hand [OF h] PPut by (simp add: p_wake_def Let_def)
  next
    case False
    show ?thesis
    proof (cases b)
      case True
      then show ?thesis using D len q PPut False
        by (simp add: p_wake_def Let_def) (simp add: p_put_done_def)
    next
      case nb: False
      then show ?thesis using m q PPut False
        by (simp add: p_wake_def Let_def meter_ok_def split: option.splits)
    qed
  qed
qed (use w in simp_all)

lemma meter_step:
  assumes inv: "stream_inv k n s" and inv': "stream_inv k n t" and st: "s_step ver handler s e = Some t"
    and m: "meter_ok n m0 s"
  shows "meter_ok n m0 t"
proof -
  note en = s_stepD(1) [OF st] and t = s_stepD(2) [OF st]
  have len: "length (buf (queue t)) \<le> n"
    using aq.bound [OF wait_invD(1) [OF stream_invD(2) [OF inv']]] wait_invD(2) [OF stream_invD(2) [OF inv']]
    by simp
  show ?thesis
  proof (cases e)
    case SPStart
    then show ?thesis using m t en
      by (simp add: p_start_def p_end_def meter_ok_def split: option.splits)
  next
    case (SPWake dt)
    then have "waiting (prod_pc s)" using en by (cases "prod_pc s") auto
    then show ?thesis using meter_wake [OF m] len t SPWake by simp
  next
    case (SSource r)
    then show ?thesis using meter_source [OF m] len t en by simp
  next
    case (SCFn i f)
    show ?thesis
    proof (cases "handler (cfn_index (cons s ! i)) (s_stopping s) (cons_creq s ! i) f")
      case (Store r)
      have "meter_ok n m0 (c_stored r i s)"
        using m by (auto simp: meter_ok_def c_stored_def split: option.splits)
      then show ?thesis using t SCFn Store tally_meter [of t "c_stored r i s"] by (simp add: c_fn_store)
    next
      case (Propagate x)
      have "meter_ok n m0 (s\<lparr>s_failed := True, queue := q_task_done (queue s)\<rparr>)"
        using m by (auto simp: meter_ok_def split: option.splits)
      then show ?thesis
        using t SCFn Propagate tally_meter [of t "s\<lparr>s_failed := True, queue := q_task_done (queue s)\<rparr>"]
        by (simp add: c_fn_def)
    qed
  qed (use m t tally_meter [of t s] in simp_all)
qed

context stream_machine
begin

lemma meter_trace:
  assumes "go (Some m0) t0 es = Some s"
  shows "meter_ok n m0 s"
proof (rule go_trace [OF assms, where P = "\<lambda>_. meter_ok n m0"])
  show "meter_ok n m0 (stream_init ver k n (Some m0) t0 :: ('i, 'r) stream)"
    by (simp add: meter_ok_def stream_init_def Let_def split: prod.splits)
  show "meter_ok n m0 t"
    if "stream_inv k n s" "meter_ok n m0 s" "s_step ver handler s e = Some t"
    for s t :: "('i, 'r) stream" and e :: "('i, 'v) sevent"
    using meter_step [OF that(1) machine.inv_step [OF that(1,3)] that(3,2)] .
qed

end

end
