(* ===== verification/Stream_Props.thy ===== *)
theory Stream_Props
  imports Stream_Metrics "HOL-Library.Sublist"
begin

text \<open>
  The properties of \<open>stream\<close>, for every schedule of its events, and runs that show they can
  hold: what was pulled, called and returned, the bounds, fail-fast, what it raises, that it
  ends, the caller's cancel count and the metrics.
\<close>

section \<open>What was pulled, and the consumers started\<close>

definition feed :: "('i, 'r) stream \<Rightarrow> 'i list \<times> nat" where
  "feed s = (pulled s, started s)"

lemma feed_update [simp]:
  "feed (s\<lparr>queue := a\<rparr>) = feed s" "feed (s\<lparr>meter := b\<rparr>) = feed s"
  "feed (s\<lparr>s_failed := c\<rparr>) = feed s" "feed (s\<lparr>results := d\<rparr>) = feed s"
  "feed (s\<lparr>finished := e\<rparr>) = feed s" "feed (s\<lparr>s_calls := f\<rparr>) = feed s"
  "feed (s\<lparr>consumed_index := h\<rparr>) = feed s" "feed (s\<lparr>prod_pc := p\<rparr>) = feed s"
  "feed (s\<lparr>cons := cs\<rparr>) = feed s" "feed (s\<lparr>cons_creq := r\<rparr>) = feed s"
  "feed (s\<lparr>s_caller := t\<rparr>) = feed s" "feed (s\<lparr>s_rearm := z\<rparr>) = feed s"
  "feed (s\<lparr>s_final := y\<rparr>) = feed s" "feed (s\<lparr>s_group := g\<rparr>) = feed s"
  "feed (s\<lparr>prod_creq := x\<rparr>) = feed s"
  by (simp_all add: feed_def)

lemma feed_consumer [simp]: "feed (c_end i x s) = feed s" "feed (c_item i it s) = feed s"
  by (simp_all add: c_end_def c_item_def split: qitem.splits)

lemma feed_got [simp]: "feed (c_got i r s) = feed s"
  by (simp add: c_got_def split: prod.splits option.splits)

lemma feed_loop [simp]:
  "feed (c_head i s) = feed s" "feed (c_start i s) = feed s" "feed (c_wake i s) = feed s"
  by (simp_all add: c_start_def c_wake_def c_head_def split: sum.splits)

lemma feed_fn [simp]: "feed (c_fn c i s) = feed s"
  by (simp add: c_fn_def split: completion.splits)

lemma feed_put [simp]:
  "feed (p_end x s) = feed s" "feed (p_put_done s) = feed s" "feed (p_fail e s) = feed s"
  "feed (p_put y s) = feed s"
  by (simp_all add: p_fail_eq p_end_def p_put_def p_put_done_def split: prod.splits bool.splits)

lemma feed_send [simp]: "feed (p_send n s) = feed s"
  by (induction n arbitrary: s) (simp_all split: prod.splits bool.splits)

lemma feed_wake [simp]: "feed (p_start s) = feed s" "feed (p_wake dt s) = feed s"
  by (simp_all add: p_start_def p_wake_def Let_def split: ppc.splits prod.splits bool.splits)

lemma feed_group [simp]: "feed (s_grp r s) = feed s"
  by (simp add: s_grp_def Let_def s_abort_def split: prod.splits)

lemma feed_done [simp]:
  "feed (p_done s) = feed s" "feed (c_done i s) = feed s" "feed (s_parent ver s) = feed s"
  by (simp_all add: p_done_def c_done_def s_parent_def Let_def split: ppc.splits cpc.splits prod.splits)

lemma feed_item:
  "pulled (p_item y s) = pulled s" "s_stopping s \<Longrightarrow> started (p_item y s) = started s"
proof -
  have "pulled (p_spawn s) = pulled s" by (simp add: p_spawn_def)
  moreover have "pulled (p_put y u) = pulled u" "pulled (p_fail e u) = pulled u"
    "started (p_fail e u) = started u" for e y and u :: "('a, 'b) stream"
    using feed_put(3) [of e u] feed_put(4) [of y u] by (simp_all add: feed_def)
  ultimately show "pulled (p_item y s) = pulled s" "s_stopping s \<Longrightarrow> started (p_item y s) = started s"
    by (simp_all add: p_item_def raise_if_cancellation_absorbed_def)
qed

text \<open>The items the source yielded in a run.\<close>

fun yielded :: "('i, 'v) sevent list \<Rightarrow> 'i list" where
  "yielded [] = []"
| "yielded (e # es) = (case e of SSource (SrcItem x) \<Rightarrow> [x] | _ \<Rightarrow> []) @ yielded es"

lemma yielded_append: "yielded (es @ fs) = yielded es @ yielded fs"
  by (induction es) simp_all

lemma feed_same:
  assumes "s_step ver handler s e = Some t" and "\<not> (\<exists>x. e = SSource (SrcItem x))"
  shows "feed t = feed s"
proof (cases e)
  case (SSource r)
  then show ?thesis
    using s_stepD(2) [OF assms(1)] assms(2) by (cases r) (simp_all add: p_source_def split: sum.splits)
qed (use s_stepD(2) [OF assms(1)] in simp_all)

lemma feed_step:
  assumes st: "s_step ver handler s e = Some t"
  shows "pulled t = pulled s @ yielded [e]"
    and "s_stopping s \<Longrightarrow> started t = started s"
proof -
  have "pulled t = pulled s @ yielded [e] \<and> (s_stopping s \<longrightarrow> started t = started s)"
  proof (cases "\<exists>x. e = SSource (SrcItem x)")
    case True
    then obtain x where e: "e = SSource (SrcItem x)" by blast
    have "s_stopping (s\<lparr>pulled := p\<rparr>) = s_stopping s" for p by (simp add: s_stopping_def)
    then show ?thesis
      using s_stepD(2) [OF st] e feed_item [where y = x and s = "s\<lparr>pulled := pulled s @ [x]\<rparr>"]
      by (simp add: p_source_def)
  next
    case False
    then have "yielded [e] = []" by (cases e) (auto split: src.splits)
    then show ?thesis using feed_same [OF st False] by (simp add: feed_def)
  qed
  then show "pulled t = pulled s @ yielded [e]" "s_stopping s \<Longrightarrow> started t = started s" by blast+
qed

lemma pulled_run:
  "run (s_step ver handler) s es = Some t \<Longrightarrow> pulled t = pulled s @ yielded es"
proof (induction es arbitrary: s)
  case (Cons e es)
  then obtain u where u: "s_step ver handler s e = Some u" "run (s_step ver handler) u es = Some t"
    by (auto split: option.splits)
  show ?case using Cons.IH [OF u(2)] feed_step(1) [OF u(1)] by simp
qed simp

lemma stopped_feed:
  assumes inv: "stream_inv k n s" and st: "s_step ver handler s e = Some t" and ab: "s_stopped s"
  shows "started t = started s"
proof (cases "e = SRearm")
  case True
  then show ?thesis using feed_same [OF st] by (simp add: feed_def)
next
  case False
  then have "s_stopping s"
    using s_running [OF inv st] inv_aborting [OF stream_invD(1) [OF inv]] ab
    by (auto simp: s_stopped_def s_stopping_def)
  then show ?thesis using feed_step(2) [OF st] by blast
qed

text \<open>A step that fails, or comes after a failure, makes no call.\<close>

lemma failing_calls:
  assumes inv: "stream_inv k n s" and st: "s_step ver handler s e = Some t" and f: "s_failed t"
  shows "s_calls t = s_calls s"
proof (cases "s_failed s")
  case True
  then show ?thesis using s_stopped_step [OF inv st] by (simp add: s_stopped_def)
next
  case False
  note t = s_stepD(2) [OF st]
  show ?thesis
  proof (cases e)
    case (SCFn i x)
    show ?thesis
    proof (cases "handler (cfn_index (cons s ! i)) (s_stopping s) (cons_creq s ! i) x")
      case (Store r)
      have "s_failed t = s_failed (c_stored r i s)" using t SCFn Store by (simp add: c_fn_store)
      then show ?thesis using f False by (simp add: c_stored_def)
    next
      case (Propagate y)
      then show ?thesis using t SCFn by (simp add: c_fn_def c_end_def)
    qed
  qed (use t f False in simp_all)
qed

context stream_machine
begin

lemma no_start_after_stop:
  assumes "go m t0 es = Some s" and "s_stopped s" and "run (s_step ver handler) s fs = Some t"
  shows "started t = started s" and "length (cons t) = length (cons s)"
proof -
  have "s_stopped t \<and> started t = started s"
    using go_inv [OF assms(1)] assms(3)
  proof (rule machine.run_trace [where P = "\<lambda>_ t. s_stopped t \<and> started t = started s"])
    show "s_stopped s \<and> started s = started s" using assms(2) by simp
    show "s_stopped t \<and> started t = started s"
      if "stream_inv k n u" "s_stopped u \<and> started u = started s" "s_step ver handler u e = Some t"
      for es u e t using s_stopped_step [OF that(1,3)] stopped_feed [OF that(1,3)] that(2) by simp
  qed
  then show s: "started t = started s" by simp
  have "stream_inv k n t" using machine.inv_run [OF go_inv [OF assms(1)] assms(3)] .
  then show "length (cons t) = length (cons s)"
    using s data_invD(2) [OF stream_invD(3)] go_inv [OF assms(1)] by metis
qed

lemma go_pulled: "go m t0 es = Some s \<Longrightarrow> pulled s = yielded es"
  using pulled_run [of ver handler "stream_init ver k n m t0" es s]
  by (simp add: stream_init_def Let_def split: prod.splits)

text \<open>The call under index \<open>i\<close> is always of the \<open>i\<close>-th item the source yielded.\<close>

lemma calls_prefix:
  assumes "go m t0 es = Some s"
  shows "prefix (map snd (s_calls s)) (pulled s)"
proof (rule go_trace [OF assms, where P = "\<lambda>_ s. prefix (map snd (s_calls s)) (pulled s)"])
  show "prefix (map snd (s_calls (stream_init ver k n m t0 :: ('i, 'r) stream))) (pulled (stream_init ver k n m t0 :: ('i, 'r) stream))"
    by (simp add: stream_init_def Let_def split: prod.splits)
  show "prefix (map snd (s_calls t)) (pulled t)"
    if inv: "stream_inv k n s" and p: "prefix (map snd (s_calls s)) (pulled s)" and st: "s_step ver handler s e = Some t"
    for s t :: "('i, 'r) stream" and e :: "('i, 'v) sevent"
  proof (cases "s_failed t")
    case True
    then show ?thesis using failing_calls [OF inv st] feed_step(1) [OF st] p by (simp add: prefix_prefix)
  next
    case False
    note D = stream_invD(3) [OF machine.inv_step [OF inv st]]
    from data_invD(7) [OF D False] show ?thesis by (rule fifoE) simp
  qed
qed

lemma call_item:
  assumes g: "go m t0 es = Some s" and i: "i < length (cons s)" "cons s ! i = CFn idx it"
  shows "idx < length (yielded es)" and "it = yielded es ! idx"
proof -
  note C = calls_okD [OF data_invD(6) [OF stream_invD(3) [OF go_inv [OF g]]]]
  have "CFn idx it \<in> set (cons s)" using i nth_mem by metis
  then have "(idx, it) \<in> set (s_calls s)" using C(3) by blast
  then obtain j where j: "j < length (s_calls s)" "s_calls s ! j = (idx, it)" unfolding in_set_conv_nth by blast
  have "map fst (s_calls s) ! j = idx" using j by simp
  then have "s_calls s ! idx = (idx, it)" "idx < length (s_calls s)" using C(1) j by simp_all
  moreover obtain zs where "yielded es = map snd (s_calls s) @ zs"
    using calls_prefix [OF g] go_pulled [OF g] by (auto simp: prefix_def)
  ultimately show "idx < length (yielded es)" "it = yielded es ! idx" by (simp_all add: nth_append)
qed

end

section \<open>The model's own machine\<close>

interpretation stream_runs: stream_machine "stream_handler re timeout" ver "Suc k" "Suc n"
  for re timeout ver k n
  by unfold_locales (auto simp: stream_handler_def dest: process_handler_Propagate(1))

text \<open>The entry guards, read as one condition.\<close>

lemma stream_entry_Inr:
  "stream_entry concurrency queue_size timeout = Inr (k, n, t) \<longleftrightarrow>
     concurrency = PInt (int k) \<and> 0 < k \<and> queue_size = PInt (int n) \<and> 0 < n \<and>
     require_timeout_seconds timeout = Inr t"
  by (auto simp: stream_entry_def require_positive_int_Inr require_positive_int_PInt split: sum.splits)

lemma stream_entry_pos:
  assumes "stream_entry concurrency queue_size timeout = Inr (k, n, t)"
  obtains k' n' where "k = Suc k'" and "n = Suc n'"
  using assms by (cases k; cases n) (simp_all add: stream_entry_Inr)

lemma stream_go:
  "stream_run ver (Suc k) (Suc n) timeout re m t0 es =
     run (s_step ver (stream_handler re timeout)) (stream_init ver (Suc k) (Suc n) m t0) es"
  by (simp add: stream_run_def)

lemma stream_cases:
  assumes "stream_entry concurrency queue_size timeout = Inr (k, n, t)"
    and "stream ver concurrency queue_size re m timeout t0 es = Some res"
  obtains s where "stream_run ver k n t re m t0 es = Some s" and "s_final s \<noteq> None"
    and "\<And>rs. res = Inr rs \<Longrightarrow> s_final s = Some None \<and> rs = results s"
    and "\<And>e. res = Inl e \<Longrightarrow> s_final s = Some (Some e)"
  using assms by (auto simp: stream_def split: option.splits)

text \<open>A call that was let in raises a group, a \<open>CancelledError\<close> or a task's \<open>KeyboardInterrupt\<close> or \<open>SystemExit\<close>.\<close>

lemma stream_no_bare_error:
  assumes entry: "stream_entry concurrency queue_size timeout = Inr (k, n, t)"
    and ret: "stream ver concurrency queue_size re m timeout t0 es = Some (Inl e)"
  shows "e \<noteq> ValueError what"
proof -
  obtain k' n' where kn: "k = Suc k'" "n = Suc n'" using stream_entry_pos [OF entry] .
  obtain s where s: "stream_run ver k n t re m t0 es = Some s" "s_final s = Some (Some e)"
    using stream_cases [OF entry ret] by metis
  from stream_runs.raised [OF s(1) [unfolded kn stream_go] s(2)] show ?thesis by auto
qed

section \<open>Properties\<close>

text \<open>
  C9. \<open>stream\<close> loses, repeats and reorders nothing. When a call returns its results, every item
  the source yielded has been given to \<open>fn\<close> exactly once, in source order, under the indices
  0, 1, 2, ...; there is one result for each, and the queue is empty with no \<open>task_done\<close>
  outstanding.
\<close>

theorem stream_source_order:
  assumes entry: "stream_entry concurrency queue_size timeout = Inr (k, n, t)"
    and ret: "stream ver concurrency queue_size re m timeout t0 es = Some (Inr rs)"
  shows "\<exists>s. stream_run ver k n t re m t0 es = Some s \<and> rs = results s \<and>
    map snd (s_calls s) = yielded es \<and> map fst (s_calls s) = [0..<length (yielded es)] \<and>
    length rs = length (yielded es) \<and> buf (queue s) = [] \<and> unfinished (queue s) = 0"
proof -
  obtain k' n' where kn: "k = Suc k'" "n = Suc n'" using stream_entry_pos [OF entry] .
  obtain s where s: "stream_run ver k n t re m t0 es = Some s" "s_final s = Some None" "rs = results s"
    using stream_cases [OF entry ret] by metis
  note g = s(1) [unfolded kn stream_go]
  note R = stream_runs.returned [OF g s(2)] and P = stream_runs.go_pulled [OF g]
  note D = calls_okD(1) [OF data_invD(6) [OF stream_invD(3) [OF stream_runs.go_inv [OF g]]]]
  have "length (s_calls s) = length (yielded es)" using R(1) P by (metis length_map)
  then show ?thesis using s R D P by auto
qed

text \<open>
  The results of \<open>stream\<close> are, in order of completion, what the awaits of \<open>fn\<close> gave: its
  value, or, under \<open>return_exceptions\<close> only, the exception the library reports for it. Each
  item's call appears among these awaits exactly once.
\<close>

theorem stream_results_by_completion:
  assumes entry: "stream_entry concurrency queue_size timeout = Inr (k, n, t)"
    and ret: "stream ver concurrency queue_size re m timeout t0 es = Some (Inr rs)"
  shows "\<exists>log. mset (map fst log) = mset [0..<length (yielded es)] \<and>
    (\<forall>(idx, f) \<in> set log. \<exists>i. SCFn i f \<in> set es) \<and>
    (\<forall>(idx, f) \<in> set log. \<forall>e. fn_outcome f = Raised e \<longrightarrow>
       re \<and> is_Exception (item_error t None idx (fn_fired f) e)) \<and>
    rs = map (\<lambda>(idx, f). case fn_outcome f of
                Returned v \<Rightarrow> Val v
              | Raised e \<Rightarrow> Exn (item_error t None idx (fn_fired f) e)) log"
proof -
  obtain k' n' where kn: "k = Suc k'" "n = Suc n'" using stream_entry_pos [OF entry] .
  obtain s where s: "stream_run ver k n t re m t0 es = Some s" "s_final s = Some None" "rs = results s"
    using stream_cases [OF entry ret] by metis
  note g = s(1) [unfolded kn stream_go]
  define log where "log = fn_log (s_step ver (stream_handler re t))
    (stream_init ver (Suc k') (Suc n') m t0 :: (_, _ slot) stream) es"
  note L = stream_runs.returned_log [OF g s(2), folded log_def]
  note R = stream_runs.returned [OF g s(2)] and P = stream_runs.go_pulled [OF g]
  have h: "stream_handler re t idx False False f = Store (rs ! j)"
    if "j < length log" "log ! j = (idx, f)" for j idx f
  proof -
    have "map (\<lambda>(idx, f). stream_handler re t idx False False f) log ! j = map Store rs ! j"
      using L(2) s(3) by simp
    moreover have "length log = length rs" using L(2) s(3) by (metis length_map)
    ultimately show ?thesis using that by simp
  qed
  have len: "length log = length rs" using L(2) s(3) by (metis length_map)
  have raised: "re \<and> is_Exception (item_error t None idx (fn_fired f) e)"
    if l: "(idx, f) \<in> set log" and r: "fn_outcome f = Raised e" for idx f e
  proof -
    obtain j where "j < length log" "log ! j = (idx, f)" using l unfolding in_set_conv_nth by blast
    from h [OF this] have "process_handler re t idx False False f = Store (rs ! j)"
      by (simp only: stream_handler_def)
    then show ?thesis unfolding handler_quiet r by (cases "re \<and> is_Exception (item_error t None idx (fn_fired f) e)") simp_all
  qed
  have "rs = map (\<lambda>(idx, f). case fn_outcome f of
                Returned v \<Rightarrow> Val v
              | Raised e \<Rightarrow> Exn (item_error t None idx (fn_fired f) e)) log"
  proof (rule nth_equalityI)
    fix j assume j: "j < length rs"
    obtain idx f where x: "log ! j = (idx, f)" by (metis surj_pair)
    have "stream_handler re t idx False False f = Store (rs ! j)" using h [OF _ x] j len by simp
    then have "rs ! j = (case fn_outcome f of
                Returned v \<Rightarrow> Val v
              | Raised e \<Rightarrow> Exn (item_error t None idx (fn_fired f) e))"
      by (cases "fn_outcome f") (simp_all add: stream_handler_def handler_quiet split: if_splits)
    then show "rs ! j = map (\<lambda>(idx, f). case fn_outcome f of
                Returned v \<Rightarrow> Val v
              | Raised e \<Rightarrow> Exn (item_error t None idx (fn_fired f) e)) log ! j"
      using j len x by simp
  qed (simp add: len)
  moreover have "\<forall>(idx, f) \<in> set log. \<exists>i. SCFn i f \<in> set es"
    unfolding log_def using fn_log_events by fast
  moreover have "mset (map fst log) = mset [0..<length (yielded es)]" using L(1) R(2) P by simp
  ultimately show ?thesis using raised by blast
qed

text \<open>
  C11. The bounds of \<open>stream\<close>, at any moment of any schedule: at most \<open>queue_size\<close> entries in the
  queue, at most \<open>concurrency\<close> consumers and calls in flight, \<open>task_done\<close> outstanding for
  exactly the entries in the queue and the calls in flight; and until something fails, the
  source is read at most \<open>queue_size + concurrency + 1\<close> items ahead of the results.
\<close>

theorem stream_bounds:
  assumes entry: "stream_entry concurrency queue_size timeout = Inr (k, n, t)"
    and s: "stream_run ver k n t re m t0 es = Some s"
  shows "length (buf (queue s)) \<le> n \<and> length (cons s) \<le> k \<and> cnt is_fn (cons s) \<le> k \<and>
    unfinished (queue s) = length (buf (queue s)) + cnt is_fn (cons s) \<and>
    (\<not> s_failed s \<longrightarrow> length (yielded es) \<le> length (results s) + k + n + 1)"
proof -
  obtain k' n' where kn: "k = Suc k'" "n = Suc n'" using stream_entry_pos [OF entry] .
  note g = s [unfolded kn stream_go]
  show ?thesis
    using stream_runs.bounds [OF g] stream_runs.go_pulled [OF g] unfolding kn by auto
qed

text \<open>
  C12. Fail-fast: with \<open>return_exceptions=False\<close>, once a call of \<open>fn\<close> has raised, no further
  call is made and no further consumer task is created, whatever the schedule; \<open>create_task\<close>
  is never reached on a group that is shutting down.
\<close>

theorem stream_fail_fast:
  assumes entry: "stream_entry concurrency queue_size timeout = Inr (k, n, t)"
    and raised: "fn_outcome f = Raised e"
    and s: "stream_run ver k n t False m t0 (es @ [SCFn i f]) = Some s"
    and u: "stream_run ver k n t False m t0 (es @ [SCFn i f] @ fs) = Some u"
  shows "s_calls u = s_calls s \<and> length (cons u) = length (cons s)"
proof -
  obtain k' n' where kn: "k = Suc k'" "n = Suc n'" using stream_entry_pos [OF entry] .
  note g = s [unfolded kn stream_go]
  obtain r where r: "s_step ver (stream_handler False t) r (SCFn i f) = Some s"
    using g by (auto simp: run_snoc split: option.splits)
  obtain x where "process_handler False t (cfn_index (cons r ! i)) (s_stopping r) (cons_creq r ! i) f = Propagate x"
    using handler_raises [OF raised] by metis
  then have stop: "s_stopped s"
    using s_stepD(2) [OF r] by (simp add: s_stopped_def c_fn_def stream_handler_def)
  have "run (s_step ver (stream_handler False t)) s fs = Some u"
    using u g unfolding kn stream_go by (simp add: run_append split: option.splits)
  from stream_runs.no_call_after_stop [OF g stop this] stream_runs.no_start_after_stop(2) [OF g stop this]
  show ?thesis by blast
qed

text \<open>
  The errors of the source, and those reported for an await of \<open>fn\<close>: that of the item the source
  yielded at position \<open>idx\<close>, which the consumer had in hand when the await ended, reported under
  this index; \<open>fn\<close>'s exception itself is passed on where the stream was already stopping.
\<close>

definition source_error :: "('i, 'r) sevent list \<Rightarrow> exc \<Rightarrow> bool" where
  "source_error es x \<longleftrightarrow>
     (\<exists>y. SSource (SrcRaise y) \<in> set es \<and>
        (x = y \<or> y = CancelledError \<and> x = PipelineError (StrayOrigin ''the producer'') (Some y)))"

definition call_error :: "pyver \<Rightarrow> nat \<Rightarrow> nat \<Rightarrow> pyfloat option \<Rightarrow> bool \<Rightarrow> stream_metrics option \<Rightarrow>
    task \<Rightarrow> ('i, 'r) sevent list \<Rightarrow> exc \<Rightarrow> bool" where
  "call_error ver k n t re m t0 es x \<longleftrightarrow>
     (\<exists>pre post i f y idx s. es = pre @ SCFn i f # post \<and> fn_outcome f = Raised y \<and>
        stream_run ver k n t re m t0 pre = Some s \<and> i < length (cons s) \<and>
        idx < length (yielded pre) \<and> cons s ! i = CFn idx (yielded pre ! idx) \<and>
        (x = item_error t None idx (fn_fired f) y \<or> s_stopping s \<and> x = y))"

lemmas stream_blamed_def = stream_machine.blamed_def [OF stream_runs.stream_machine_axioms]

lemma stream_blamed:
  assumes "stream_machine.blamed (stream_handler re t) ver (Suc k) (Suc n) m t0 es x"
  shows "x \<noteq> CancelledError" and "source_error es x \<or> call_error ver (Suc k) (Suc n) t re m t0 es x"
proof -
  show "x \<noteq> CancelledError" using assms unfolding stream_blamed_def by blast
  from assms [unfolded stream_blamed_def, THEN conjunct2]
  show "source_error es x \<or> call_error ver (Suc k) (Suc n) t re m t0 es x"
  proof (elim disjE exE conjE)
    fix pre post i f u idx it
    assume es: "es = pre @ SCFn i f # post" and i: "i < length (cons u)" and c: "cons u ! i = CFn idx it"
      and g: "run (s_step ver (stream_handler re t)) (stream_init ver (Suc k) (Suc n) m t0) pre = Some u"
      and cr: "cons_creq u ! i \<longrightarrow> s_stopping u"
      and h: "stream_handler re t idx (s_stopping u) (cons_creq u ! i) f = Propagate x"
    note h' = h [unfolded stream_handler_def]
    obtain y where y: "fn_outcome f = Raised y" "x = y \<or> x = item_error t None idx (fn_fired f) y"
      using handler_blames [OF h'] by blast
    have "x = item_error t None idx (fn_fired f) y \<or> s_stopping u \<and> x = y"
      using y h' cr by (cases "s_stopping u") (auto simp: handler_quiet split: if_splits)
    then show ?thesis
      unfolding call_error_def stream_go
      using es y(1) g i c stream_runs.call_item [OF g i c] by blast
  qed (auto simp: source_error_def stray_cancellation_as_error_def split: if_splits)
qed


text \<open>
  C14. \<open>return_exceptions=True\<close> never lets an exception of \<open>fn\<close> out: when the source does not
  raise, \<open>fn\<close> raises only \<open>Exception\<close>s or stray cancellations, and nobody cancels the caller,
  a call that ends returns a list with one entry per item.
\<close>

theorem stream_collects_exceptions:
  assumes entry: "stream_entry concurrency queue_size timeout = Inr (k, n, t)"
    and quiet: "\<not> live_cancel t0 (signals es)"
    and src: "\<forall>y. SSource (SrcRaise y) \<notin> set es"
    and mild: "\<forall>i f e. SCFn i f \<in> set es \<longrightarrow> fn_outcome f = Raised e \<longrightarrow>
                 is_Exception e \<or> e = CancelledError"
    and ret: "stream ver concurrency queue_size True m timeout t0 es = Some res"
  shows "\<exists>rs. res = Inr rs \<and> length rs = length (yielded es)"
proof (cases res)
  case (Inr rs)
  then show ?thesis using stream_source_order [OF entry] ret by blast
next
  case (Inl e)
  obtain k' n' where kn: "k = Suc k'" "n = Suc n'" using stream_entry_pos [OF entry] .
  obtain s where s: "stream_run ver k n t True m t0 es = Some s" "s_final s = Some (Some e)"
    using stream_cases [OF entry ret] Inl by metis
  have none: "\<not> stream_machine.blamed (stream_handler True t) ver (Suc k') (Suc n') m t0 es x" for x
  proof
    assume "stream_machine.blamed (stream_handler True t) ver (Suc k') (Suc n') m t0 es x"
    note B = this [unfolded stream_blamed_def]
    then have x: "x \<noteq> CancelledError" by blast
    obtain pre post i f idx st c where "es = pre @ SCFn i f # post"
      and h: "stream_handler True t idx st c f = Propagate x" using B src by blast
    then have f: "SCFn i f \<in> set es" "stream_handler True t idx st c f = Propagate x" by simp_all
    note P = process_handler_Propagate [OF f(2) [unfolded stream_handler_def]]
    obtain y where y: "fn_outcome f = Raised y" "x = y" using P(3) by blast
    then show False using mild f(1) x P(2) by blast
  qed
  show ?thesis
    using stream_runs.raised [OF s(1) [unfolded kn stream_go] s(2)] none quiet
    by (metis last_in_set)
qed

text \<open>
  C15. The caller's cancel count. Once a call has been left (without a \<open>KeyboardInterrupt\<close> or
  \<open>SystemExit\<close> of a task), the caller's task carries exactly the cancels it came with and
  those that came from outside meanwhile, and a cancel is pending exactly when the call ended
  in an exception group while one of these was still to be delivered.
\<close>

theorem stream_restores_cancel_count:
  assumes entry: "stream_entry concurrency queue_size timeout = Inr (k, n, t)"
    and s: "stream_run ver k n t re m t0 es = Some s"
    and over: "s_final s = Some r" "\<not> s_rearm s"
    and nb: "base_error (s_group s) = None"
    and wf: "must_cancel t0 \<longrightarrow> 0 < num_cancels t0"
  shows "num_cancels (s_caller s) = num_cancels t0 + cancels (signals es) \<and>
    must_cancel (s_caller s) = ((\<exists>xs. r = Some (ExcGroup xs)) \<and>
      (if Py313 \<le> ver then 0 < num_cancels t0 + cancels (signals es)
       else live_cancel t0 (signals es)))"
proof -
  obtain k' n' where kn: "k = Suc k'" "n = Suc n'" using stream_entry_pos [OF entry] .
  note g = s [unfolded kn stream_go]
  note T = stream_invD(1) [OF stream_runs.go_inv [OF g], unfolded task_inv_def]
  have "(\<exists>xs. r = Some (ExcGroup xs)) = (errors (s_group s) \<noteq> [])"
    using tasks_invD(8) [OF T] over nb by (auto simp: inv_final_def split: option.splits)
  then show ?thesis
    using stream_runs.known_trace [OF g] over nb wf by (auto simp: s_known_def known_def)
qed

text \<open>
  C10. \<open>stream\<close> never hangs of itself: in any schedule the steps of its own machinery are at
  most 10 and 18 for each item pulled and each cancel from outside, and from any state it can
  reach, letting the pending awaits end brings it to its result. In particular the sentinels
  reach every consumer and no put or get waits for a wake-up that was lost.
\<close>

theorem stream_never_hangs:
  assumes entry: "stream_entry concurrency queue_size timeout = Inr (k, n, t)"
    and s: "stream_run ver k n t re m t0 es = Some s"
  shows "cnt (\<lambda>e. \<not> s_external e) es \<le> 10 + 18 * cnt s_external es \<and>
    (\<exists>fs u. stream_run ver k n t re m t0 (es @ fs) = Some u \<and> s_final u \<noteq> None \<and> \<not> s_rearm u \<and>
       (\<forall>e \<in> set fs. \<not> s_external e))"
proof -
  obtain k' n' where kn: "k = Suc k'" "n = Suc n'" using stream_entry_pos [OF entry] .
  note g = s [unfolded kn stream_go]
  show ?thesis
    unfolding kn stream_go using stream_runs.steps_bounded [OF g] stream_runs.can_complete [OF g] by simp
qed

text \<open>
  C16. \<open>StreamMetrics\<close> counts what it says. With an instance passed in, at any moment
  \<open>consumed\<close> has grown by the number of results, \<open>max_queue_depth\<close> is at most the queue size
  (or what it was), and after a normal return \<open>produced\<close> and \<open>consumed\<close> have both grown by the
  number of items the source yielded.
\<close>

theorem stream_metrics_count:
  assumes entry: "stream_entry concurrency queue_size timeout = Inr (k, n, t)"
    and s: "stream_run ver k n t re (Some m0) t0 es = Some s"
  shows "\<exists>m. meter s = Some m \<and> consumed m = consumed m0 + length (results s) \<and>
    max_queue_depth m \<le> max (max_queue_depth m0) n \<and>
    produced m \<le> produced m0 + length (yielded es) \<and>
    (s_final s = Some None \<longrightarrow>
       produced m = produced m0 + length (yielded es) \<and> consumed m = consumed m0 + length (yielded es))"
proof -
  obtain k' n' where kn: "k = Suc k'" "n = Suc n'" using stream_entry_pos [OF entry] .
  note g = s [unfolded kn stream_go]
  note M = stream_runs.meter_trace [OF g, unfolded meter_ok_def] and P = stream_runs.go_pulled [OF g]
  obtain m where m: "meter s = Some m" using M by (cases "meter s") simp_all
  have len: "length (results s) = length (finished s)"
    using data_invD(5) [OF stream_invD(3) [OF stream_runs.go_inv [OF g]]] .
  have fin: "produced m = produced m0 + length (yielded es) \<and> consumed m = consumed m0 + length (yielded es)"
    if f: "s_final s = Some None"
  proof -
    note R = stream_runs.returned [OF g f]
    note T = stream_invD(1) [OF stream_runs.go_inv [OF g], unfolded task_inv_def]
    have "\<forall>x \<in> set (stat s). x = Reaped EndNormal" using T f by (simp add: tasks_inv_def)
    then have "hand (prod_pc s) = []" by (cases "prod_pc s") (auto simp: stat_def)
    then show ?thesis using M m P R(3,4) len by simp
  qed
  show ?thesis using M m P len fin kn by (intro exI [of _ m]) auto
qed

text \<open>
  C17. The entry of \<open>stream\<close>, whatever the events: a call ends in a bare \<open>ValueError\<close> exactly
  when a guard refuses it, naming the first argument that is at fault: \<open>concurrency\<close>, then
  \<open>queue_size\<close>, unless a positive \<open>int\<close> (no \<open>bool\<close>), then \<open>timeout\<close>, unless \<open>None\<close>, a positive
  finite float or a positive \<open>int\<close> below the first that overflows a double. A refused call ends
  so without an event, one let in runs with its arguments, the deadline as a double.
\<close>

theorem stream_entry_contract:
  fixes es :: "('i, 'r) sevent list"
  shows "(let good = (\<lambda>v. \<exists>k > 0. v = PInt k);
        usable = (timeout = PNone \<or> (\<exists>q > 0. timeout = PFloat (Fin q)) \<or>
          (\<exists>d > 0. timeout = PInt d \<and> d < 2 ^ 1024 - 2 ^ 970))
    in (stream ver concurrency queue_size re m timeout t0 es = Some (Inl (ValueError what)) \<longleftrightarrow>
          (if \<not> good concurrency then what = ''concurrency''
           else if \<not> good queue_size then what = ''queue_size''
           else \<not> usable \<and> what = ''timeout'')) \<and>
       (if good concurrency \<and> good queue_size \<and> usable
        then stream ver concurrency queue_size re m timeout t0 ([] :: ('i, 'r) sevent list) = None \<and>
          stream_entry concurrency queue_size timeout =
            Inr (nat (int_value concurrency), nat (int_value queue_size),
              case timeout of PFloat f \<Rightarrow> Some f
              | PInt d \<Rightarrow> Some (Fin (of_nat (double_of_nat (nat d)))) | _ \<Rightarrow> None)
        else \<exists>e. \<forall>es' :: ('i, 'r) sevent list.
          stream ver concurrency queue_size re m timeout t0 es' = Some (Inl (ValueError e))))"
proof -
  define good where "good = (\<lambda>v. \<exists>k > 0. v = PInt k)"
  define usable where "usable = (timeout = PNone \<or> (\<exists>q > 0. timeout = PFloat (Fin q)) \<or>
      (\<exists>d > 0. timeout = PInt d \<and> d < 2 ^ 1024 - 2 ^ 970))"
  define deadline where "deadline = (case timeout of PFloat f \<Rightarrow> Some f
      | PInt d \<Rightarrow> Some (Fin (of_nat (double_of_nat (nat d)))) | _ \<Rightarrow> None)"
  have pos: "require_positive_int field v = (if good v then Inr (nat (int_value v)) else Inl (ValueError field))"
    for field v
    by (cases v) (auto simp: require_positive_int_eq good_def int_value_def)
  have tmo: "require_timeout_seconds timeout = (if usable then Inr deadline else Inl (ValueError ''timeout''))"
    by (auto simp: require_timeout_contract usable_def deadline_def split: pyval.splits pyfloat.splits)
  have entry: "stream_entry concurrency queue_size timeout =
      (if \<not> good concurrency then Inl (ValueError ''concurrency'')
       else if \<not> good queue_size then Inl (ValueError ''queue_size'')
       else if \<not> usable then Inl (ValueError ''timeout'')
       else Inr (nat (int_value concurrency), nat (int_value queue_size), deadline))"
    by (simp add: stream_entry_def pos tmo)
  have "s_final (stream_init ver k n m t0 :: ('i, 'r slot) stream) = None" for k n
    by (simp add: stream_init_def Let_def split: prod.splits)
  then have begun: "stream ver concurrency queue_size re m timeout t0 ([] :: ('i, 'r) sevent list) = None"
    if "good concurrency" "good queue_size" usable
    using that by (simp add: stream_def entry stream_run_def)
  have admitted: "stream ver concurrency queue_size re m timeout t0 es \<noteq> Some (Inl (ValueError what))"
    if "good concurrency" "good queue_size" usable
    using stream_no_bare_error that entry by fastforce
  have refused: "stream ver concurrency queue_size re m timeout t0 es' =
      (case stream_entry concurrency queue_size timeout of Inl e \<Rightarrow> Some (Inl e) | Inr _ \<Rightarrow> undefined)"
    if "\<not> (good concurrency \<and> good queue_size \<and> usable)" for es' :: "('i, 'r) sevent list"
    using that by (auto simp: stream_def entry)
  show ?thesis
    unfolding good_def [symmetric] usable_def [symmetric] deadline_def [symmetric] Let_def
    using begun admitted refused entry by auto
qed

section \<open>Witnesses\<close>

text \<open>
  Two items through one consumer and a queue of one: the producer waits for room twice. Then a
  run whose first call fails, with a cancel from outside during the teardown.
\<close>

definition good_feed :: "(int, nat) sevent list" where
  "good_feed = [SPStart, SSource (SrcItem 10), SSource (SrcItem 20), SCStart 0, SPWake 1,
     SSource SrcEnd, SCFn 0 (ended_with (Returned 7)), SPWake 0,
     SCFn 0 (ended_with (Returned 8)), SPDone, SCDone 0, SParent]"

definition failing_feed :: "(int, nat) sevent list" where
  "failing_feed = [SPStart, SSource (SrcItem 10), SSource (SrcItem 20), SCStart 0]"

definition feed_teardown :: "(int, nat) sevent list" where
  "feed_teardown = [SCDone 0, SPWake 0, SCancel, SParent, SPDone, SParent, SRearm]"

definition zero_metrics :: stream_metrics where
  "zero_metrics = metrics_init"

lemma one_entry: "stream_entry (PInt 1) (PInt 1) PNone = Inr (1, 1, None)"
  by code_simp

lemma good_feed_returns:
  "stream Py311 (PInt 1) (PInt 1) False None PNone fresh_task good_feed = Some (Inr [Val 7, Val 8])"
  by code_simp

lemma stream_source_order_witness:
  "\<exists>s. stream_run Py311 1 1 None False None fresh_task good_feed = Some s \<and>
     map snd (s_calls s) = [10, 20]"
proof -
  have "yielded good_feed = [10, 20]" by code_simp
  then show ?thesis using stream_source_order [OF one_entry good_feed_returns] by auto
qed

lemma stream_results_by_completion_witness:
  "\<exists>log :: (nat \<times> nat fn_end) list. mset (map fst log) = {#0, 1#} \<and>
     [Val (7 :: nat), Val 8] = map (\<lambda>(idx, f). case fn_outcome f of
                Returned v \<Rightarrow> Val v
              | Raised e \<Rightarrow> Exn (item_error None None idx (fn_fired f) e)) log"
proof -
  have "mset [0..<length (yielded good_feed)] = {#0, 1#}" by code_simp
  note R = stream_results_by_completion [OF one_entry good_feed_returns, unfolded this]
  from R show ?thesis
  proof (elim exE conjE)
    fix log :: "(nat \<times> nat fn_end) list"
    assume 1: "mset (map fst log) = {#0, 1#}"
      and 2: "[Val 7, Val 8] = map (\<lambda>(idx, f). case fn_outcome f of
                Returned v \<Rightarrow> Val v
              | Raised e \<Rightarrow> Exn (item_error None None idx (fn_fired f) e)) log"
    show ?thesis by (rule exI [of _ log]) (rule conjI [OF 1 2])
  qed
qed

lemma stream_bounds_witness:
  "\<exists>s. stream_run Py311 1 1 None False None fresh_task (take 4 good_feed) = Some s \<and>
     length (buf (queue s)) \<le> 1 \<and> cnt is_fn (cons s) \<le> 1"
proof -
  have "stream_run Py311 1 1 None False None fresh_task (take 4 good_feed) \<noteq> None" by code_simp
  then obtain s where s: "stream_run Py311 1 1 None False None fresh_task (take 4 good_feed) = Some s"
    by blast
  then show ?thesis using stream_bounds [OF one_entry s] by blast
qed

lemma stream_fail_fast_witness:
  "\<exists>s u. stream_run Py311 1 1 None False None fresh_task (failing_feed @ [SCFn 0 failure]) = Some s \<and>
     stream_run Py311 1 1 None False None fresh_task
       (failing_feed @ [SCFn 0 failure] @ feed_teardown) = Some u \<and> s_calls u = s_calls s"
proof -
  have "stream_run Py311 1 1 None False None fresh_task (failing_feed @ [SCFn 0 failure]) \<noteq> None"
    "stream_run Py311 1 1 None False None fresh_task
       (failing_feed @ [SCFn 0 failure] @ feed_teardown) \<noteq> None" by code_simp+
  then obtain s u where su:
    "stream_run Py311 1 1 None False None fresh_task (failing_feed @ [SCFn 0 failure]) = Some s"
    "stream_run Py311 1 1 None False None fresh_task
       (failing_feed @ [SCFn 0 failure] @ feed_teardown) = Some u" by blast
  have "fn_outcome failure = Raised (UserExc 3)" by (simp add: failure_def ended_with_def)
  from stream_fail_fast [OF one_entry this su] show ?thesis using su by blast
qed


lemma stream_collects_exceptions_witness:
  "\<exists>rs. stream Py311 (PInt 1) (PInt 1) True None PNone fresh_task
     (failing_feed @ [SCFn 0 failure, SPWake 0, SSource SrcEnd,
       SCWake 0, SPWake 0, SCFn 0 (ended_with (Returned 8)), SPDone, SCDone 0, SParent]) = Some (Inr rs) \<and>
     length rs = 2"
proof -
  let ?es = "failing_feed @ [SCFn 0 failure, SPWake 0, SSource SrcEnd,
       SCWake 0, SPWake 0, SCFn 0 (ended_with (Returned 8)), SPDone, SCDone 0, SParent]"
  have "stream Py311 (PInt 1) (PInt 1) True None PNone fresh_task ?es \<noteq> None" by code_simp
  then obtain res where r: "stream Py311 (PInt 1) (PInt 1) True None PNone fresh_task ?es = Some res"
    by blast
  have q: "\<not> live_cancel fresh_task (signals ?es)" by code_simp
  have s: "\<forall>y. SSource (SrcRaise y) \<notin> set ?es" by (simp add: failing_feed_def)
  have m: "\<forall>i f e. SCFn i f \<in> set ?es \<longrightarrow> fn_outcome f = Raised e \<longrightarrow> is_Exception e \<or> e = CancelledError"
    by (auto simp: failing_feed_def failure_def ended_with_def)
  have "yielded ?es = [10, 20]" by code_simp
  then show ?thesis using stream_collects_exceptions [OF one_entry q s m r] r by auto
qed

lemma stream_restores_cancel_count_witness:
  "\<exists>s. stream_run Py311 1 1 None False None fresh_task
       (failing_feed @ [SCFn 0 failure] @ feed_teardown) = Some s \<and>
     num_cancels (s_caller s) = 1 \<and> must_cancel (s_caller s)"
proof -
  let ?es = "failing_feed @ [SCFn 0 failure] @ feed_teardown"
  have "map_option (\<lambda>s. (s_final s, s_rearm s, base_error (s_group s)))
      (stream_run Py311 1 1 None False None fresh_task ?es)
      = Some (Some (Some (ExcGroup [UserExc 3])), False, None)" by code_simp
  then obtain s where s: "stream_run Py311 1 1 None False None fresh_task ?es = Some s"
    "s_final s = Some (Some (ExcGroup [UserExc 3]))" "\<not> s_rearm s" "base_error (s_group s) = None" by auto
  have "cancels (signals ?es) = 1" "live_cancel fresh_task (signals ?es)" by code_simp+
  then show ?thesis
    using stream_restores_cancel_count [OF one_entry s] s(1)
    by (auto simp: fresh_task_def less_eq_pyver_def)
qed

lemma stream_never_hangs_witness:
  "\<exists>fs u. stream_run Py311 1 1 None False None fresh_task (failing_feed @ fs) = Some u \<and>
     s_final u \<noteq> None"
proof -
  have "stream_run Py311 1 1 None False None fresh_task failing_feed \<noteq> None" by code_simp
  then obtain s where s: "stream_run Py311 1 1 None False None fresh_task failing_feed = Some s" by blast
  then show ?thesis using stream_never_hangs [OF one_entry s] by blast
qed

lemma stream_metrics_count_witness:
  "\<exists>s m. stream_run Py311 1 1 None False (Some zero_metrics) fresh_task (take 3 good_feed) = Some s \<and>
     meter s = Some m \<and> consumed m = 0 \<and> max_queue_depth m \<le> 1"
proof -
  have "map_option results (stream_run Py311 1 1 None False (Some zero_metrics) fresh_task (take 3 good_feed))
      = Some []" by code_simp
  then obtain s where s: "stream_run Py311 1 1 None False (Some zero_metrics) fresh_task (take 3 good_feed) = Some s"
    "results s = []" by auto
  have "consumed zero_metrics = 0" "max_queue_depth zero_metrics = 0" by code_simp+
  then show ?thesis using stream_metrics_count [OF one_entry s(1)] s by auto
qed

end
