(* ===== verification/Stream_Pauses.thy ===== *)
theory Stream_Pauses
  imports Stream_Props
begin

text \<open>
  When the producer of \<open>stream\<close> waits: what \<open>producer_pauses\<close> and \<open>max_queue_depth\<close> say about
  the queue and the source, at every moment of every schedule.
\<close>

section \<open>The level of the queue\<close>

definition gauge :: "('i, 'r) stream \<Rightarrow> (nat \<times> nat) option" where
  "gauge s = map_option (\<lambda>m. (producer_pauses m, max_queue_depth m)) (meter s)"

lemma gauge_update [simp]:
  "gauge (s\<lparr>queue := q\<rparr>) = gauge s" "gauge (s\<lparr>prod_pc := p\<rparr>) = gauge s" "gauge (s\<lparr>s_failed := b\<rparr>) = gauge s"
  "gauge (s\<lparr>pulled := xs\<rparr>) = gauge s" "gauge (s\<lparr>cons := cs\<rparr>) = gauge s"
  "gauge (p_spawn s) = gauge s"
  by (simp_all add: gauge_def p_spawn_def)

definition gauge_ok :: "nat \<Rightarrow> stream_metrics \<Rightarrow> ('i, 'r) stream \<Rightarrow> bool" where
  "gauge_ok n m0 s \<longleftrightarrow>
     (case gauge s of
        None \<Rightarrow> False
      | Some (p, d) \<Rightarrow>
          d \<le> max (max_queue_depth m0) (length (pulled s)) \<and>
          (p = producer_pauses m0 \<or> n \<le> d \<and> producer_pauses m0 < p \<and> p + n \<le> producer_pauses m0 + length (pulled s)))"

lemma gauge_ok_update [simp]:
  "gauge_ok n m0 (s\<lparr>queue := q\<rparr>) = gauge_ok n m0 s" "gauge_ok n m0 (s\<lparr>prod_pc := p\<rparr>) = gauge_ok n m0 s"
  "gauge_ok n m0 (s\<lparr>s_failed := b\<rparr>) = gauge_ok n m0 s" "gauge_ok n m0 (p_spawn s) = gauge_ok n m0 s"
  by (simp_all add: gauge_ok_def p_spawn_def gauge_def split: option.splits)

text \<open>While the producer still pulls or puts, every entry is an item and its depth was seen.\<close>

definition filling :: "'i ppc \<Rightarrow> bool" where
  "filling p \<longleftrightarrow> (case p of PCreated \<Rightarrow> True | PPull \<Rightarrow> True | PPut _ \<Rightarrow> True | _ \<Rightarrow> False)"

definition level_ok :: "nat \<Rightarrow> stream_metrics \<Rightarrow> ('i, 'r) stream \<Rightarrow> bool" where
  "level_ok n m0 s \<longleftrightarrow>
     maxsize (queue s) = n \<and> gauge_ok n m0 s \<and>
     (filling (prod_pc s) \<longrightarrow>
        length (buf (queue s)) + length (hand (prod_pc s)) \<le> length (pulled s) \<and>
        length (buf (queue s)) \<le> snd (the (gauge s)))"

text \<open>What only takes from the queue.\<close>

definition drains :: "('i, 'r) stream \<Rightarrow> ('i, 'r) stream \<Rightarrow> bool" where
  "drains t s \<longleftrightarrow> maxsize (queue t) = maxsize (queue s) \<and> length (buf (queue t)) \<le> length (buf (queue s)) \<and>
     prod_pc t = prod_pc s \<and> pulled t = pulled s \<and> gauge t = gauge s"

lemma drains_level: "drains t s \<Longrightarrow> level_ok n m0 s \<Longrightarrow> level_ok n m0 t"
  by (auto simp: drains_def level_ok_def gauge_ok_def split: option.splits)

lemma drains_refl: "drains s s" by (simp add: drains_def)

lemma drains_trans: "drains u t \<Longrightarrow> drains t s \<Longrightarrow> drains u s" by (simp add: drains_def)

lemma q_takes:
  "maxsize (snd (q_get i q)) = maxsize q" "length (buf (snd (q_get i q))) \<le> length (buf q)"
  "maxsize (snd (q_resume_get i q)) = maxsize q" "length (buf (snd (q_resume_get i q))) \<le> length (buf q)"
  "maxsize (q_abandon_get i q) = maxsize q" "buf (q_abandon_get i q) = buf q"
  "maxsize (q_task_done q) = maxsize q" "buf (q_task_done q) = buf q"
  "maxsize (q_cancel_all q) = maxsize q" "buf (q_cancel_all q) = buf q"
  "maxsize (q_clear_putter q) = maxsize q" "buf (q_clear_putter q) = buf q"
  by (simp_all add: q_get_def q_resume_get_def q_abandon_get_def q_task_done_def q_cancel_all_def
      q_clear_putter_def q_wake_putter_def split: list.splits)

lemma drains_consumer:
  "drains (c_end i x s) s" "drains (c_item i it s) s"
  by (simp_all add: drains_def c_end_def c_item_def gauge_def q_takes split: qitem.splits)

lemma drains_got: "drains (c_got i (q_get i (queue s)) s) s" "drains (c_got i (q_resume_get i (queue s)) s) s"
proof -
  have "drains (c_got i r s) s"
    if "maxsize (snd r) = maxsize (queue s)" "length (buf (snd r)) \<le> length (buf (queue s))" for r
  proof -
    have "drains (s\<lparr>queue := snd r\<rparr>) s" "drains (s\<lparr>queue := snd r, cons := c\<rparr>) s" for c
      using that by (simp_all add: drains_def gauge_def)
    then show ?thesis using drains_trans [OF drains_consumer(2)]
      by (cases r; cases "fst r") (auto simp: c_got_def)
  qed
  then show "drains (c_got i (q_get i (queue s)) s) s" "drains (c_got i (q_resume_get i (queue s)) s) s"
    using q_takes by blast+
qed

lemma drains_loop: "drains (c_head i s) s" "drains (c_start i s) s" "drains (c_wake i s) s"
proof -
  show h: "drains (c_head i s) s" for s :: "('a, 'b) stream"
    by (auto simp: c_head_def intro: drains_consumer drains_got split: sum.splits)
  show "drains (c_start i s) s" by (auto simp: c_start_def intro: h drains_consumer)
  have "drains (s\<lparr>queue := q_abandon_get i (queue s)\<rparr>) s" by (simp add: drains_def gauge_def q_takes)
  then show "drains (c_wake i s) s"
    by (auto simp: c_wake_def intro: drains_got drains_trans [OF drains_consumer(1)])
qed

lemma drains_fn: "drains (c_fn c i s) s"
proof (cases c)
  case (Store r)
  have "drains (s\<lparr>results := results s @ [r], finished := finished s @ [cfn_index (cons s ! i)],
      queue := q_task_done (queue s), meter := map_option (\<lambda>m. m\<lparr>consumed := Suc (consumed m)\<rparr>) (meter s)\<rparr>) s"
    by (simp add: drains_def gauge_def q_takes option.map_comp o_def)
  then show ?thesis using Store drains_trans [OF drains_loop(1)] by (simp add: c_fn_def)
next
  case (Propagate e)
  have "drains (s\<lparr>s_failed := True, queue := q_task_done (queue s)\<rparr>) s"
    by (simp add: drains_def gauge_def q_takes)
  then show ?thesis using Propagate drains_trans [OF drains_consumer(1)] by (simp add: c_fn_def)
qed

lemma drains_grp: "drains (s_grp r s) s"
  by (simp add: s_grp_def s_abort_def Let_def drains_def gauge_def q_takes split: prod.splits)

lemma drains_done: "drains (c_done i s) s" "drains (s_parent ver s) s"
proof -
  have "drains (s\<lparr>cons := c\<rparr>) s" for c by (simp add: drains_def gauge_def)
  then show "drains (c_done i s) s"
    by (auto simp: c_done_def intro: drains_trans [OF drains_grp] drains_refl split: cpc.splits)
  have "drains (u\<lparr>s_caller := a, s_final := b, s_rearm := c\<rparr>) u" for u :: "('a, 'b) stream" and a b c
    by (simp add: drains_def gauge_def)
  then have "drains ((s_grp r s)\<lparr>s_caller := a, s_final := b, s_rearm := c\<rparr>) s" for r a b c
    by (rule drains_trans [OF _ drains_grp])
  then show "drains (s_parent ver s) s"
    by (auto simp: s_parent_def Let_def intro: drains_grp split: prod.splits)
qed

section \<open>The producer\<close>

lemma level_ended: "level_ok n m0 s \<Longrightarrow> \<not> filling p \<Longrightarrow> level_ok n m0 (s\<lparr>prod_pc := p\<rparr>)"
  by (simp add: level_ok_def)

lemma level_fail: "maxsize (queue s) = n \<Longrightarrow> gauge_ok n m0 s \<Longrightarrow> level_ok n m0 (p_fail e s)"
  by (simp add: p_fail_eq p_end_def level_ok_def filling_def)

lemma level_send:
  "maxsize (queue s) = n \<Longrightarrow> gauge_ok n m0 s \<Longrightarrow> level_ok n m0 (p_send j s)"
proof (induction j arbitrary: s)
  case 0
  then show ?case by (simp add: p_end_def level_ok_def filling_def)
next
  case (Suc j)
  have g: "gauge_ok n m0 (s\<lparr>queue := q\<rparr>)" "gauge_ok n m0 (s\<lparr>queue := q, prod_pc := p\<rparr>)" for q p
    using Suc.prems(2) by simp_all
  have "maxsize (snd (q_put Sentinel (queue s))) = n" using Suc.prems(1) by (simp add: q_put_def)
  then show ?case
    using Suc.IH g by (auto simp: level_ok_def filling_def split: prod.splits bool.splits)
qed

text \<open>An item that is not in the queue yet; just pulled, its own pause is not counted.\<close>

definition put_due :: "nat \<Rightarrow> stream_metrics \<Rightarrow> ('i, 'r) stream \<Rightarrow> bool" where
  "put_due n m0 s \<longleftrightarrow> maxsize (queue s) = n \<and> gauge_ok n m0 s \<and>
     Suc (length (buf (queue s))) \<le> length (pulled s) \<and>
     length (buf (queue s)) \<le> snd (the (gauge s))"

definition in_hand :: "nat \<Rightarrow> stream_metrics \<Rightarrow> ('i, 'r) stream \<Rightarrow> bool" where
  "in_hand n m0 s \<longleftrightarrow> put_due n m0 s \<and>
     (case gauge s of None \<Rightarrow> False
      | Some (p, d) \<Rightarrow> p = producer_pauses m0 \<or>
          n \<le> d \<and> producer_pauses m0 < p \<and> Suc (p + n) \<le> producer_pauses m0 + length (pulled s))"

lemma level_put_done:
  assumes "put_due n m0 s" and "buf q = buf (queue s) @ [y]" and "maxsize q = n"
    and "gauge t = gauge s" and "queue t = q" and "pulled t = pulled s"
  shows "level_ok n m0 (p_put_done t)"
proof -
  obtain m where m: "meter t = Some m" using assms(1,4) by (cases "meter t") (auto simp: put_due_def gauge_ok_def gauge_def)
  have g: "gauge s = Some (producer_pauses m, max_queue_depth m)" using assms(4) m by (simp add: gauge_def)
  have "gauge (p_put_done t) = Some (producer_pauses m, max (max_queue_depth m) (Suc (length (buf (queue s)))))"
    using assms(2,5) m by (simp add: p_put_done_def gauge_def)
  then show ?thesis
    using assms g by (auto simp: level_ok_def gauge_ok_def put_due_def filling_def p_put_done_def)
qed

text \<open>Only a full queue makes the producer wait, and with an item more than it holds.\<close>

lemma level_put:
  assumes h: "in_hand n m0 s"
  shows "level_ok n m0 (p_put x s)"
proof (cases "q_full (queue s)")
  case False
  have d: "put_due n m0 s" using h by (simp add: in_hand_def)
  obtain q where q: "q_put (QItem x) (queue s) = (True, q)" "buf q = buf (queue s) @ [QItem x]"
    "maxsize q = n" using False d by (simp add: q_put_def put_due_def)
  have "level_ok n m0 (p_put_done (s\<lparr>queue := q\<rparr>))"
    by (rule level_put_done [OF d q(2,3)]) simp_all
  then show ?thesis using q(1) by (simp add: p_put_def)
next
  case True
  obtain m where m: "meter s = Some m"
    using h by (cases "meter s") (auto simp: in_hand_def put_due_def gauge_def)
  then have g: "gauge s = Some (producer_pauses m, max_queue_depth m)" by (simp add: gauge_def)
  have full: "n \<le> length (buf (queue s))" using True h by (simp add: q_full_def in_hand_def put_due_def)
  have "n \<le> max_queue_depth m" "Suc n \<le> length (pulled s)"
    using h g full by (auto simp: in_hand_def put_due_def)
  then show ?thesis
    using True h g m unfolding p_put_def q_put_def
    by (auto simp: level_ok_def gauge_ok_def in_hand_def put_due_def gauge_def filling_def)
qed

lemma level_item:
  assumes h: "in_hand n m0 s"
  shows "level_ok n m0 (p_item x s)"
proof -
  have "in_hand n m0 (p_spawn s)" "maxsize (queue s) = n" "gauge_ok n m0 s"
    using h by (simp_all add: in_hand_def put_due_def p_spawn_def gauge_def gauge_ok_def split: option.splits)
  then show ?thesis using h by (auto simp: p_item_def intro: level_put level_fail split: sum.splits)
qed

lemma level_source:
  assumes l: "level_ok n m0 s" and p: "prod_pc s = PPull"
  shows "level_ok n m0 (p_source r s)"
proof -
  have g: "maxsize (queue s) = n" "gauge_ok n m0 s" using l by (simp_all add: level_ok_def)
  have "in_hand n m0 (s\<lparr>pulled := pulled s @ [x]\<rparr>)" for x
    using l p by (auto simp: in_hand_def put_due_def level_ok_def gauge_ok_def filling_def split: option.splits)
  then show ?thesis
    using g by (auto simp: p_source_def intro: level_item level_fail level_send split: src.splits sum.splits)
qed

lemma level_wake:
  assumes l: "level_ok n m0 s"
  shows "level_ok n m0 (p_wake dt s)"
proof (cases "prod_pc s")
  case (PSend j)
  then show ?thesis using l level_send [of "s\<lparr>queue := q_clear_putter (queue s)\<rparr>" n m0]
    by (simp add: p_wake_def Let_def p_end_def level_ok_def q_takes filling_def)
next
  case (PPut x)
  let ?s = "s\<lparr>queue := q_clear_putter (queue s)\<rparr>"
  have d: "put_due n m0 ?s" and g: "maxsize (queue ?s) = n" "gauge_ok n m0 ?s"
    using l PPut by (auto simp: put_due_def level_ok_def q_takes filling_def split: option.splits)
  show ?thesis
  proof (cases "prod_creq s \<or> q_full (queue ?s)")
    case True
    then show ?thesis
      using PPut level_fail [OF g] l
      by (auto simp: p_wake_def Let_def q_put_def level_ok_def q_takes q_full_def)
  next
    case False
    then obtain q where q: "q_put (QItem x) (queue ?s) = (True, q)" "buf q = buf (queue ?s) @ [QItem x]"
      "maxsize q = n" using g(1) by (simp add: q_put_def)
    let ?m = "map_option (\<lambda>m. m\<lparr>producer_pause_seconds := producer_pause_seconds m + dt\<rparr>) (meter s)"
    have "level_ok n m0 (p_put_done (?s\<lparr>queue := q, meter := ?m\<rparr>))"
      by (rule level_put_done [OF d q(2,3)]) (simp_all add: gauge_def option.map_comp o_def)
    then show ?thesis using False PPut q(1) by (simp add: p_wake_def Let_def)
  qed
qed (use l in \<open>simp_all add: p_wake_def Let_def\<close>)

section \<open>Every moment of a run\<close>

lemma level_step:
  assumes st: "s_step ver handler s e = Some t" and l: "level_ok n m0 s"
  shows "level_ok n m0 t"
proof -
  note en = s_stepD(1) [OF st] and t = s_stepD(2) [OF st]
  show ?thesis
  proof (cases e)
    case SPStart
    then show ?thesis using l t en by (auto simp: p_start_def p_end_def level_ok_def filling_def)
  next
    case SPDone
    have "level_ok n m0 (s\<lparr>prod_pc := PReaped x\<rparr>)" for x using level_ended [OF l] by (simp add: filling_def)
    then show ?thesis using l t SPDone
      by (auto simp: p_done_def intro: drains_level [OF drains_grp] split: ppc.splits)
  next
    case (SSource r)
    then show ?thesis using level_source [OF l] t en by simp
  next
    case (SPWake dt)
    then show ?thesis using level_wake [OF l] t by simp
  next
    case (SCFn i f)
    then show ?thesis using l t drains_level [OF drains_fn] by simp
  next
    case (SCStart i)
    then show ?thesis using l t drains_level [OF drains_loop(2)] by simp
  next
    case (SCWake i)
    then show ?thesis using l t drains_level [OF drains_loop(3)] by simp
  next
    case (SCDone i)
    then show ?thesis using l t drains_level [OF drains_done(1)] by simp
  next
    case SParent
    then show ?thesis using l t drains_level [OF drains_done(2)] by simp
  next
    case SRearm
    have "drains t s" using t SRearm by (simp add: drains_def gauge_def)
    then show ?thesis using l drains_level by blast
  next
    case SCancel
    have "drains t s" using t SCancel by (simp add: drains_def gauge_def)
    then show ?thesis using l drains_level by blast
  next
    case SRearmOther
    have "drains t s" using t SRearmOther by (simp add: drains_def gauge_def)
    then show ?thesis using l drains_level by blast
  qed
qed

text \<open>The producer sends sentinels, and ends normally, only after the source has ended.\<close>

definition closing :: "'i ppc \<Rightarrow> bool" where
  "closing p \<longleftrightarrow> (case p of PSend _ \<Rightarrow> True | PEnded x \<Rightarrow> x = EndNormal | PReaped x \<Rightarrow> x = EndNormal | _ \<Rightarrow> False)"

lemma closing_fail: "\<not> closing (prod_pc (p_fail e s))"
  by (simp add: p_fail_eq p_end_def closing_def end_with_def)

lemma closing_put: "\<not> closing (prod_pc (p_put x s))"
  by (simp add: p_put_def p_put_done_def closing_def split: prod.splits bool.splits)

lemma closing_item: "\<not> closing (prod_pc (p_item x s))"
  by (simp add: p_item_def closing_put closing_fail split: sum.splits)

lemma closing_step:
  assumes st: "s_step ver handler s e = Some t" and c: "closing (prod_pc t)"
  shows "closing (prod_pc s) \<or> e = SSource SrcEnd"
proof -
  note en = s_stepD(1) [OF st] and t = s_stepD(2) [OF st]
  have d: "closing (prod_pc s)" if "drains t s" using that c by (simp add: drains_def)
  show ?thesis
  proof (cases e)
    case SPStart
    then show ?thesis using t c by (auto simp: p_start_def p_end_def closing_def split: if_splits)
  next
    case (SSource r)
    then show ?thesis
      using t c by (cases r) (auto simp: p_source_def closing_item closing_fail split: sum.splits)
  next
    case (SPWake dt)
    then show ?thesis
      using t c by (cases "prod_pc s") (auto simp: p_wake_def Let_def p_put_done_def closing_def
          closing_fail [unfolded closing_def] split: if_splits prod.splits bool.splits)
  next
    case SPDone
    have "closing (prod_pc (s_grp r u)) = closing (prod_pc u)" for r and u :: "('a, 'b) stream"
      using drains_grp [of r u] by (simp add: drains_def)
    then show ?thesis using t c SPDone by (cases "prod_pc s") (auto simp: p_done_def closing_def)
  next
    case SRearm
    then show ?thesis using t d by (simp add: drains_def gauge_def)
  next
    case SCancel
    then show ?thesis using t d by (simp add: drains_def gauge_def)
  next
    case SRearmOther
    then show ?thesis using t d by (simp add: drains_def gauge_def)
  qed (use t d in \<open>simp_all add: drains_fn drains_loop drains_done\<close>)
qed

context stream_machine
begin

lemma level_trace:
  assumes "go (Some m0) t0 es = Some s"
  shows "level_ok n m0 s"
proof (rule go_trace [OF assms, where P = "\<lambda>_. level_ok n m0"])
  show "level_ok n m0 (stream_init ver k n (Some m0) t0 :: ('i, 'r) stream)"
    by (simp add: level_ok_def gauge_ok_def gauge_def stream_init_def Let_def q_init_def split: prod.splits)
  show "level_ok n m0 t"
    if "level_ok n m0 s" "s_step ver handler s e = Some t"
    for s t :: "('i, 'r) stream" and e :: "('i, 'v) sevent"
    using level_step [OF that(2,1)] .
qed

lemma source_ended:
  assumes g: "go m t0 es = Some s" and f: "s_final s = Some None"
  shows "SSource SrcEnd \<in> set es"
proof -
  have "closing (prod_pc s) \<longrightarrow> SSource SrcEnd \<in> set es"
  proof (rule go_trace [OF g, where P = "\<lambda>es s. closing (prod_pc s) \<longrightarrow> SSource SrcEnd \<in> set es"])
    show "closing (prod_pc (stream_init ver k n m t0 :: ('i, 'r) stream)) \<longrightarrow> SSource SrcEnd \<in> set []"
      by (simp add: closing_def stream_init_def Let_def split: prod.splits)
    show "closing (prod_pc t) \<longrightarrow> SSource SrcEnd \<in> set (es @ [e])"
      if "closing (prod_pc s) \<longrightarrow> SSource SrcEnd \<in> set es" "s_step ver handler s e = Some t"
      for es e and s t :: "('i, 'r) stream"
      using closing_step [OF that(2)] that(1) by auto
  qed
  moreover have "closing (prod_pc s)"
  proof -
    note T = stream_invD(1) [OF go_inv [OF g], unfolded task_inv_def]
    have "\<forall>x \<in> set (stat s). x = Reaped EndNormal" using T f by (simp add: tasks_inv_def)
    then show ?thesis by (cases "prod_pc s") (auto simp: stat_def closing_def)
  qed
  ultimately show ?thesis by blast
qed

end

section \<open>Property\<close>

text \<open>
  What a pause means. At any moment of any schedule \<open>max_queue_depth\<close> is at most the queue
  size and at most the number of items pulled, and \<open>producer_pauses\<close> has only grown if the
  queue was full while the source had given more items than it holds, by at most one pause
  for each item beyond the queue size: a source of no more than \<open>queue_size\<close> items never
  makes the producer wait.
\<close>

theorem stream_pauses_when_full:
  assumes entry: "stream_entry concurrency queue_size timeout = Inr (k, n, t)"
    and s: "stream_run ver k n t re (Some m0) t0 es = Some s"
  shows "\<exists>m. meter s = Some m \<and>
    max_queue_depth m \<le> max (max_queue_depth m0) (min n (length (yielded es))) \<and>
    (if length (yielded es) \<le> n then producer_pauses m = producer_pauses m0
     else producer_pauses m \<le> producer_pauses m0 + (length (yielded es) - n)) \<and>
    (if n \<le> max_queue_depth m then True else producer_pauses m = producer_pauses m0)"
proof -
  obtain k' n' where kn: "k = Suc k'" "n = Suc n'" using stream_entry_pos [OF entry] .
  note g = s [unfolded kn stream_go]
  note M = stream_runs.meter_trace [OF g, unfolded meter_ok_def] and P = stream_runs.go_pulled [OF g]
  note L = stream_runs.level_trace [OF g]
  obtain m where m: "meter s = Some m" using M by (cases "meter s") simp_all
  have d: "max_queue_depth m \<le> max (max_queue_depth m0) n" using M m kn by simp
  have "gauge_ok n m0 s" using L kn by (simp add: level_ok_def)
  then have "max_queue_depth m \<le> max (max_queue_depth m0) (length (yielded es))"
    "producer_pauses m = producer_pauses m0 \<or>
       n \<le> max_queue_depth m \<and> producer_pauses m0 < producer_pauses m \<and> producer_pauses m + n \<le> producer_pauses m0 + length (yielded es)"
    using m P by (simp_all add: gauge_ok_def gauge_def)
  then show ?thesis using m d by (intro exI [of _ m]) auto
qed

lemma stream_pauses_when_full_witness:
  "\<exists>s m. stream_run Py311 1 1 None False (Some zero_metrics) fresh_task (take 3 good_feed) = Some s \<and>
     meter s = Some m \<and> producer_pauses m \<le> 1"
proof -
  have "map_option results (stream_run Py311 1 1 None False (Some zero_metrics) fresh_task (take 3 good_feed))
      = Some []" by code_simp
  then obtain s where s: "stream_run Py311 1 1 None False (Some zero_metrics) fresh_task (take 3 good_feed) = Some s"
    by auto
  have "producer_pauses zero_metrics = 0" "length (yielded (take 3 good_feed)) = 2" by code_simp+
  then show ?thesis using stream_pauses_when_full [OF one_entry s(1)] s by auto
qed

end
