(* ===== verification/Tool_Registry.thy ===== *)
theory Tool_Registry
  imports Py_Values
begin

text \<open>
  \<open>ToolRegistry\<close> of \<open>tool_dispatch.py\<close>: a dict from names to async callables. A dict keeps its
  insertion order, so it is an association list; a tool function is of any type.
\<close>

section \<open>The registry\<close>

type_synonym 'f registry = "(string \<times> 'f) list"

definition registry_init :: "'f registry" where
  "registry_init = []"

definition registry_register :: "pyval \<Rightarrow> 'f \<Rightarrow> 'f registry \<Rightarrow> exc + 'f registry" where
  "registry_register name fn r =
     (case name of
        PStr s \<Rightarrow>
          if s = '''' then Inl (ValueError ''tool name'')
          else if map_of r s \<noteq> None then Inl (ValueError ''already registered'')
          else Inr (r @ [(s, fn)])
      | _ \<Rightarrow> Inl (ValueError ''tool name''))"

text \<open>The decorator form registers and gives the function back.\<close>

definition registry_tool :: "pyval \<Rightarrow> 'f \<Rightarrow> 'f registry \<Rightarrow> exc + 'f registry \<times> 'f" where
  "registry_tool name fn r =
     (case registry_register name fn r of Inl e \<Rightarrow> Inl e | Inr r' \<Rightarrow> Inr (r', fn))"

definition registry_get :: "string \<Rightarrow> 'f registry \<Rightarrow> exc + 'f" where
  "registry_get name r =
     (case map_of r name of None \<Rightarrow> Inl (ToolNotFoundError name) | Some fn \<Rightarrow> Inr fn)"

definition registry_names :: "'f registry \<Rightarrow> string list" where
  "registry_names r = map fst r"

definition registry_contains :: "pyval \<Rightarrow> 'f registry \<Rightarrow> bool" where
  "registry_contains name r = (case name of PStr s \<Rightarrow> map_of r s \<noteq> None | _ \<Rightarrow> False)"

definition registry_len :: "'f registry \<Rightarrow> nat" where
  "registry_len r = length r"

section \<open>The interface: a write-once name table\<close>

text \<open>
  What \<open>dispatch_tool_calls\<close> relies on, over an abstract partial map \<open>lookup\<close>: a name once
  registered keeps its function, and a refused registration changes nothing.
\<close>

locale name_table =
  fixes ok :: "'r \<Rightarrow> bool"
    and lookup :: "'r \<Rightarrow> string \<Rightarrow> 'f option"
    and names :: "'r \<Rightarrow> string list"
    and empty :: 'r
    and register :: "pyval \<Rightarrow> 'f \<Rightarrow> 'r \<Rightarrow> exc + 'r"
  assumes empty: "ok empty" "lookup empty n = None" "names empty = []"
    and names_dom: "ok r \<Longrightarrow> set (names r) = dom (lookup r) \<and> distinct (names r)"
    and register_new: "ok r \<Longrightarrow> s \<noteq> '''' \<Longrightarrow> lookup r s = None \<Longrightarrow>
      \<exists>r'. register (PStr s) f r = Inr r' \<and> ok r' \<and> lookup r' = (lookup r)(s \<mapsto> f) \<and>
           names r' = names r @ [s]"
    and register_refuses: "ok r \<Longrightarrow> (\<And>s. v = PStr s \<Longrightarrow> s = '''' \<or> lookup r s \<noteq> None) \<Longrightarrow>
      \<exists>m. register v f r = Inl (ValueError m)"
begin

lemma register_cases:
  assumes "ok r" and "register v f r = Inr r'"
  obtains s where "v = PStr s" "s \<noteq> ''''" "lookup r s = None"
    "ok r'" "lookup r' = (lookup r)(s \<mapsto> f)" "names r' = names r @ [s]"
proof -
  have "\<exists>s. v = PStr s \<and> s \<noteq> '''' \<and> lookup r s = None"
    using register_refuses [of r v f] assms by force
  then obtain s where "v = PStr s" "s \<noteq> ''''" "lookup r s = None" by blast
  then show ?thesis using that register_new [OF assms(1), of s f] assms(2) by auto
qed

text \<open>A whole sequence of registrations keeps the table well formed and never rebinds a name.\<close>

abbreviation register_all :: "(pyval \<times> 'f) list \<Rightarrow> 'r \<Rightarrow> exc + 'r" where
  "register_all \<equiv> fold_result (\<lambda>(v, f). register v f)"

lemma register_all_keeps:
  "ok r \<Longrightarrow> register_all ts r = Inr r' \<Longrightarrow>
     ok r' \<and> lookup r \<subseteq>\<^sub>m lookup r' \<and> map PStr (names r') = map PStr (names r) @ map fst ts \<and>
     (\<forall>(v, f) \<in> set ts. \<exists>s. v = PStr s \<and> s \<noteq> '''' \<and> lookup r' s = Some f)"
proof (induction ts arbitrary: r)
  case (Cons t ts)
  obtain v f where t: "t = (v, f)" by (cases t)
  with Cons.prems obtain u where u: "register v f r = Inr u" "register_all ts u = Inr r'"
    by (auto split: sum.splits)
  from Cons.prems(1) u(1) obtain s where s: "v = PStr s" "s \<noteq> ''''" "lookup r s = None" "ok u"
    "lookup u = (lookup r)(s \<mapsto> f)" "names u = names r @ [s]"
    by (rule register_cases)
  note IH = Cons.IH [OF s(4) u(2)]
  have "lookup r \<subseteq>\<^sub>m lookup u" using s(3,5) by (auto simp: map_le_def)
  moreover have "lookup r' s = Some f"
    using IH s(5) by (auto simp: map_le_def dom_def)
  ultimately show ?case using IH s(1,2,6) t by (auto intro: map_le_trans)
qed simp

end

section \<open>The registry keeps the interface\<close>

definition registry_ok :: "'f registry \<Rightarrow> bool" where
  "registry_ok r \<longleftrightarrow> distinct (map fst r) \<and> '''' \<notin> fst ` set r"

lemmas registry_defs =
  registry_init_def registry_register_def registry_get_def registry_names_def registry_ok_def

interpretation registry: name_table registry_ok map_of registry_names registry_init registry_register
proof
  show "registry_ok registry_init" "map_of registry_init n = None" "registry_names registry_init = []"
    for n by (simp_all add: registry_defs)
  show "set (registry_names r) = dom (map_of r) \<and> distinct (registry_names r)"
    if "registry_ok r" for r using that by (simp add: registry_defs dom_map_of_conv_image_fst)
  show "\<exists>r'. registry_register (PStr s) f r = Inr r' \<and> registry_ok r' \<and>
      map_of r' = (map_of r)(s \<mapsto> f) \<and> registry_names r' = registry_names r @ [s]"
    if "registry_ok r" "s \<noteq> ''''" "map_of r s = None" for r s f
  proof -
    have "map_of (r @ [(s, f)]) = (map_of r)(s \<mapsto> f)"
      using that(3) by (auto simp: map_add_def split: option.splits)
    then show ?thesis
      using that by (auto simp: registry_defs map_of_eq_None_iff)
  qed
  show "\<exists>m. registry_register v f r = Inl (ValueError m)"
    if "registry_ok r" "\<And>s. v = PStr s \<Longrightarrow> s = '''' \<or> map_of r s \<noteq> None" for r v f
    using that(2) by (auto simp: registry_defs split: pyval.splits)
qed

section \<open>Property\<close>

text \<open>
  C25. The registry is a write-once table. Whatever was registered in a sequence that succeeded
  is what \<open>get\<close> returns, the names come back in registration order and are distinct, and \<open>in\<close>,
  \<open>len\<close> and \<open>get\<close> agree; a further registration of a name already there, of the empty name or
  of a value that is not a string is refused, which leaves every lookup as it was.
\<close>

theorem registry_write_once:
  assumes "fold_result (\<lambda>(v, f). registry_register v f) ts registry_init = Inr r"
  shows "(\<forall>(v, f) \<in> set ts. \<exists>s. v = PStr s \<and> s \<noteq> '''' \<and> registry_get s r = Inr f) \<and>
    map PStr (registry_names r) = map fst ts \<and> distinct (registry_names r) \<and>
    registry_len r = length ts \<and>
    (\<forall>s. (registry_get s r = Inl (ToolNotFoundError s)) = (\<not> registry_contains (PStr s) r)) \<and>
    (\<forall>v f. registry_contains v r \<longrightarrow> registry_register v f r = Inl (ValueError ''already registered''))"
proof -
  have ok: "registry_ok (registry_init :: 'a registry)" by (simp add: registry_defs)
  note K = registry.register_all_keeps [OF ok assms]
  have names: "map PStr (registry_names r) = map fst ts" "registry_ok r"
    using K by (simp_all add: registry_names_def registry_init_def)
  have "registry_len r = length ts"
    using arg_cong [OF names(1), of length] by (simp add: registry_len_def registry_names_def)
  moreover have "registry_register v f r = Inl (ValueError ''already registered'')"
    if c: "registry_contains v r" for v f
  proof -
    obtain s g where s: "v = PStr s" "map_of r s = Some g"
      using c by (cases v) (auto simp: registry_contains_def)
    then have "s \<in> fst ` set r" by (force dest: map_of_SomeD)
    then have "s \<noteq> ''''" using names(2) by (metis registry_ok_def)
    then show ?thesis using s by (simp add: registry_register_def)
  qed
  moreover have "\<forall>(v, f) \<in> set ts. \<exists>s. v = PStr s \<and> s \<noteq> '''' \<and> registry_get s r = Inr f"
    using K by (fastforce simp: registry_get_def)
  moreover have "(registry_get s r = Inl (ToolNotFoundError s)) = (\<not> registry_contains (PStr s) r)" for s
    by (simp add: registry_contains_def registry_get_def split: option.splits)
  ultimately show ?thesis
    using names by (simp add: registry_ok_def registry_names_def)
qed

lemma registry_write_once_witness:
  "registry_get ''b'' [(''a'', 1 :: nat), (''b'', 2)] = Inr 2 \<and>
   registry_register (PStr ''a'') 3 [(''a'', 1 :: nat), (''b'', 2)]
     = Inl (ValueError ''already registered'')"
proof -
  have "fold_result (\<lambda>(v, f). registry_register v f) [(PStr ''a'', 1 :: nat), (PStr ''b'', 2)]
      registry_init = Inr [(''a'', 1), (''b'', 2)]" by code_simp
  note W = registry_write_once [OF this]
  have "registry_contains (PStr ''a'') [(''a'', 1 :: nat), (''b'', 2)]" by code_simp
  then show ?thesis using W by auto
qed

end
