(* ===== verification/Tool_Dispatch.thy ===== *)
theory Tool_Dispatch
  imports Process Tool_Registry
begin

text \<open>
  \<open>dispatch_tool_calls\<close> of \<open>tool_dispatch.py\<close>: entry guards, the resolution of every call
  before any tool runs, \<open>_invoke_tool\<close> and \<open>_run_with_telemetry\<close> as the handler of the fan-out
  machine (with an optional semaphore), and the \<open>except* Exception\<close> clause around the group.
  What \<open>perf_counter\<close> measured for a call is the parameter \<open>clock\<close>; a \<open>repr\<close> of an exception is
  the exception itself.
\<close>

section \<open>Calls, results and resolution\<close>

record 'a tool_call =
  call_id :: string
  call_name :: string
  arguments :: 'a

record 'r tool_result =
  tool_call_id :: string
  result_name :: string
  result_ok :: bool
  result_value :: "'r option" \<comment> \<open>\<open>None\<close> is Python's \<open>None\<close>\<close>
  error_repr :: "exc option"
  elapsed_ms :: rat

datatype 'f tool_fn = Registered 'f | MissingStub string

fun resolve :: "'f registry \<Rightarrow> bool \<Rightarrow> 'a tool_call list \<Rightarrow> exc + ('a tool_call \<times> 'f tool_fn) list" where
  "resolve registry return_exceptions [] = Inr []"
| "resolve registry return_exceptions (call # tcs) =
     (case registry_get (call_name call) registry of
        Inr fn \<Rightarrow>
          (case resolve registry return_exceptions tcs of
             Inl e \<Rightarrow> Inl e | Inr rs \<Rightarrow> Inr ((call, Registered fn) # rs))
      | Inl e \<Rightarrow>
          if \<not> return_exceptions then Inl e
          else (case resolve registry return_exceptions tcs of
                  Inl e' \<Rightarrow> Inl e'
                | Inr rs \<Rightarrow> Inr ((call, MissingStub (call_name call)) # rs)))"

text \<open>The guards, in order; \<open>None\<close> as the concurrency means no semaphore.\<close>

definition dispatch_entry :: "'f registry \<Rightarrow> bool \<Rightarrow> pyval \<Rightarrow> pyval \<Rightarrow> 'a tool_call list \<Rightarrow>
    exc + nat option \<times> pyfloat option \<times> ('a tool_call \<times> 'f tool_fn) list" where
  "dispatch_entry registry return_exceptions concurrency timeout tcs =
     (case (if concurrency = PNone then Inr None
            else map_sum id Some (require_positive_int ''concurrency'' concurrency)) of
        Inl e \<Rightarrow> Inl e
      | Inr k \<Rightarrow>
          (case require_timeout_seconds timeout of
             Inl e \<Rightarrow> Inl e
           | Inr t \<Rightarrow>
               if tcs = [] then Inr (k, t, [])
               else (case resolve registry return_exceptions tcs of
                       Inl e \<Rightarrow> Inl e | Inr rs \<Rightarrow> Inr (k, t, rs))))"

section \<open>Running one call\<close>

text \<open>The stub of a missing tool raises at once: nothing else can end its await.\<close>

definition tool_end :: "'f tool_fn \<Rightarrow> 'r fn_end \<Rightarrow> 'r fn_end" where
  "tool_end fn f =
     (case fn of
        Registered _ \<Rightarrow> f
      | MissingStub name \<Rightarrow>
          \<lparr>fn_outcome = Raised (ToolNotFoundError name), fn_fired = False, fn_entry = 0, fn_leak = 0\<rparr>)"

definition run_with_telemetry :: "bool \<Rightarrow> pyfloat option \<Rightarrow> nat \<Rightarrow> (nat \<Rightarrow> rat) \<Rightarrow> nat \<Rightarrow>
    'a tool_call \<Rightarrow> bool \<Rightarrow> bool \<Rightarrow> 'r fn_end \<Rightarrow> exc + 'r tool_result" where
  "run_with_telemetry return_exceptions timeout owner clock idx call stopping cancelled f =
     (case timed_await timeout idx (Some owner) stopping cancelled f of
        Returned v \<Rightarrow>
          Inr \<lparr>tool_call_id = call_id call, result_name = call_name call, result_ok = True,
               result_value = Some v, error_repr = None, elapsed_ms = clock idx\<rparr>
      | Raised caught \<Rightarrow>
          (let e = stray_cancellation_as_error caught stopping (AtItem idx)
           in if \<not> is_Exception e then Inl caught
              else if \<not> return_exceptions then Inl e
              else Inr \<lparr>tool_call_id = call_id call, result_name = call_name call, result_ok = False,
                        result_value = None, error_repr = Some e, elapsed_ms = clock idx\<rparr>))"

text \<open>
  \<open>_invoke_tool\<close> inside its slot, after the latch check the machine makes: any error latches
  \<open>failed\<close> (the machine does, on \<open>Propagate\<close>) and goes on.
\<close>

definition dispatch_handler :: "bool \<Rightarrow> pyfloat option \<Rightarrow> nat \<Rightarrow> (nat \<Rightarrow> rat) \<Rightarrow>
    ('a tool_call \<times> 'f tool_fn) list \<Rightarrow> nat \<Rightarrow> bool \<Rightarrow> bool \<Rightarrow> 'r fn_end \<Rightarrow>
    'r tool_result completion" where
  "dispatch_handler return_exceptions timeout owner clock resolved idx stopping cancelled f =
     (case run_with_telemetry return_exceptions timeout owner clock idx (fst (resolved ! idx))
             stopping cancelled (tool_end (snd (resolved ! idx)) f) of
        Inl e \<Rightarrow> Propagate e
      | Inr r \<Rightarrow> Store r)"

section \<open>except* Exception\<close>

text \<open>
  \<open>eg.split(Exception)\<close>: a group all of whose leaves are \<open>Exception\<close>s matches whole; a mixed
  one is split member by member.
\<close>

fun split_exception :: "exc \<Rightarrow> exc option \<times> exc option" where
  "split_exception (ExcGroup es) =
     (if \<forall>e \<in> set es. is_Exception e then (Some (ExcGroup es), None)
      else (let parts = map split_exception es;
                matched = List.map_filter fst parts; rest = List.map_filter snd parts
            in (if matched = [] then None else Some (ExcGroup matched),
                if rest = [] then None else Some (ExcGroup rest))))"
| "split_exception e = (if is_Exception e then (Some e, None) else (None, Some e))"

definition own_deadline :: "nat \<Rightarrow> exc \<Rightarrow> bool" where
  "own_deadline owner e = (case e of PipelineTimeoutError _ _ o' \<Rightarrow> o' = Some owner | _ \<Rightarrow> False)"

text \<open>
  What leaves the \<open>try\<close>: the clause replaces the matched part by one exception; a part that is
  not matched is raised with it, in a group.
\<close>

definition except_star :: "nat \<Rightarrow> exc \<Rightarrow> exc" where
  "except_star owner e =
     (case split_exception e of
        (None, _) \<Rightarrow> e
      | (Some m, rest) \<Rightarrow>
          (let first = (case m of ExcGroup es \<Rightarrow> hd es | x \<Rightarrow> x);
               new = (if is_PipelineError first \<and> own_deadline owner first then first
                      else PipelineError ReprOfCause (Some first))
           in case rest of None \<Rightarrow> new | Some r \<Rightarrow> ExcGroup [new, r]))"

section \<open>The call\<close>

definition dispatch_run :: "pyver \<Rightarrow> nat option \<Rightarrow> pyfloat option \<Rightarrow> bool \<Rightarrow> nat \<Rightarrow> (nat \<Rightarrow> rat) \<Rightarrow>
    ('a tool_call \<times> 'f tool_fn) list \<Rightarrow> task \<Rightarrow> 'r fevent list \<Rightarrow>
    ('a tool_call \<times> 'f tool_fn, 'r tool_result) fan option" where
  "dispatch_run ver k timeout return_exceptions owner clock resolved t0 es =
     run (fan_step ver resolved (dispatch_handler return_exceptions timeout owner clock resolved))
       (fan_init ver resolved k t0) es"

definition dispatch_tool_calls :: "pyver \<Rightarrow> 'f registry \<Rightarrow> 'a tool_call list \<Rightarrow> bool \<Rightarrow> pyval \<Rightarrow> pyval \<Rightarrow>
    nat \<Rightarrow> (nat \<Rightarrow> rat) \<Rightarrow> task \<Rightarrow> 'r fevent list \<Rightarrow> (exc + 'r tool_result list) option" where
  "dispatch_tool_calls ver registry tcs return_exceptions concurrency timeout owner clock t0 es =
     (case dispatch_entry registry return_exceptions concurrency timeout tcs of
        Inl e \<Rightarrow> Some (Inl e)
      | Inr (k, t, resolved) \<Rightarrow>
          if tcs = [] then Some (Inr [])
          else (case dispatch_run ver k t return_exceptions owner clock resolved t0 es of
                  None \<Rightarrow> None
                | Some s \<Rightarrow>
                    (case final s of
                       None \<Rightarrow> None
                     | Some (Some e) \<Rightarrow> Some (Inl (except_star owner e))
                     | Some None \<Rightarrow> Some (Inr (List.map_filter id (slots s))))))"

section \<open>The handler keeps the fan-out's interface\<close>

lemma telemetry_error:
  assumes "run_with_telemetry re timeout owner clock i call st c f = Inl e"
  shows "e = CancelledError \<Longrightarrow> st"
    and "re \<Longrightarrow> \<not> is_Exception e"
    and "\<exists>x. fn_outcome f = Raised x \<and>
      (e = x \<or> e = PipelineTimeoutError i (the timeout) (Some owner) \<and> timeout \<noteq> None \<and> fn_fired f \<or>
       e = PipelineError (StrayItem i) (Some CancelledError) \<and> x = CancelledError) \<and>
      (re \<longrightarrow> e = x)"
proof -
  obtain caught where c: "timed_await timeout i (Some owner) st c f = Raised caught"
    using assms by (auto simp: run_with_telemetry_def split: outcome.splits)
  define s where "s = stray_cancellation_as_error caught st (AtItem i)"
  have e: "if \<not> is_Exception s then e = caught else \<not> re \<and> e = s"
    using assms c by (auto simp: run_with_telemetry_def s_def Let_def split: if_splits)
  have s: "s = caught \<or> s = PipelineError (StrayItem i) (Some CancelledError) \<and> caught = CancelledError"
    by (auto simp: s_def stray_cancellation_as_error_def)
  have ec: "\<not> is_Exception s \<Longrightarrow> e = s" using e s by auto
  show "e = CancelledError \<Longrightarrow> st" using e ec by (metis s_def stray_not_cancelled)
  have es: "e = s" using e ec by (auto split: if_splits)
  show ne: "re \<Longrightarrow> \<not> is_Exception e" using e es by auto
  obtain x where x: "fn_outcome f = Raised x"
    using c timed_await_Returned [of f _ timeout i "Some owner" st c] by (cases "fn_outcome f") auto
  have c': "caught = x \<or> caught = PipelineTimeoutError i (the timeout) (Some owner) \<and> timeout \<noteq> None \<and> fn_fired f"
    using c timed_await_Raised [OF x, of timeout i "Some owner" st c]
    by (auto split: option.splits if_splits)
  with es s c' x ne show "\<exists>x. fn_outcome f = Raised x \<and>
      (e = x \<or> e = PipelineTimeoutError i (the timeout) (Some owner) \<and> timeout \<noteq> None \<and> fn_fired f \<or>
       e = PipelineError (StrayItem i) (Some CancelledError) \<and> x = CancelledError) \<and>
      (re \<longrightarrow> e = x)"
    by (intro exI [of _ x]) auto
qed

lemma dispatch_handler_Propagate:
  assumes "dispatch_handler re timeout owner clock resolved i st c f = Propagate e"
  shows "run_with_telemetry re timeout owner clock i (fst (resolved ! i)) st c
           (tool_end (snd (resolved ! i)) f) = Inl e"
  using assms by (auto simp: dispatch_handler_def split: sum.splits)

interpretation dispatch_fan: fan_run "dispatch_handler re timeout owner clock resolved" ver resolved
  "map_option Suc k"
  for re timeout owner clock resolved ver k
  by unfold_locales (auto dest: dispatch_handler_Propagate telemetry_error(1))

lemma dispatch_go:
  "dispatch_run ver (map_option Suc k) timeout re owner clock resolved t0 es =
     run (fan_step ver resolved (dispatch_handler re timeout owner clock resolved))
       (fan_init ver resolved (map_option Suc k) t0) es"
  by (simp add: dispatch_run_def)

definition tool_for :: "'f registry \<Rightarrow> 'a tool_call \<Rightarrow> 'f tool_fn" where
  "tool_for registry call =
     (case map_of registry (call_name call) of
        Some fn \<Rightarrow> Registered fn | None \<Rightarrow> MissingStub (call_name call))"

lemma resolve_eq:
  "resolve registry re tcs =
     (if re \<or> (\<forall>c \<in> set tcs. map_of registry (call_name c) \<noteq> None)
      then Inr (map (\<lambda>c. (c, tool_for registry c)) tcs)
      else Inl (ToolNotFoundError (call_name
             (hd (filter (\<lambda>c. map_of registry (call_name c) = None) tcs)))))"
  by (induction tcs) (auto simp: registry_get_def tool_for_def split: option.splits)

lemma dispatch_entry_Inr:
  assumes "dispatch_entry registry re concurrency timeout tcs = Inr (k, t, resolved)"
  shows "k \<noteq> Some 0" and "resolved = map (\<lambda>c. (c, tool_for registry c)) tcs"
    and "re \<or> (\<forall>c \<in> set tcs. map_of registry (call_name c) \<noteq> None)"
  using assms
  by (auto simp: dispatch_entry_def resolve_eq require_positive_int_Inr map_sum_def
      split: sum.splits if_splits)

lemma dispatch_slots:
  assumes "dispatch_entry registry re concurrency timeout tcs = Inr (k, t, resolved)"
  obtains k' where "k = map_option Suc k'"
proof (cases k)
  case None
  then show ?thesis using that [of None] by simp
next
  case (Some c)
  then obtain c' where "c = Suc c'" using dispatch_entry_Inr(1) [OF assms] by (cases c) auto
  then show ?thesis using that [of "Some c'"] Some by simp
qed

lemma dispatch_cases:
  assumes "dispatch_entry registry re concurrency timeout tcs = Inr (k, t, resolved)" and "tcs \<noteq> []"
    and "dispatch_tool_calls ver registry tcs re concurrency timeout owner clock t0 es = Some res"
  obtains s where "dispatch_run ver k t re owner clock resolved t0 es = Some s"
    and "\<And>rs. res = Inr rs \<Longrightarrow> final s = Some None \<and> rs = List.map_filter id (slots s)"
    and "\<And>e. res = Inl e \<Longrightarrow> \<exists>x. final s = Some (Some x) \<and> e = except_star owner x"
  using assms(3) unfolding dispatch_tool_calls_def assms(1)
  by (auto simp: assms(2) split: option.splits)

text \<open>What a call that is not stopping comes to.\<close>

lemma telemetry_quiet:
  "run_with_telemetry re timeout owner clock i call False False f =
     (case fn_outcome f of
        Returned v \<Rightarrow>
          Inr \<lparr>tool_call_id = call_id call, result_name = call_name call, result_ok = True,
               result_value = Some v, error_repr = None, elapsed_ms = clock i\<rparr>
      | Raised e \<Rightarrow>
          (let x = item_error timeout (Some owner) i (fn_fired f) e
           in if re \<and> is_Exception x
              then Inr \<lparr>tool_call_id = call_id call, result_name = call_name call, result_ok = False,
                        result_value = None, error_repr = Some x, elapsed_ms = clock i\<rparr>
              else Inl x))"
  by (auto simp: run_with_telemetry_def timed_await_Raised timed_await_Returned item_error_def
      stray_cancellation_as_error_def split: outcome.splits option.splits)

lemma map_filter_all_Some:
  "(\<And>i. i < length xs \<Longrightarrow> xs ! i = Some (f i)) \<Longrightarrow> List.map_filter id xs = map f [0..<length xs]"
proof (induction xs arbitrary: f)
  case (Cons x xs)
  have "x = Some (f 0)" using Cons.prems [of 0] by simp
  moreover have "List.map_filter id xs = map (\<lambda>i. f (Suc i)) [0..<length xs]"
    using Cons.prems by (intro Cons.IH) (metis Suc_less_eq length_Cons nth_Cons_Suc)
  ultimately show ?case
    by (simp add: map_filter_simps upt_conv_Cons map_Suc_upt [symmetric] o_def id_def del: upt_Suc)
qed (simp add: map_filter_simps)

section \<open>Properties\<close>

text \<open>
  Resolution comes first and is by name: with \<open>return_exceptions=False\<close> the first call
  whose name is not registered raises its \<open>ToolNotFoundError\<close> bare, before any tool runs and
  whatever would happen later; with \<open>return_exceptions=True\<close> such a call gets a stub, and
  every other call its registered function, in input order.
\<close>

theorem dispatch_resolution:
  "resolve registry re tcs =
     (case filter (\<lambda>c. map_of registry (call_name c) = None) (if re then [] else tcs) of
        c # _ \<Rightarrow> Inl (ToolNotFoundError (call_name c))
      | [] \<Rightarrow> Inr (map (\<lambda>c. (c, case map_of registry (call_name c) of
                                Some fn \<Rightarrow> Registered fn | None \<Rightarrow> MissingStub (call_name c))) tcs)) \<and>
   (case dispatch_entry registry re concurrency timeout tcs of
      Inl e \<Rightarrow> dispatch_tool_calls ver registry tcs re concurrency timeout owner clock t0
                (es :: 'r fevent list) = Some (Inl e)
    | Inr _ \<Rightarrow> True)"
proof -
  have "filter (\<lambda>c. map_of registry (call_name c) = None) tcs = [] \<longleftrightarrow>
      (\<forall>c \<in> set tcs. map_of registry (call_name c) \<noteq> None)" by (simp add: filter_empty_conv)
  then show ?thesis
    by (auto simp: resolve_eq tool_for_def [abs_def] dispatch_tool_calls_def split: list.splits sum.splits)
qed

text \<open>
  C18. \<open>dispatch_tool_calls\<close> returns one result per call, in input order and none missing,
  carrying the id and name of its call. A registered tool's result is what its single await
  gave: the value, or, under \<open>return_exceptions\<close> only, the exception the library reports; a
  call to an unregistered tool fails with its \<open>ToolNotFoundError\<close>.
\<close>

theorem dispatch_results:
  assumes entry: "dispatch_entry registry re concurrency timeout tcs = Inr (k, t, resolved)"
    and ret: "dispatch_tool_calls ver registry tcs re concurrency timeout owner clock t0 es
                = Some (Inr out)"
  shows "length out = length tcs \<and>
    (\<forall>i < length tcs. tool_call_id (out ! i) = call_id (tcs ! i) \<and>
       result_name (out ! i) = call_name (tcs ! i) \<and> elapsed_ms (out ! i) = clock i \<and>
       (case map_of registry (call_name (tcs ! i)) of
          None \<Rightarrow> re \<and> \<not> result_ok (out ! i) \<and> result_value (out ! i) = None \<and>
                  error_repr (out ! i) = Some (ToolNotFoundError (call_name (tcs ! i)))
        | Some fn \<Rightarrow>
            (\<exists>f. EFn i f \<in> set es \<and> (\<forall>f'. EFn i f' \<in> set es \<longrightarrow> f' = f) \<and>
               (case fn_outcome f of
                  Returned v \<Rightarrow> result_ok (out ! i) \<and> result_value (out ! i) = Some v \<and>
                                error_repr (out ! i) = None
                | Raised e \<Rightarrow> re \<and> \<not> result_ok (out ! i) \<and> result_value (out ! i) = None \<and>
                    error_repr (out ! i) = Some (item_error t (Some owner) i (fn_fired f) e)))))"
proof (cases "tcs = []")
  case True
  then show ?thesis using entry ret by (auto simp: dispatch_tool_calls_def)
next
  case False
  obtain k' where k: "k = map_option Suc k'" using dispatch_slots [OF entry] .
  note R = dispatch_entry_Inr(2,3) [OF entry]
  obtain s where s: "dispatch_run ver k t re owner clock resolved t0 es = Some s"
    "final s = Some None" "out = List.map_filter id (slots s)"
    using dispatch_cases [OF entry False ret] by metis
  note g = s(1) [unfolded k dispatch_go]
  have len: "length (slots s) = length resolved" using dispatch_fan.returned_length [OF g] .
  have one: "\<exists>r f. slots s ! i = Some r \<and> EFn i f \<in> set es \<and>
      run_with_telemetry re t owner clock i (tcs ! i) False False (tool_end (tool_for registry (tcs ! i)) f) = Inr r"
    if i: "i < length resolved" for i
  proof -
    obtain r f where rf: "slots s ! i = Some r" "EFn i f \<in> set es"
      "dispatch_handler re t owner clock resolved i False False f = Store r"
      using dispatch_fan.returned [OF g s(2) i] by blast
    moreover have "run_with_telemetry re t owner clock i (tcs ! i) False False
        (tool_end (tool_for registry (tcs ! i)) f) = Inr r"
      using rf(3) i R(1) by (simp add: dispatch_handler_def split: sum.splits)
    ultimately show ?thesis by blast
  qed
  then have filled: "slots s ! i = Some (the (slots s ! i))" if "i < length (slots s)" for i
    using that len by fastforce
  have out: "out = map (\<lambda>i. the (slots s ! i)) [0..<length tcs]"
    using map_filter_all_Some [of "slots s", OF filled] s(3) len R(1) by simp
  show ?thesis
  proof (intro conjI allI impI)
    show "length out = length tcs" by (simp add: out)
  next
    fix i assume i: "i < length tcs"
    then have i': "i < length resolved" using R(1) by simp
    obtain r f where r: "slots s ! i = Some r" "EFn i f \<in> set es"
      "run_with_telemetry re t owner clock i (tcs ! i) False False (tool_end (tool_for registry (tcs ! i)) f) = Inr r"
      using one [OF i'] by blast
    have o: "out ! i = r" using i r(1) by (simp add: out)
    note Q = r(3) [unfolded telemetry_quiet]
    show "tool_call_id (out ! i) = call_id (tcs ! i)" "result_name (out ! i) = call_name (tcs ! i)"
      "elapsed_ms (out ! i) = clock i"
      unfolding o using Q by (auto simp: Let_def split: outcome.splits if_splits)
    have uniq: "\<forall>f'. EFn i f' \<in> set es \<longrightarrow> f' = f"
      using dispatch_fan.awaited_once [OF g i' _ r(2)] by blast
    show "case map_of registry (call_name (tcs ! i)) of
          None \<Rightarrow> re \<and> \<not> result_ok (out ! i) \<and> result_value (out ! i) = None \<and>
                  error_repr (out ! i) = Some (ToolNotFoundError (call_name (tcs ! i)))
        | Some fn \<Rightarrow>
            (\<exists>f. EFn i f \<in> set es \<and> (\<forall>f'. EFn i f' \<in> set es \<longrightarrow> f' = f) \<and>
               (case fn_outcome f of
                  Returned v \<Rightarrow> result_ok (out ! i) \<and> result_value (out ! i) = Some v \<and>
                                error_repr (out ! i) = None
                | Raised e \<Rightarrow> re \<and> \<not> result_ok (out ! i) \<and> result_value (out ! i) = None \<and>
                    error_repr (out ! i) = Some (item_error t (Some owner) i (fn_fired f) e)))"
    proof (cases "map_of registry (call_name (tcs ! i))")
      case None
      then show ?thesis unfolding o using Q
        by (auto simp: tool_end_def tool_for_def item_error_def Let_def split: if_splits option.splits)
    next
      case (Some fn)
      then have end_f: "tool_end (tool_for registry (tcs ! i)) f = f"
        by (simp add: tool_end_def tool_for_def)
      have "case fn_outcome f of
          Returned v \<Rightarrow> result_ok r \<and> result_value r = Some v \<and> error_repr r = None
        | Raised e \<Rightarrow> re \<and> \<not> result_ok r \<and> result_value r = None \<and>
            error_repr r = Some (item_error t (Some owner) i (fn_fired f) e)"
        using Q unfolding end_f by (auto simp: Let_def split: if_splits outcome.splits)
      with r(2) uniq show ?thesis
        unfolding o Some option.case by (intro exI [of _ f] conjI)
    qed
  qed
qed

text \<open>
  C19. The fail-fast latch of the dispatcher holds with and without a semaphore: with
  \<open>return_exceptions=False\<close>, once a tool has raised, no further tool is invoked, whatever the
  schedule, even where every call was created in the same tick.
\<close>

theorem dispatch_fail_fast:
  assumes entry: "dispatch_entry registry False concurrency timeout tcs = Inr (k, t, resolved)"
    and raised: "fn_outcome f = Raised e"
    and s: "dispatch_run ver k t False owner clock resolved t0 (es @ [EFn i f]) = Some s"
    and u: "dispatch_run ver k t False owner clock resolved t0 (es @ [EFn i f] @ fs) = Some u"
  shows "calls u = calls s"
proof -
  obtain k' where k: "k = map_option Suc k'" using dispatch_slots [OF entry] .
  note g = s [unfolded k dispatch_go]
  obtain r where r: "fan_step ver resolved (dispatch_handler False t owner clock resolved) r (EFn i f) = Some s"
    using g by (auto simp: run_snoc split: option.splits)
  obtain x where "fn_outcome (tool_end (snd (resolved ! i)) f) = Raised x"
    using raised by (cases "snd (resolved ! i)") (auto simp: tool_end_def)
  then have "\<exists>y. dispatch_handler False t owner clock resolved i (fan_stopping r) (creq r ! i) f
      = Propagate y"
    using timed_await_Raised [of "tool_end (snd (resolved ! i)) f" x t i "Some owner"]
    by (auto simp: dispatch_handler_def run_with_telemetry_def Let_def split: option.splits if_splits)
  then have "stopped s"
    using fan_stepD(2) [OF r] by (auto simp: stopped_def fan_fn_def fan_end_def fan_release_def)
  moreover have "run (fan_step ver resolved (dispatch_handler False t owner clock resolved)) s fs = Some u"
    using u g unfolding k dispatch_go append_assoc [symmetric]
    by (subst (asm) run_append) simp
  ultimately show ?thesis using dispatch_fan.no_call_after_stop [OF g] by blast
qed

text \<open>
  With \<open>return_exceptions=True\<close> a dispatch that nobody cancels, whose tools raise nothing
  outside \<open>Exception\<close> and \<open>CancelledError\<close>, returns a list: failing and unregistered tools do
  not poison the batch.
\<close>

theorem dispatch_partial_failures:
  assumes entry: "dispatch_entry registry True concurrency timeout tcs = Inr (k, t, resolved)"
    and quiet: "\<not> live_cancel t0 es"
    and mild: "\<And>i f e. EFn i f \<in> set es \<Longrightarrow> fn_outcome f = Raised e \<Longrightarrow>
                 is_Exception e \<or> e = CancelledError"
    and ret: "dispatch_tool_calls ver registry tcs True concurrency timeout owner clock t0 es = Some res"
  shows "\<exists>out. res = Inr out"
proof (cases "tcs = []")
  case True
  then show ?thesis using entry ret by (auto simp: dispatch_tool_calls_def)
next
  case False
  obtain k' where k: "k = map_option Suc k'" using dispatch_slots [OF entry] .
  obtain s where s: "dispatch_run ver k t True owner clock resolved t0 es = Some s"
    "\<And>e. res = Inl e \<Longrightarrow> \<exists>x. final s = Some (Some x) \<and> e = except_star owner x"
    using dispatch_cases [OF entry False ret] by metis
  note g = s(1) [unfolded k dispatch_go]
  have no: "x = CancelledError" if "EFn i f \<in> set es"
    "dispatch_handler True t owner clock resolved i st c f = Propagate x" for x i st c f
  proof -
    note T = telemetry_error [OF dispatch_handler_Propagate [OF that(2)]]
    obtain y where "fn_outcome (tool_end (snd (resolved ! i)) f) = Raised y" "x = y"
      using T(3) by blast
    then show ?thesis using T(2) mild [OF that(1)]
      by (cases "snd (resolved ! i)") (auto simp: tool_end_def)
  qed
  have False if e: "final s = Some (Some e)" for e
    using dispatch_fan.raised [OF g e]
  proof (elim disjE)
    assume "\<exists>ms. e = ExcGroup ms \<and> ms \<noteq> [] \<and> (\<forall>x \<in> set ms. x \<noteq> CancelledError \<and>
        (\<exists>i < length resolved. \<exists>f st c. EFn i f \<in> set es \<and>
           dispatch_handler True t owner clock resolved i st c f = Propagate x))"
    then obtain ms where "ms \<noteq> []" "\<forall>x \<in> set ms. x \<noteq> CancelledError \<and>
        (\<exists>i < length resolved. \<exists>f st c. EFn i f \<in> set es \<and>
           dispatch_handler True t owner clock resolved i st c f = Propagate x)"
      by blast
    then obtain x i f st c where "x \<noteq> CancelledError" "EFn i f \<in> set es"
      "dispatch_handler True t owner clock resolved i st c f = Propagate x"
      by (meson last_in_set)
    then show False using no by metis
  next
    assume b: "is_base_error e \<and> (\<exists>i < length resolved. \<exists>f st c. EFn i f \<in> set es \<and>
        dispatch_handler True t owner clock resolved i st c f = Propagate e)"
    then have "e = CancelledError" using no by metis
    then show False using b by simp
  qed (use quiet in simp)
  then show ?thesis using s(2) by (cases res) auto
qed

lemma except_star_group:
  assumes "ms \<noteq> []" and "\<forall>x \<in> set ms. is_Exception x"
  shows "except_star owner (ExcGroup ms) =
    (if own_deadline owner (hd ms) then hd ms else PipelineError ReprOfCause (Some (hd ms)))"
  using assms by (auto simp: except_star_def Let_def own_deadline_def split: exc.splits)

text \<open>
  C20. The shape of a failing dispatch, where \<open>process\<close> would raise a group: one exception, for
  one of its calls. The call's own deadline passes bare, by its index in this batch; anything
  a tool raised, a nested dispatch's deadline or \<open>PipelineError\<close> included, is wrapped in a
  \<open>PipelineError\<close> with the original as its cause; a cancellation from outside stays a
  \<open>CancelledError\<close>. The tools raise only \<open>Exception\<close>s or \<open>CancelledError\<close>, and cannot hold
  this call's fresh \<open>owner\<close> object.
\<close>

theorem dispatch_raises:
  assumes entry: "dispatch_entry registry re concurrency timeout tcs = Inr (k, t, resolved)"
    and tools: "\<forall>i f y. EFn i f \<in> set es \<longrightarrow> fn_outcome f = Raised y \<longrightarrow>
                  (is_Exception y \<or> y = CancelledError) \<and> \<not> own_deadline owner y"
    and ret: "dispatch_tool_calls ver registry tcs re concurrency timeout owner clock t0 es = Some (Inl e)"
  shows "e = CancelledError \<and> live_cancel t0 es \<or>
    (\<exists>i < length tcs. \<exists>f y. EFn i f \<in> set es \<and> fn_outcome f = Raised y \<and> \<not> re \<and>
       (e = PipelineTimeoutError i (the t) (Some owner) \<and> t \<noteq> None \<and> fn_fired f \<or>
        e = PipelineError ReprOfCause (Some y) \<and> y \<noteq> CancelledError \<or>
        e = PipelineError ReprOfCause (Some (PipelineError (StrayItem i) (Some CancelledError))) \<and>
          y = CancelledError))"
proof -
  note mild = tools [rule_format]
  have ne: "tcs \<noteq> []" using entry ret by (auto simp: dispatch_tool_calls_def)
  obtain k' where k: "k = map_option Suc k'" using dispatch_slots [OF entry] .
  note R = dispatch_entry_Inr(2,3) [OF entry]
  obtain s e0 where s: "dispatch_run ver k t re owner clock resolved t0 es = Some s"
    "final s = Some (Some e0)" "e = except_star owner e0"
    using dispatch_cases [OF entry ne ret] by metis
  note g = s(1) [unfolded k dispatch_go]
  have tool: "\<exists>y. fn_outcome f = Raised y \<and> \<not> re \<and> is_Exception x \<and>
      (x = PipelineTimeoutError i (the t) (Some owner) \<and> t \<noteq> None \<and> fn_fired f \<or>
       x = y \<and> y \<noteq> CancelledError \<and> \<not> own_deadline owner y \<or>
       x = PipelineError (StrayItem i) (Some CancelledError) \<and> y = CancelledError)"
    if x: "x \<noteq> CancelledError" "i < length tcs" "EFn i f \<in> set es"
      "dispatch_handler re t owner clock resolved i st c f = Propagate x" for x i f st c
  proof -
    note T = telemetry_error [OF dispatch_handler_Propagate [OF x(4)]]
    obtain y where y: "fn_outcome (tool_end (snd (resolved ! i)) f) = Raised y"
      "x = y \<or> x = PipelineTimeoutError i (the t) (Some owner) \<and> t \<noteq> None \<and>
         fn_fired (tool_end (snd (resolved ! i)) f) \<or>
       x = PipelineError (StrayItem i) (Some CancelledError) \<and> y = CancelledError"
      using T(3) by blast
    have nre: "\<not> re"
    proof
      assume re
      then have "x = y" "\<not> is_Exception x" using T(2,3) y(1) by auto
      then show False using y(1) x(1) mild [OF x(3)]
        by (cases "snd (resolved ! i)") (auto simp: tool_end_def)
    qed
    then have "map_of registry (call_name (tcs ! i)) \<noteq> None" using R(2) x(2) by auto
    then have "tool_end (snd (resolved ! i)) f = f"
      using R(1) x(2) by (auto simp: tool_end_def tool_for_def)
    then show ?thesis using y x(1) nre mild [OF x(3)] by auto
  qed
  have len: "length resolved = length tcs" using R(1) by simp
  from dispatch_fan.raised [OF g s(2)] show ?thesis
  proof (elim disjE)
    assume "e0 = CancelledError \<and> live_cancel t0 es"
    then show ?thesis using s(3) by (simp add: except_star_def)
  next
    assume "\<exists>ms. e0 = ExcGroup ms \<and> ms \<noteq> [] \<and> (\<forall>x \<in> set ms. x \<noteq> CancelledError \<and>
        (\<exists>i < length resolved. \<exists>f st c. EFn i f \<in> set es \<and>
           dispatch_handler re t owner clock resolved i st c f = Propagate x))"
    then obtain ms where ms: "e0 = ExcGroup ms" "ms \<noteq> []"
      and mem: "\<forall>x \<in> set ms. x \<noteq> CancelledError \<and> (\<exists>i < length tcs. \<exists>f st c. EFn i f \<in> set es \<and>
           dispatch_handler re t owner clock resolved i st c f = Propagate x)"
      unfolding len by (elim exE conjE) (rule that)
    have "is_Exception x" if "x \<in> set ms" for x using bspec [OF mem that] tool by metis
    then have e: "e = (if own_deadline owner (hd ms) then hd ms else PipelineError ReprOfCause (Some (hd ms)))"
      using s(3) ms except_star_group by simp
    from bspec [OF mem hd_in_set [OF ms(2)]] obtain i f st c where i: "hd ms \<noteq> CancelledError"
      "i < length tcs" "EFn i f \<in> set es"
      "dispatch_handler re t owner clock resolved i st c f = Propagate (hd ms)" by blast
    obtain y where y: "fn_outcome f = Raised y" "\<not> re"
      "hd ms = PipelineTimeoutError i (the t) (Some owner) \<and> t \<noteq> None \<and> fn_fired f \<or>
       hd ms = y \<and> y \<noteq> CancelledError \<and> \<not> own_deadline owner y \<or>
       hd ms = PipelineError (StrayItem i) (Some CancelledError) \<and> y = CancelledError"
      using tool [OF i] by blast
    then have "e = PipelineTimeoutError i (the t) (Some owner) \<and> t \<noteq> None \<and> fn_fired f \<or>
        e = PipelineError ReprOfCause (Some y) \<and> y \<noteq> CancelledError \<or>
        e = PipelineError ReprOfCause (Some (PipelineError (StrayItem i) (Some CancelledError))) \<and>
          y = CancelledError"
      using e by (elim disjE) (auto simp: own_deadline_def)
    with i(2,3) y(1,2) show ?thesis by blast
  next
    assume b: "is_base_error e0 \<and> (\<exists>i < length resolved. \<exists>f st c. EFn i f \<in> set es \<and>
        dispatch_handler re t owner clock resolved i st c f = Propagate e0)"
    then have "e0 \<noteq> CancelledError" "\<not> is_Exception e0" by (cases e0; simp)+
    then show ?thesis using b tool unfolding len by metis
  qed
qed

text \<open>
  A dispatch never hangs of itself, with or without a concurrency bound: its own steps are
  bounded by the number of calls and the cancels from outside, and every reachable state can
  be run to the end of the call.
\<close>

theorem dispatch_terminates:
  assumes entry: "dispatch_entry registry re concurrency timeout tcs = Inr (k, t, resolved)"
    and s: "dispatch_run ver k t re owner clock resolved t0 es = Some s"
  shows "cnt (\<lambda>e. \<not> external e) es \<le> 4 * length tcs + 6 + cnt external es \<and>
    (\<exists>fs u. dispatch_run ver k t re owner clock resolved t0 (es @ fs) = Some u \<and> final u \<noteq> None \<and>
       \<not> rearm_due u \<and> (\<forall>e \<in> set fs. \<not> external e))"
proof -
  obtain k' where k: "k = map_option Suc k'" using dispatch_slots [OF entry] .
  note g = s [unfolded k dispatch_go]
  have len: "length resolved = length tcs" using dispatch_entry_Inr(2) [OF entry] by simp
  show ?thesis
    unfolding k dispatch_go
    using dispatch_fan.steps_bounded [OF g] dispatch_fan.can_complete [OF g] len by simp
qed

section \<open>Witnesses\<close>

definition tools :: "nat registry" where
  "tools = [(''a'', 0), (''b'', 1)]"

definition two_calls :: "int tool_call list" where
  "two_calls = [\<lparr>call_id = ''t0'', call_name = ''a'', arguments = 5\<rparr>,
                \<lparr>call_id = ''t1'', call_name = ''b'', arguments = 6\<rparr>]"

definition two_resolved :: "(int tool_call \<times> nat tool_fn) list" where
  "two_resolved = map (\<lambda>c. (c, tool_for tools c)) two_calls"

definition unbounded_batch :: "nat fevent list" where
  "unbounded_batch = [EStart 0, EStart 1, EFn 1 (ended_with (Returned 8)),
     EFn 0 (ended_with (Raised (UserExc 3))), EDone 1, EDone 0, EParent]"

definition tool_failure :: "nat fevent list" where
  "tool_failure = [EStart 0, EFn 0 failure, EStart 1, EDone 0, EParent, EDone 1, EParent]"

lemma two_calls_entry:
  "dispatch_entry tools re PNone PNone two_calls = Inr (None, None, two_resolved)"
  by (cases re; code_simp)

lemma dispatch_results_witness:
  "\<exists>out. dispatch_tool_calls Py312 tools two_calls True PNone PNone 9 (\<lambda>_. 1) fresh_task unbounded_batch
     = Some (Inr out) \<and> length out = 2 \<and> tool_call_id (out ! 1) = ''t1''"
proof -
  have "case dispatch_tool_calls Py312 tools two_calls True PNone PNone 9 (\<lambda>_. 1) fresh_task unbounded_batch
     of Some (Inr _) \<Rightarrow> True | _ \<Rightarrow> False" by code_simp
  then obtain out where r: "dispatch_tool_calls Py312 tools two_calls True PNone PNone 9 (\<lambda>_. 1)
      fresh_task unbounded_batch = Some (Inr out)"
    by (cases "dispatch_tool_calls Py312 tools two_calls True PNone PNone 9 (\<lambda>_. 1) fresh_task unbounded_batch")
      (auto split: sum.splits)
  have "length two_calls = 2" "call_id (two_calls ! 1) = ''t1''" by (simp_all add: two_calls_def)
  then show ?thesis using dispatch_results [OF two_calls_entry r] r by auto
qed

lemma dispatch_fail_fast_witness:
  "\<exists>s u. dispatch_run Py312 None None False 9 (\<lambda>_. 1) two_resolved fresh_task ([EStart 0] @ [EFn 0 failure])
           = Some s \<and>
         dispatch_run Py312 None None False 9 (\<lambda>_. 1) two_resolved fresh_task
           ([EStart 0] @ [EFn 0 failure] @ [EStart 1]) = Some u \<and> calls u = calls s"
proof -
  have "dispatch_run Py312 None None False 9 (\<lambda>_. 1) two_resolved fresh_task
      ([EStart 0] @ [EFn 0 failure]) \<noteq> None"
    "dispatch_run Py312 None None False 9 (\<lambda>_. 1) two_resolved fresh_task
      ([EStart 0] @ [EFn 0 failure] @ [EStart 1]) \<noteq> None"
    by code_simp+
  then obtain s u where su: "dispatch_run Py312 None None False 9 (\<lambda>_. 1) two_resolved fresh_task
      ([EStart 0] @ [EFn 0 failure]) = Some s"
    "dispatch_run Py312 None None False 9 (\<lambda>_. 1) two_resolved fresh_task
      ([EStart 0] @ [EFn 0 failure] @ [EStart 1]) = Some u" by blast
  have "fn_outcome failure = Raised (UserExc 3)" by (simp add: failure_def ended_with_def)
  from dispatch_fail_fast [OF two_calls_entry this su] show ?thesis using su by blast
qed

lemma dispatch_partial_failures_witness:
  "\<exists>out. dispatch_tool_calls Py312 tools two_calls True PNone PNone 9 (\<lambda>_. 1) fresh_task unbounded_batch
     = Some (Inr out)"
proof -
  have "dispatch_tool_calls Py312 tools two_calls True PNone PNone 9 (\<lambda>_. 1) fresh_task unbounded_batch
      \<noteq> None" by code_simp
  then obtain res where r: "dispatch_tool_calls Py312 tools two_calls True PNone PNone 9 (\<lambda>_. 1)
      fresh_task unbounded_batch = Some res" by blast
  have "\<not> live_cancel fresh_task unbounded_batch" by code_simp
  moreover have "is_Exception e \<or> e = CancelledError"
    if "EFn i f \<in> set unbounded_batch" "fn_outcome f = Raised e" for i f e
    using that by (auto simp: unbounded_batch_def ended_with_def)
  ultimately have "\<exists>out. res = Inr out"
    using r by (rule dispatch_partial_failures [OF two_calls_entry])
  then show ?thesis using r by auto
qed

lemma dispatch_raises_witness:
  "dispatch_tool_calls Py312 tools two_calls False PNone PNone 9 (\<lambda>_. 1) fresh_task tool_failure
     = Some (Inl (PipelineError ReprOfCause (Some (UserExc 3)))) \<and>
   (\<exists>i f. EFn i f \<in> set tool_failure \<and> fn_outcome f = Raised (UserExc 3))"
proof -
  have r: "dispatch_tool_calls Py312 tools two_calls False PNone PNone 9 (\<lambda>_. 1) fresh_task tool_failure
      = Some (Inl (PipelineError ReprOfCause (Some (UserExc 3))))" by code_simp
  have m: "\<forall>i f y. EFn i f \<in> set tool_failure \<longrightarrow> fn_outcome f = Raised y \<longrightarrow>
      (is_Exception y \<or> y = CancelledError) \<and> \<not> own_deadline 9 y"
    by (auto simp: tool_failure_def failure_def ended_with_def own_deadline_def)
  from dispatch_raises [OF two_calls_entry m r]
  have "\<exists>i f. EFn i f \<in> set tool_failure \<and> fn_outcome f = Raised (UserExc 3)" by auto
  with r show ?thesis by blast
qed

lemma dispatch_terminates_witness:
  "\<exists>fs u. dispatch_run Py312 None None False 9 (\<lambda>_. 1) two_resolved fresh_task
            (take 2 unbounded_batch @ fs) = Some u \<and> final u \<noteq> None"
proof -
  have "dispatch_run Py312 None None False 9 (\<lambda>_. 1) two_resolved fresh_task (take 2 unbounded_batch)
      \<noteq> None" by code_simp
  then obtain s where s: "dispatch_run Py312 None None False 9 (\<lambda>_. 1) two_resolved fresh_task
      (take 2 unbounded_batch) = Some s" by blast
  then show ?thesis using dispatch_terminates [OF two_calls_entry s] by blast
qed

end
