(* ===== verification/Py_Str.thy ===== *)
theory Py_Str
  imports Py_Values
begin

text \<open>
  Python's \<open>str\<close> as the list of its code points, and what the library does with text: literals,
  decimal numbers, hexadecimal digits, \<open>join\<close> and \<open>replace\<close> of a character.
\<close>

type_synonym pystr = "nat list"
type_synonym bytes = "nat list"

text \<open>An ASCII literal.\<close>

definition lit :: "string \<Rightarrow> pystr" where
  "lit s = map of_char s"

text \<open>A code point that is no surrogate.\<close>

definition scalar :: "nat \<Rightarrow> bool" where
  "scalar c \<longleftrightarrow> c < 0xD800 \<or> 0xE000 \<le> c \<and> c < 0x110000"

definition hex_digit :: "nat \<Rightarrow> nat" where
  "hex_digit d = (if d < 10 then 48 + d else 87 + d)"

text \<open>\<open>str(n)\<close> of an int.\<close>

fun dec_nat :: "nat \<Rightarrow> pystr" where
  "dec_nat n = (if n < 10 then [48 + n] else dec_nat (n div 10) @ [48 + n mod 10])"

declare dec_nat.simps [simp del]

definition dec_int :: "int \<Rightarrow> pystr" where
  "dec_int n = (if n < 0 then 45 # dec_nat (nat (- n)) else dec_nat (nat n))"

fun py_join :: "pystr \<Rightarrow> pystr list \<Rightarrow> pystr" where
  "py_join sep [] = []"
| "py_join sep [x] = x"
| "py_join sep (x # y # zs) = x @ sep @ py_join sep (y # zs)"

text \<open>\<open>s.replace(c, t)\<close> of a single character.\<close>

definition replace_char :: "nat \<Rightarrow> pystr \<Rightarrow> pystr \<Rightarrow> pystr" where
  "replace_char c t s = concat (map (\<lambda>x. if x = c then t else [x]) s)"

definition is_digit :: "nat \<Rightarrow> bool" where
  "is_digit c \<longleftrightarrow> 48 \<le> c \<and> c \<le> 57"

definition undec :: "pystr \<Rightarrow> nat" where
  "undec ds = foldl (\<lambda>a d. 10 * a + (d - 48)) 0 ds"

lemma undec_snoc: "undec (ds @ [d]) = 10 * undec ds + (d - 48)"
  by (simp add: undec_def)

lemma is_digit_plus [simp]: "is_digit (48 + d) \<longleftrightarrow> d < 10"
  by (auto simp: is_digit_def)

lemma dec_nat_digits: "dec_nat n \<noteq> [] \<and> list_all is_digit (dec_nat n)"
proof (induction n rule: dec_nat.induct)
  case (1 n)
  then show ?case by (subst dec_nat.simps, subst (2) dec_nat.simps) simp
qed

lemma undec_dec_nat: "undec (dec_nat n) = n"
proof (induction n rule: dec_nat.induct)
  case (1 n)
  show ?case
  proof (cases "n < 10")
    case True
    then show ?thesis by (subst dec_nat.simps) (simp add: undec_def)
  next
    case False
    then show ?thesis using 1 by (subst dec_nat.simps) (simp add: undec_snoc)
  qed
qed

lemma dec_nat_inj: "dec_nat m = dec_nat n \<longleftrightarrow> m = n"
  using undec_dec_nat by metis

section \<open>Splitting and fixed-point text\<close>

text \<open>\<open>s.split(c)\<close>.\<close>

fun split_char :: "nat \<Rightarrow> pystr \<Rightarrow> pystr list" where
  "split_char c [] = [[]]"
| "split_char c (x # xs) =
     (if x = c then [] # split_char c xs
      else (case split_char c xs of [] \<Rightarrow> [[x]] | y # ys \<Rightarrow> (x # y) # ys))"

text \<open>The nearest integer, ties to even.\<close>

definition round_rat :: "rat \<Rightarrow> int" where
  "round_rat q =
     (let m = \<lfloor>q\<rfloor>; r = q - of_int m
      in if r > 1 / 2 \<or> (r = 1 / 2 \<and> odd m) then m + 1 else m)"

definition pad_zeros :: "nat \<Rightarrow> pystr \<Rightarrow> pystr" where
  "pad_zeros n s = replicate (n - length s) 48 @ s"

text \<open>\<open>f"{q:.nf}"\<close>: the exact value of the float, rounded to \<open>n\<close> decimals.\<close>

definition fixed_rat :: "nat \<Rightarrow> rat \<Rightarrow> pystr" where
  "fixed_rat n q =
     (let m = nat (round_rat (10 ^ n * \<bar>q\<bar>))
      in (if q < 0 then [45] else []) @ dec_nat (m div 10 ^ n) @ [46] @
         pad_zeros n (dec_nat (m mod 10 ^ n)))"

definition fixed :: "nat \<Rightarrow> pyfloat \<Rightarrow> pystr" where
  "fixed n f =
     (case f of Fin q \<Rightarrow> fixed_rat n q | PInf \<Rightarrow> lit ''inf'' | NInf \<Rightarrow> lit ''-inf'' | NaN \<Rightarrow> lit ''nan'')"

section \<open>Texts without surrogates\<close>

text \<open>What is known to have no surrogate, and so to be encoded by every UTF-8 codec.\<close>

named_theorems scalars

lemma lit_scalar [scalars]: "list_all scalar (lit s)"
proof -
  have "scalar (of_char c)" for c :: char
    using nat_of_char_less_256 [of c] unfolding scalar_def by linarith
  then show ?thesis by (simp add: lit_def list_all_iff)
qed

lemma dec_nat_scalar [scalars]: "list_all scalar (dec_nat n)"
  using dec_nat_digits [of n] by (auto simp: list_all_iff is_digit_def scalar_def)

lemma py_join_all: "list_all P sep \<Longrightarrow> list_all (list_all P) xs \<Longrightarrow> list_all P (py_join sep xs)"
  by (induction sep xs rule: py_join.induct) simp_all

lemma fixed_scalar [scalars]: "list_all scalar (fixed n f)"
proof -
  have "list_all scalar (replicate k 48)" "scalar 46" "scalar 45" for k
    by (simp_all add: list_all_iff scalar_def)
  then show ?thesis
    by (cases f) (simp_all add: fixed_def fixed_rat_def pad_zeros_def lit_scalar dec_nat_scalar Let_def)
qed

end
