(* ===== verification/File_Names.thy ===== *)
theory File_Names
  imports Py_Str
begin

text \<open>
  Names as the kernel and Python see them, for \<open>io_utils.py\<close>: a \<open>str\<close> is its list of code
  points, \<open>os.fsencode\<close> on POSIX is UTF-8 with \<open>surrogateescape\<close>, and decoding is UTF-8
  with an error handler applied byte by byte (the bytes of an invalid sequence after its
  first are no valid start either, so this is what CPython's decoder gives).
  On top of them \<open>_name_bytes\<close>, \<open>_cap_base_for_temp\<close>, the temp file's name,
  \<open>display_path\<close>, and the suffix operations of \<open>pathlib\<close> (Python 3.11 to 3.13) that
  \<open>sibling_path\<close> uses.
\<close>

section \<open>UTF-8\<close>

definition escape_point :: "nat \<Rightarrow> bool" where
  "escape_point c \<longleftrightarrow> 0xDC80 \<le> c \<and> c \<le> 0xDCFF"

definition utf8_char :: "nat \<Rightarrow> bytes" where
  "utf8_char c =
     (if c < 0x80 then [c]
      else if c < 0x800 then [0xC0 + c div 64, 0x80 + c mod 64]
      else if c < 0x10000 then [0xE0 + c div 4096, 0x80 + c div 64 mod 64, 0x80 + c mod 64]
      else [0xF0 + c div 262144, 0x80 + c div 4096 mod 64, 0x80 + c div 64 mod 64, 0x80 + c mod 64])"

fun fsencode :: "pystr \<Rightarrow> exc + bytes" where
  "fsencode [] = Inr []"
| "fsencode (c # cs) =
     (if scalar c
      then (case fsencode cs of Inl e \<Rightarrow> Inl e | Inr bs \<Rightarrow> Inr (utf8_char c @ bs))
      else if escape_point c
      then (case fsencode cs of Inl e \<Rightarrow> Inl e | Inr bs \<Rightarrow> Inr ((c - 0xDC00) # bs))
      else Inl UnicodeEncodeError)"

definition cont :: "nat \<Rightarrow> bool" where
  "cont b \<longleftrightarrow> 0x80 \<le> b \<and> b < 0xC0"

text \<open>
  A valid sequence that starts with byte \<open>b\<close>: its code point and how many of the following
  bytes it takes. Overlong forms, surrogates and code points from \<open>0x110000\<close> on are invalid.
\<close>

definition utf8_lead :: "nat \<Rightarrow> bytes \<Rightarrow> (nat \<times> nat) option" where
  "utf8_lead b bs =
     (if b < 0x80 then Some (b, 0)
      else if 0xC0 \<le> b \<and> b < 0xE0 then
        (case bs of
           b1 # _ \<Rightarrow>
             (let c = (b - 0xC0) * 64 + (b1 - 0x80)
              in if cont b1 \<and> 0x80 \<le> c then Some (c, 1) else None)
         | _ \<Rightarrow> None)
      else if 0xE0 \<le> b \<and> b < 0xF0 then
        (case bs of
           b1 # b2 # _ \<Rightarrow>
             (let c = (b - 0xE0) * 4096 + (b1 - 0x80) * 64 + (b2 - 0x80)
              in if cont b1 \<and> cont b2 \<and> 0x800 \<le> c \<and> scalar c then Some (c, 2) else None)
         | _ \<Rightarrow> None)
      else if 0xF0 \<le> b \<and> b < 0xF8 then
        (case bs of
           b1 # b2 # b3 # _ \<Rightarrow>
             (let c = (b - 0xF0) * 262144 + (b1 - 0x80) * 4096 + (b2 - 0x80) * 64 + (b3 - 0x80)
              in if cont b1 \<and> cont b2 \<and> cont b3 \<and> 0x10000 \<le> c \<and> scalar c then Some (c, 3) else None)
         | _ \<Rightarrow> None)
      else None)"

fun utf8_decode :: "(nat \<Rightarrow> pystr) \<Rightarrow> bytes \<Rightarrow> pystr" where
  "utf8_decode handler [] = []"
| "utf8_decode handler (b # bs) =
     (case utf8_lead b bs of
        Some (c, k) \<Rightarrow> c # utf8_decode handler (drop k bs)
      | None \<Rightarrow> handler b @ utf8_decode handler bs)"

text \<open>\<open>os.fsdecode\<close>, as \<open>sys.argv\<close> is decoded.\<close>

definition fsdecode :: "bytes \<Rightarrow> pystr" where
  "fsdecode bs = utf8_decode (\<lambda>b. [0xDC00 + b]) bs"

section \<open>The code\<close>

definition backslash :: "nat \<Rightarrow> pystr" where
  "backslash b = [92, 120, hex_digit (b div 16), hex_digit (b mod 16)]"

definition display_path :: "pystr \<Rightarrow> exc + pystr" where
  "display_path path =
     (case fsencode path of Inl e \<Rightarrow> Inl e | Inr bs \<Rightarrow> Inr (utf8_decode backslash bs))"

definition MAX_TEMP_BASE_BYTES :: nat where
  "MAX_TEMP_BASE_BYTES = 200"

definition name_bytes :: "pystr \<Rightarrow> exc + nat" where
  "name_bytes base = (case fsencode base of Inl e \<Rightarrow> Inl e | Inr bs \<Rightarrow> Inr (length bs))"

text \<open>The loop of \<open>_cap_base_for_temp\<close>.\<close>

fun trim_base :: "pystr \<Rightarrow> exc + pystr" where
  "trim_base out =
     (if out = [] then Inr out
      else (case name_bytes out of
              Inl e \<Rightarrow> Inl e
            | Inr n \<Rightarrow> if n > MAX_TEMP_BASE_BYTES then trim_base (butlast out) else Inr out))"

declare trim_base.simps [simp del]

definition cap_base_for_temp :: "pystr \<Rightarrow> exc + pystr" where
  "cap_base_for_temp base =
     (case name_bytes base of
        Inl e \<Rightarrow> Inl e
      | Inr n \<Rightarrow> if n \<le> MAX_TEMP_BASE_BYTES then Inr base else trim_base base)"

text \<open>The f-strings of \<open>_create_temp\<close>: \<open>.<base>.<token>.tmp\<close>.\<close>

definition temp_name :: "pystr \<Rightarrow> pystr \<Rightarrow> pystr" where
  "temp_name base token = lit ''.'' @ base @ lit ''.'' @ token @ lit ''.tmp''"

text \<open>\<open>PurePath.suffix\<close> and \<open>with_suffix\<close> on the final component.\<close>

definition rfind_dot :: "pystr \<Rightarrow> nat option" where
  "rfind_dot name = find (\<lambda>i. name ! i = 46) (rev [0..<length name])"

definition py_suffix :: "pystr \<Rightarrow> pystr" where
  "py_suffix name =
     (case rfind_dot name of
        Some i \<Rightarrow> if 0 < i \<and> i < length name - 1 then drop i name else []
      | None \<Rightarrow> [])"

definition with_suffix :: "pystr \<Rightarrow> pystr \<Rightarrow> exc + pystr" where
  "with_suffix name suffix =
     (if suffix \<noteq> [] \<and> hd suffix \<noteq> 46 \<or> suffix = [46] then Inl (ValueError ''suffix'')
      else if name = [] then Inl (ValueError ''empty name'')
      else Inr (take (length name - length (py_suffix name)) name @ suffix))"

text \<open>
  \<open>str.lower\<close> on ASCII. No other character lowers to one of the letters of \<open>.md\<close> and
  \<open>.json\<close>, the suffixes the library is called with.
\<close>

definition ascii_lower :: "pystr \<Rightarrow> pystr" where
  "ascii_lower s = map (\<lambda>c. if 65 \<le> c \<and> c \<le> 90 then c + 32 else c) s"

section \<open>Encoding and decoding\<close>

lemma scalar_bound: "scalar c \<Longrightarrow> c < 0x110000"
  by (auto simp: scalar_def)

lemma utf8_char_nonempty [simp]: "utf8_char c \<noteq> []"
  by (simp add: utf8_char_def)

lemma fsencode_append:
  "fsencode (xs @ ys) =
     (case fsencode xs of
        Inl e \<Rightarrow> Inl e
      | Inr bs \<Rightarrow> (case fsencode ys of Inl e \<Rightarrow> Inl e | Inr bs' \<Rightarrow> Inr (bs @ bs')))"
  by (induction xs) (auto split: sum.splits)

lemma fsencode_scalars: "list_all scalar p \<Longrightarrow> fsencode p = Inr (concat (map utf8_char p))"
  by (induction p) auto

lemma base64_2: "c div 4096 * 4096 + c div 64 mod 64 * 64 + c mod 64 = (c :: nat)"
proof -
  have "c div 4096 = c div 64 div 64" by (simp flip: div_mult2_eq)
  then show ?thesis using div_mult_mod_eq [of c 64] div_mult_mod_eq [of "c div 64" 64] by linarith
qed

lemma base64_3:
  "c div 262144 * 262144 + c div 4096 mod 64 * 4096 + c div 64 mod 64 * 64 + c mod 64 = (c :: nat)"
proof -
  have "c div 262144 = c div 4096 div 64" by (simp flip: div_mult2_eq)
  then show ?thesis using base64_2 [of c] div_mult_mod_eq [of "c div 4096" 64] by linarith
qed

lemma utf8_lead_char:
  assumes "scalar c"
  shows "utf8_lead (hd (utf8_char c)) (tl (utf8_char c) @ rest) = Some (c, length (tl (utf8_char c)))"
proof -
  note b = scalar_bound [OF assms]
  consider "c < 0x80" | "0x80 \<le> c" "c < 0x800" | "0x800 \<le> c" "c < 0x10000" | "0x10000 \<le> c" by linarith
  then show ?thesis
  proof cases
    case 1
    then show ?thesis by (simp add: utf8_char_def utf8_lead_def)
  next
    case 2
    have "c div 64 < 32" using 2 by (simp add: div_less_iff_less_mult)
    moreover have "c div 64 * 64 + c mod 64 = c" by (rule div_mult_mod_eq)
    moreover have "c mod 64 < 64" by simp
    ultimately show ?thesis using 2 by (simp add: utf8_char_def utf8_lead_def cont_def Let_def)
  next
    case 3
    define x y z where "x = c div 4096" and "y = c div 64 mod 64" and "z = c mod 64"
    have "x < 16" using 3 by (simp add: x_def div_less_iff_less_mult)
    moreover have "y < 64" "z < 64" by (simp_all add: y_def z_def)
    moreover have "x * 4096 + y * 64 + z = c" unfolding x_def y_def z_def by (rule base64_2)
    moreover have "utf8_char c = [0xE0 + x, 0x80 + y, 0x80 + z]"
      using 3 by (simp add: utf8_char_def x_def y_def z_def)
    ultimately show ?thesis using 3 assms by (simp add: utf8_lead_def cont_def Let_def)
  next
    case 4
    define w x y z where "w = c div 262144" and "x = c div 4096 mod 64" and "y = c div 64 mod 64" and "z = c mod 64"
    have "w < 8" using b by (simp add: w_def div_less_iff_less_mult)
    moreover have "x < 64" "y < 64" "z < 64" by (simp_all add: x_def y_def z_def)
    moreover have "w * 262144 + x * 4096 + y * 64 + z = c"
      unfolding w_def x_def y_def z_def by (rule base64_3)
    moreover have "utf8_char c = [0xF0 + w, 0x80 + x, 0x80 + y, 0x80 + z]"
      using 4 by (simp add: utf8_char_def w_def x_def y_def z_def)
    ultimately show ?thesis using 4 assms by (simp add: utf8_lead_def cont_def Let_def)
  qed
qed

lemma utf8_char_bounds: "scalar c \<Longrightarrow> \<forall>b \<in> set (utf8_char c). b < 256"
  by (auto simp: utf8_char_def scalar_def div_less_iff_less_mult intro!: mod_less_divisor [THEN order.strict_trans2, of 64])

lemma utf8_decode_char:
  assumes "scalar c"
  shows "utf8_decode h (utf8_char c @ rest) = c # utf8_decode h rest"
proof -
  obtain b bs where "utf8_char c = b # bs" by (cases "utf8_char c") auto
  then show ?thesis using utf8_lead_char [OF assms, of rest] by simp
qed

lemma utf8_decode_scalars: "list_all scalar p \<Longrightarrow> utf8_decode h (concat (map utf8_char p)) = p"
  by (induction p) (simp_all add: utf8_decode_char)

text \<open>The other way round: what the decoder reads is what the encoder writes.\<close>

lemma base64_digits:
  fixes y z :: nat
  assumes "y < 64" and "z < 64"
  shows "(x * 64 + z) div 64 = x" "(x * 64 + z) mod 64 = z"
    "(x * 4096 + y * 64 + z) div 4096 = x"
    "(x * 4096 + y * 64 + z) div 64 mod 64 = y" "(x * 4096 + y * 64 + z) mod 64 = z"
proof -
  show a: "(x * 64 + z) div 64 = x" "(x * 64 + z) mod 64 = z" for x using assms(2) by simp_all
  have e: "x * 4096 + y * 64 + z = (x * 64 + y) * 64 + z" by simp
  show "(x * 4096 + y * 64 + z) mod 64 = z" unfolding e by (rule a)
  have d: "(x * 4096 + y * 64 + z) div 64 = x * 64 + y" unfolding e by (rule a)
  show "(x * 4096 + y * 64 + z) div 64 mod 64 = y" unfolding d using assms(1) by simp
  have "(x * 4096 + y * 64 + z) div 4096 = (x * 4096 + y * 64 + z) div 64 div 64" by (simp flip: div_mult2_eq)
  then show "(x * 4096 + y * 64 + z) div 4096 = x" unfolding d using assms(1) by simp
qed

lemma base64_digits4:
  fixes x y z :: nat
  assumes "x < 64" and "y < 64" and "z < 64"
  shows "(w * 262144 + x * 4096 + y * 64 + z) div 262144 = w"
    "(w * 262144 + x * 4096 + y * 64 + z) div 4096 mod 64 = x"
    "(w * 262144 + x * 4096 + y * 64 + z) div 64 mod 64 = y"
    "(w * 262144 + x * 4096 + y * 64 + z) mod 64 = z"
proof -
  let ?n = "w * 262144 + x * 4096 + y * 64 + z"
  have e: "?n = (w * 64 + x) * 4096 + y * 64 + z" by simp
  show "?n div 64 mod 64 = y" "?n mod 64 = z" unfolding e by (rule base64_digits [OF assms(2,3)])+
  have d: "?n div 4096 = w * 64 + x" unfolding e by (rule base64_digits [OF assms(2,3)])
  show "?n div 4096 mod 64 = x" unfolding d using assms(1) by simp
  have "?n div 262144 = ?n div 4096 div 64" by (simp flip: div_mult2_eq)
  then show "?n div 262144 = w" unfolding d using assms(1) by simp
qed

lemma contD: "cont b \<Longrightarrow> b - 0x80 < 64 \<and> 0x80 + (b - 0x80) = b"
  by (auto simp: cont_def)

lemma utf8_lead_2:
  assumes "utf8_lead b bs = Some (c, k)" and "0x80 \<le> b" and "b < 0xE0"
  shows "scalar c \<and> utf8_char c = b # take k bs \<and> k \<le> length bs"
proof -
  obtain b1 r where r: "bs = b1 # r" "cont b1" "k = 1" "c = (b - 0xC0) * 64 + (b1 - 0x80)"
    "0x80 \<le> c" "0xC0 \<le> b"
    using assms by (auto simp: utf8_lead_def Let_def split: if_splits list.splits)
  have z: "b1 - 0x80 < 64" "0x80 + (b1 - 0x80) = b1" using contD [OF r(2)] by simp_all
  have c: "c < 0x800" using r(4,6) z(1) assms(3) by linarith
  have "utf8_char c = [0xC0 + (b - 0xC0), 0x80 + (b1 - 0x80)]"
    unfolding utf8_char_def using c r(5) base64_digits [OF z(1) z(1)] by (simp add: r(4))
  then show ?thesis using r(1,3,6) z c by (simp add: scalar_def)
qed

lemma utf8_lead_3:
  assumes "utf8_lead b bs = Some (c, k)" and "0xE0 \<le> b" and "b < 0xF0"
  shows "scalar c \<and> utf8_char c = b # take k bs \<and> k \<le> length bs"
proof -
  obtain b1 b2 r where r: "bs = b1 # b2 # r" "cont b1" "cont b2" "k = 2"
    "c = (b - 0xE0) * 4096 + (b1 - 0x80) * 64 + (b2 - 0x80)" "0x800 \<le> c" "scalar c"
    using assms by (auto simp: utf8_lead_def Let_def split: if_splits list.splits)
  have z: "b1 - 0x80 < 64" "0x80 + (b1 - 0x80) = b1" "b2 - 0x80 < 64" "0x80 + (b2 - 0x80) = b2"
    using contD [OF r(2)] contD [OF r(3)] by simp_all
  have c: "c < 0x10000" using r(5) z(1,3) assms(2,3) by linarith
  have "utf8_char c = [0xE0 + (b - 0xE0), 0x80 + (b1 - 0x80), 0x80 + (b2 - 0x80)]"
    unfolding utf8_char_def using c r(6) base64_digits(3-5) [OF z(1,3), of "b - 0xE0", folded r(5)] by simp
  then show ?thesis using r(1,4,7) z assms(2) by simp
qed

lemma utf8_lead_4:
  assumes "utf8_lead b bs = Some (c, k)" and "0xF0 \<le> b"
  shows "scalar c \<and> utf8_char c = b # take k bs \<and> k \<le> length bs"
proof -
  obtain b1 b2 b3 r where r: "bs = b1 # b2 # b3 # r" "cont b1" "cont b2" "cont b3" "k = 3"
    "c = (b - 0xF0) * 262144 + (b1 - 0x80) * 4096 + (b2 - 0x80) * 64 + (b3 - 0x80)"
    "0x10000 \<le> c" "scalar c"
    using assms by (auto simp: utf8_lead_def Let_def split: if_splits list.splits)
  have z: "b1 - 0x80 < 64" "0x80 + (b1 - 0x80) = b1" "b2 - 0x80 < 64" "0x80 + (b2 - 0x80) = b2"
    "b3 - 0x80 < 64" "0x80 + (b3 - 0x80) = b3"
    using contD [OF r(2)] contD [OF r(3)] contD [OF r(4)] by simp_all
  have "utf8_char c = [0xF0 + (b - 0xF0), 0x80 + (b1 - 0x80), 0x80 + (b2 - 0x80), 0x80 + (b3 - 0x80)]"
    unfolding utf8_char_def using r(7) base64_digits4 [OF z(1,3,5), of "b - 0xF0", folded r(6)] by simp
  then show ?thesis using r(1,5,8) z assms(2) by simp
qed

lemma utf8_lead_Some:
  assumes "utf8_lead b bs = Some (c, k)"
  shows "scalar c \<and> utf8_char c = b # take k bs \<and> k \<le> length bs"
proof -
  consider "b < 0x80" | "0x80 \<le> b" "b < 0xE0" | "0xE0 \<le> b" "b < 0xF0" | "0xF0 \<le> b" by linarith
  then show ?thesis
  proof cases
    case 1
    then show ?thesis using assms by (simp add: utf8_lead_def utf8_char_def scalar_def)
  next
    case 2
    then show ?thesis by (rule utf8_lead_2 [OF assms])
  next
    case 3
    then show ?thesis by (rule utf8_lead_3 [OF assms])
  next
    case 4
    then show ?thesis by (rule utf8_lead_4 [OF assms])
  qed
qed

lemma utf8_lead_None: "utf8_lead b bs = None \<Longrightarrow> 0x80 \<le> b"
  by (auto simp: utf8_lead_def split: if_splits)

text \<open>Every name the kernel has comes back from Python as the same bytes.\<close>

lemma fsencode_fsdecode: "\<forall>b \<in> set bs. b < 256 \<Longrightarrow> fsencode (fsdecode bs) = Inr bs"
proof (induction "\<lambda>b. [0xDC00 + b :: nat]" bs rule: utf8_decode.induct)
  case (2 b bs)
  show ?case
  proof (cases "utf8_lead b bs")
    case None
    then have "0x80 \<le> b" by (rule utf8_lead_None)
    then show ?thesis using 2 None by (simp add: fsdecode_def scalar_def escape_point_def)
  next
    case (Some ck)
    obtain c k where ck: "ck = (c, k)" by fastforce
    note l = utf8_lead_Some [OF Some [unfolded ck]]
    have "\<forall>b \<in> set (drop k bs). b < 256" using "2.prems" by (meson in_set_dropD list.set_intros(2))
    then have "fsencode (fsdecode (drop k bs)) = Inr (drop k bs)"
      using "2.hyps"(2) [OF Some ck [symmetric]] by simp
    then show ?thesis using l Some ck by (simp add: fsdecode_def)
  qed
qed (simp add: fsdecode_def)

lemma utf8_decode_scalar:
  "(\<And>b. b \<in> set bs \<Longrightarrow> list_all scalar (h b)) \<Longrightarrow> list_all scalar (utf8_decode h bs)"
proof (induction h bs rule: utf8_decode.induct)
  case (2 h b bs)
  show ?case
  proof (cases "utf8_lead b bs")
    case None
    then show ?thesis using 2 by simp
  next
    case (Some ck)
    obtain c k where ck: "ck = (c, k)" by fastforce
    have "list_all scalar (utf8_decode h (drop k bs))"
      using "2.IH"(2) [OF Some ck [symmetric]] "2.prems" by (meson in_set_dropD list.set_intros(2))
    then show ?thesis using utf8_lead_Some [OF Some [unfolded ck]] Some ck by simp
  qed
qed simp

lemma fsencode_bytes: "fsencode p = Inr bs \<Longrightarrow> \<forall>b \<in> set bs. b < 256"
proof (induction p arbitrary: bs)
  case (Cons c cs)
  then show ?case
    using utf8_char_bounds [of c] by (auto simp: escape_point_def split: if_splits sum.splits)
qed simp

lemma backslash_scalar: "b < 256 \<Longrightarrow> list_all scalar (backslash b)"
  by (auto simp: backslash_def hex_digit_def scalar_def div_less_iff_less_mult)

section \<open>The capped base name\<close>

lemma fsencode_take: "fsencode p = Inr bs \<Longrightarrow> \<exists>bs'. fsencode (take n p) = Inr bs'"
  using fsencode_append [of "take n p" "drop n p"] by (auto split: sum.splits)

lemma name_bytes_Inr: "name_bytes p = Inr n \<longleftrightarrow> (\<exists>bs. fsencode p = Inr bs \<and> length bs = n)"
  by (auto simp: name_bytes_def split: sum.splits)

text \<open>The loop returns the longest prefix within the budget.\<close>

lemma trim_base_longest:
  assumes "fsencode out = Inr bs"
  shows "\<exists>n k. trim_base out = Inr (take n out) \<and> n \<le> length out \<and>
    name_bytes (take n out) = Inr k \<and> k \<le> MAX_TEMP_BASE_BYTES \<and>
    (\<forall>m. n < m \<longrightarrow> m \<le> length out \<longrightarrow>
       (\<exists>k. name_bytes (take m out) = Inr k \<and> MAX_TEMP_BASE_BYTES < k))"
  using assms
proof (induction out arbitrary: bs rule: trim_base.induct)
  case (1 out)
  show ?case
  proof (cases "out \<noteq> [] \<and> MAX_TEMP_BASE_BYTES < length bs")
    case True
    then have out: "out \<noteq> []" and big: "MAX_TEMP_BASE_BYTES < length bs" by simp_all
    have nb: "name_bytes out = Inr (length bs)" using "1.prems" by (simp add: name_bytes_def)
    have bl: "butlast out = take (length out - 1) out" by (rule butlast_conv_take)
    obtain bs' where "fsencode (butlast out) = Inr bs'"
      using fsencode_take [OF "1.prems"] bl by metis
    from "1.IH" [OF out nb big this] obtain n k where
      n: "trim_base (butlast out) = Inr (take n (butlast out))" "n \<le> length (butlast out)"
      "name_bytes (take n (butlast out)) = Inr k" "k \<le> MAX_TEMP_BASE_BYTES"
      "\<forall>m. n < m \<longrightarrow> m \<le> length (butlast out) \<longrightarrow>
         (\<exists>k. name_bytes (take m (butlast out)) = Inr k \<and> MAX_TEMP_BASE_BYTES < k)"
      by blast
    have "length (butlast out) < length out" using out by simp
    then have cut: "take m (butlast out) = take m out" if "m \<le> length (butlast out)" for m
      using that by (intro take_butlast) (rule le_less_trans)
    have "\<exists>k. name_bytes (take m out) = Inr k \<and> MAX_TEMP_BASE_BYTES < k"
      if "n < m" "m \<le> length out" for m
    proof (cases "m = length out")
      case True
      then show ?thesis using nb big by simp
    next
      case False
      then have m: "m \<le> length (butlast out)" using that(2) by simp
      then show ?thesis using n(5) that(1) cut [OF m] by metis
    qed
    then show ?thesis
      using n(1-4) nb out big cut [OF n(2)]
      by (intro exI [of _ n] exI [of _ k]) (simp add: trim_base.simps [of out])
  next
    case False
    then have small: "length bs \<le> MAX_TEMP_BASE_BYTES" using "1.prems" by (cases out) auto
    then have "trim_base out = Inr out" using "1.prems" by (simp add: trim_base.simps [of out] name_bytes_def)
    moreover have "name_bytes out = Inr (length bs)" using "1.prems" by (simp add: name_bytes_def)
    ultimately show ?thesis using small by (intro exI [of _ "length out"] exI [of _ "length bs"]) simp
  qed
qed

lemma cap_base_longest:
  assumes "fsencode base = Inr bs"
  shows "\<exists>n k. cap_base_for_temp base = Inr (take n base) \<and>
    name_bytes (take n base) = Inr k \<and> k \<le> MAX_TEMP_BASE_BYTES \<and>
    (\<forall>m. n < m \<longrightarrow> m \<le> length base \<longrightarrow>
       (\<exists>k. name_bytes (take m base) = Inr k \<and> MAX_TEMP_BASE_BYTES < k))"
proof (cases "length bs \<le> MAX_TEMP_BASE_BYTES")
  case True
  then show ?thesis using assms
    by (intro exI [of _ "length base"] exI [of _ "length bs"]) (simp add: cap_base_for_temp_def name_bytes_def)
next
  case False
  then have "cap_base_for_temp base = trim_base base"
    using assms by (simp add: cap_base_for_temp_def name_bytes_def)
  then show ?thesis using trim_base_longest [OF assms] by metis
qed

lemma fsencode_ascii: "list_all (\<lambda>c. c < 0x80) s \<Longrightarrow> fsencode s = Inr s"
  by (induction s) (simp_all add: scalar_def utf8_char_def)

lemma lit_ascii:
  "fsencode (lit ''.'') = Inr (lit ''.'')" "fsencode (lit ''.tmp'') = Inr (lit ''.tmp'')"
  by (rule fsencode_ascii, simp add: lit_def)+

lemma fsencode_temp_name:
  assumes "fsencode base = Inr bs" and "list_all (\<lambda>c. c < 0x80) token"
  shows "fsencode (temp_name base token) = Inr (lit ''.'' @ bs @ lit ''.'' @ token @ lit ''.tmp'')"
  using assms by (simp add: temp_name_def fsencode_append lit_ascii fsencode_ascii)

section \<open>Properties\<close>

text \<open>
  C39. The temp file's name always fits: for every name the file system can hold, a name of 255
  bytes included, \<open>_cap_base_for_temp\<close> returns the longest prefix of whole characters within
  200 bytes (the name itself when it is short enough), and the name built from it and an
  eight-character token stays within 214 bytes, below the kernel's limit of 255.
\<close>

theorem temp_name_fits:
  assumes "fsencode base = Inr bs" and "list_all (\<lambda>c. c < 0x80) token" and "length token = 8"
  shows "\<exists>n. cap_base_for_temp base = Inr (take n base) \<and>
    (\<exists>k. name_bytes (take n base) = Inr k \<and> k \<le> 200) \<and>
    (\<forall>m. n < m \<longrightarrow> m \<le> length base \<longrightarrow> (\<exists>k. name_bytes (take m base) = Inr k \<and> 200 < k)) \<and>
    (\<exists>k. name_bytes (temp_name (take n base) token) = Inr k \<and> k \<le> 214)"
proof -
  obtain n k where n: "cap_base_for_temp base = Inr (take n base)" "name_bytes (take n base) = Inr k" "k \<le> 200"
    "\<forall>m. n < m \<longrightarrow> m \<le> length base \<longrightarrow> (\<exists>k. name_bytes (take m base) = Inr k \<and> 200 < k)"
    using cap_base_longest [OF assms(1)] unfolding MAX_TEMP_BASE_BYTES_def by blast
  obtain bs' where b: "fsencode (take n base) = Inr bs'" "length bs' = k"
    using n(2) by (auto simp: name_bytes_Inr)
  have "name_bytes (temp_name (take n base) token) = Inr (k + 14)"
    using fsencode_temp_name [OF b(1) assms(2)] b(2) assms(3) by (simp add: name_bytes_def lit_def)
  then show ?thesis using n by (intro exI [of _ n]) simp
qed

lemma temp_name_fits_witness:
  "\<exists>n k. cap_base_for_temp (replicate 130 233) = Inr (take n (replicate 130 233)) \<and>
     name_bytes (temp_name (take n (replicate 130 233)) (lit ''0011aabb'')) = Inr k \<and> k \<le> 214"
proof -
  have "fsencode (replicate 130 233) = Inr (concat (map utf8_char (replicate 130 233)))"
    by (rule fsencode_scalars) (simp add: scalar_def list_all_iff)
  moreover have "list_all (\<lambda>c. c < 0x80) (lit ''0011aabb'')" and "length (lit ''0011aabb'') = 8"
    by (simp_all add: lit_def)
  ultimately show ?thesis using temp_name_fits by blast
qed

text \<open>
  C40. \<open>display_path\<close> prints any name: for every path the file system can hold it returns text
  without a surrogate, which every UTF-8 stream can encode, and a path that is valid UTF-8
  comes back unchanged. A name given as bytes reaches it through \<open>sys.argv\<close> without loss:
  the decoded argument encodes to the same bytes and is displayed the same.
\<close>

theorem display_path_printable:
  assumes "fsencode path = Inr bs"
  shows "\<exists>text. display_path path = Inr text \<and> list_all scalar text \<and>
    (list_all scalar path \<longrightarrow> text = path) \<and>
    fsencode (fsdecode bs) = Inr bs \<and> display_path (fsdecode bs) = Inr text"
proof -
  note b = fsencode_bytes [OF assms]
  have "t = path" if "list_all scalar path" "utf8_decode backslash bs = t" for t
    using assms that fsencode_scalars [OF that(1)] utf8_decode_scalars [OF that(1)] by simp
  moreover have "list_all scalar (utf8_decode backslash bs)"
    using b backslash_scalar by (intro utf8_decode_scalar) blast
  ultimately show ?thesis
    using assms fsencode_fsdecode [OF b] by (simp add: display_path_def)
qed

lemma display_path_printable_witness:
  "\<exists>text. display_path [98, 0xDCFF, 46, 109, 100] = Inr text \<and> list_all scalar text \<and>
     text = lit ''b'' @ [92] @ lit ''xff.md''"
proof -
  have e: "fsencode [98, 0xDCFF, 46, 109, 100] = Inr [98, 0xFF, 46, 109, 100]"
    by (simp add: scalar_def escape_point_def utf8_char_def)
  have "display_path [98, 0xDCFF, 46, 109, 100] = Inr (lit ''b'' @ [92] @ lit ''xff.md'')"
    by (simp add: display_path_def e utf8_lead_def backslash_def hex_digit_def lit_def del: fsencode.simps)
  then show ?thesis using display_path_printable [OF e] by auto
qed

text \<open>A lone surrogate that is no escaped byte is refused, by \<open>os.fsencode\<close> itself.\<close>

lemma fsencode_can_raise: "name_bytes [0xD800] = Inl UnicodeEncodeError"
  by (simp add: name_bytes_def scalar_def escape_point_def)

end
