(* ===== verification/File_System.thy ===== *)
theory File_System
  imports File_Names "HOL-Library.Word" "HOL-Library.AList"
begin

text \<open>
  The POSIX file system as \<open>io_utils.py\<close> uses it. A path is absolute, its components from the
  root, as \<open>pathlib\<close> keeps them (\<open>..\<close> stays, \<open>.\<close> and empty components do not). The kernel
  keeps a tree of entries under canonical keys; \<open>fold_name\<close> is what it does to a name before
  looking it up (the identity, or the case folding of macOS's default). Links are followed in
  every component, 40 at most; \<open>NAME_MAX\<close> is 255 bytes. Of permissions the write bit of the
  owner is modelled, for files and directories. An inode has the content a reader sees and
  the content that would survive a crash, which \<open>fsync\<close> makes the same.

  Every call can fail: \<open>faults\<close> decides for each kind of call and moment whether it works, fails
  before it does anything (any errno, or a signal's exception), stops half way (a write), or
  works and is interrupted before its result is bound. \<open>history\<close> is the list of the states
  after the calls that had an effect: what a reader, or a crash, can find.
\<close>

unbundle bit_operations_syntax

section \<open>State\<close>

type_synonym path = "pystr list"
type_synonym mode = "12 word"

datatype node = Dir mode | File nat | Link bool path \<comment> \<open>is the target absolute, and the target\<close>

record inode =
  content :: bytes
  disk :: bytes
  perm :: mode

record fs =
  entries :: "(path \<times> node) list"
  inodes :: "inode list"

datatype sys =
    SStat | SRealpath | SAccess | SMkdir | SOpen | SFdopen | SWrite | SFsync | SClose | SChmod
  | SReplace | SUnlink

datatype fault = Works | Fails exc | Partial nat exc | Interrupted exc

record env =
  fold_name :: "pystr \<Rightarrow> pystr"
  umask :: mode
  superuser :: bool
  faults :: "sys \<Rightarrow> nat \<Rightarrow> fault"
  tokens :: "nat \<Rightarrow> pystr" \<comment> \<open>what \<open>secrets.token_hex(4)\<close> gives, draw by draw\<close>
  codecs :: "string \<Rightarrow> exc + (pystr \<Rightarrow> exc + bytes)"

record world =
  fs :: fs
  clock :: nat
  draws :: nat
  history :: "fs list"

type_synonym 'a op = "env \<Rightarrow> world \<Rightarrow> (exc + 'a) \<times> world"

definition ENOENT :: exc where "ENOENT = OSError 2"
definition EBADF :: exc where "EBADF = OSError 9"
definition EACCES :: exc where "EACCES = OSError 13"
definition EEXIST :: exc where "EEXIST = OSError 17"
definition ENOTDIR :: exc where "ENOTDIR = OSError 20"
definition EISDIR :: exc where "EISDIR = OSError 21"
definition ENAMETOOLONG :: exc where "ENAMETOOLONG = OSError 36"
definition ELOOP :: exc where "ELOOP = OSError 40"

lemmas errno_defs =
  ENOENT_def EBADF_def EACCES_def EEXIST_def ENOTDIR_def EISDIR_def ENAMETOOLONG_def ELOOP_def

text \<open>The builtin \<open>TimeoutError\<close> is an \<open>OSError\<close>.\<close>

fun is_OSError :: "exc \<Rightarrow> bool" where
  "is_OSError (OSError _) = True"
| "is_OSError TimeoutError = True"
| "is_OSError _ = False"

section \<open>Looking a path up\<close>

definition look :: "fs \<Rightarrow> path \<Rightarrow> node option" where
  "look s k = map_of (entries s) k"

definition dotdot :: pystr where
  "dotdot = [46, 46]"

definition too_long :: "pystr \<Rightarrow> bool" where
  "too_long c = (case name_bytes c of Inr n \<Rightarrow> 255 < n | Inl _ \<Rightarrow> True)"

text \<open>What Python refuses before the kernel sees the path.\<close>

fun check_text :: "path \<Rightarrow> exc option" where
  "check_text [] = None"
| "check_text (c # cs) =
     (case fsencode c of
        Inl e \<Rightarrow> Some e
      | Inr _ \<Rightarrow> if 0 \<in> set c then Some (ValueError ''embedded null byte'') else check_text cs)"

fun walk :: "(pystr \<Rightarrow> pystr) \<Rightarrow> fs \<Rightarrow> bool \<Rightarrow> nat \<Rightarrow> path \<Rightarrow> path \<Rightarrow> exc + path" where
  "walk nf s follow n cur [] = Inr cur"
| "walk nf s follow n cur (c # cs) =
     (if c = dotdot then walk nf s follow n (butlast cur) cs
      else if too_long c then Inl ENAMETOOLONG
      else (case look s (cur @ [nf c]) of
              None \<Rightarrow> if cs = [] then Inr (cur @ [nf c]) else Inl ENOENT
            | Some (File _) \<Rightarrow> if cs = [] then Inr (cur @ [nf c]) else Inl ENOTDIR
            | Some (Dir _) \<Rightarrow> walk nf s follow n (cur @ [nf c]) cs
            | Some (Link absolute t) \<Rightarrow>
                if cs = [] \<and> \<not> follow then Inr (cur @ [nf c])
                else (case n of
                        0 \<Rightarrow> Inl ELOOP
                      | Suc m \<Rightarrow> walk nf s follow m (if absolute then [] else cur) (t @ cs))))"

definition namei :: "(pystr \<Rightarrow> pystr) \<Rightarrow> fs \<Rightarrow> bool \<Rightarrow> path \<Rightarrow> exc + path" where
  "namei nf s follow p =
     (case check_text p of Some e \<Rightarrow> Inl e | None \<Rightarrow> walk nf s follow 40 [] p)"

text \<open>\<open>stat\<close> (\<open>follow\<close>) and \<open>lstat\<close>: the key and what is there.\<close>

definition stat_at :: "(pystr \<Rightarrow> pystr) \<Rightarrow> bool \<Rightarrow> path \<Rightarrow> fs \<Rightarrow> exc + path \<times> node" where
  "stat_at nf follow p s =
     (case namei nf s follow p of
        Inl e \<Rightarrow> Inl e
      | Inr k \<Rightarrow> (case look s k of None \<Rightarrow> Inl ENOENT | Some nd \<Rightarrow> Inr (k, nd)))"

text \<open>Octal 0777 is \<open>0x1FF\<close>, 0666 is \<open>0x1B6\<close>, 0600 is \<open>0x180\<close>; 0200 is bit 7.\<close>

definition mode_at :: "fs \<Rightarrow> node \<Rightarrow> mode" where
  "mode_at s nd = (case nd of Dir m \<Rightarrow> m | File i \<Rightarrow> perm (inodes s ! i) | Link _ _ \<Rightarrow> 0x1FF)"

text \<open>\<open>st_dev\<close> and \<open>st_ino\<close>: what \<open>samefile\<close> compares.\<close>

definition identity :: "path \<times> node \<Rightarrow> path + nat" where
  "identity kn = (case snd kn of File i \<Rightarrow> Inr i | _ \<Rightarrow> Inl (fst kn))"

text \<open>
  \<open>os.path.realpath\<close>: the links of a path resolved as far as they can be. \<open>f\<close> bounds how deep
  links lead into links; a loop is cut there and what is left of the path is appended (how much
  of a loop is spelled out differs between versions of Python; where the kernel gets through,
  there is none).
\<close>

fun realp :: "(pystr \<Rightarrow> pystr) \<Rightarrow> fs \<Rightarrow> nat \<Rightarrow> path \<Rightarrow> path \<Rightarrow> path \<times> bool" where
  "realp nf s f cur [] = (cur, True)"
| "realp nf s f cur (c # cs) =
     (if c = dotdot then realp nf s f (butlast cur) cs
      else (case stat_at nf False (cur @ [c]) s of
              Inr (_, Link absolute t) \<Rightarrow>
                (case f of
                   0 \<Rightarrow> (cur @ c # cs, False)
                 | Suc g \<Rightarrow>
                     (case realp nf s g (if absolute then [] else cur) t of
                        (p, True) \<Rightarrow> realp nf s f p cs
                      | (p, False) \<Rightarrow> (p @ cs, False)))
            | _ \<Rightarrow> realp nf s f (cur @ [c]) cs))"

section \<open>Calls\<close>

definition ret :: "'a \<Rightarrow> 'a op" where
  "ret x env w = (Inr x, w)"

definition fail :: "exc \<Rightarrow> 'a op" where
  "fail e env w = (Inl e, w)"

definition seq :: "'a op \<Rightarrow> ('a \<Rightarrow> 'b op) \<Rightarrow> 'b op" where
  "seq m f env w = (case m env w of (Inl e, w') \<Rightarrow> (Inl e, w') | (Inr x, w') \<Rightarrow> f x env w')"

definition handle :: "'a op \<Rightarrow> (exc \<Rightarrow> 'a op) \<Rightarrow> 'a op" where
  "handle m h env w = (case m env w of (Inl e, w') \<Rightarrow> h e env w' | (Inr x, w') \<Rightarrow> (Inr x, w'))"

text \<open>\<open>try: m finally: c\<close>: an exception of the cleanup replaces one of the body.\<close>

definition finally_do :: "'a op \<Rightarrow> unit op \<Rightarrow> 'a op" where
  "finally_do m c env w =
     (case m env w of
        (r, w') \<Rightarrow> (case c env w' of (Inl e, w'') \<Rightarrow> (Inl e, w'') | (Inr _, w'') \<Rightarrow> (r, w'')))"

definition log_state :: "world \<Rightarrow> world" where
  "log_state w = w\<lparr>history := history w @ [fs w]\<rparr>"

text \<open>A call of kind \<open>c\<close> whose effect, where it works, is \<open>eff\<close>.\<close>

definition os_call :: "sys \<Rightarrow> (env \<Rightarrow> fs \<Rightarrow> exc + 'a \<times> fs) \<Rightarrow> 'a op" where
  "os_call c eff env w =
     (let flt = faults env c (clock w); w1 = w\<lparr>clock := Suc (clock w)\<rparr>
      in case flt of
           Fails e \<Rightarrow> (Inl e, w1)
         | Partial _ e \<Rightarrow> (Inl e, w1)
         | Works \<Rightarrow>
             (case eff env (fs w) of
                Inl e \<Rightarrow> (Inl e, w1) | Inr (x, s) \<Rightarrow> (Inr x, log_state (w1\<lparr>fs := s\<rparr>)))
         | Interrupted e \<Rightarrow>
             (case eff env (fs w) of
                Inl e' \<Rightarrow> (Inl e', w1) | Inr (_, s) \<Rightarrow> (Inl e, log_state (w1\<lparr>fs := s\<rparr>))))"

definition os_query :: "sys \<Rightarrow> (env \<Rightarrow> fs \<Rightarrow> exc + 'a) \<Rightarrow> 'a op" where
  "os_query c q =
     os_call c (\<lambda>env s. case q env s of Inl e \<Rightarrow> Inl e | Inr x \<Rightarrow> Inr (x, s))"

definition os_stat :: "path \<Rightarrow> (path \<times> node) op" where
  "os_stat p = os_query SStat (\<lambda>env. stat_at (fold_name env) True p)"

definition os_lstat :: "path \<Rightarrow> (path \<times> node) op" where
  "os_lstat p = os_query SStat (\<lambda>env. stat_at (fold_name env) False p)"

definition writable :: "env \<Rightarrow> mode \<Rightarrow> bool" where
  "writable env m \<longleftrightarrow> superuser env \<or> bit m 7"

text \<open>\<open>os.access(p, os.W_OK)\<close>.\<close>

definition os_access :: "path \<Rightarrow> bool op" where
  "os_access p =
     os_query SAccess (\<lambda>env s. case stat_at (fold_name env) True p s of
        Inl e \<Rightarrow> Inr False | Inr (_, nd) \<Rightarrow> Inr (writable env (mode_at s nd)))"

text \<open>
  Non-strict \<open>realpath\<close>: an \<open>lstat\<close> that fails with an \<open>OSError\<close> counts as "not a link". The
  depth is enough: the kernel refuses to follow more than 40 links, and links nested deeper
  than there are entries loop.
\<close>

definition os_realpath :: "path \<Rightarrow> path op" where
  "os_realpath p =
     handle
       (os_query SRealpath (\<lambda>env s. case check_text p of
          Some e \<Rightarrow> Inl e
        | None \<Rightarrow> Inr (fst (realp (fold_name env) s (41 + length (entries s)) [] p))))
       (\<lambda>e. if is_OSError e then ret p else fail e)"

text \<open>The directory an entry is made or removed in has to be writable.\<close>

definition parent_writable :: "env \<Rightarrow> fs \<Rightarrow> path \<Rightarrow> bool" where
  "parent_writable env s k =
     (case look s (butlast k) of Some (Dir m) \<Rightarrow> writable env m | _ \<Rightarrow> False)"

definition make_entry :: "env \<Rightarrow> path \<Rightarrow> node \<Rightarrow> fs \<Rightarrow> exc + path \<times> fs" where
  "make_entry env p nd s =
     (case namei (fold_name env) s False p of
        Inl e \<Rightarrow> Inl e
      | Inr k \<Rightarrow>
          if look s k \<noteq> None then Inl EEXIST
          else if \<not> parent_writable env s k then Inl EACCES
          else Inr (k, s\<lparr>entries := (k, nd) # entries s\<rparr>))"

definition os_mkdir :: "path \<Rightarrow> unit op" where
  "os_mkdir p =
     os_call SMkdir (\<lambda>env s. case make_entry env p (Dir (0x1FF AND NOT (umask env))) s of
        Inl e \<Rightarrow> Inl e | Inr (_, s') \<Rightarrow> Inr ((), s'))"

text \<open>\<open>os.open(p, O_WRONLY | O_CREAT | O_EXCL, mode)\<close>: the descriptor is the new inode.\<close>

definition os_open_excl :: "path \<Rightarrow> mode \<Rightarrow> nat op" where
  "os_open_excl p m =
     os_call SOpen (\<lambda>env s. let i = length (inodes s) in
        case make_entry env p (File i) s of
          Inl e \<Rightarrow> Inl e
        | Inr (_, s') \<Rightarrow>
            Inr (i, s'\<lparr>inodes := inodes s' @ [\<lparr>content = [], disk = [], perm = m AND NOT (umask env)\<rparr>]\<rparr>))"

definition upd_inode :: "nat \<Rightarrow> (inode \<Rightarrow> inode) \<Rightarrow> fs \<Rightarrow> fs" where
  "upd_inode i f s = s\<lparr>inodes := (inodes s)[i := f (inodes s ! i)]\<rparr>"

text \<open>A write to a descriptor may stop after some of the bytes.\<close>

definition os_write :: "nat \<Rightarrow> bytes \<Rightarrow> unit op" where
  "os_write fd bs env w =
     (let w1 = w\<lparr>clock := Suc (clock w)\<rparr>;
          put = (\<lambda>b. log_state (w1\<lparr>fs := upd_inode fd (\<lambda>n. n\<lparr>content := content n @ b\<rparr>) (fs w)\<rparr>))
      in case faults env SWrite (clock w) of
           Works \<Rightarrow> (Inr (), put bs)
         | Fails e \<Rightarrow> (Inl e, w1)
         | Partial k e \<Rightarrow> (Inl e, put (take k bs))
         | Interrupted e \<Rightarrow> (Inl e, put bs))"

definition os_fsync :: "nat \<Rightarrow> unit op" where
  "os_fsync fd = os_call SFsync (\<lambda>env s. Inr ((), upd_inode fd (\<lambda>n. n\<lparr>disk := content n\<rparr>) s))"

definition os_close :: "nat \<Rightarrow> unit op" where
  "os_close fd = os_call SClose (\<lambda>env s. Inr ((), s))"

definition os_chmod :: "path \<Rightarrow> mode \<Rightarrow> unit op" where
  "os_chmod p m =
     os_call SChmod (\<lambda>env s. case stat_at (fold_name env) True p s of
        Inl e \<Rightarrow> Inl e
      | Inr (_, File i) \<Rightarrow> Inr ((), upd_inode i (\<lambda>n. n\<lparr>perm := m\<rparr>) s)
      | Inr (k, _) \<Rightarrow> Inr ((), s\<lparr>entries := AList.update k (Dir m) (entries s)\<rparr>))"

text \<open>\<open>os.replace\<close> of a file, the only thing the library renames.\<close>

definition os_replace :: "path \<Rightarrow> path \<Rightarrow> unit op" where
  "os_replace src dst =
     os_call SReplace (\<lambda>env s. case stat_at (fold_name env) False src s of
        Inl e \<Rightarrow> Inl e
      | Inr (ks, nd) \<Rightarrow>
          (case namei (fold_name env) s False dst of
             Inl e \<Rightarrow> Inl e
           | Inr kd \<Rightarrow>
               if (case look s kd of Some (Dir _) \<Rightarrow> True | _ \<Rightarrow> False) then Inl EISDIR
               else if \<not> parent_writable env s ks \<or> \<not> parent_writable env s kd then Inl EACCES
               else if look s kd = Some nd \<and> (case nd of File _ \<Rightarrow> True | _ \<Rightarrow> False) then Inr ((), s)
               else Inr ((), s\<lparr>entries := AList.update kd nd (AList.delete ks (entries s))\<rparr>)))"

definition os_unlink :: "path \<Rightarrow> unit op" where
  "os_unlink p =
     os_call SUnlink (\<lambda>env s. case stat_at (fold_name env) False p s of
        Inl e \<Rightarrow> Inl e
      | Inr (k, Dir _) \<Rightarrow> Inl EISDIR
      | Inr (k, _) \<Rightarrow>
          if \<not> parent_writable env s k then Inl EACCES
          else Inr ((), s\<lparr>entries := AList.delete k (entries s)\<rparr>))"

text \<open>
  \<open>Path.is_symlink\<close> and \<open>Path.is_dir\<close> (Python 3.11 to 3.13): a path that is not there or
  cannot be is no link and no directory; any other error gets out.
\<close>

definition path_ignores :: "exc \<Rightarrow> bool" where
  "path_ignores e =
     (case e of
        OSError n \<Rightarrow> n = 2 \<or> n = 20 \<or> n = 9 \<or> n = 40
      | ValueError _ \<Rightarrow> True
      | UnicodeEncodeError \<Rightarrow> True
      | _ \<Rightarrow> False)"

definition is_link :: "node \<Rightarrow> bool" where
  "is_link nd = (case nd of Link _ _ \<Rightarrow> True | _ \<Rightarrow> False)"

definition is_directory :: "node \<Rightarrow> bool" where
  "is_directory nd = (case nd of Dir _ \<Rightarrow> True | _ \<Rightarrow> False)"

definition path_is_symlink :: "path \<Rightarrow> bool op" where
  "path_is_symlink p =
     handle (seq (os_lstat p) (\<lambda>kn. ret (is_link (snd kn))))
       (\<lambda>e. if path_ignores e then ret False else fail e)"

definition path_is_dir :: "path \<Rightarrow> bool op" where
  "path_is_dir p =
     handle (seq (os_stat p) (\<lambda>kn. ret (is_directory (snd kn))))
       (\<lambda>e. if path_ignores e then ret False else fail e)"

text \<open>\<open>Path.mkdir(parents=True, exist_ok=True)\<close>, over the reversed components.\<close>

definition mkdir_exist_ok :: "path \<Rightarrow> unit op" where
  "mkdir_exist_ok p =
     handle (os_mkdir p)
       (\<lambda>e. if e = ENOENT then fail e
            else if is_OSError e
            then seq (path_is_dir p) (\<lambda>d. if d then ret () else fail e)
            else fail e)"

primrec mkdir_parents :: "path \<Rightarrow> unit op" where
  "mkdir_parents [] = mkdir_exist_ok []"
| "mkdir_parents (c # up) =
     handle (mkdir_exist_ok (rev up @ [c]))
       (\<lambda>e. if e = ENOENT
            then seq (mkdir_parents up) (\<lambda>_. mkdir_exist_ok (rev up @ [c]))
            else fail e)"

text \<open>\<open>os.path.exists\<close> and \<open>os.path.samefile\<close>.\<close>

definition path_exists :: "path \<Rightarrow> bool op" where
  "path_exists p =
     handle (seq (os_stat p) (\<lambda>_. ret True))
       (\<lambda>e. if is_OSError e \<or> (case e of ValueError _ \<Rightarrow> True | UnicodeEncodeError \<Rightarrow> True | _ \<Rightarrow> False)
            then ret False else fail e)"

definition path_samefile :: "path \<Rightarrow> path \<Rightarrow> bool op" where
  "path_samefile p q =
     seq (os_stat p) (\<lambda>a. seq (os_stat q) (\<lambda>b. ret (identity a = identity b)))"

end
