(* ===== verification/File_Lookup.thy ===== *)
theory File_Lookup
  imports File_System
begin

text \<open>
  Facts about looking paths up: what a successful walk has passed, that it is stable when
  directories are added and files come and go, that following or not following a last link
  only differs on a link, and that \<open>os.path.realpath\<close> leads where the kernel goes.
\<close>

section \<open>Well-formed trees\<close>

definition is_dir_at :: "fs \<Rightarrow> path \<Rightarrow> bool" where
  "is_dir_at s k = (case look s k of Some (Dir _) \<Rightarrow> True | _ \<Rightarrow> False)"

definition is_link_at :: "fs \<Rightarrow> path \<Rightarrow> bool" where
  "is_link_at s k = (case look s k of Some (Link _ _) \<Rightarrow> True | _ \<Rightarrow> False)"

definition fs_ok :: "fs \<Rightarrow> bool" where
  "fs_ok s \<longleftrightarrow> is_dir_at s [] \<and>
     (\<forall>k. look s k \<noteq> None \<longrightarrow> k \<noteq> [] \<longrightarrow> is_dir_at s (butlast k)) \<and>
     (\<forall>k i. look s k = Some (File i) \<longrightarrow> i < length (inodes s)) \<and>
     (\<forall>k absolute t. look s k = Some (Link absolute t) \<longrightarrow> check_text t = None)"

lemma fs_okD:
  assumes "fs_ok s"
  shows "is_dir_at s []"
    and "look s k \<noteq> None \<Longrightarrow> k \<noteq> [] \<Longrightarrow> is_dir_at s (butlast k)"
    and "look s k = Some (File i) \<Longrightarrow> i < length (inodes s)"
    and "look s k = Some (Link absolute t) \<Longrightarrow> check_text t = None"
  using assms by (auto simp: fs_ok_def)

lemma is_dir_atE:
  assumes "is_dir_at s k"
  obtains m where "look s k = Some (Dir m)"
  using assms by (auto simp: is_dir_at_def split: option.splits node.splits)

lemma is_link_atE:
  assumes "is_link_at s k"
  obtains absolute t where "look s k = Some (Link absolute t)"
  using assms by (auto simp: is_link_at_def split: option.splits node.splits)

lemma is_dir_at_simps [simp]:
  "look s k = Some (Dir m) \<Longrightarrow> is_dir_at s k"
  "look s k = Some (File i) \<Longrightarrow> \<not> is_dir_at s k"
  "look s k = Some (Link a t) \<Longrightarrow> \<not> is_dir_at s k"
  "look s k = None \<Longrightarrow> \<not> is_dir_at s k"
  by (auto simp: is_dir_at_def)

lemma is_link_at_simps [simp]:
  "look s k = Some (Dir m) \<Longrightarrow> \<not> is_link_at s k"
  "look s k = Some (File i) \<Longrightarrow> \<not> is_link_at s k"
  "look s k = Some (Link a t) \<Longrightarrow> is_link_at s k"
  "look s k = None \<Longrightarrow> \<not> is_link_at s k"
  by (auto simp: is_link_at_def)

lemma check_text_append:
  "check_text (xs @ ys) = None \<longleftrightarrow> check_text xs = None \<and> check_text ys = None"
  by (induction xs) (auto split: sum.splits)

section \<open>Walks\<close>

text \<open>The walks that succeed, as a relation, for rule induction.\<close>

inductive walks :: "(pystr \<Rightarrow> pystr) \<Rightarrow> fs \<Rightarrow> bool \<Rightarrow> nat \<Rightarrow> path \<Rightarrow> path \<Rightarrow> path \<Rightarrow> bool"
  for nf s follow where
  arrived: "walks nf s follow n cur [] cur"
| up: "walks nf s follow n (butlast cur) cs k \<Longrightarrow> walks nf s follow n cur (dotdot # cs) k"
| leaf: "c \<noteq> dotdot \<Longrightarrow> \<not> too_long c \<Longrightarrow> \<not> is_dir_at s (cur @ [nf c]) \<Longrightarrow>
    \<not> (follow \<and> is_link_at s (cur @ [nf c])) \<Longrightarrow> walks nf s follow n cur [c] (cur @ [nf c])"
| down: "c \<noteq> dotdot \<Longrightarrow> \<not> too_long c \<Longrightarrow> is_dir_at s (cur @ [nf c]) \<Longrightarrow>
    walks nf s follow n (cur @ [nf c]) cs k \<Longrightarrow> walks nf s follow n cur (c # cs) k"
| link: "c \<noteq> dotdot \<Longrightarrow> \<not> too_long c \<Longrightarrow> look s (cur @ [nf c]) = Some (Link absolute t) \<Longrightarrow>
    cs \<noteq> [] \<or> follow \<Longrightarrow> walks nf s follow n (if absolute then [] else cur) (t @ cs) k \<Longrightarrow>
    walks nf s follow (Suc n) cur (c # cs) k"

lemma walk_walks: "walk nf s follow n cur rest = Inr k \<Longrightarrow> walks nf s follow n cur rest k"
proof (induction nf s follow n cur rest rule: walk.induct)
  case (2 nf s follow n cur c cs)
  show ?case
  proof (cases "c = dotdot")
    case True
    then show ?thesis using 2 by (auto intro: walks.up)
  next
    case False
    then have short: "\<not> too_long c" using "2.prems" by (auto split: if_splits)
    show ?thesis
    proof (cases "look s (cur @ [nf c])")
      case None
      then show ?thesis using False short "2.prems" by (auto split: if_splits intro: walks.leaf)
    next
      case (Some nd)
      show ?thesis
      proof (cases nd)
        case (Dir m)
        then show ?thesis using False short 2 Some by (auto intro!: walks.down)
      next
        case (File i)
        then show ?thesis using False short "2.prems" Some by (auto split: if_splits intro: walks.leaf)
      next
        case (Link absolute t)
        then show ?thesis using False short 2 Some
          by (cases n) (auto split: if_splits intro: walks.leaf walks.link)
      qed
    qed
  qed
qed (auto intro: walks.arrived)

lemma walks_walk: "walks nf s follow n cur rest k \<Longrightarrow> walk nf s follow n cur rest = Inr k"
proof (induction rule: walks.induct)
  case (leaf c cur n)
  then show ?case by (cases "look s (cur @ [nf c])") (auto split: node.splits)
next
  case (down c cur n cs k)
  then show ?case by (auto elim: is_dir_atE)
qed auto

lemma walk_iff: "walk nf s follow n cur rest = Inr k \<longleftrightarrow> walks nf s follow n cur rest k"
  using walk_walks walks_walk by blast

lemma is_dir_butlast: "fs_ok s \<Longrightarrow> is_dir_at s k \<Longrightarrow> is_dir_at s (butlast k)"
  using fs_okD(1) [of s] fs_okD(2) [of s k] by (cases "k = []") (auto elim: is_dir_atE)

text \<open>The directory of what a walk leads to exists.\<close>

lemma walks_parent:
  assumes "fs_ok s"
  shows "walks nf s follow n cur rest k \<Longrightarrow> is_dir_at s cur \<Longrightarrow>
    is_dir_at s k \<or> k \<noteq> [] \<and> is_dir_at s (butlast k)"
proof (induction rule: walks.induct)
  case (up n cur cs k)
  then show ?case using is_dir_butlast [OF assms] by simp
next
  case (link c cur absolute t cs n k)
  then show ?case using fs_okD(1) [OF assms] by (simp split: if_splits)
qed auto

text \<open>More links allowed changes nothing.\<close>

lemma walks_more: "walks nf s follow n cur rest k \<Longrightarrow> n \<le> m \<Longrightarrow> walks nf s follow m cur rest k"
proof (induction arbitrary: m rule: walks.induct)
  case (link c cur absolute t cs n k)
  then obtain m' where "m = Suc m'" by (cases m) auto
  then show ?case using link by (auto intro: walks.link)
qed (auto intro: walks.intros)

text \<open>Directories that are added and files that come and go do not change where a walk leads.\<close>

lemma walks_stable:
  assumes dirs: "\<And>k. is_dir_at s k \<Longrightarrow> is_dir_at s' k"
    and links: "\<And>k. is_link_at s k \<Longrightarrow> look s' k = look s k"
    and no_new: "\<And>k. is_link_at s' k \<Longrightarrow> is_link_at s k"
  shows "walks nf s follow n cur rest k \<Longrightarrow> walks nf s' follow n cur rest k"
proof (induction rule: walks.induct)
  case (leaf c cur n)
  show ?case
  proof (cases "is_dir_at s' (cur @ [nf c])")
    case True
    then show ?thesis using leaf by (auto intro: walks.down walks.arrived)
  next
    case False
    then show ?thesis using leaf no_new by (auto intro: walks.leaf)
  qed
next
  case (link c cur absolute t cs n k)
  then have "look s' (cur @ [nf c]) = Some (Link absolute t)" using links [of "cur @ [nf c]"] by simp
  then show ?case using link by (auto intro: walks.link)
qed (auto intro: walks.intros dirs)

text \<open>Where following a last link and not following it can differ.\<close>

lemma walks_nofollow:
  "walks nf s True n cur rest k \<Longrightarrow>
     \<exists>k'. walks nf s False n cur rest k' \<and> (k' = k \<or> is_link_at s k')"
proof (induction rule: walks.induct)
  case (link c cur absolute t cs n k)
  show ?case
  proof (cases "cs = []")
    case True
    then show ?thesis using link by (intro exI [of _ "cur @ [nf c]"]) (auto intro: walks.leaf)
  next
    case False
    then show ?thesis using link by (auto intro: walks.link)
  qed
qed (auto intro: walks.intros)

lemma walks_follow:
  "walks nf s False n cur rest k \<Longrightarrow> \<not> is_link_at s k \<Longrightarrow> walks nf s True n cur rest k"
  by (induction rule: walks.induct) (auto intro: walks.intros)

text \<open>A walk through a path passes its directory.\<close>

lemma walks_append:
  assumes "fs_ok s"
  shows "walks nf s follow n cur (xs @ ys) k \<Longrightarrow> ys \<noteq> [] \<Longrightarrow> is_dir_at s cur \<Longrightarrow>
    \<exists>m d. m \<le> n \<and> walks nf s True n cur xs d \<and> is_dir_at s d \<and> walks nf s follow m d ys k"
proof (induction n cur "xs @ ys" k arbitrary: xs rule: walks.induct)
  case (arrived n cur)
  then show ?case by simp
next
  case (up n cur cs k)
  show ?case
  proof (cases xs)
    case Nil
    then show ?thesis using up by (intro exI [of _ n] exI [of _ cur]) (auto intro: walks.intros)
  next
    case (Cons x xs')
    then have "cs = xs' @ ys" "x = dotdot" using up.hyps(3) by simp_all
    then show ?thesis using up.hyps(2) [of xs'] up.prems Cons is_dir_butlast [OF assms]
      by (metis walks.up)
  qed
next
  case (leaf c cur n)
  show ?case
  proof (cases xs)
    case Nil
    then show ?thesis using leaf by (intro exI [of _ n] exI [of _ cur]) (auto intro: walks.intros)
  next
    case (Cons x xs')
    then show ?thesis using leaf by simp
  qed
next
  case (down c cur n cs k)
  show ?case
  proof (cases xs)
    case Nil
    then show ?thesis using down by (intro exI [of _ n] exI [of _ cur]) (auto intro: walks.intros)
  next
    case (Cons x xs')
    then have "cs = xs' @ ys" "x = c" using down.hyps(6) by simp_all
    then show ?thesis using down.hyps(1-3) down.hyps(5) [of xs'] down.prems Cons by (metis walks.down)
  qed
next
  case (link c cur absolute t cs n k)
  show ?case
  proof (cases xs)
    case Nil
    then show ?thesis using link
      by (intro exI [of _ "Suc n"] exI [of _ cur]) (auto intro: walks.intros)
  next
    case (Cons x xs')
    then have cs: "cs = xs' @ ys" "x = c" using link.hyps(7) by simp_all
    have base: "is_dir_at s (if absolute then [] else cur)"
      using link.prems fs_okD(1) [OF assms] by simp
    obtain m d where "m \<le> n" "walks nf s True n (if absolute then [] else cur) (t @ xs') d"
      "is_dir_at s d" "walks nf s follow m d ys k"
      using link.hyps(6) [of "t @ xs'"] link.prems(1) base cs(1) by auto
    then show ?thesis using link.hyps(1-3) Cons cs(2)
      by (intro exI [of _ m] exI [of _ d]) (auto intro: walks.link)
  qed
qed

section \<open>Paths without links\<close>

text \<open>A path all of whose prefixes are directories, none of them through a link.\<close>

definition dirs_to :: "(pystr \<Rightarrow> pystr) \<Rightarrow> fs \<Rightarrow> path \<Rightarrow> bool" where
  "dirs_to nf s q \<longleftrightarrow> dotdot \<notin> set q \<and> (\<forall>c \<in> set q. \<not> too_long c) \<and> check_text q = None \<and>
     (\<forall>m \<le> length q. is_dir_at s (map nf (take m q)))"

text \<open>The same up to the last component, which is no link but may be missing or a file.\<close>

definition settled :: "(pystr \<Rightarrow> pystr) \<Rightarrow> fs \<Rightarrow> path \<Rightarrow> bool" where
  "settled nf s q \<longleftrightarrow> dirs_to nf s q \<or>
     (\<exists>d c. q = d @ [c] \<and> dirs_to nf s d \<and> c \<noteq> dotdot \<and> \<not> too_long c \<and> check_text [c] = None \<and>
        \<not> is_link_at s (map nf q))"

lemma dirs_to_Nil: "fs_ok s \<Longrightarrow> dirs_to nf s []"
  using fs_okD(1) [of s] by (simp add: dirs_to_def)

lemma dirs_to_dir: "dirs_to nf s q \<Longrightarrow> is_dir_at s (map nf q)"
  by (auto simp: dirs_to_def)

lemma dirs_to_snoc:
  "dirs_to nf s (q @ [c]) \<longleftrightarrow> dirs_to nf s q \<and> c \<noteq> dotdot \<and> \<not> too_long c \<and> check_text [c] = None \<and>
     is_dir_at s (map nf q @ [nf c])"
  by (auto simp: dirs_to_def check_text_append le_Suc_eq)

lemma dirs_to_butlast: "dirs_to nf s q \<Longrightarrow> dirs_to nf s (butlast q)"
  by (cases q rule: rev_cases) (simp_all add: dirs_to_snoc)

lemma settled_dirs_to: "settled nf s q \<Longrightarrow> is_dir_at s (map nf q) \<Longrightarrow> dirs_to nf s q"
  by (auto simp: settled_def dirs_to_snoc)

lemma settled_not_link: "settled nf s q \<Longrightarrow> \<not> is_link_at s (map nf q)"
  by (auto simp: settled_def dest!: dirs_to_dir elim: is_dir_atE)

lemma settled_text: "settled nf s q \<Longrightarrow> check_text q = None"
  by (auto simp: settled_def dirs_to_def check_text_append)

lemma walks_dirs_to:
  "dirs_to nf s q \<Longrightarrow> walks nf s follow n (map nf q) rest k \<Longrightarrow> walks nf s follow n [] (q @ rest) k"
proof (induction q arbitrary: rest rule: rev_induct)
  case (snoc c q)
  then have "walks nf s follow n (map nf q) (c # rest) k"
    by (intro walks.down) (simp_all add: dirs_to_snoc)
  then show ?case using snoc by (simp add: dirs_to_snoc)
qed simp

lemma settled_walks:
  assumes "settled nf s q"
  shows "walks nf s follow n [] q (map nf q)"
proof (cases "dirs_to nf s q")
  case True
  then show ?thesis using walks_dirs_to [OF True walks.arrived, of follow n] by simp
next
  case False
  then obtain d c where q: "q = d @ [c]" "dirs_to nf s d" "c \<noteq> dotdot" "\<not> too_long c" "check_text [c] = None"
    "\<not> is_link_at s (map nf q)"
    using assms by (auto simp: settled_def)
  then have "\<not> is_dir_at s (map nf d @ [nf c])" using False by (simp add: dirs_to_snoc)
  then have "walks nf s follow n (map nf d) [c] (map nf d @ [nf c])"
    using q by (intro walks.leaf) simp_all
  then show ?thesis using walks_dirs_to [OF q(2)] q(1) by simp
qed

lemma namei_settled: "settled nf s q \<Longrightarrow> namei nf s follow q = Inr (map nf q)"
  using settled_walks [of nf s q] settled_text [of nf s q] by (simp add: namei_def walk_iff)

lemma namei_walks: "namei nf s follow p = Inr k \<longleftrightarrow> check_text p = None \<and> walks nf s follow 40 [] p k"
  by (auto simp: namei_def walk_iff split: option.splits)

section \<open>realpath\<close>

text \<open>What \<open>lstat\<close> sees of the next component.\<close>

lemma namei_next:
  assumes "dirs_to nf s cur" and "c \<noteq> dotdot" and "\<not> too_long c" and "check_text [c] = None"
  shows "namei nf s False (cur @ [c]) = Inr (map nf cur @ [nf c])"
proof -
  have "walks nf s False 40 (map nf cur) [c] (map nf cur @ [nf c])"
    using assms by (cases "is_dir_at s (map nf cur @ [nf c])") (auto intro: walks.intros)
  then show ?thesis
    using walks_dirs_to [OF assms(1)] assms(1,4) by (simp add: namei_walks check_text_append dirs_to_def)
qed

lemma realp_plain:
  assumes "dirs_to nf s cur" and "c \<noteq> dotdot" and "\<not> too_long c" and "check_text [c] = None"
    and "\<not> is_link_at s (map nf cur @ [nf c])"
  shows "realp nf s f cur (c # cs) = realp nf s f (cur @ [c]) cs"
  using assms(2,5) namei_next [OF assms(1-4)]
  by (auto simp: stat_at_def split: option.splits node.splits)

lemma realp_link:
  assumes "dirs_to nf s cur" and "c \<noteq> dotdot" and "\<not> too_long c" and "check_text [c] = None"
    and "look s (map nf cur @ [nf c]) = Some (Link absolute t)"
    and "realp nf s g (if absolute then [] else cur) t = (q, True)"
  shows "realp nf s (Suc g) cur (c # cs) = realp nf s (Suc g) q cs"
  using assms(2,5,6) namei_next [OF assms(1-4)] by (simp add: stat_at_def)

lemma check_text_Cons: "check_text (c # cs) = None \<longleftrightarrow> check_text [c] = None \<and> check_text cs = None"
  using check_text_append [of "[c]" cs] by simp

text \<open>Where the kernel gets to, \<open>realpath\<close> gets to, by a path free of links.\<close>

lemma realp_walks:
  assumes "fs_ok s" and "walks nf s True n (map nf cur) rest k" and "dirs_to nf s cur"
    and "check_text rest = None" and "n \<le> f"
  shows "\<exists>q. realp nf s f cur rest = (q, True) \<and> settled nf s q \<and> k = map nf q"
  using assms(2-5)
proof (induction n arbitrary: cur rest k f rule: less_induct)
  case (less n)
  from less.prems show ?case
  proof (induction rest arbitrary: cur)
    case Nil
    then have "k = map nf cur" by (auto elim: walks.cases)
    then show ?case using Nil by (auto simp: settled_def)
  next
    case (Cons c cs)
    note ct = check_text_Cons [of c cs, THEN iffD1, OF Cons.prems(3)]
    from Cons.prems(1) show ?case
    proof cases
      case up
      then show ?thesis
        using Cons.IH [of "butlast cur"] Cons.prems dirs_to_butlast [OF Cons.prems(2)] ct
        by (simp add: map_butlast)
    next
      case leaf
      then have "settled nf s (cur @ [c])" using Cons.prems(2) ct by (auto simp: settled_def)
      then show ?thesis using leaf realp_plain [OF Cons.prems(2), of c f "[]"] ct by simp
    next
      case down
      then have "dirs_to nf s (cur @ [c])" using Cons.prems(2) ct by (simp add: dirs_to_snoc)
      moreover have "\<not> is_link_at s (map nf cur @ [nf c])" using down(3) by (auto elim: is_dir_atE)
      ultimately show ?thesis
        using Cons.IH [of "cur @ [c]"] Cons.prems down realp_plain [OF Cons.prems(2), of c f cs] ct by simp
    next
      case (link absolute t m)
      let ?base = "if absolute then [] else cur"
      obtain g where g: "f = Suc g" "m \<le> g" using Cons.prems(4) link(1) by (cases f) auto
      have base: "dirs_to nf s ?base" "map nf ?base = (if absolute then [] else map nf cur)"
        using Cons.prems(2) dirs_to_Nil [OF assms(1)] by auto
      have t: "check_text t = None" using fs_okD(4) [OF assms(1) link(4)] .
      have dir: "is_dir_at s (map nf ?base)" using dirs_to_dir [OF base(1)] .
      show ?thesis
      proof (cases "cs = []")
        case True
        then obtain q where "realp nf s g ?base t = (q, True)" "settled nf s q" "k = map nf q"
          using less.IH [of m ?base t k g] link base t g(2) by auto
        then show ?thesis
          using realp_link [OF Cons.prems(2) link(2,3) _ link(4), of g q cs] ct g True by simp
      next
        case False
        obtain l d where d: "l \<le> m" "walks nf s True m (map nf ?base) t d" "is_dir_at s d"
          "walks nf s True l d cs k"
          using walks_append [OF assms(1) link(6) False] dir base(2) by auto
        obtain q where q: "realp nf s g ?base t = (q, True)" "settled nf s q" "d = map nf q"
          using less.IH [of m ?base t d g] link d(2) base t g(2) by auto
        have "\<exists>q'. realp nf s f q cs = (q', True) \<and> settled nf s q' \<and> k = map nf q'"
          using less.IH [of l q cs k f] link(1) d g q settled_dirs_to [OF q(2)] ct by auto
        then show ?thesis
          using realp_link [OF Cons.prems(2) link(2,3) _ link(4) q(1), of cs] ct g by simp
      qed
    qed
  qed
qed

end
