(* ===== verification/File_Logic.thy ===== *)
theory File_Logic
  imports File_Lookup
begin

text \<open>
  Reasoning about sequences of calls: a triple \<open>spec env G P m Q E\<close> says that, started in a
  file system satisfying \<open>P\<close>, the operation \<open>m\<close> leaves only states satisfying \<open>G\<close> behind it
  on the way, and ends with a result in \<open>Q\<close> or with an exception in \<open>E\<close>, whatever the faults
  of \<open>env\<close>. Below it, what the single effects do to a tree, as changes against the tree
  \<open>s0\<close> the library was called in.
\<close>

section \<open>Triples\<close>

definition spec :: "env \<Rightarrow> (fs \<Rightarrow> bool) \<Rightarrow> (fs \<Rightarrow> bool) \<Rightarrow> 'a op \<Rightarrow> ('a \<Rightarrow> fs \<Rightarrow> bool) \<Rightarrow>
    (exc \<Rightarrow> fs \<Rightarrow> bool) \<Rightarrow> bool" where
  "spec env G P m Q E \<longleftrightarrow>
     (\<forall>w r w'. m env w = (r, w') \<longrightarrow> P (fs w) \<longrightarrow>
        (\<exists>hs. history w' = history w @ hs \<and> (\<forall>h \<in> set hs. G h)) \<and>
        (case r of Inr x \<Rightarrow> Q x (fs w') | Inl e \<Rightarrow> E e (fs w')))"

lemma specI:
  assumes "\<And>w r w'. m env w = (r, w') \<Longrightarrow> P (fs w) \<Longrightarrow>
    (\<exists>hs. history w' = history w @ hs \<and> (\<forall>h \<in> set hs. G h)) \<and>
    (case r of Inr x \<Rightarrow> Q x (fs w') | Inl e \<Rightarrow> E e (fs w'))"
  shows "spec env G P m Q E"
  using assms by (auto simp: spec_def)

lemma specD:
  assumes "spec env G P m Q E" and "m env w = (r, w')" and "P (fs w)"
  shows "\<exists>hs. history w' = history w @ hs \<and> (\<forall>h \<in> set hs. G h)"
    and "r = Inr x \<Longrightarrow> Q x (fs w')" and "r = Inl e \<Longrightarrow> E e (fs w')"
proof -
  have *: "(\<exists>hs. history w' = history w @ hs \<and> (\<forall>h \<in> set hs. G h)) \<and>
      (case r of Inr x \<Rightarrow> Q x (fs w') | Inl e \<Rightarrow> E e (fs w'))"
    using assms unfolding spec_def by blast
  show "\<exists>hs. history w' = history w @ hs \<and> (\<forall>h \<in> set hs. G h)" using * by (rule conjunct1)
  show "r = Inr x \<Longrightarrow> Q x (fs w')" and "r = Inl e \<Longrightarrow> E e (fs w')" using * by simp_all
qed

lemma spec_weaken:
  assumes "spec env G P' m Q' E'" and "\<And>s. P s \<Longrightarrow> P' s"
    and "\<And>x s. Q' x s \<Longrightarrow> Q x s" and "\<And>e s. E' e s \<Longrightarrow> E e s"
  shows "spec env G P m Q E"
proof (rule specI)
  fix w r w' assume m: "m env w = (r, w')" and P: "P (fs w)"
  note a = specD [OF assms(1) m assms(2) [OF P]]
  show "(\<exists>hs. history w' = history w @ hs \<and> (\<forall>h \<in> set hs. G h)) \<and>
    (case r of Inr x \<Rightarrow> Q x (fs w') | Inl e \<Rightarrow> E e (fs w'))"
    using a(1) assms(3) [OF a(2)] assms(4) [OF a(3)] by (cases r) simp_all
qed

lemma spec_ret: "(\<And>s. P s \<Longrightarrow> Q x s) \<Longrightarrow> spec env G P (ret x) Q E"
  by (rule specI) (auto simp: ret_def)

lemma spec_fail: "(\<And>s. P s \<Longrightarrow> E e s) \<Longrightarrow> spec env G P (fail e) Q E"
  by (rule specI) (auto simp: fail_def)

lemma spec_case_exc:
  assumes "b \<Longrightarrow> spec env G P m Q E" and "\<not> b \<Longrightarrow> spec env G P m' Q E"
  shows "spec env G P (if b then m else m') Q E"
  using assms by simp

lemma spec_seq:
  assumes m: "spec env G P m R E" and f: "\<And>x. spec env G (R x) (f x) Q E"
  shows "spec env G P (seq m f) Q E"
proof (rule specI)
  fix w r w' assume run: "seq m f env w = (r, w')" and P: "P (fs w)"
  obtain r1 w1 where m1: "m env w = (r1, w1)" by (cases "m env w")
  note a = specD [OF m m1 P]
  obtain hs where hs: "history w1 = history w @ hs" "\<forall>h \<in> set hs. G h" using a(1) by blast
  show "(\<exists>hs. history w' = history w @ hs \<and> (\<forall>h \<in> set hs. G h)) \<and>
    (case r of Inr x \<Rightarrow> Q x (fs w') | Inl e \<Rightarrow> E e (fs w'))"
  proof (cases r1)
    case (Inl e)
    then show ?thesis using run m1 a(3) hs by (auto simp: seq_def)
  next
    case (Inr x)
    then have "f x env w1 = (r, w')" using run m1 by (simp add: seq_def)
    note b = specD [OF f this a(2) [OF Inr]]
    obtain hs' where "history w' = history w1 @ hs'" "\<forall>h \<in> set hs'. G h" using b(1) by blast
    then show ?thesis using hs b(2,3)
      by (intro conjI exI [of _ "hs @ hs'"]) (auto split: sum.splits)
  qed
qed

lemma spec_handle:
  assumes m: "spec env G P m Q R" and h: "\<And>e. spec env G (R e) (h e) Q E"
  shows "spec env G P (handle m h) Q E"
proof (rule specI)
  fix w r w' assume run: "handle m h env w = (r, w')" and P: "P (fs w)"
  obtain r1 w1 where m1: "m env w = (r1, w1)" by (cases "m env w")
  note a = specD [OF m m1 P]
  obtain hs where hs: "history w1 = history w @ hs" "\<forall>h \<in> set hs. G h" using a(1) by blast
  show "(\<exists>hs. history w' = history w @ hs \<and> (\<forall>h \<in> set hs. G h)) \<and>
    (case r of Inr x \<Rightarrow> Q x (fs w') | Inl e \<Rightarrow> E e (fs w'))"
  proof (cases r1)
    case (Inr x)
    then show ?thesis using run m1 a(2) hs by (auto simp: handle_def)
  next
    case (Inl e)
    then have "h e env w1 = (r, w')" using run m1 by (simp add: handle_def)
    note b = specD [OF h this a(3) [OF Inl]]
    obtain hs' where "history w' = history w1 @ hs'" "\<forall>h \<in> set hs'. G h" using b(1) by blast
    then show ?thesis using hs b(2,3)
      by (intro conjI exI [of _ "hs @ hs'"]) (auto split: sum.splits)
  qed
qed

lemma finally_do_eq:
  "finally_do m c = seq (handle (seq m (\<lambda>x. ret (Inr x))) (\<lambda>e. ret (Inl e)))
     (\<lambda>r. seq c (\<lambda>_. case r of Inr x \<Rightarrow> ret x | Inl e \<Rightarrow> fail e))"
  by (rule ext, rule ext)
    (simp add: finally_do_def seq_def handle_def ret_def fail_def split: prod.splits sum.splits)

lemma spec_finally:
  assumes "spec env G P m R S" and "\<And>x. spec env G (R x) c (\<lambda>_. Q x) E"
    and "\<And>e. spec env G (S e) c (\<lambda>_. E e) E"
  shows "spec env G P (finally_do m c) Q E"
  unfolding finally_do_eq
proof (rule spec_seq)
  show "spec env G P (handle (seq m (\<lambda>x. ret (Inr x))) (\<lambda>e. ret (Inl e)))
      (\<lambda>r. case r of Inr x \<Rightarrow> R x | Inl e \<Rightarrow> S e) E"
    by (rule spec_handle [where R = S], rule spec_seq [where R = R])
      (auto intro: assms(1) spec_ret)
  show "spec env G (case r of Inr x \<Rightarrow> R x | Inl e \<Rightarrow> S e)
      (seq c (\<lambda>_. case r of Inr x \<Rightarrow> ret x | Inl e \<Rightarrow> fail e)) Q E" for r
  proof (cases r)
    case (Inl e)
    show ?thesis unfolding Inl sum.case
      by (rule spec_seq [OF assms(3)]) (rule spec_fail)
  next
    case (Inr x)
    show ?thesis unfolding Inr sum.case
      by (rule spec_seq [OF assms(2)]) (rule spec_ret)
  qed
qed

text \<open>
  One call: where its effect works it leads to a good state; a fault before it leaves the
  state alone, an interruption after it has the new state.
\<close>

lemma spec_os_call:
  assumes works: "\<And>s x s'. P s \<Longrightarrow> eff env s = Inr (x, s') \<Longrightarrow> G s' \<and> Q x s'"
    and refused: "\<And>s e. P s \<Longrightarrow> eff env s = Inl e \<Longrightarrow> E e s"
    and fails: "\<And>s n e. P s \<Longrightarrow> faults env c n = Fails e \<or> (\<exists>k. faults env c n = Partial k e) \<Longrightarrow> E e s"
    and interrupted: "\<And>s x s' n e. P s \<Longrightarrow> eff env s = Inr (x, s') \<Longrightarrow>
      faults env c n = Interrupted e \<Longrightarrow> E e s'"
  shows "spec env G P (os_call c eff) Q E"
proof (rule specI)
  fix w r w' assume run: "os_call c eff env w = (r, w')" and P: "P (fs w)"
  show "(\<exists>hs. history w' = history w @ hs \<and> (\<forall>h \<in> set hs. G h)) \<and>
    (case r of Inr x \<Rightarrow> Q x (fs w') | Inl e \<Rightarrow> E e (fs w'))"
  proof (cases "faults env c (clock w)")
    case Works
    then show ?thesis using run works [OF P] refused [OF P]
      by (auto simp: os_call_def log_state_def Let_def split: sum.splits prod.splits)
  next
    case (Fails e)
    then show ?thesis using run fails [OF P, of "clock w" e] by (auto simp: os_call_def Let_def)
  next
    case (Partial k e)
    then show ?thesis using run fails [OF P, of "clock w" e] by (auto simp: os_call_def Let_def)
  next
    case (Interrupted e)
    then show ?thesis using run works [OF P] refused [OF P] interrupted [OF P _ Interrupted]
      by (auto simp: os_call_def log_state_def Let_def split: sum.splits prod.splits)
  qed
qed

text \<open>A call that only looks.\<close>

lemma spec_os_query:
  assumes "\<And>s x. P s \<Longrightarrow> q env s = Inr x \<Longrightarrow> G s \<and> Q x s"
    and "\<And>s e. P s \<Longrightarrow> q env s = Inl e \<Longrightarrow> E e s"
    and "\<And>s n e. P s \<Longrightarrow> faults env c n \<noteq> Works \<Longrightarrow> E e s"
  shows "spec env G P (os_query c q) Q E"
  unfolding os_query_def
proof (rule spec_os_call)
  fix s x s' assume "P s" "(case q env s of Inl e \<Rightarrow> Inl e | Inr x \<Rightarrow> Inr (x, s)) = Inr (x, s')"
  then show "G s' \<and> Q x s'" using assms(1) [of s x] by (auto split: sum.splits)
next
  fix s x s' n e assume "P s" "(case q env s of Inl e \<Rightarrow> Inl e | Inr x \<Rightarrow> Inr (x, s)) = Inr (x, s')"
    "faults env c n = Interrupted e"
  then show "E e s'" using assms(3) [of s n e] by (auto split: sum.splits)
next
  fix s n e assume "P s" "faults env c n = Fails e \<or> (\<exists>k. faults env c n = Partial k e)"
  then show "E e s" using assms(3) [of s n e] by auto
next
  fix s e assume "P s" "(case q env s of Inl e \<Rightarrow> Inl e | Inr x \<Rightarrow> Inr (x, s)) = Inl e"
  then show "E e s" using assms(2) by (auto split: sum.splits)
qed

section \<open>What the effects do\<close>

lemma look_Cons [simp]: "look (s\<lparr>entries := (k, nd) # entries s\<rparr>) k' = (if k' = k then Some nd else look s k')"
  by (simp add: look_def)

lemma look_replace_Cons [simp]:
  "look (s\<lparr>entries := (k, nd) # AList.delete k (entries s)\<rparr>) k' = (if k' = k then Some nd else look s k')"
  by (simp add: look_def delete_conv')

lemma look_delete [simp]:
  "look (s\<lparr>entries := AList.delete k (entries s)\<rparr>) k' = (if k' = k then None else look s k')"
  by (simp add: look_def delete_conv')

lemma look_update_delete [simp]:
  "look (s\<lparr>entries := AList.update kd nd (AList.delete ks (entries s))\<rparr>) k' =
     (if k' = kd then Some nd else if k' = ks then None else look s k')"
  by (simp add: look_def delete_conv' update_conv')

lemma look_inodes [simp]: "look (s\<lparr>inodes := x\<rparr>) k = look s k"
  by (simp add: look_def)

lemma look_upd_inode [simp]: "look (upd_inode i f s) k = look s k"
  by (simp add: look_def upd_inode_def)

lemma is_dir_at_upd [simp]: "is_dir_at (upd_inode i f s) k = is_dir_at s k"
  by (simp add: is_dir_at_def)

lemma length_upd_inode [simp]: "length (inodes (upd_inode i f s)) = length (inodes s)"
  by (simp add: upd_inode_def)

lemma fs_ok_cong:
  assumes "fs_ok s" and "\<And>k. look s' k = look s k" and "length (inodes s') = length (inodes s)"
  shows "fs_ok s'"
  using assms unfolding fs_ok_def is_dir_at_def by simp

lemma fs_ok_upd_inode: "fs_ok s \<Longrightarrow> fs_ok (upd_inode i f s)"
  by (rule fs_ok_cong) simp_all

lemma is_dir_at_look: "look s' k = look s k \<Longrightarrow> is_dir_at s' k = is_dir_at s k"
  by (simp add: is_dir_at_def)

text \<open>A new entry that is no link.\<close>

lemma fs_ok_insert:
  assumes ok: "fs_ok s" and new: "look s k = None" "k \<noteq> []" "is_dir_at s (butlast k)"
    and look: "\<And>k'. look s' k' = (if k' = k then Some nd else look s k')"
    and nd: "case nd of Dir _ \<Rightarrow> True | File i \<Rightarrow> i < length (inodes s') | Link _ _ \<Rightarrow> False"
    and len: "length (inodes s) \<le> length (inodes s')"
  shows "fs_ok s'"
proof -
  have dirs: "is_dir_at s' d" if "is_dir_at s d" for d
    using that new(1) look [of d] by (auto simp: is_dir_at_def split: if_splits)
  show ?thesis
    unfolding fs_ok_def
  proof (intro conjI allI impI)
    show "is_dir_at s' []" using dirs fs_okD(1) [OF ok] .
    fix k' assume "look s' k' \<noteq> None" "k' \<noteq> []"
    then show "is_dir_at s' (butlast k')"
      using dirs new(3) fs_okD(2) [OF ok, of k'] look [of k'] by (cases "k' = k") auto
  next
    fix k' i assume "look s' k' = Some (File i)"
    then show "i < length (inodes s')"
      using nd look [of k'] fs_okD(3) [OF ok, of k' i] len by (cases "k' = k") auto
  next
    fix k' a t assume "look s' k' = Some (Link a t)"
    then show "check_text t = None"
      using nd look [of k'] fs_okD(4) [OF ok, of k' a t] by (cases "k' = k") auto
  qed
qed

text \<open>An entry that is no directory goes.\<close>

lemma fs_ok_remove:
  assumes ok: "fs_ok s" and "\<not> is_dir_at s k"
    and look: "\<And>k'. look s' k' = (if k' = k then None else look s k')"
    and len: "length (inodes s') = length (inodes s)"
  shows "fs_ok s'"
proof -
  have dirs: "is_dir_at s' d" if "is_dir_at s d" for d
    using that assms(2) look [of d] by (auto simp: is_dir_at_def split: if_splits)
  show ?thesis
    unfolding fs_ok_def
  proof (intro conjI allI impI)
    show "is_dir_at s' []" using dirs fs_okD(1) [OF ok] .
    fix k' assume "look s' k' \<noteq> None" "k' \<noteq> []"
    then show "is_dir_at s' (butlast k')"
      using dirs fs_okD(2) [OF ok, of k'] look [of k'] by (cases "k' = k") auto
  qed (use look fs_okD(3,4) [OF ok] len in \<open>auto split: if_splits\<close>)
qed

lemma make_entry_Inr:
  assumes ok: "fs_ok s" and "make_entry env p nd s = Inr (k, s')"
  shows "namei (fold_name env) s False p = Inr k" and "look s k = None" and "k \<noteq> []"
    and "is_dir_at s (butlast k)" and "parent_writable env s k"
    and "s' = s\<lparr>entries := (k, nd) # entries s\<rparr>"
proof -
  show a: "namei (fold_name env) s False p = Inr k" "look s k = None" "parent_writable env s k"
    "s' = s\<lparr>entries := (k, nd) # entries s\<rparr>"
    using assms(2) by (auto simp: make_entry_def split: sum.splits if_splits)
  show "k \<noteq> []" using a(2) fs_okD(1) [OF ok] by (auto elim: is_dir_atE)
  show "is_dir_at s (butlast k)" using a(3)
    by (auto simp: parent_writable_def is_dir_at_def split: option.splits node.splits)
qed

section \<open>Changes against a tree\<close>

text \<open>
  Nothing that was in \<open>s0\<close> has changed but what is at the keys \<open>X\<close>: no inode of \<open>s0\<close> has
  been touched, and every other key leads to what it led to, or was free and is now a
  directory.
\<close>

definition changed :: "fs \<Rightarrow> path set \<Rightarrow> fs \<Rightarrow> bool" where
  "changed s0 X s \<longleftrightarrow> fs_ok s \<and> length (inodes s0) \<le> length (inodes s) \<and>
     take (length (inodes s0)) (inodes s) = inodes s0 \<and>
     (\<forall>k. k \<notin> X \<longrightarrow> look s k = look s0 k \<or> look s0 k = None \<and> is_dir_at s k)"

lemma changed_refl: "fs_ok s0 \<Longrightarrow> changed s0 X s0"
  by (simp add: changed_def)

lemma changedD:
  assumes "changed s0 X s"
  shows "fs_ok s" and "length (inodes s0) \<le> length (inodes s)"
    and "take (length (inodes s0)) (inodes s) = inodes s0"
    and "k \<notin> X \<Longrightarrow> look s k = look s0 k \<or> look s0 k = None \<and> is_dir_at s k"
  using assms by (auto simp: changed_def)

lemma changed_mono: "changed s0 X s \<Longrightarrow> X \<subseteq> Y \<Longrightarrow> changed s0 Y s"
  by (auto simp: changed_def)

lemma changed_upd:
  assumes "changed s0 X s" and "length (inodes s0) \<le> i"
  shows "changed s0 X (upd_inode i f s)"
proof -
  have "take (length (inodes s0)) (inodes (upd_inode i f s)) = inodes s0"
    using changedD(3) [OF assms(1)] assms(2) by (simp add: upd_inode_def)
  then show ?thesis
    using assms by (auto simp: changed_def fs_ok_upd_inode)
qed

lemma changed_mkdir:
  assumes "changed s0 {} s" and "make_entry env p (Dir m) s = Inr (k, s')"
  shows "changed s0 {} s'"
proof -
  note ok = changedD(1) [OF assms(1)]
  note m = make_entry_Inr [OF ok assms(2)]
  have "fs_ok s'" by (rule fs_ok_insert [OF ok m(2-4), of s' "Dir m"]) (simp_all add: m(6))
  moreover have "look s' k' = look s0 k' \<or> look s0 k' = None \<and> is_dir_at s' k'" for k'
    using changedD(4) [OF assms(1), of k'] m(2)
    by (cases "k' = k") (auto simp: m(6) is_dir_at_def)
  ultimately show ?thesis using assms(1) m(6) by (simp add: changed_def)
qed

lemma changed_open:
  assumes "changed s0 {} s" and "make_entry env p (File (length (inodes s))) s = Inr (k, s')"
  shows "changed s0 {k} (s'\<lparr>inodes := inodes s' @ [x]\<rparr>)" and "look s0 k = None"
proof -
  note ok = changedD(1) [OF assms(1)]
  note m = make_entry_Inr [OF ok assms(2)]
  have "fs_ok (s'\<lparr>inodes := inodes s' @ [x]\<rparr>)"
    by (rule fs_ok_insert [OF ok m(2-4), of _ "File (length (inodes s))"]) (simp_all add: m(6))
  moreover have "look s' k' = look s0 k' \<or> look s0 k' = None \<and> is_dir_at s' k'" if "k' \<noteq> k" for k'
    using changedD(4) [OF assms(1), of k'] that by (auto simp: m(6) is_dir_at_def)
  ultimately show "changed s0 {k} (s'\<lparr>inodes := inodes s' @ [x]\<rparr>)"
    using changedD(2,3) [OF assms(1)] m(6) by (auto simp: changed_def is_dir_at_def)
  show "look s0 k = None" using changedD(4) [OF assms(1), of k] m(2) by auto
qed

lemma changed_unlink:
  assumes "changed s0 {tk} s" and "look s0 tk = None" and "\<not> is_dir_at s tk"
  shows "changed s0 {} (s\<lparr>entries := AList.delete tk (entries s)\<rparr>)"
proof -
  let ?s = "s\<lparr>entries := AList.delete tk (entries s)\<rparr>"
  have "fs_ok ?s" by (rule fs_ok_remove [OF changedD(1) [OF assms(1)] assms(3)]) simp_all
  moreover have "look ?s k = look s0 k \<or> look s0 k = None \<and> is_dir_at ?s k" for k
    using changedD(4) [OF assms(1), of k] assms(2) by (auto simp: is_dir_at_def)
  ultimately show ?thesis using assms(1) by (simp add: changed_def)
qed

lemma changed_replace:
  assumes "changed s0 {tk} s" and "look s0 tk = None" and "look s tk = Some (File i)"
    and "\<not> is_dir_at s kd" and "kd \<noteq> []" and "is_dir_at s (butlast kd)"
  shows "changed s0 {kd} (s\<lparr>entries := AList.update kd (File i) (AList.delete tk (entries s))\<rparr>)"
proof -
  let ?r = "s\<lparr>entries := AList.delete kd (entries s)\<rparr>"
  let ?s = "s\<lparr>entries := AList.update kd (File i) (AList.delete tk (entries s))\<rparr>"
  note ok = changedD(1) [OF assms(1)]
  have r: "fs_ok ?r" by (rule fs_ok_remove [OF ok assms(4)]) simp_all
  have "is_dir_at ?r (butlast kd)" using assms(4-6) by (auto simp: is_dir_at_def)
  then have u: "fs_ok (?r\<lparr>entries := (kd, File i) # entries ?r\<rparr>)"
    using assms(5) fs_okD(3) [OF ok assms(3)]
    by (intro fs_ok_insert [OF r, of kd _ "File i"]) simp_all
  have "fs_ok ?s"
  proof (cases "kd = tk")
    case True
    show ?thesis by (rule fs_ok_cong [OF u]) (simp_all add: True)
  next
    case False
    then show ?thesis
      using assms(3) by (intro fs_ok_remove [OF u, of tk]) (auto simp: is_dir_at_def)
  qed
  moreover have "look ?s k = look s0 k \<or> look s0 k = None \<and> is_dir_at ?s k" if "k \<noteq> kd" for k
    using changedD(4) [OF assms(1), of k] assms(2) that by (auto simp: is_dir_at_def)
  ultimately show ?thesis using assms(1) by (simp add: changed_def)
qed

end
