(* ===== verification/Atomic_Write.thy ===== *)
theory Atomic_Write
  imports File_Logic
begin

text \<open>
  \<open>io_utils.py\<close>: \<open>atomic_write_text\<close> with its helpers, \<open>check_writable\<close>, \<open>same_file\<close> and
  \<open>sibling_path\<close>, call by call, and what they leave of the file system at every moment and
  under every combination of failing and interrupted calls.
\<close>

section \<open>The code\<close>

definition resolve_symlinked_target :: "path \<Rightarrow> path op" where
  "resolve_symlinked_target target =
     seq (path_is_symlink target) (\<lambda>b. if b then os_realpath target else ret target)"

text \<open>\<open>except FileNotFoundError\<close> around a \<open>stat\<close>: is there something?\<close>

definition unless_missing :: "'a op \<Rightarrow> 'a option op" where
  "unless_missing m = handle (seq m (\<lambda>x. ret (Some x))) (\<lambda>e. if e = ENOENT then ret None else fail e)"

definition refuse_unwritable_target :: "path \<Rightarrow> unit op" where
  "refuse_unwritable_target target =
     seq (unless_missing (os_stat target)) (\<lambda>st.
       case st of
         None \<Rightarrow> ret ()
       | Some _ \<Rightarrow> seq (os_access target) (\<lambda>ok. if ok then ret () else fail EACCES))"

text \<open>\<open>_create_temp\<close>: 100 draws of a token; 0666 for the kernel to apply the umask to.\<close>

definition TEMP_ATTEMPTS :: nat where
  "TEMP_ATTEMPTS = 100"

definition draw_token :: "pystr op" where
  "draw_token env w = (Inr (tokens env (draws w)), w\<lparr>draws := Suc (draws w)\<rparr>)"

primrec temp_loop :: "nat \<Rightarrow> path \<Rightarrow> pystr \<Rightarrow> (nat \<times> path) op" where
  "temp_loop 0 parent base = fail EEXIST"
| "temp_loop (Suc n) parent base =
     seq draw_token (\<lambda>token.
       let candidate = parent @ [temp_name base token]
       in seq (handle (seq (os_open_excl candidate 0x1B6) (\<lambda>fd. ret (Some fd)))
                (\<lambda>e. if e = EEXIST then ret None else fail e))
            (\<lambda>r. case r of Some fd \<Rightarrow> ret (fd, candidate) | None \<Rightarrow> temp_loop n parent base))"

definition file_name :: "path \<Rightarrow> pystr" where
  "file_name p = (if p = [] then [] else last p)"

definition create_temp :: "path \<Rightarrow> (nat \<times> path) op" where
  "create_temp target =
     (case cap_base_for_temp (file_name target) of
        Inl e \<Rightarrow> fail e
      | Inr base \<Rightarrow> temp_loop TEMP_ATTEMPTS (butlast target) base)"

definition os_stat_mode :: "path \<Rightarrow> mode op" where
  "os_stat_mode p =
     os_query SStat (\<lambda>env s. case stat_at (fold_name env) True p s of
        Inl e \<Rightarrow> Inl e | Inr (_, nd) \<Rightarrow> Inr (mode_at s nd))"

definition copy_existing_mode :: "path \<Rightarrow> path \<Rightarrow> unit op" where
  "copy_existing_mode target tmp =
     seq (unless_missing (os_stat_mode target)) (\<lambda>m.
       case m of None \<Rightarrow> ret () | Some mode \<Rightarrow> os_chmod tmp mode)"

text \<open>
  The \<open>with os.fdopen(...)\<close> block: an unknown codec is refused with the descriptor closed; a
  text the codec cannot encode, a failing write or \<open>fsync\<close> still closes it.
\<close>

definition fdopen_codec :: "string \<Rightarrow> (pystr \<Rightarrow> exc + bytes) op" where
  "fdopen_codec encoding = os_query SFdopen (\<lambda>env _. codecs env encoding)"

definition write_synced :: "nat \<Rightarrow> (pystr \<Rightarrow> exc + bytes) \<Rightarrow> pystr \<Rightarrow> unit op" where
  "write_synced fd encode txt =
     finally_do
       (case encode txt of
          Inl e \<Rightarrow> fail e
        | Inr bs \<Rightarrow> seq (os_write fd bs) (\<lambda>_. os_fsync fd))
       (os_close fd)"

text \<open>\<open>with contextlib.suppress(FileNotFoundError): tmp_path.unlink()\<close>.\<close>

definition remove_temp :: "path \<Rightarrow> unit op" where
  "remove_temp tmp = handle (os_unlink tmp) (\<lambda>e. if e = ENOENT then ret () else fail e)"

text \<open>
  The \<open>finally\<close> clause acts only while \<open>tmp_path\<close> is set: from the return of \<open>_create_temp\<close>
  until after the rename.
\<close>

definition atomic_write_text :: "path \<Rightarrow> pystr \<Rightarrow> string \<Rightarrow> unit op" where
  "atomic_write_text path txt encoding =
     seq (resolve_symlinked_target path) (\<lambda>target.
     seq (refuse_unwritable_target target) (\<lambda>_.
     seq (mkdir_parents (rev (butlast target))) (\<lambda>_.
     seq (create_temp target) (\<lambda>(fd, tmp).
       handle
         (seq (fdopen_codec encoding) (\<lambda>encode.
          seq (write_synced fd encode txt) (\<lambda>_.
          seq (copy_existing_mode target tmp) (\<lambda>_.
          os_replace tmp target))))
         (\<lambda>e. seq (remove_temp tmp) (\<lambda>_. fail e))))))"

definition check_writable :: "path \<Rightarrow> unit op" where
  "check_writable path =
     seq (resolve_symlinked_target path) (\<lambda>target.
     seq (path_is_dir target) (\<lambda>d.
       if d then fail EISDIR
       else
         seq (refuse_unwritable_target target) (\<lambda>_.
         seq (mkdir_parents (rev (butlast target))) (\<lambda>_.
         seq (create_temp target) (\<lambda>(fd, tmp).
         seq (os_close fd) (\<lambda>_. os_unlink tmp))))))"

definition same_file :: "path \<Rightarrow> path \<Rightarrow> bool op" where
  "same_file a b =
     seq (os_realpath a) (\<lambda>ra. seq (os_realpath b) (\<lambda>rb.
       if ra = rb then ret True
       else seq (path_exists ra) (\<lambda>a_exists. seq (path_exists rb) (\<lambda>b_exists.
         if a_exists \<and> b_exists then path_samefile ra rb
         else if a_exists \<or> b_exists then ret False
         else seq (os_open_excl ra 0x180) (\<lambda>fd. seq (os_close fd) (\<lambda>_.
           finally_do
             (seq (path_exists rb) (\<lambda>e. if e then path_samefile ra rb else ret False))
             (os_unlink ra)))))))"

definition aliases :: "path \<Rightarrow> path \<Rightarrow> bool op" where
  "aliases a b =
     seq (path_is_dir (butlast a)) (\<lambda>d.
       if \<not> d then ret False
       else handle (same_file a b) (\<lambda>e. if is_OSError e then ret False else fail e))"

definition path_with_suffix :: "path \<Rightarrow> pystr \<Rightarrow> path op" where
  "path_with_suffix p suffix =
     (case with_suffix (file_name p) suffix of Inl e \<Rightarrow> fail e | Inr n \<Rightarrow> ret (butlast p @ [n]))"

definition sibling_path :: "path \<Rightarrow> pystr \<Rightarrow> pystr \<Rightarrow> path op" where
  "sibling_path p own other =
     (let suffix = py_suffix (file_name p); appended = butlast p @ [file_name p @ other]
      in if suffix = own then path_with_suffix p other
         else if ascii_lower suffix = ascii_lower own
           then seq (path_with_suffix p own) (\<lambda>q. seq (aliases p q) (\<lambda>same.
                  if same then path_with_suffix p other else ret appended))
         else ret appended)"

section \<open>What is known on the way\<close>

text \<open>
  \<open>quiet\<close>: no \<open>stat\<close> fails. \<open>clean\<close>: the cleanup's \<open>unlink\<close> is not disturbed, and no signal
  lands in the two moments the code cannot cover, right after the temp file has been made
  and right after the rename.
\<close>

definition quiet :: "env \<Rightarrow> bool" where
  "quiet env \<longleftrightarrow> (\<forall>n. faults env SStat n = Works \<and> faults env SRealpath n = Works)"

definition clean :: "env \<Rightarrow> bool" where
  "clean env \<longleftrightarrow> (\<forall>n. faults env SUnlink n = Works) \<and>
     (\<forall>n e. faults env SOpen n \<noteq> Interrupted e \<and> faults env SReplace n \<noteq> Interrupted e)"

text \<open>A signal's exception, \<open>KeyboardInterrupt\<close> for one, is no \<open>OSError\<close>.\<close>

definition signals_ok :: "env \<Rightarrow> bool" where
  "signals_ok env \<longleftrightarrow> (\<forall>c n e. faults env c n = Interrupted e \<longrightarrow> \<not> is_OSError e)"

text \<open>Where the path leads to, where that can be relied on.\<close>

definition known_key :: "env \<Rightarrow> fs \<Rightarrow> path \<Rightarrow> path option" where
  "known_key env s0 p =
     (if quiet env then (case namei (fold_name env) s0 True p of Inr k \<Rightarrow> Some k | Inl _ \<Rightarrow> None)
      else None)"

definition lands :: "env \<Rightarrow> fs \<Rightarrow> path option \<Rightarrow> path \<Rightarrow> bool" where
  "lands env s0 ko t \<longleftrightarrow>
     (case ko of
        None \<Rightarrow> True
      | Some k \<Rightarrow> namei (fold_name env) s0 True t = Inr k \<and> namei (fold_name env) s0 False t = Inr k \<and>
          \<not> is_link_at s0 k)"

definition temp_key :: "env \<Rightarrow> path \<Rightarrow> path \<Rightarrow> bool" where
  "temp_key env t tk \<longleftrightarrow>
     (\<exists>base n. cap_base_for_temp (file_name t) = Inr base \<and> tk \<noteq> [] \<and>
        last tk = fold_name env (temp_name base (tokens env n)))"

text \<open>The temp file is there, and nothing else has changed but for new directories.\<close>

definition temp_at :: "env \<Rightarrow> fs \<Rightarrow> path option \<Rightarrow> path \<Rightarrow> path \<Rightarrow> nat \<Rightarrow> path \<Rightarrow> fs \<Rightarrow> bool" where
  "temp_at env s0 ko t tmp fd tk s \<longleftrightarrow>
     changed s0 {tk} s \<and> look s0 tk = None \<and> temp_key env t tk \<and> look s tk = Some (File fd) \<and>
     length (inodes s0) \<le> fd \<and> namei (fold_name env) s False tmp = Inr tk \<and>
     parent_writable env s tk \<and> (ko \<noteq> None \<longrightarrow> (\<forall>k. k \<noteq> tk \<longrightarrow> look s k = look s0 k)) \<and>
     (\<exists>base token. tmp = butlast t @ [temp_name base token])"

text \<open>Before the temp file.\<close>

definition before_temp :: "fs \<Rightarrow> path option \<Rightarrow> fs \<Rightarrow> bool" where
  "before_temp s0 ko s \<longleftrightarrow> changed s0 {} s \<and> (ko \<noteq> None \<longrightarrow> s = s0)"

text \<open>After the rename: the target's key has the new file, complete on disk.\<close>

definition replaced :: "fs \<Rightarrow> path option \<Rightarrow> nat \<Rightarrow> bytes \<Rightarrow> path \<Rightarrow> fs \<Rightarrow> bool" where
  "replaced s0 ko fd bs k s \<longleftrightarrow>
     changed s0 {k} s \<and> look s k = Some (File fd) \<and> length (inodes s0) \<le> fd \<and>
     content (inodes s ! fd) = bs \<and> disk (inodes s ! fd) = bs \<and>
     (case ko of
        None \<Rightarrow> True
      | Some k' \<Rightarrow> k = k' \<and> (\<forall>k''. k'' \<noteq> k \<longrightarrow> look s k'' = look s0 k''))"

text \<open>What may be found at any moment of a write.\<close>

definition write_moment :: "env \<Rightarrow> fs \<Rightarrow> path option \<Rightarrow> pystr \<Rightarrow> string \<Rightarrow> fs \<Rightarrow> bool" where
  "write_moment env s0 ko txt encoding h \<longleftrightarrow>
     changed s0 {} h \<or>
     (\<exists>tk t. changed s0 {tk} h \<and> look s0 tk = None \<and> temp_key env t tk) \<or>
     (\<exists>k fd encode bs. codecs env encoding = Inr encode \<and> encode txt = Inr bs \<and> replaced s0 ko fd bs k h)"

section \<open>The steps\<close>

lemma walks_no_link:
  "walks nf s True n cur rest k \<Longrightarrow> is_dir_at s cur \<Longrightarrow> fs_ok s \<Longrightarrow> \<not> is_link_at s k"
proof (induction rule: walks.induct)
  case (arrived n cur)
  then show ?case by (auto elim: is_dir_atE)
next
  case (up n cur cs k)
  then show ?case using is_dir_butlast by blast
next
  case (link c cur absolute t cs n k)
  then show ?case using fs_okD(1) by (simp split: if_splits)
qed auto

lemma namei_no_link: "fs_ok s \<Longrightarrow> namei nf s True p = Inr k \<Longrightarrow> \<not> is_link_at s k"
  using walks_no_link [of nf s 40 "[]" p k] fs_okD(1) [of s] by (simp add: namei_walks)

lemma spec_ex: "(\<And>x. spec env G (P x) m Q E) \<Longrightarrow> spec env G (\<lambda>s. \<exists>x. P x s) m Q E"
  unfolding spec_def by blast

lemma spec_if: "(b \<Longrightarrow> spec env G P m Q E) \<Longrightarrow> (\<not> b \<Longrightarrow> spec env G P m' Q E) \<Longrightarrow> spec env G P (if b then m else m') Q E"
  by simp

text \<open>Calls that only look, when nothing is known about the answer.\<close>

lemma spec_look_only:
  assumes "\<And>s. P s \<Longrightarrow> G s" and "\<And>s e. P s \<Longrightarrow> E e s"
  shows "spec env G P (os_query c q) (\<lambda>_. P) E"
  by (rule spec_os_query) (use assms in auto)

lemma spec_path_is_dir:
  assumes "\<And>s. P s \<Longrightarrow> G s" and "\<And>s e. P s \<Longrightarrow> E e s"
  shows "spec env G P (path_is_dir p) (\<lambda>_. P) E"
  unfolding path_is_dir_def os_stat_def
  by (rule spec_handle [where R = "\<lambda>_. P"], rule spec_seq [where R = "\<lambda>_. P"])
    (auto intro!: spec_look_only spec_ret spec_fail spec_if assms)

lemma spec_stat_quiet:
  assumes "G s0"
  shows "spec env G (\<lambda>s. s = s0) (os_query SStat q)
    (\<lambda>x s. s = s0 \<and> q env s0 = Inr x) (\<lambda>e s. s = s0 \<and> (quiet env \<longrightarrow> q env s0 = Inl e))"
  by (rule spec_os_query) (use assms in \<open>auto simp: quiet_def\<close>)

lemma spec_is_symlink:
  assumes "G s0"
  shows "spec env G (\<lambda>s. s = s0) (path_is_symlink p)
    (\<lambda>b s. s = s0 \<and> (quiet env \<longrightarrow> b = (case stat_at (fold_name env) False p s0 of
        Inr kn \<Rightarrow> is_link (snd kn) | Inl _ \<Rightarrow> False))) (\<lambda>_ s. s = s0)"
  unfolding path_is_symlink_def os_lstat_def
proof (rule spec_handle)
  show "spec env G (\<lambda>s. s = s0)
      (seq (os_query SStat (\<lambda>env. stat_at (fold_name env) False p)) (\<lambda>kn. ret (is_link (snd kn))))
      (\<lambda>b s. s = s0 \<and> (quiet env \<longrightarrow> b = (case stat_at (fold_name env) False p s0 of
        Inr kn \<Rightarrow> is_link (snd kn) | Inl _ \<Rightarrow> False)))
      (\<lambda>e s. s = s0 \<and> (quiet env \<longrightarrow> stat_at (fold_name env) False p s0 = Inl e))"
    by (rule spec_seq, rule spec_stat_quiet [where G = G, OF assms]) (rule spec_ret, auto)
  show "spec env G (\<lambda>s. s = s0 \<and> (quiet env \<longrightarrow> stat_at (fold_name env) False p s0 = Inl e))
      (if path_ignores e then ret False else fail e)
      (\<lambda>b s. s = s0 \<and> (quiet env \<longrightarrow> b = (case stat_at (fold_name env) False p s0 of
        Inr kn \<Rightarrow> is_link (snd kn) | Inl _ \<Rightarrow> False))) (\<lambda>_ s. s = s0)" for e
    by (rule spec_if) (auto intro!: spec_ret spec_fail)
qed

lemma spec_realpath:
  assumes "G s0"
  shows "spec env G (\<lambda>s. s = s0) (os_realpath p)
    (\<lambda>q s. s = s0 \<and> (quiet env \<longrightarrow> check_text p = None \<longrightarrow>
       q = fst (realp (fold_name env) s0 (41 + length (entries s0)) [] p))) (\<lambda>_ s. s = s0)"
  unfolding os_realpath_def
proof (rule spec_handle)
  let ?q = "\<lambda>env s. case check_text p of Some e \<Rightarrow> Inl e
    | None \<Rightarrow> Inr (fst (realp (fold_name env) s (41 + length (entries s)) [] p))"
  show "spec env G (\<lambda>s. s = s0) (os_query SRealpath ?q)
      (\<lambda>q s. s = s0 \<and> (quiet env \<longrightarrow> check_text p = None \<longrightarrow>
         q = fst (realp (fold_name env) s0 (41 + length (entries s0)) [] p)))
      (\<lambda>e s. s = s0 \<and> (quiet env \<longrightarrow> check_text p \<noteq> None))"
    by (rule spec_os_query) (use assms in \<open>auto simp: quiet_def split: option.splits\<close>)
  show "spec env G (\<lambda>s. s = s0 \<and> (quiet env \<longrightarrow> check_text p \<noteq> None))
      (if is_OSError e then ret p else fail e)
      (\<lambda>q s. s = s0 \<and> (quiet env \<longrightarrow> check_text p = None \<longrightarrow>
         q = fst (realp (fold_name env) s0 (41 + length (entries s0)) [] p))) (\<lambda>_ s. s = s0)" for e
    by (rule spec_if) (auto intro!: spec_ret spec_fail)
qed

text \<open>Through a link or not, the resolved target leads where the path leads, without a link.\<close>

lemma lands_plain:
  assumes "fs_ok s0" and "namei (fold_name env) s0 True p = Inr k"
    and "\<not> (case stat_at (fold_name env) False p s0 of Inr kn \<Rightarrow> is_link (snd kn) | Inl _ \<Rightarrow> False)"
  shows "lands env s0 (Some k) p"
proof -
  note nl = namei_no_link [OF assms(1,2)]
  have w: "check_text p = None" "walks (fold_name env) s0 True 40 [] p k"
    using assms(2) by (simp_all add: namei_walks)
  obtain k' where k': "walks (fold_name env) s0 False 40 [] p k'" "k' = k \<or> is_link_at s0 k'"
    using walks_nofollow [OF w(2)] by blast
  have "\<not> is_link_at s0 k'"
    using assms(3) k'(1) w(1)
    by (auto simp: stat_at_def namei_def walk_iff [THEN iffD2, OF k'(1)] is_link_def is_link_at_def
        split: option.splits node.splits)
  then show ?thesis using assms(2) nl k' w(1) by (simp add: lands_def namei_walks)
qed

lemma lands_realp:
  assumes "fs_ok s0" and "namei (fold_name env) s0 True p = Inr k"
  shows "lands env s0 (Some k) (fst (realp (fold_name env) s0 (41 + length (entries s0)) [] p))"
proof -
  have w: "check_text p = None" "walks (fold_name env) s0 True 40 (map (fold_name env) []) p k"
    using assms(2) by (simp_all add: namei_walks)
  obtain q where q: "realp (fold_name env) s0 (41 + length (entries s0)) [] p = (q, True)"
    "settled (fold_name env) s0 q" "k = map (fold_name env) q"
    using realp_walks [OF assms(1) w(2) dirs_to_Nil [OF assms(1)] w(1),
      where f = "41 + length (entries s0)"] by auto
  then show ?thesis
    using namei_settled [OF q(2)] settled_not_link [OF q(2)] by (simp add: lands_def)
qed

lemma spec_resolve:
  assumes "G s0" and "fs_ok s0"
  shows "spec env G (\<lambda>s. s = s0) (resolve_symlinked_target p)
    (\<lambda>t s. s = s0 \<and> lands env s0 (known_key env s0 p) t) (\<lambda>_ s. s = s0)"
proof -
  let ?link = "case stat_at (fold_name env) False p s0 of Inr kn \<Rightarrow> is_link (snd kn) | Inl _ \<Rightarrow> False"
  have plain: "lands env s0 (known_key env s0 p) p" if "quiet env \<longrightarrow> \<not> ?link"
    using lands_plain [OF assms(2)] that by (auto simp: known_key_def lands_def split: sum.splits)
  have real: "lands env s0 (known_key env s0 p) q"
    if "quiet env \<longrightarrow> check_text p = None \<longrightarrow>
      q = fst (realp (fold_name env) s0 (41 + length (entries s0)) [] p)" for q
    using lands_realp [OF assms(2)] that
    by (auto simp: known_key_def lands_def namei_walks split: sum.splits)
  have branch: "spec env G (\<lambda>s. s = s0 \<and> (quiet env \<longrightarrow> b = ?link)) (if b then os_realpath p else ret p)
      (\<lambda>t s. s = s0 \<and> lands env s0 (known_key env s0 p) t) (\<lambda>_ s. s = s0)" for b
  proof (rule spec_if)
    show "spec env G (\<lambda>s. s = s0 \<and> (quiet env \<longrightarrow> b = ?link)) (os_realpath p)
      (\<lambda>t s. s = s0 \<and> lands env s0 (known_key env s0 p) t) (\<lambda>_ s. s = s0)"
      by (rule spec_weaken [OF spec_realpath [where G = G, OF assms(1)]]) (simp_all add: real)
  next
    assume "\<not> b"
    then show "spec env G (\<lambda>s. s = s0 \<and> (quiet env \<longrightarrow> b = ?link)) (ret p)
      (\<lambda>t s. s = s0 \<and> lands env s0 (known_key env s0 p) t) (\<lambda>_ s. s = s0)"
      using plain by (intro spec_ret) simp
  qed
  show ?thesis
    unfolding resolve_symlinked_target_def
    by (rule spec_seq [OF spec_is_symlink [where G = G, OF assms(1)] branch])
qed

lemma spec_refuse:
  assumes "G s0"
  shows "spec env G (\<lambda>s. s = s0) (refuse_unwritable_target t) (\<lambda>_ s. s = s0) (\<lambda>_ s. s = s0)"
  unfolding refuse_unwritable_target_def unless_missing_def os_stat_def os_access_def
  using assms
  by (auto intro!: spec_seq [where R = "\<lambda>_ s. s = s0"] spec_handle [where R = "\<lambda>_ s. s = s0"]
      spec_look_only spec_ret spec_fail spec_if split: option.splits)

section \<open>Making the directories\<close>

lemma spec_mkdir_changed:
  assumes G: "\<And>s. changed s0 {} s \<Longrightarrow> G s"
  shows "spec env G (changed s0 {}) (mkdir_exist_ok p) (\<lambda>_. changed s0 {}) (\<lambda>_. changed s0 {})"
  unfolding mkdir_exist_ok_def os_mkdir_def
proof (rule spec_handle [where R = "\<lambda>_. changed s0 {}"])
  let ?eff = "\<lambda>env s. case make_entry env p (Dir (0x1FF AND NOT (umask env))) s of
    Inl e \<Rightarrow> Inl e | Inr (_, s') \<Rightarrow> Inr ((), s')"
  have eff: "changed s0 {} s'" if "changed s0 {} s" "?eff env s = Inr (x, s')" for s x s'
    using that changed_mkdir by (auto split: sum.splits prod.splits)
  show "spec env G (changed s0 {}) (os_call SMkdir ?eff) (\<lambda>_. changed s0 {}) (\<lambda>_. changed s0 {})"
    by (rule spec_os_call) (use eff G in blast)+
  show "spec env G (changed s0 {})
      (if e = ENOENT then fail e
       else if is_OSError e then seq (path_is_dir p) (\<lambda>d. if d then ret () else fail e) else fail e)
      (\<lambda>_. changed s0 {}) (\<lambda>_. changed s0 {})" for e
    by (auto intro!: spec_if spec_fail spec_ret spec_seq [where R = "\<lambda>_. changed s0 {}"]
        spec_path_is_dir G)
qed

lemma spec_mkdirs_changed:
  assumes G: "\<And>s. changed s0 {} s \<Longrightarrow> G s"
  shows "spec env G (changed s0 {}) (mkdir_parents up) (\<lambda>_. changed s0 {}) (\<lambda>_. changed s0 {})"
proof (induction up)
  case Nil
  show ?case by (simp add: spec_mkdir_changed G)
next
  case (Cons c up)
  show ?case
    by (auto intro!: spec_handle [where R = "\<lambda>_. changed s0 {}"] spec_if spec_fail
        spec_seq [where R = "\<lambda>_. changed s0 {}"] spec_mkdir_changed Cons.IH G)
qed

text \<open>Where they exist already, nothing happens.\<close>

lemma walks_last_exists:
  assumes "fs_ok s" and "walks nf s True n [] d k" and "is_dir_at s k"
    and "walks nf s False n [] d k'"
  shows "look s k' \<noteq> None"
proof (cases "is_link_at s k'")
  case True
  then show ?thesis by (auto elim: is_link_atE)
next
  case False
  then have "walks nf s True n [] d k'" using walks_follow [OF assms(4)] by simp
  then have "k' = k" using assms(2) by (simp flip: walk_iff)
  then show ?thesis using assms(3) by (auto elim: is_dir_atE)
qed

lemma make_entry_existing:
  assumes "fs_ok s" and "namei (fold_name env) s True d = Inr k" and "is_dir_at s k"
  shows "make_entry env d nd s = Inl EEXIST"
proof -
  have w: "check_text d = None" "walks (fold_name env) s True 40 [] d k"
    using assms(2) by (simp_all add: namei_walks)
  obtain k' where k': "walks (fold_name env) s False 40 [] d k'"
    using walks_nofollow [OF w(2)] by blast
  then have "namei (fold_name env) s False d = Inr k'" using w(1) by (simp add: namei_walks)
  then show ?thesis
    using walks_last_exists [OF assms(1) w(2) assms(3) k'] by (simp add: make_entry_def)
qed

lemma namei_butlast:
  assumes "fs_ok s" and "namei nf s follow d = Inr k"
  shows "\<exists>k'. namei nf s True (butlast d) = Inr k' \<and> is_dir_at s k'"
proof (cases "d = []")
  case True
  then show ?thesis using fs_okD(1) [OF assms(1)]
    by (intro exI [of _ "[]"]) (simp add: namei_walks walks.arrived)
next
  case False
  then have d: "d = butlast d @ [last d]" by simp
  have "walks nf s follow 40 [] (butlast d @ [last d]) k" "check_text d = None"
    using assms(2) d by (simp_all add: namei_walks)
  then obtain k' where "walks nf s True 40 [] (butlast d) k'" "is_dir_at s k'"
    using walks_append [OF assms(1), of nf follow 40 "[]" "butlast d" "[last d]" k] fs_okD(1) [OF assms(1)]
    by auto
  moreover have "check_text (butlast d) = None"
    using \<open>check_text d = None\<close> d check_text_append [of "butlast d" "[last d]"] by simp
  ultimately show ?thesis by (auto simp: namei_walks)
qed

lemma spec_mkdir_existing:
  assumes "G s0" and "fs_ok s0" and "namei (fold_name env) s0 True d = Inr k" and "is_dir_at s0 k"
  shows "spec env G (\<lambda>s. s = s0) (mkdir_exist_ok d) (\<lambda>_ s. s = s0) (\<lambda>_ s. s = s0)"
  unfolding mkdir_exist_ok_def os_mkdir_def
proof (rule spec_handle [where R = "\<lambda>_ s. s = s0"])
  let ?eff = "\<lambda>env s. case make_entry env d (Dir (0x1FF AND NOT (umask env))) s of
    Inl e \<Rightarrow> Inl e | Inr (_, s') \<Rightarrow> Inr ((), s')"
  have "?eff env s0 = Inl EEXIST" using make_entry_existing [OF assms(2-4)] by simp
  then show "spec env G (\<lambda>s. s = s0) (os_call SMkdir ?eff) (\<lambda>_ s. s = s0) (\<lambda>_ s. s = s0)"
    by (intro spec_os_call) auto
  show "spec env G (\<lambda>s. s = s0)
      (if e = ENOENT then fail e
       else if is_OSError e then seq (path_is_dir d) (\<lambda>d. if d then ret () else fail e) else fail e)
      (\<lambda>_ s. s = s0) (\<lambda>_ s. s = s0)" for e
    using assms(1)
    by (auto intro!: spec_if spec_fail spec_ret spec_seq [where R = "\<lambda>_ s. s = s0"] spec_path_is_dir)
qed

lemma spec_mkdirs_existing:
  assumes "G s0" and "fs_ok s0"
  shows "namei (fold_name env) s0 True (rev up) = Inr k \<Longrightarrow> is_dir_at s0 k \<Longrightarrow>
    spec env G (\<lambda>s. s = s0) (mkdir_parents up) (\<lambda>_ s. s = s0) (\<lambda>_ s. s = s0)"
proof (induction up arbitrary: k)
  case Nil
  then show ?case using spec_mkdir_existing [where G = G, OF assms, of env "[]" k] by simp
next
  case (Cons c up)
  obtain k' where "namei (fold_name env) s0 True (rev up) = Inr k'" "is_dir_at s0 k'"
    using namei_butlast [OF assms(2) Cons.prems(1)] by auto
  then have "spec env G (\<lambda>s. s = s0) (mkdir_parents up) (\<lambda>_ s. s = s0) (\<lambda>_ s. s = s0)"
    by (rule Cons.IH)
  moreover have "spec env G (\<lambda>s. s = s0) (mkdir_exist_ok (rev up @ [c])) (\<lambda>_ s. s = s0) (\<lambda>_ s. s = s0)"
    using spec_mkdir_existing [where G = G, OF assms, of env "rev up @ [c]"] Cons.prems by simp
  ultimately show ?case
    by (auto intro!: spec_handle [where R = "\<lambda>_ s. s = s0"] spec_if spec_fail
        spec_seq [where R = "\<lambda>_ s. s = s0"])
qed

lemma spec_mkdirs:
  assumes G: "\<And>s. changed s0 {} s \<Longrightarrow> G s" and ok: "fs_ok s0" and t: "lands env s0 ko t"
  shows "spec env G (\<lambda>s. s = s0) (mkdir_parents (rev (butlast t)))
    (\<lambda>_. before_temp s0 ko) (\<lambda>_. changed s0 {})"
proof (cases ko)
  case None
  show ?thesis
    by (rule spec_weaken [OF spec_mkdirs_changed [OF G]])
      (simp_all add: None before_temp_def changed_refl ok)
next
  case (Some k)
  then obtain k' where "namei (fold_name env) s0 True (rev (rev (butlast t))) = Inr k'" "is_dir_at s0 k'"
    using namei_butlast [OF ok, of "fold_name env" True t k] t by (auto simp: lands_def)
  from spec_mkdirs_existing [where G = G, OF G [OF changed_refl [OF ok]] ok this]
  show ?thesis by (rule spec_weaken) (simp_all add: before_temp_def changed_refl ok)
qed

section \<open>The temp file\<close>

definition new_perm :: "env \<Rightarrow> mode" where
  "new_perm env = 0x1B6 AND NOT (umask env)"

definition temp_state :: "env \<Rightarrow> fs \<Rightarrow> path option \<Rightarrow> path \<Rightarrow> path \<Rightarrow> nat \<Rightarrow> (inode \<Rightarrow> bool) \<Rightarrow> fs \<Rightarrow> bool" where
  "temp_state env s0 ko t tmp fd C s \<longleftrightarrow> (\<exists>tk. temp_at env s0 ko t tmp fd tk s \<and> C (inodes s ! fd))"

lemma temp_atD:
  assumes "temp_at env s0 ko t tmp fd tk s"
  shows "changed s0 {tk} s" "look s0 tk = None" "temp_key env t tk" "look s tk = Some (File fd)"
    "length (inodes s0) \<le> fd" "namei (fold_name env) s False tmp = Inr tk" "parent_writable env s tk"
    "ko \<noteq> None \<Longrightarrow> k \<noteq> tk \<Longrightarrow> look s k = look s0 k" "fs_ok s" "fd < length (inodes s)"
proof -
  note a = assms [unfolded temp_at_def]
  show c: "changed s0 {tk} s" using a by (elim conjE)
  show "look s0 tk = None" using a by (elim conjE)
  show "temp_key env t tk" using a by (elim conjE)
  show f: "look s tk = Some (File fd)" using a by (elim conjE)
  show "length (inodes s0) \<le> fd" using a by (elim conjE)
  show "namei (fold_name env) s False tmp = Inr tk" using a by (elim conjE)
  show "parent_writable env s tk" using a by (elim conjE)
  show "ko \<noteq> None \<Longrightarrow> k \<noteq> tk \<Longrightarrow> look s k = look s0 k" using a by blast
  show "fs_ok s" using changedD(1) [OF c] .
  then show "fd < length (inodes s)" using f by (rule fs_okD(3))
qed

lemma temp_at_tmp:
  "temp_at env s0 ko t tmp fd tk s \<Longrightarrow> \<exists>base token. tmp = butlast t @ [temp_name base token]"
  unfolding temp_at_def by (elim conjE)

lemma temp_state_weaken:
  "temp_state env s0 ko t tmp fd C s \<Longrightarrow> (\<And>n. C n \<Longrightarrow> C' n) \<Longrightarrow> temp_state env s0 ko t tmp fd C' s"
  by (auto simp: temp_state_def)

lemma namei_stable:
  assumes "namei nf s follow p = Inr k"
    and "\<And>k. is_dir_at s k \<Longrightarrow> is_dir_at s' k"
    and "\<And>k. is_link_at s k \<Longrightarrow> look s' k = look s k"
    and "\<And>k. is_link_at s' k \<Longrightarrow> is_link_at s k"
  shows "namei nf s' follow p = Inr k"
  using assms(1) walks_stable [OF assms(2-4)] unfolding namei_walks by blast

text \<open>One file more or one file less is no matter to a walk.\<close>

lemma namei_files:
  assumes "namei nf s follow p = Inr k"
    and "\<And>k. look s' k = look s k \<or> \<not> is_dir_at s k \<and> \<not> is_link_at s k \<and> \<not> is_link_at s' k"
  shows "namei nf s' follow p = Inr k"
proof (rule namei_stable [OF assms(1)])
  fix k
  show "is_dir_at s k \<Longrightarrow> is_dir_at s' k" using assms(2) [of k] by (auto simp: is_dir_at_def)
  show "is_link_at s k \<Longrightarrow> look s' k = look s k" using assms(2) [of k] by auto
  show "is_link_at s' k \<Longrightarrow> is_link_at s k" using assms(2) [of k] by (auto simp: is_link_at_def)
qed

lemma parent_writable_cong:
  "look s' (butlast k) = look s (butlast k) \<Longrightarrow> parent_writable env s' k = parent_writable env s k"
  by (simp add: parent_writable_def)

lemma temp_at_upd:
  assumes "temp_at env s0 ko t tmp fd tk s"
  shows "temp_at env s0 ko t tmp fd tk (upd_inode fd f s)"
proof -
  note T = temp_atD [OF assms]
  have "namei (fold_name env) (upd_inode fd f s) False tmp = Inr tk"
    by (rule namei_files [OF T(6)]) simp
  then show ?thesis
    using assms changed_upd [OF T(1,5)] by (simp add: temp_at_def parent_writable_def)
qed

lemma temp_state_upd:
  assumes "temp_state env s0 ko t tmp fd C s" and "\<And>n. C n \<Longrightarrow> C' (f n)"
  shows "temp_state env s0 ko t tmp fd C' (upd_inode fd f s)"
proof -
  obtain tk where tk: "temp_at env s0 ko t tmp fd tk s" "C (inodes s ! fd)"
    using assms(1) by (auto simp: temp_state_def)
  have "C' (inodes (upd_inode fd f s) ! fd)"
    using temp_atD(10) [OF tk(1)] assms(2) [OF tk(2)] by (simp add: upd_inode_def)
  then show ?thesis using temp_at_upd [OF tk(1)] by (auto simp: temp_state_def)
qed

lemma moment_changed: "changed s0 {} s \<Longrightarrow> write_moment env s0 ko txt enc s"
  by (simp add: write_moment_def)

lemma moment_temp: "temp_state env s0 ko t tmp fd C s \<Longrightarrow> write_moment env s0 ko txt enc s"
  by (auto simp: write_moment_def temp_state_def dest: temp_atD(1-3))

text \<open>The key of a name that is free is made from that name.\<close>

lemma walks_last:
  assumes "fs_ok s" and "walks nf s False n [] (d @ [c]) k" and "look s k = None"
  shows "last k = nf c"
proof -
  obtain m d' where d': "is_dir_at s d'" "walks nf s False m d' [c] k"
    using walks_append [OF assms(1,2)] fs_okD(1) [OF assms(1)] by auto
  have nd: "\<not> is_dir_at s k" using assms(3) by simp
  from d'(2) show ?thesis
  proof cases
    case up
    then have "k = butlast d'" by (auto elim: walks.cases)
    then show ?thesis using is_dir_butlast [OF assms(1) d'(1)] nd by simp
  next
    case down
    then have "k = d' @ [nf c]" by (auto elim: walks.cases)
    then show ?thesis by simp
  qed auto
qed

lemma spec_open_temp:
  assumes cap: "cap_base_for_temp (file_name t) = Inr base"
    and sig: "\<And>c n e. faults env c n = Interrupted e \<Longrightarrow> \<not> is_OSError e"
    and G: "\<And>s. write_moment env s0 ko txt enc s \<Longrightarrow> G s"
  shows "spec env G (before_temp s0 ko) (os_open_excl (butlast t @ [temp_name base (tokens env n)]) 0x1B6)
    (\<lambda>fd. temp_state env s0 ko t (butlast t @ [temp_name base (tokens env n)]) fd
       (\<lambda>i. content i = [] \<and> perm i = new_perm env))
    (\<lambda>e s. before_temp s0 ko s \<or> \<not> clean env \<and> \<not> is_OSError e)"
  unfolding os_open_excl_def
proof (rule spec_os_call)
  let ?tmp = "butlast t @ [temp_name base (tokens env n)]"
  let ?eff = "\<lambda>env s. let i = length (inodes s) in case make_entry env ?tmp (File i) s of
      Inl e \<Rightarrow> Inl e
    | Inr (_, s') \<Rightarrow> Inr (i, s'\<lparr>inodes := inodes s' @ [\<lparr>content = [], disk = [], perm = 0x1B6 AND NOT (umask env)\<rparr>]\<rparr>)"
  fix s fd s' assume P: "before_temp s0 ko s" and eff: "?eff env s = Inr (fd, s')"
  obtain tk s1 where m: "make_entry env ?tmp (File (length (inodes s))) s = Inr (tk, s1)"
    and fd: "fd = length (inodes s)"
    and s': "s' = s1\<lparr>inodes := inodes s1 @ [\<lparr>content = [], disk = [], perm = new_perm env\<rparr>]\<rparr>"
    using eff by (auto simp: Let_def new_perm_def split: sum.splits)
  have ch: "changed s0 {} s" using P by (simp add: before_temp_def)
  note e = make_entry_Inr [OF changedD(1) [OF ch] m] and c = changed_open [OF ch m]
  have look': "look s' k = (if k = tk then Some (File fd) else look s k)" for k
    by (simp add: s' e(6) fd)
  have "walks (fold_name env) s False 40 [] ?tmp tk" using e(1) by (simp add: namei_walks)
  then have last: "last tk = fold_name env (temp_name base (tokens env n))"
    using walks_last [OF changedD(1) [OF ch] _ e(2)] by blast
  have nam: "namei (fold_name env) s' False ?tmp = Inr tk"
    by (rule namei_files [OF e(1)]) (use e(2) look' in \<open>auto simp: is_link_at_def\<close>)
  have "parent_writable env s' tk"
    using e(4,5) look' [of "butlast tk"] e(2) by (auto simp: parent_writable_def)
  moreover have "ko \<noteq> None \<Longrightarrow> k \<noteq> tk \<Longrightarrow> look s' k = look s0 k" for k
    using P look' by (auto simp: before_temp_def)
  ultimately have "temp_at env s0 ko t ?tmp fd tk s'"
    unfolding temp_at_def temp_key_def
    using c(1) [of "\<lparr>content = [], disk = [], perm = new_perm env\<rparr>", folded s'] c(2) look' [of tk]
      changedD(2) [OF ch] nam last cap e(3) fd by auto
  then have T: "temp_state env s0 ko t ?tmp fd (\<lambda>i. content i = [] \<and> perm i = new_perm env) s'"
    unfolding temp_state_def by (intro exI [of _ tk]) (simp add: s' e(6) fd)
  show "G s' \<and> temp_state env s0 ko t ?tmp fd (\<lambda>i. content i = [] \<and> perm i = new_perm env) s'"
    using G [OF moment_temp [OF T]] T ..
qed (use sig in \<open>auto simp: clean_def\<close>)

lemma spec_draw: "spec env G P draw_token (\<lambda>token s. P s \<and> (\<exists>n. token = tokens env n)) E"
  by (rule specI) (auto simp: draw_token_def)

lemma spec_temp_loop:
  assumes cap: "cap_base_for_temp (file_name t) = Inr base"
    and sig: "\<And>c n e. faults env c n = Interrupted e \<Longrightarrow> \<not> is_OSError e"
    and G: "\<And>s. write_moment env s0 ko txt enc s \<Longrightarrow> G s"
  shows "spec env G (before_temp s0 ko) (temp_loop n (butlast t) base)
    (\<lambda>(fd, tmp). temp_state env s0 ko t tmp fd (\<lambda>i. content i = [] \<and> perm i = new_perm env))
    (\<lambda>e s. before_temp s0 ko s \<or> \<not> clean env \<and> \<not> is_OSError e)"
proof (induction n)
  case 0
  show ?case by (simp add: spec_fail)
next
  case (Suc n)
  let ?fresh = "\<lambda>i. content i = [] \<and> perm i = new_perm env"
  let ?E = "\<lambda>(e :: exc) s. before_temp s0 ko s \<or> \<not> clean env \<and> \<not> is_OSError e"
  let ?open = "\<lambda>tmp. handle (seq (os_open_excl tmp 0x1B6) (\<lambda>fd. ret (Some fd)))
      (\<lambda>e. if e = EEXIST then ret None else fail e)"
  have step: "spec env G (\<lambda>s. before_temp s0 ko s \<and> (\<exists>m. token = tokens env m))
      (seq (?open (butlast t @ [temp_name base token]))
        (\<lambda>r. case r of Some fd \<Rightarrow> ret (fd, butlast t @ [temp_name base token]) | None \<Rightarrow> temp_loop n (butlast t) base))
      (\<lambda>(fd, tmp). temp_state env s0 ko t tmp fd ?fresh) ?E" for token
  proof (cases "\<exists>m. token = tokens env m")
    case False
    then show ?thesis by (simp add: spec_def)
  next
    case True
    then obtain m where tok: "token = tokens env m" ..
    let ?tmp = "butlast t @ [temp_name base token]"
    let ?R = "\<lambda>r s. case r of Some fd \<Rightarrow> temp_state env s0 ko t ?tmp fd ?fresh s | None \<Rightarrow> before_temp s0 ko s"
    have "spec env G (before_temp s0 ko) (?open ?tmp) ?R ?E"
    proof (rule spec_handle [where R = ?E])
      show "spec env G (before_temp s0 ko) (seq (os_open_excl ?tmp 0x1B6) (\<lambda>fd. ret (Some fd))) ?R ?E"
        unfolding tok by (rule spec_seq [OF spec_open_temp [OF cap sig G]]) (simp_all add: spec_ret)
      show "spec env G (?E e) (if e = EEXIST then ret None else fail e) ?R ?E" for e
        by (rule spec_if) (auto intro!: spec_ret spec_fail simp: EEXIST_def)
    qed
    moreover have "spec env G (?R r) (case r of Some fd \<Rightarrow> ret (fd, ?tmp) | None \<Rightarrow> temp_loop n (butlast t) base)
        (\<lambda>(fd, tmp). temp_state env s0 ko t tmp fd ?fresh) ?E" for r
      using Suc.IH by (cases r) (simp_all add: spec_ret)
    ultimately have "spec env G (before_temp s0 ko)
        (seq (?open ?tmp) (\<lambda>r. case r of Some fd \<Rightarrow> ret (fd, ?tmp) | None \<Rightarrow> temp_loop n (butlast t) base))
        (\<lambda>(fd, tmp). temp_state env s0 ko t tmp fd ?fresh) ?E"
      by (rule spec_seq)
    then show ?thesis by (rule spec_weaken) simp_all
  qed
  show ?case
    unfolding temp_loop.simps Let_def
    by (rule spec_seq [OF spec_draw step])
qed

section \<open>Writing, mode and rename\<close>

lemma spec_write:
  assumes G: "\<And>s. write_moment env s0 ko txt enc s \<Longrightarrow> G s"
  shows "spec env G (temp_state env s0 ko t tmp fd (\<lambda>i. content i = [] \<and> perm i = m)) (os_write fd bs)
    (\<lambda>_. temp_state env s0 ko t tmp fd (\<lambda>i. content i = bs \<and> perm i = m))
    (\<lambda>_. temp_state env s0 ko t tmp fd (\<lambda>_. True))"
proof (rule specI)
  let ?P = "temp_state env s0 ko t tmp fd (\<lambda>i. content i = [] \<and> perm i = m)"
  let ?put = "\<lambda>b w. upd_inode fd (\<lambda>n. n\<lparr>content := content n @ b\<rparr>) (fs w)"
  fix w r w' assume run: "os_write fd bs env w = (r, w')" and P: "?P (fs w)"
  have put: "temp_state env s0 ko t tmp fd (\<lambda>i. content i = b \<and> perm i = m) (?put b w)" for b
    by (rule temp_state_upd [OF P]) simp
  have any: "temp_state env s0 ko t tmp fd (\<lambda>_. True) (?put b w)" for b
    by (rule temp_state_weaken [OF put]) simp
  have g: "G (?put b w)" for b using G [OF moment_temp [OF put]] .
  have same: "temp_state env s0 ko t tmp fd (\<lambda>_. True) (fs w)" by (rule temp_state_weaken [OF P]) simp
  show "(\<exists>hs. history w' = history w @ hs \<and> (\<forall>h \<in> set hs. G h)) \<and>
    (case r of
       Inr x \<Rightarrow> temp_state env s0 ko t tmp fd (\<lambda>i. content i = bs \<and> perm i = m) (fs w')
     | Inl e \<Rightarrow> temp_state env s0 ko t tmp fd (\<lambda>_. True) (fs w'))"
    using run put any g same
    by (cases "faults env SWrite (clock w)") (auto simp: os_write_def log_state_def Let_def)
qed

lemma spec_temp_inode:
  assumes G: "\<And>s. write_moment env s0 ko txt enc s \<Longrightarrow> G s"
    and C: "\<And>i. C i \<Longrightarrow> C' (f i)"
  shows "spec env G (temp_state env s0 ko t tmp fd C) (os_call c (\<lambda>_ s. Inr ((), upd_inode fd f s)))
    (\<lambda>_. temp_state env s0 ko t tmp fd C') (\<lambda>_. temp_state env s0 ko t tmp fd (\<lambda>_. True))"
proof -
  have u: "temp_state env s0 ko t tmp fd C s \<Longrightarrow> temp_state env s0 ko t tmp fd C' (upd_inode fd f s)" for s
    by (rule temp_state_upd [where C = C]) (use C in auto)
  have any: "temp_state env s0 ko t tmp fd D s \<Longrightarrow> temp_state env s0 ko t tmp fd (\<lambda>_. True) s" for D s
    by (rule temp_state_weaken) simp_all
  show ?thesis
    by (rule spec_os_call) (use u G [OF moment_temp [OF u]] any [OF u] any [where D = C] in auto)
qed

lemma spec_temp_keep:
  assumes G: "\<And>s. write_moment env s0 ko txt enc s \<Longrightarrow> G s"
  shows "spec env G (temp_state env s0 ko t tmp fd C) (os_close fd)
    (\<lambda>_. temp_state env s0 ko t tmp fd C) (\<lambda>_. temp_state env s0 ko t tmp fd (\<lambda>_. True))"
  unfolding os_close_def
  by (rule spec_os_call)
    (use G [OF moment_temp] temp_state_weaken [where C = C and C' = "\<lambda>_. True"] in auto)

definition written :: "bytes \<Rightarrow> mode \<Rightarrow> inode \<Rightarrow> bool" where
  "written bs m i \<longleftrightarrow> content i = bs \<and> disk i = bs \<and> perm i = m"

lemma spec_write_synced:
  assumes G: "\<And>s. write_moment env s0 ko txt enc s \<Longrightarrow> G s"
  shows "spec env G (temp_state env s0 ko t tmp fd (\<lambda>i. content i = [] \<and> perm i = m))
    (write_synced fd encode txt)
    (\<lambda>_ s. \<exists>bs. encode txt = Inr bs \<and> temp_state env s0 ko t tmp fd (written bs m) s)
    (\<lambda>_. temp_state env s0 ko t tmp fd (\<lambda>_. True))"
proof -
  let ?any = "\<lambda>_. temp_state env s0 ko t tmp fd (\<lambda>_. True)"
  let ?P = "temp_state env s0 ko t tmp fd (\<lambda>i. content i = [] \<and> perm i = m)"
  have body: "spec env G ?P
      (case encode txt of Inl e \<Rightarrow> fail e | Inr bs \<Rightarrow> seq (os_write fd bs) (\<lambda>_. os_fsync fd))
      (\<lambda>_ s. \<exists>bs. encode txt = Inr bs \<and> temp_state env s0 ko t tmp fd (written bs m) s) ?any"
  proof (cases "encode txt")
    case (Inl e)
    then show ?thesis using temp_state_weaken by (auto intro!: spec_fail)
  next
    case (Inr bs)
    have "spec env G (temp_state env s0 ko t tmp fd (\<lambda>i. content i = bs \<and> perm i = m)) (os_fsync fd)
        (\<lambda>_. temp_state env s0 ko t tmp fd (written bs m)) ?any"
      unfolding os_fsync_def by (rule spec_temp_inode [OF G]) (auto simp: written_def)
    from spec_seq [OF spec_write [OF G] this]
    show ?thesis using Inr by (auto intro: spec_weaken)
  qed
  show ?thesis
    unfolding write_synced_def
  proof (rule spec_finally [OF body])
    show "spec env G (\<lambda>s. \<exists>bs. encode txt = Inr bs \<and> temp_state env s0 ko t tmp fd (written bs m) s) (os_close fd)
      (\<lambda>_ s. \<exists>bs. encode txt = Inr bs \<and> temp_state env s0 ko t tmp fd (written bs m) s) ?any"
    proof (rule spec_ex)
      fix bs
      show "spec env G (\<lambda>s. encode txt = Inr bs \<and> temp_state env s0 ko t tmp fd (written bs m) s) (os_close fd)
        (\<lambda>_ s. \<exists>bs. encode txt = Inr bs \<and> temp_state env s0 ko t tmp fd (written bs m) s) ?any"
      proof (cases "encode txt = Inr bs")
        case True
        then show ?thesis by (intro spec_weaken [OF spec_temp_keep [OF G]]) auto
      qed (simp add: spec_def)
    qed
    show "spec env G (temp_state env s0 ko t tmp fd (\<lambda>_. True)) (os_close fd) (\<lambda>_. ?any e) ?any" for e :: exc
      by (rule spec_temp_keep [OF G])
  qed
qed

text \<open>The mode the new file has to get.\<close>

definition good_perm :: "env \<Rightarrow> fs \<Rightarrow> path option \<Rightarrow> mode \<Rightarrow> bool" where
  "good_perm env s0 ko m \<longleftrightarrow>
     (case ko of
        None \<Rightarrow> True
      | Some k \<Rightarrow>
          (case look s0 k of
             None \<Rightarrow> m = new_perm env
           | Some (File j) \<Rightarrow> m = perm (inodes s0 ! j)
           | Some _ \<Rightarrow> True))"

text \<open>What the target's \<open>stat\<close> answers while the temp file is there.\<close>

lemma temp_at_target:
  assumes T: "temp_at env s0 ko t tmp fd tk s" and ok: "fs_ok s0" and t: "lands env s0 ko t"
    and ko: "ko = Some k"
  shows "namei (fold_name env) s follow t = Inr k" "look s k = (if k = tk then Some (File fd) else look s0 k)"
proof -
  note D = temp_atD [OF T]
  show l: "look s k = (if k = tk then Some (File fd) else look s0 k)" using D(4) D(8) ko by auto
  have look: "look s k' = look s0 k' \<or> \<not> is_dir_at s0 k' \<and> \<not> is_link_at s0 k' \<and> \<not> is_link_at s k'" for k'
    using D(2,4) D(8) [of k'] ko by (cases "k' = tk") auto
  have "namei (fold_name env) s0 follow t = Inr k" using t ko by (cases follow) (simp_all add: lands_def)
  from namei_files [OF this look] show "namei (fold_name env) s follow t = Inr k" .
qed

lemma old_inode:
  assumes "changed s0 X s" and "j < length (inodes s0)"
  shows "inodes s ! j = inodes s0 ! j"
  using changedD(3) [OF assms(1)] assms(2) by (metis nth_take)

lemma temp_stat_mode:
  assumes T: "temp_at env s0 ko t tmp fd tk s" and ok: "fs_ok s0" and t: "lands env s0 ko t"
    and p: "perm (inodes s ! fd) = new_perm env" and ko: "ko = Some k"
  shows "case stat_at (fold_name env) True t s of
      Inr (_, nd) \<Rightarrow> good_perm env s0 ko (mode_at s nd)
    | Inl e \<Rightarrow> e = ENOENT \<and> good_perm env s0 ko (new_perm env)"
proof -
  note n = temp_at_target [OF T ok t ko]
  note D = temp_atD [OF T]
  have nl: "\<not> is_link_at s0 k" using t ko by (simp add: lands_def)
  show ?thesis
  proof (cases "k = tk")
    case True
    then show ?thesis using n D(2) p by (simp add: stat_at_def ko good_perm_def mode_at_def)
  next
    case False
    show ?thesis
    proof (cases "look s0 k")
      case None
      then show ?thesis using n False by (simp add: stat_at_def ko good_perm_def)
    next
      case (Some nd)
      then show ?thesis using n False nl old_inode [OF D(1)] fs_okD(3) [OF ok, of k]
        by (cases nd) (auto simp: stat_at_def ko good_perm_def mode_at_def)
    qed
  qed
qed

lemma spec_copy_mode:
  assumes ok: "fs_ok s0" and t: "lands env s0 ko t" and q: "ko \<noteq> None \<Longrightarrow> quiet env"
    and G: "\<And>s. write_moment env s0 ko txt enc s \<Longrightarrow> G s"
  shows "spec env G (temp_state env s0 ko t tmp fd (written bs (new_perm env))) (copy_existing_mode t tmp)
    (\<lambda>_ s. \<exists>m. good_perm env s0 ko m \<and> temp_state env s0 ko t tmp fd (written bs m) s)
    (\<lambda>_. temp_state env s0 ko t tmp fd (\<lambda>_. True))"
proof -
  let ?W = "temp_state env s0 ko t tmp fd (written bs (new_perm env))"
  let ?any = "\<lambda>_ :: exc. temp_state env s0 ko t tmp fd (\<lambda>_. True)"
  let ?R = "\<lambda>r s. ?W s \<and> good_perm env s0 ko (case r of Some m \<Rightarrow> m | None \<Rightarrow> new_perm env)"
  let ?q = "\<lambda>env s. case stat_at (fold_name env) True t s of Inl e \<Rightarrow> Inl e | Inr (_, nd) \<Rightarrow> Inr (mode_at s nd)"
  have any: "?W s \<Longrightarrow> ?any e s" for e s by (rule temp_state_weaken) auto
  have stat: "spec env G ?W (os_query SStat ?q) (\<lambda>m s. ?W s \<and> good_perm env s0 ko m)
      (\<lambda>e s. ?W s \<and> (e = ENOENT \<longrightarrow> good_perm env s0 ko (new_perm env)))"
  proof (rule spec_os_query)
    fix s m assume W: "?W s" and "?q env s = Inr m"
    then have "good_perm env s0 ko m"
      using temp_stat_mode [OF _ ok t, where fd = fd and tmp = tmp and s = s]
      by (cases ko) (auto simp: good_perm_def temp_state_def written_def split: sum.splits prod.splits)
    then show "G s \<and> ?W s \<and> good_perm env s0 ko m" using W G [OF moment_temp [OF W]] by simp
  next
    fix s e assume W: "?W s" and "?q env s = Inl e"
    then have "good_perm env s0 ko (new_perm env)"
      using temp_stat_mode [OF _ ok t, where fd = fd and tmp = tmp and s = s]
      by (cases ko) (auto simp: good_perm_def temp_state_def written_def split: sum.splits prod.splits)
    then show "?W s \<and> (e = ENOENT \<longrightarrow> good_perm env s0 ko (new_perm env))" using W by simp
  next
    fix s n and e :: exc assume "?W s" "faults env SStat n \<noteq> Works"
    then show "?W s \<and> (e = ENOENT \<longrightarrow> good_perm env s0 ko (new_perm env))"
      using q by (cases ko) (auto simp: good_perm_def quiet_def)
  qed
  have st: "spec env G ?W (unless_missing (os_stat_mode t)) ?R ?any"
    unfolding unless_missing_def os_stat_mode_def
  proof (rule spec_handle)
    show "spec env G ?W (seq (os_query SStat ?q) (\<lambda>x. ret (Some x))) ?R
        (\<lambda>e s. ?W s \<and> (e = ENOENT \<longrightarrow> good_perm env s0 ko (new_perm env)))"
      by (rule spec_seq [OF stat], rule spec_ret) simp
    show "spec env G (\<lambda>s. ?W s \<and> (e = ENOENT \<longrightarrow> good_perm env s0 ko (new_perm env)))
        (if e = ENOENT then ret None else fail e) ?R ?any" for e
      using any by (intro spec_if spec_ret spec_fail) auto
  qed
  have chmod: "spec env G ?W (os_chmod tmp m) (\<lambda>_. temp_state env s0 ko t tmp fd (written bs m)) ?any" for m
  proof -
    let ?eff = "\<lambda>env s. case stat_at (fold_name env) True tmp s of
        Inl e \<Rightarrow> Inl e
      | Inr (_, File i) \<Rightarrow> Inr ((), upd_inode i (\<lambda>n. n\<lparr>perm := m\<rparr>) s)
      | Inr (k, _) \<Rightarrow> Inr ((), s\<lparr>entries := AList.update k (Dir m) (entries s)\<rparr>)"
    have eff: "?eff env s = Inr ((), upd_inode fd (\<lambda>n. n\<lparr>perm := m\<rparr>) s)" if W: "?W s" for s
    proof -
      obtain tk where tk: "temp_at env s0 ko t tmp fd tk s" using W by (auto simp: temp_state_def)
      note D = temp_atD [OF tk]
      have "namei (fold_name env) s True tmp = Inr tk"
        using D(4,6) walks_follow [of "fold_name env" s 40 "[]" tmp tk] by (simp add: namei_walks)
      then show ?thesis using D(4) by (simp add: stat_at_def)
    qed
    have u: "temp_state env s0 ko t tmp fd (written bs m) (upd_inode fd (\<lambda>n. n\<lparr>perm := m\<rparr>) s)" if "?W s" for s
      by (rule temp_state_upd [OF that]) (simp add: written_def)
    show ?thesis
      unfolding os_chmod_def
    proof (rule spec_os_call)
      fix s x s' assume W: "?W s" and "?eff env s = Inr (x, s')"
      then have s': "s' = upd_inode fd (\<lambda>n. n\<lparr>perm := m\<rparr>) s" using eff by simp
      show "G s' \<and> temp_state env s0 ko t tmp fd (written bs m) s'"
        using u [OF W] G [OF moment_temp [OF u [OF W]]] s' by simp
      show "?any e s'" for e using temp_state_weaken [OF u [OF W], where C' = "\<lambda>_. True"] s' by simp
    qed (use any in auto)
  qed
  show ?thesis
    unfolding copy_existing_mode_def
  proof (rule spec_seq [OF st])
    fix r
    show "spec env G (?R r) (case r of None \<Rightarrow> ret () | Some mode \<Rightarrow> os_chmod tmp mode)
        (\<lambda>_ s. \<exists>m. good_perm env s0 ko m \<and> temp_state env s0 ko t tmp fd (written bs m) s) ?any"
    proof (cases r)
      case None
      then show ?thesis by (auto intro!: spec_ret)
    next
      case (Some m)
      show ?thesis
      proof (cases "good_perm env s0 ko m")
        case True
        then show ?thesis unfolding Some option.case
          by (intro spec_weaken [OF chmod]) auto
      qed (simp add: Some spec_def)
    qed
  qed
qed

text \<open>Backwards, for a walk that does not follow a last link, links may have gone.\<close>

lemma walks_back:
  assumes "\<And>k. is_dir_at s' k \<Longrightarrow> is_dir_at s k" and "\<And>k. is_link_at s' k \<Longrightarrow> look s k = look s' k"
  shows "walks nf s' False n cur rest k \<Longrightarrow> walks nf s False n cur rest k"
proof (induction rule: walks.induct)
  case (leaf c cur n)
  then show ?case by (cases "is_dir_at s (cur @ [nf c])") (auto intro: walks.intros)
next
  case (link c cur absolute t cs n k)
  then have "look s (cur @ [nf c]) = Some (Link absolute t)" using assms(2) [of "cur @ [nf c]"] by simp
  then show ?case using link by (auto intro: walks.link)
qed (auto intro: walks.intros assms(1))

text \<open>
  After the rename the temp name is free (or is the target itself), so a cleanup finds
  nothing, or what the write itself has made.
\<close>

definition after_rename :: "env \<Rightarrow> fs \<Rightarrow> path \<Rightarrow> fs \<Rightarrow> bool" where
  "after_rename env s0 tmp s \<longleftrightarrow>
     (\<exists>kd. changed s0 {kd} s \<and>
        (\<forall>k. namei (fold_name env) s False tmp = Inr k \<longrightarrow> look s k \<noteq> None \<longrightarrow>
           k = kd \<and> look s0 kd = None \<and> \<not> is_dir_at s kd))"

definition rename_in :: "path \<Rightarrow> path \<Rightarrow> node \<Rightarrow> fs \<Rightarrow> fs" where
  "rename_in tk kd nd s =
     (if look s kd = Some nd then s
      else s\<lparr>entries := AList.update kd nd (AList.delete tk (entries s))\<rparr>)"

lemma temp_at_rename:
  assumes T: "temp_at env s0 ko t tmp fd tk s" and ok: "fs_ok s0" and t: "lands env s0 ko t"
    and dst: "namei (fold_name env) s False t = Inr kd" "\<not> is_dir_at s kd" "parent_writable env s kd"
    and W: "written bs m (inodes s ! fd)"
  shows "replaced s0 ko fd bs kd (rename_in tk kd (File fd) s)"
    and "perm (inodes (rename_in tk kd (File fd) s) ! fd) = m"
    and "after_rename env s0 tmp (rename_in tk kd (File fd) s)"
    and "\<not> is_dir_at s0 kd"
proof -
  let ?s = "rename_in tk kd (File fd) s"
  note D = temp_atD [OF T]
  have inodes: "inodes ?s = inodes s" by (simp add: rename_in_def)
  then show "perm (inodes ?s ! fd) = m" using W by (simp add: written_def)
  have same: "kd = tk" if "look s kd = Some (File fd)"
  proof (rule ccontr)
    assume "kd \<noteq> tk"
    then have "look s0 kd = Some (File fd)"
      using changedD(4) [OF D(1), of kd] that by auto
    then show False using fs_okD(3) [OF ok] D(5) by fastforce
  qed
  have kd: "kd \<noteq> []" "is_dir_at s (butlast kd)"
    using dst(2,3) fs_okD(1) [OF D(9)]
    by (auto simp: parent_writable_def is_dir_at_def split: option.splits node.splits)
  have look: "look ?s k = (if k = kd then Some (File fd) else if k = tk then None else look s k)" for k
    using same D(4) by (auto simp: rename_in_def)
  have ch: "changed s0 {kd} ?s"
    using D(1) same changed_replace [OF D(1,2,4) dst(2) kd] by (auto simp: rename_in_def)
  have "kd = k" "k'' \<noteq> k \<longrightarrow> look ?s k'' = look s0 k''" if "ko = Some k" for k k''
  proof -
    show "kd = k" using temp_at_target(1) [OF T ok t that, of False] dst(1) by simp
    then show "k'' \<noteq> k \<longrightarrow> look ?s k'' = look s0 k''"
      using look [of k''] D(2) D(8) [of k''] that by auto
  qed
  then show "replaced s0 ko fd bs kd ?s"
    using ch look [of kd] D(5) W by (auto simp: replaced_def inodes written_def split: option.splits)
  have "k = kd \<and> look s0 kd = None \<and> \<not> is_dir_at ?s kd"
    if k: "namei (fold_name env) ?s False tmp = Inr k" "look ?s k \<noteq> None" for k
  proof -
    have "is_dir_at ?s k' \<Longrightarrow> is_dir_at s k'" "is_link_at ?s k' \<Longrightarrow> look s k' = look ?s k'" for k'
      using look [of k'] by (auto simp: is_dir_at_def is_link_at_def split: if_splits)
    then have "walks (fold_name env) s False 40 [] tmp k"
      using k(1) walks_back [of ?s s] by (auto simp: namei_walks)
    then have "k = tk" using D(6) by (simp add: namei_walks flip: walk_iff)
    then show ?thesis using k(2) look [of tk] look [of kd] D(2) by (auto split: if_splits)
  qed
  then show "after_rename env s0 tmp ?s" using ch unfolding after_rename_def by blast
  show "\<not> is_dir_at s0 kd"
  proof
    assume d: "is_dir_at s0 kd"
    then have "kd \<noteq> tk" and "look s0 kd \<noteq> None" using D(2) by (auto elim: is_dir_atE)
    then have "look s kd = look s0 kd" using changedD(4) [OF D(1), of kd] by auto
    then show False using dst(2) d by (simp add: is_dir_at_def)
  qed
qed

lemma spec_replace:
  assumes ok: "fs_ok s0" and t: "lands env s0 ko t"
    and bs: "codecs env enc = Inr encode" "encode txt = Inr bs"
    and G: "\<And>s. write_moment env s0 ko txt enc s \<Longrightarrow> G s"
  shows "spec env G (temp_state env s0 ko t tmp fd (written bs m)) (os_replace tmp t)
    (\<lambda>_ s. \<exists>k. replaced s0 ko fd bs k s \<and> perm (inodes s ! fd) = m \<and> \<not> is_dir_at s0 k)
    (\<lambda>_ s. temp_state env s0 ko t tmp fd (\<lambda>_. True) s \<or> \<not> clean env \<and> after_rename env s0 tmp s)"
proof -
  let ?W = "temp_state env s0 ko t tmp fd (written bs m)"
  let ?eff = "\<lambda>env s. case stat_at (fold_name env) False tmp s of
        Inl e \<Rightarrow> Inl e
      | Inr (ks, nd) \<Rightarrow>
          (case namei (fold_name env) s False t of
             Inl e \<Rightarrow> Inl e
           | Inr kd \<Rightarrow>
               if (case look s kd of Some (Dir _) \<Rightarrow> True | _ \<Rightarrow> False) then Inl EISDIR
               else if \<not> parent_writable env s ks \<or> \<not> parent_writable env s kd then Inl EACCES
               else if look s kd = Some nd \<and> (case nd of File _ \<Rightarrow> True | _ \<Rightarrow> False) then Inr ((), s)
               else Inr ((), s\<lparr>entries := AList.update kd nd (AList.delete ks (entries s))\<rparr>))"
  have eff: "\<exists>k. replaced s0 ko fd bs k s' \<and> perm (inodes s' ! fd) = m \<and> \<not> is_dir_at s0 k \<and> after_rename env s0 tmp s'"
    if W: "?W s" and e: "?eff env s = Inr (x, s')" for s x s'
  proof -
    obtain tk where tk: "temp_at env s0 ko t tmp fd tk s" "written bs m (inodes s ! fd)"
      using W by (auto simp: temp_state_def)
    note D = temp_atD [OF tk(1)]
    have st: "stat_at (fold_name env) False tmp s = Inr (tk, File fd)" using D(4,6) by (simp add: stat_at_def)
    obtain kd where kd: "namei (fold_name env) s False t = Inr kd" "\<not> is_dir_at s kd" "parent_writable env s kd"
      "s' = rename_in tk kd (File fd) s"
      using e unfolding st by (auto simp: rename_in_def is_dir_at_def split: sum.splits if_splits)
    show ?thesis using temp_at_rename [OF tk(1) ok t kd(1-3) tk(2)] kd(4) by blast
  qed
  have g: "G s'" if "replaced s0 ko fd bs k s'" for k s'
    using that bs by (intro G) (auto simp: write_moment_def)
  show ?thesis
    unfolding os_replace_def
  proof (rule spec_os_call)
    fix s x s' assume P: "?W s" and e: "?eff env s = Inr (x, s')"
    obtain k where k: "replaced s0 ko fd bs k s'" "perm (inodes s' ! fd) = m" "\<not> is_dir_at s0 k"
      "after_rename env s0 tmp s'"
      using eff [OF P e] by blast
    show "G s' \<and> (\<exists>k. replaced s0 ko fd bs k s' \<and> perm (inodes s' ! fd) = m \<and> \<not> is_dir_at s0 k)" using k g by blast
    show "temp_state env s0 ko t tmp fd (\<lambda>_. True) s' \<or> \<not> clean env \<and> after_rename env s0 tmp s'"
      if "faults env SReplace n = Interrupted e" for n e
      using that k(4) by (auto simp: clean_def)
  next
    fix s e assume "?W s"
    then have "temp_state env s0 ko t tmp fd (\<lambda>_. True) s" by (rule temp_state_weaken) simp
    then show "temp_state env s0 ko t tmp fd (\<lambda>_. True) s \<or> \<not> clean env \<and> after_rename env s0 tmp s" ..
    then show "temp_state env s0 ko t tmp fd (\<lambda>_. True) s \<or> \<not> clean env \<and> after_rename env s0 tmp s" .
  qed
qed

section \<open>The cleanup\<close>

lemma spec_remove_temp:
  assumes G: "\<And>s. write_moment env s0 ko txt enc s \<Longrightarrow> G s"
  shows "spec env G
    (\<lambda>s. temp_state env s0 ko t tmp fd (\<lambda>_. True) s \<or> \<not> clean env \<and> after_rename env s0 tmp s)
    (remove_temp tmp) (\<lambda>_ s. clean env \<longrightarrow> changed s0 {} s) (\<lambda>_ _. \<not> clean env)"
  unfolding remove_temp_def os_unlink_def
proof (rule spec_handle)
  let ?P = "\<lambda>s. temp_state env s0 ko t tmp fd (\<lambda>_. True) s \<or> \<not> clean env \<and> after_rename env s0 tmp s"
  let ?eff = "\<lambda>env s. case stat_at (fold_name env) False tmp s of
        Inl e \<Rightarrow> Inl e
      | Inr (k, Dir _) \<Rightarrow> Inl EISDIR
      | Inr (k, _) \<Rightarrow>
          if \<not> parent_writable env s k then Inl EACCES
          else Inr ((), s\<lparr>entries := AList.delete k (entries s)\<rparr>)"
  have temp: "?eff env s = Inr ((), s\<lparr>entries := AList.delete tk (entries s)\<rparr>) \<and>
      changed s0 {} (s\<lparr>entries := AList.delete tk (entries s)\<rparr>)" if "temp_at env s0 ko t tmp fd tk s" for tk s
  proof -
    note D = temp_atD [OF that]
    show ?thesis using D(4,6,7) changed_unlink [OF D(1,2)] by (simp add: stat_at_def)
  qed
  have other: "changed s0 {} s'" if A: "after_rename env s0 tmp s" and e: "?eff env s = Inr (x, s')" for s x s'
  proof -
    obtain kd where kd: "changed s0 {kd} s"
      "\<forall>k. namei (fold_name env) s False tmp = Inr k \<longrightarrow> look s k \<noteq> None \<longrightarrow>
         k = kd \<and> look s0 kd = None \<and> \<not> is_dir_at s kd"
      using A by (auto simp: after_rename_def)
    obtain k nd where "namei (fold_name env) s False tmp = Inr k" "look s k = Some nd"
      "s' = s\<lparr>entries := AList.delete k (entries s)\<rparr>"
      using e by (auto simp: stat_at_def split: sum.splits option.splits node.splits if_splits)
    then show ?thesis using kd changed_unlink [OF kd(1)] by simp
  qed
  show "spec env G ?P (os_call SUnlink ?eff) (\<lambda>_ s. clean env \<longrightarrow> changed s0 {} s) (\<lambda>_ _. \<not> clean env)"
  proof (rule spec_os_call)
    fix s x s' assume P: "?P s" and e: "?eff env s = Inr (x, s')"
    have "changed s0 {} s'"
    proof (cases "temp_state env s0 ko t tmp fd (\<lambda>_. True) s")
      case True
      then obtain tk where tk: "temp_at env s0 ko t tmp fd tk s" by (auto simp: temp_state_def)
      show ?thesis using temp [OF tk] e by simp
    next
      case False
      then show ?thesis using other P e by blast
    qed
    then show "G s' \<and> (clean env \<longrightarrow> changed s0 {} s')" using G [OF moment_changed] by blast
  next
    fix s e assume P: "?P s" and e: "?eff env s = Inl e"
    show "\<not> clean env"
    proof
      assume "clean env"
      then obtain tk where tk: "temp_at env s0 ko t tmp fd tk s" using P by (auto simp: temp_state_def)
      show False using temp [OF tk] e by simp
    qed
  qed (auto simp: clean_def)
  show "spec env G (\<lambda>_. \<not> clean env) (if e = ENOENT then ret () else fail e)
      (\<lambda>_ s. clean env \<longrightarrow> changed s0 {} s) (\<lambda>_ _. \<not> clean env)" for e
    by (intro spec_if spec_ret spec_fail) auto
qed

section \<open>The whole write\<close>

lemma spec_write_rename:
  assumes ok: "fs_ok s0" and t: "lands env s0 ko t" and q: "ko \<noteq> None \<Longrightarrow> quiet env"
    and G: "\<And>s. write_moment env s0 ko txt enc s \<Longrightarrow> G s"
  shows "spec env G (temp_state env s0 ko t tmp fd (\<lambda>i. content i = [] \<and> perm i = new_perm env))
    (seq (fdopen_codec enc) (\<lambda>encode. seq (write_synced fd encode txt) (\<lambda>_.
       seq (copy_existing_mode t tmp) (\<lambda>_. os_replace tmp t))))
    (\<lambda>_ s. \<exists>fd k encode bs m. codecs env enc = Inr encode \<and> encode txt = Inr bs \<and>
       good_perm env s0 ko m \<and> replaced s0 ko fd bs k s \<and> perm (inodes s ! fd) = m \<and> \<not> is_dir_at s0 k)
    (\<lambda>_ s. temp_state env s0 ko t tmp fd (\<lambda>_. True) s \<or> \<not> clean env \<and> after_rename env s0 tmp s)"
    (is "spec env G ?P _ ?Q ?E")
proof -
  let ?any = "temp_state env s0 ko t tmp fd (\<lambda>_. True)"
  have any: "temp_state env s0 ko t tmp fd C s \<Longrightarrow> ?any s" for C s
    by (rule temp_state_weaken) simp_all
  have fdopen: "spec env G ?P (fdopen_codec enc) (\<lambda>encode s. ?P s \<and> codecs env enc = Inr encode) ?E"
    unfolding fdopen_codec_def
    by (rule spec_os_query) (use any G [OF moment_temp] in auto)
  have rename: "spec env G (\<lambda>s. good_perm env s0 ko m \<and> temp_state env s0 ko t tmp fd (written bs m) s)
      (os_replace tmp t) ?Q ?E" if "codecs env enc = Inr encode" "encode txt = Inr bs" for encode bs m
  proof (cases "good_perm env s0 ko m")
    case True
    then show ?thesis using that
      by (intro spec_weaken [OF spec_replace [OF ok t that G]]) auto
  qed (simp add: spec_def)
  have copy: "spec env G (\<lambda>s. encode txt = Inr bs \<and> temp_state env s0 ko t tmp fd (written bs (new_perm env)) s)
      (seq (copy_existing_mode t tmp) (\<lambda>_. os_replace tmp t)) ?Q ?E"
    if enc: "codecs env enc = Inr encode" for encode bs
  proof (cases "encode txt = Inr bs")
    case True
    have "spec env G (temp_state env s0 ko t tmp fd (written bs (new_perm env)))
        (copy_existing_mode t tmp)
        (\<lambda>_ s. \<exists>m. good_perm env s0 ko m \<and> temp_state env s0 ko t tmp fd (written bs m) s) ?E"
      by (rule spec_weaken [OF spec_copy_mode [OF ok t q G]]) auto
    from spec_seq [OF this spec_ex [OF rename [OF enc True]]] show ?thesis
      by (rule spec_weaken) auto
  qed (simp add: spec_def)
  have wr: "spec env G (\<lambda>s. ?P s \<and> codecs env enc = Inr encode)
      (seq (write_synced fd encode txt) (\<lambda>_. seq (copy_existing_mode t tmp) (\<lambda>_. os_replace tmp t))) ?Q ?E"
    for encode
  proof (cases "codecs env enc = Inr encode")
    case True
    have "spec env G ?P (write_synced fd encode txt)
        (\<lambda>_ s. \<exists>bs. encode txt = Inr bs \<and> temp_state env s0 ko t tmp fd (written bs (new_perm env)) s) ?E"
      by (rule spec_weaken [OF spec_write_synced [OF G]]) auto
    from spec_seq [OF this spec_ex [OF copy [OF True]]] show ?thesis
      by (rule spec_weaken) auto
  qed (simp add: spec_def)
  show ?thesis by (rule spec_seq [OF fdopen wr])
qed

lemma spec_atomic_write:
  assumes ko_def: "ko = known_key env s0 p" and ok: "fs_ok s0"
    and sig_ok: "signals_ok env"
  shows "spec env (write_moment env s0 ko txt enc) (\<lambda>s. s = s0) (atomic_write_text p txt enc)
    (\<lambda>_ s. \<exists>fd k encode bs m. codecs env enc = Inr encode \<and> encode txt = Inr bs \<and>
       good_perm env s0 ko m \<and> replaced s0 ko fd bs k s \<and> perm (inodes s ! fd) = m \<and> \<not> is_dir_at s0 k)
    (\<lambda>_ s. clean env \<longrightarrow> changed s0 {} s)"
proof -
  let ?G = "write_moment env s0 ko txt enc"
  let ?E = "\<lambda>(_ :: exc) s. clean env \<longrightarrow> changed s0 {} s"
  let ?Q = "\<lambda>(_ :: unit) s. \<exists>fd k encode bs m. codecs env enc = Inr encode \<and> encode txt = Inr bs \<and>
       good_perm env s0 ko m \<and> replaced s0 ko fd bs k s \<and> perm (inodes s ! fd) = m \<and> \<not> is_dir_at s0 k"
  have sig: "faults env c n = Interrupted e \<Longrightarrow> \<not> is_OSError e" for c n e
    using sig_ok unfolding signals_ok_def by blast
  have quiet: "ko \<noteq> None \<Longrightarrow> quiet env" by (auto simp: ko_def known_key_def split: if_splits)
  have refl: "changed s0 {} s0" using ok by (rule changed_refl)
  have g: "?G s \<Longrightarrow> ?G s" for s .
  show ?thesis
    unfolding atomic_write_text_def
  proof (rule spec_seq)
    show "spec env ?G (\<lambda>s. s = s0) (resolve_symlinked_target p)
        (\<lambda>t s. s = s0 \<and> lands env s0 ko t) ?E"
      unfolding ko_def
      by (rule spec_weaken [OF spec_resolve]) (use refl ok moment_changed in auto)
    fix t
    let ?rest = "seq (refuse_unwritable_target t) (\<lambda>_. seq (mkdir_parents (rev (butlast t))) (\<lambda>_.
       seq (create_temp t) (\<lambda>(fd, tmp).
         handle (seq (fdopen_codec enc) (\<lambda>encode. seq (write_synced fd encode txt) (\<lambda>_.
            seq (copy_existing_mode t tmp) (\<lambda>_. os_replace tmp t))))
          (\<lambda>e. seq (remove_temp tmp) (\<lambda>_. fail e)))))"
    show "spec env ?G (\<lambda>s. s = s0 \<and> lands env s0 ko t) ?rest ?Q ?E"
    proof (cases "lands env s0 ko t")
      case False
      then show ?thesis by (simp add: spec_def)
    next
      case True
      note t = True
      have refuse: "spec env ?G (\<lambda>s. s = s0) (refuse_unwritable_target t) (\<lambda>_ s. s = s0) ?E"
        by (rule spec_weaken [OF spec_refuse]) (use refl moment_changed in auto)
      have mkdirs: "spec env ?G (\<lambda>s. s = s0) (mkdir_parents (rev (butlast t))) (\<lambda>_. before_temp s0 ko) ?E"
        by (rule spec_weaken [OF spec_mkdirs [OF moment_changed ok t]]) auto
      have temp: "spec env ?G (before_temp s0 ko) (create_temp t)
          (\<lambda>(fd, tmp). temp_state env s0 ko t tmp fd (\<lambda>i. content i = [] \<and> perm i = new_perm env)) ?E"
      proof (cases "cap_base_for_temp (file_name t)")
        case (Inl e)
        then show ?thesis by (auto simp: create_temp_def before_temp_def intro!: spec_fail)
      next
        case (Inr base)
        show ?thesis unfolding create_temp_def Inr sum.case
          by (rule spec_weaken [OF spec_temp_loop [OF Inr sig g]]) (auto simp: before_temp_def)
      qed
      have body: "spec env ?G (case ft of (fd, tmp) \<Rightarrow>
            temp_state env s0 ko t tmp fd (\<lambda>i. content i = [] \<and> perm i = new_perm env))
          (case ft of (fd, tmp) \<Rightarrow>
            handle (seq (fdopen_codec enc) (\<lambda>encode. seq (write_synced fd encode txt) (\<lambda>_.
              seq (copy_existing_mode t tmp) (\<lambda>_. os_replace tmp t))))
             (\<lambda>e. seq (remove_temp tmp) (\<lambda>_. fail e))) ?Q ?E" for ft
      proof (cases ft)
        case (Pair fd tmp)
        have "spec env ?G (\<lambda>s. temp_state env s0 ko t tmp fd (\<lambda>_. True) s \<or> \<not> clean env \<and> after_rename env s0 tmp s)
            (remove_temp tmp) (\<lambda>_ s. clean env \<longrightarrow> changed s0 {} s) ?E"
          by (rule spec_weaken [OF spec_remove_temp [OF g]]) auto
        then have cleanup: "spec env ?G
            (\<lambda>s. temp_state env s0 ko t tmp fd (\<lambda>_. True) s \<or> \<not> clean env \<and> after_rename env s0 tmp s)
            (seq (remove_temp tmp) (\<lambda>_. fail e)) ?Q ?E" for e
          by (rule spec_seq) (rule spec_fail)
        show ?thesis unfolding Pair prod.case
          by (rule spec_handle [OF _ cleanup]) (rule spec_write_rename [OF ok t quiet g])
      qed
      show ?thesis
        by (rule spec_weaken [OF spec_seq [OF refuse spec_seq [OF mkdirs spec_seq [OF temp body]]]]) auto
    qed
  qed
qed

end
