(* ===== verification/File_Example.thy ===== *)
theory File_Example
  imports Atomic_Write
begin

text \<open>
  A machine small enough to run the code on: a directory with a file, a link to it, a hard link
  to it and a read-only file.
\<close>

definition small_fs :: fs where
  "small_fs = \<lparr>
     entries = [([], Dir 0x1FF), ([lit ''d''], Dir 0x1FF), ([lit ''d'', lit ''f''], File 0),
       ([lit ''d'', lit ''h''], File 0), ([lit ''d'', lit ''l''], Link False [lit ''f'']),
       ([lit ''d'', lit ''r''], File 1)],
     inodes = [\<lparr>content = lit ''old'', disk = lit ''old'', perm = 0x1A4\<rparr>,
       \<lparr>content = [], disk = [], perm = 0x124\<rparr>]\<rparr>"

definition env_with :: "(sys \<Rightarrow> nat \<Rightarrow> fault) \<Rightarrow> env" where
  "env_with flt = \<lparr>fold_name = (\<lambda>c. c), umask = 0x12, superuser = False, faults = flt,
     tokens = (\<lambda>_. lit ''01234567''), codecs = (\<lambda>_. Inr fsencode)\<rparr>"

definition at_rest :: "fs \<Rightarrow> world" where
  "at_rest s = \<lparr>fs = s, clock = 0, draws = 0, history = []\<rparr>"

lemma look_small:
  "look small_fs k =
     (if k = [] \<or> k = [lit ''d''] then Some (Dir 0x1FF)
      else if k = [lit ''d'', lit ''f''] \<or> k = [lit ''d'', lit ''h''] then Some (File 0)
      else if k = [lit ''d'', lit ''l''] then Some (Link False [lit ''f''])
      else if k = [lit ''d'', lit ''r''] then Some (File 1) else None)"
  by (simp add: look_def small_fs_def lit_def)

lemma small_fs_facts:
  "look small_fs [lit ''d'', lit ''f''] = Some (File 0)" "look small_fs [lit ''d'', lit ''h''] = Some (File 0)"
  "[lit ''d'', lit ''h''] \<noteq> [lit ''d'', lit ''f'']"
  "length (inodes small_fs) = 2" "perm (inodes small_fs ! 0) = 0x1A4"
  by (simp_all add: look_small lit_def) (simp_all add: small_fs_def)

lemma at_rest_simps [simp]: "fs (at_rest s) = s" "history (at_rest s) = []"
  by (simp_all add: at_rest_def)

lemma small_fs_ok: "fs_ok small_fs"
proof -
  have "check_text [lit ''f''] = None" by (simp add: lit_def scalar_def)
  then show ?thesis
    using small_fs_facts(4) unfolding fs_ok_def is_dir_at_def look_small by (auto split: if_splits)
qed

lemma run_os_call:
  "os_call c eff env \<lparr>fs = s, clock = n, draws = d, history = h\<rparr> =
     (case faults env c n of
        Works \<Rightarrow> (case eff env s of
            Inl e \<Rightarrow> (Inl e, \<lparr>fs = s, clock = Suc n, draws = d, history = h\<rparr>)
          | Inr (x, s') \<Rightarrow> (Inr x, \<lparr>fs = s', clock = Suc n, draws = d, history = h @ [s']\<rparr>))
      | Fails e \<Rightarrow> (Inl e, \<lparr>fs = s, clock = Suc n, draws = d, history = h\<rparr>)
      | Partial _ e \<Rightarrow> (Inl e, \<lparr>fs = s, clock = Suc n, draws = d, history = h\<rparr>)
      | Interrupted e \<Rightarrow> (case eff env s of
            Inl e' \<Rightarrow> (Inl e', \<lparr>fs = s, clock = Suc n, draws = d, history = h\<rparr>)
          | Inr (_, s') \<Rightarrow> (Inl e, \<lparr>fs = s', clock = Suc n, draws = d, history = h @ [s']\<rparr>)))"
  by (simp add: os_call_def log_state_def split: fault.split sum.split prod.split)

lemma run_os_write:
  assumes "faults env SWrite n = Works"
  shows "os_write fd bs env \<lparr>fs = s, clock = n, draws = d, history = h\<rparr> =
     (case upd_inode fd (\<lambda>i. i\<lparr>content := content i @ bs\<rparr>) s of
        s' \<Rightarrow> (Inr (), \<lparr>fs = s', clock = Suc n, draws = d, history = h @ [s']\<rparr>))"
  using assms by (simp add: os_write_def log_state_def)

lemma run_draw_token:
  "draw_token env \<lparr>fs = s, clock = n, draws = d, history = h\<rparr> =
     (Inr (tokens env d), \<lparr>fs = s, clock = n, draws = Suc d, history = h\<rparr>)"
  by (simp add: draw_token_def)

lemmas run_ops = os_query_def run_os_call seq_def handle_def ret_def fail_def finally_do_def Let_def
  unless_missing_def

text \<open>Programs are not looked into before they are run.\<close>

lemma run_congs:
  "w = w' \<Longrightarrow> seq m f env w = seq m f env w'"
  "w = w' \<Longrightarrow> handle m' h env w = handle m' h env w'"
  "w = w' \<Longrightarrow> finally_do m'' c env w = finally_do m'' c env w'"
  "s = s' \<Longrightarrow> n = n' \<Longrightarrow> d = d' \<Longrightarrow>
     \<lparr>fs = s, clock = n, draws = d, history = hs\<rparr> = \<lparr>fs = s', clock = n', draws = d', history = hs\<rparr>"
  by simp_all

lemmas run_calls = path_is_symlink_def path_is_dir_def path_exists_def path_samefile_def os_lstat_def os_stat_def os_access_def
  os_realpath_def os_mkdir_def os_open_excl_def run_os_write os_fsync_def os_close_def os_chmod_def os_replace_def os_unlink_def
  os_stat_mode_def mkdir_exist_ok_def upd_inode_def make_entry_def stat_at_def namei_def mode_at_def
  parent_writable_def writable_def is_link_def is_directory_def path_ignores_def identity_def errno_defs

lemmas run_code = resolve_symlinked_target_def refuse_unwritable_target_def run_draw_token create_temp_def
  copy_existing_mode_def fdopen_codec_def write_synced_def remove_temp_def file_name_def

lemmas run_names = lit_def dotdot_def too_long_def name_bytes_def scalar_def utf8_char_def escape_point_def
  cap_base_for_temp_def MAX_TEMP_BASE_BYTES_def temp_name_def

lemmas run_world = at_rest_def env_with_def small_fs_def look_def

lemma temp_loop_first:
  "temp_loop 100 parent base =
     seq draw_token (\<lambda>token.
       seq (handle (seq (os_open_excl (parent @ [temp_name base token]) 0x1B6) (\<lambda>fd. ret (Some fd)))
             (\<lambda>e. if e = EEXIST then ret None else fail e))
         (\<lambda>r. case r of Some fd \<Rightarrow> ret (fd, parent @ [temp_name base token])
           | None \<Rightarrow> temp_loop 99 parent base))"
proof -
  have "(100 :: nat) = Suc 99" by simp
  then show ?thesis by (simp only: temp_loop.simps Let_def)
qed

lemmas run_file = run_ops run_calls run_code run_names run_world TEMP_ATTEMPTS_def temp_loop_first AList.delete_eq

section \<open>Runs\<close>

definition calm_env :: env where
  "calm_env = env_with (\<lambda>_ _. Works)"

definition no_sync_env :: env where
  "no_sync_env = env_with (\<lambda>c _. if c = SFsync then Fails (OSError 28) else Works)"

lemma envs_ok:
  "signals_ok calm_env" "quiet calm_env" "signals_ok no_sync_env" "clean no_sync_env"
  by (simp_all add: calm_env_def no_sync_env_def env_with_def signals_ok_def quiet_def clean_def)

lemma run_link:
  "fst (atomic_write_text [lit ''d'', lit ''l''] (lit ''new'') ''utf-8'' calm_env (at_rest small_fs)) = Inr ()"
  by (simp add: atomic_write_text_def calm_env_def run_file cong: run_congs)

lemma run_no_sync:
  "fst (atomic_write_text [lit ''d'', lit ''l''] (lit ''new'') ''utf-8'' no_sync_env (at_rest small_fs))
     = Inl (OSError 28)"
  "history (snd (atomic_write_text [lit ''d'', lit ''l''] (lit ''new'') ''utf-8'' no_sync_env (at_rest small_fs)))
     \<noteq> []"
  by (simp_all add: atomic_write_text_def no_sync_env_def run_file cong: run_congs)

lemma small_link:
  "namei (fold_name calm_env) small_fs True [lit ''d'', lit ''l''] = Inr [lit ''d'', lit ''f'']"
  "namei (fold_name calm_env) small_fs True [lit ''d'', lit ''h''] = Inr [lit ''d'', lit ''h'']"
  by (simp_all add: calm_env_def run_file cong: run_congs)

end
