(* ===== verification/Atomic_Props.thy ===== *)
theory Atomic_Props
  imports File_Example
begin

text \<open>
  What \<open>atomic_write_text\<close>, \<open>check_writable\<close>, \<open>same_file\<close> and \<open>sibling_path\<close> promise: the
  target is the old file or the new one at every moment, a write that returns has written
  through links and kept the mode, a failed one has left nothing behind, the preflight
  passes exactly where the write would, and two paths are one file exactly when writing them
  is.
\<close>

section \<open>The write\<close>

lemma atomic_write_run:
  assumes "fs_ok (fs w)" and "signals_ok env" and "history w = []"
    and "atomic_write_text p txt enc env w = (r, w')"
  shows "\<forall>h \<in> set (history w'). write_moment env (fs w) (known_key env (fs w) p) txt enc h"
    and "r = Inr () \<Longrightarrow> \<exists>fd k encode bs m. codecs env enc = Inr encode \<and> encode txt = Inr bs \<and>
       good_perm env (fs w) (known_key env (fs w) p) m \<and>
       replaced (fs w) (known_key env (fs w) p) fd bs k (fs w') \<and> perm (inodes (fs w') ! fd) = m \<and>
       \<not> is_dir_at (fs w) k"
    and "r = Inl e \<Longrightarrow> clean env \<Longrightarrow> changed (fs w) {} (fs w')"
proof -
  note d = specD [OF spec_atomic_write [OF refl assms(1,2)] assms(4) refl]
  show "\<forall>h \<in> set (history w'). write_moment env (fs w) (known_key env (fs w) p) txt enc h"
    using d(1) assms(3) by auto
  show "r = Inr () \<Longrightarrow> \<exists>fd k encode bs m. codecs env enc = Inr encode \<and> encode txt = Inr bs \<and>
       good_perm env (fs w) (known_key env (fs w) p) m \<and>
       replaced (fs w) (known_key env (fs w) p) fd bs k (fs w') \<and> perm (inodes (fs w') ! fd) = m \<and>
       \<not> is_dir_at (fs w) k"
    by (rule d(2))
  show "r = Inl e \<Longrightarrow> clean env \<Longrightarrow> changed (fs w) {} (fs w')" using d(3) by blast
qed

text \<open>
  C26. Never partial. Whatever calls fail or are interrupted, at every moment of a write, and so
  for any reader and after any crash, no inode that was there has been touched and at most
  one entry is not what it was (or a directory newly made on the way): that entry is the
  temp file's, under a name that was free, or it is the target's and holds the whole text,
  content and durable content alike. Where nothing fails in looking the path up, the target
  is what the path led to, through links.
\<close>

theorem atomic_write_every_moment:
  assumes "fs_ok (fs w)" and "signals_ok env" and "history w = []"
    and "atomic_write_text p txt enc env w = (r, w')"
  shows "\<forall>h \<in> set (history w').
    take (length (inodes (fs w))) (inodes h) = inodes (fs w) \<and>
    (\<exists>x. (\<forall>k. k = x \<or> look h k = look (fs w) k \<or> look (fs w) k = None \<and> is_dir_at h k) \<and>
       (look h x = look (fs w) x \<or> look (fs w) x = None \<and> is_dir_at h x \<or>
        look (fs w) x = None \<and> (\<exists>t. temp_key env t x) \<or>
        (\<exists>fd encode bs. codecs env enc = Inr encode \<and> encode txt = Inr bs \<and>
           look h x = Some (File fd) \<and> length (inodes (fs w)) \<le> fd \<and>
           content (inodes h ! fd) = bs \<and> disk (inodes h ! fd) = bs \<and>
           (quiet env \<longrightarrow> (\<forall>k. namei (fold_name env) (fs w) True p = Inr k \<longrightarrow> x = k)))))"
proof
  fix h assume "h \<in> set (history w')"
  then have m: "write_moment env (fs w) (known_key env (fs w) p) txt enc h"
    using atomic_write_run(1) [OF assms] by blast
  let ?ok = "\<lambda>x. \<forall>k. k = x \<or> look h k = look (fs w) k \<or> look (fs w) k = None \<and> is_dir_at h k"
  consider (none) "changed (fs w) {} h"
    | (temp) tk t where "changed (fs w) {tk} h" "look (fs w) tk = None" "temp_key env t tk"
    | (new) k fd encode bs where "codecs env enc = Inr encode" "encode txt = Inr bs"
        "replaced (fs w) (known_key env (fs w) p) fd bs k h"
    using m unfolding write_moment_def by blast
  then show "take (length (inodes (fs w))) (inodes h) = inodes (fs w) \<and>
    (\<exists>x. ?ok x \<and>
       (look h x = look (fs w) x \<or> look (fs w) x = None \<and> is_dir_at h x \<or>
        look (fs w) x = None \<and> (\<exists>t. temp_key env t x) \<or>
        (\<exists>fd encode bs. codecs env enc = Inr encode \<and> encode txt = Inr bs \<and>
           look h x = Some (File fd) \<and> length (inodes (fs w)) \<le> fd \<and>
           content (inodes h ! fd) = bs \<and> disk (inodes h ! fd) = bs \<and>
           (quiet env \<longrightarrow> (\<forall>k. namei (fold_name env) (fs w) True p = Inr k \<longrightarrow> x = k)))))"
  proof cases
    case none
    then show ?thesis unfolding changed_def by (intro conjI exI [of _ "[]"]) blast+
  next
    case temp
    then show ?thesis unfolding changed_def by (intro conjI exI [of _ tk]) blast+
  next
    case new
    then have r: "changed (fs w) {k} h" "look h k = Some (File fd)" "length (inodes (fs w)) \<le> fd"
      "content (inodes h ! fd) = bs" "disk (inodes h ! fd) = bs"
      by (simp_all add: replaced_def)
    have "quiet env \<longrightarrow> (\<forall>k'. namei (fold_name env) (fs w) True p = Inr k' \<longrightarrow> k = k')"
      using new(3) by (auto simp: replaced_def known_key_def)
    then show ?thesis using new(1,2) r unfolding changed_def by (intro conjI exI [of _ k]) blast+
  qed
qed

theorem atomic_write_every_moment_witness:
  defines "h \<equiv> last (history (snd (atomic_write_text [lit ''d'', lit ''l''] (lit ''new'') ''utf-8''
    no_sync_env (at_rest small_fs))))"
  shows "take 2 (inodes h) = inodes small_fs"
proof -
  let ?run = "atomic_write_text [lit ''d'', lit ''l''] (lit ''new'') ''utf-8'' no_sync_env (at_rest small_fs)"
  have "h \<in> set (history (snd ?run))" using run_no_sync(2) by (simp add: h_def)
  moreover have r: "?run = (fst ?run, snd ?run)" by simp
  note * = atomic_write_every_moment [OF _ envs_ok(3) at_rest_simps(2) r, unfolded at_rest_simps(1), OF small_fs_ok]
  ultimately have "take (length (inodes small_fs)) (inodes h) = inodes small_fs" using bspec [OF *] by blast
  then show ?thesis by (simp add: small_fs_facts)
qed

text \<open>
  C28. A write that returns has written. With the path leading somewhere, a file or a free name
  in an existing directory, through whatever links, it leads there still, to a file that
  holds exactly the text, durably, with the mode the file had (a new one with 0666 under the
  umask); nothing else has changed: the links are links, and no temp file is left.
\<close>

theorem atomic_write_success:
  assumes "fs_ok (fs w)" and "signals_ok env" and "quiet env" and "history w = []"
    and "namei (fold_name env) (fs w) True p = Inr k"
    and "atomic_write_text p txt enc env w = (Inr (), w')"
  shows "namei (fold_name env) (fs w') True p = Inr k \<and>
    (\<forall>k'. k' = k \<or> look (fs w') k' = look (fs w) k') \<and>
    (\<exists>fd encode. codecs env enc = Inr encode \<and> look (fs w') k = Some (File fd) \<and>
       encode txt = Inr (content (inodes (fs w') ! fd)) \<and>
       disk (inodes (fs w') ! fd) = content (inodes (fs w') ! fd) \<and>
       perm (inodes (fs w') ! fd) =
         (case look (fs w) k of Some (File j) \<Rightarrow> perm (inodes (fs w) ! j)
          | _ \<Rightarrow> 0x1B6 AND NOT (umask env)))"
proof -
  have ko: "known_key env (fs w) p = Some k" using assms(3,5) by (simp add: known_key_def)
  obtain fd k' encode bs m where r: "codecs env enc = Inr encode" "encode txt = Inr bs"
    "good_perm env (fs w) (Some k) m" "replaced (fs w) (Some k) fd bs k' (fs w')"
    "perm (inodes (fs w') ! fd) = m" "\<not> is_dir_at (fs w) k'"
    using atomic_write_run(2) [OF assms(1,2,4,6) refl] unfolding ko by blast
  have k: "k' = k" and others: "\<forall>k'. k' = k \<or> look (fs w') k' = look (fs w) k'"
    and new: "look (fs w') k = Some (File fd)" "content (inodes (fs w') ! fd) = bs"
      "disk (inodes (fs w') ! fd) = bs"
    using r(4) by (auto simp: replaced_def)
  have nl: "\<not> is_link_at (fs w) k" using namei_no_link [OF assms(1,5)] .
  have "namei (fold_name env) (fs w') True p = Inr k"
  proof (rule namei_files [OF assms(5)])
    fix x
    show "look (fs w') x = look (fs w) x \<or>
      \<not> is_dir_at (fs w) x \<and> \<not> is_link_at (fs w) x \<and> \<not> is_link_at (fs w') x"
      using others new(1) r(6) nl k by (cases "x = k") auto
  qed
  moreover have "m = (case look (fs w) k of Some (File j) \<Rightarrow> perm (inodes (fs w) ! j)
      | _ \<Rightarrow> 0x1B6 AND NOT (umask env))"
    using r(3,6) nl k
    by (auto simp: good_perm_def new_perm_def is_dir_at_def is_link_at_def split: option.splits node.splits)
  ultimately show ?thesis using others new r(1,2,5) by auto
qed

theorem atomic_write_success_witness:
  defines "s \<equiv> fs (snd (atomic_write_text [lit ''d'', lit ''l''] (lit ''new'') ''utf-8''
    calm_env (at_rest small_fs)))"
  shows "\<exists>fd. look s [lit ''d'', lit ''f''] = Some (File fd) \<and> content (inodes s ! fd) = lit ''new'' \<and>
    perm (inodes s ! fd) = 0x1A4 \<and> look s [lit ''d'', lit ''h''] = Some (File 0)"
proof -
  let ?run = "atomic_write_text [lit ''d'', lit ''l''] (lit ''new'') ''utf-8'' calm_env (at_rest small_fs)"
  have r: "?run = (Inr (), snd ?run)" using run_link by (metis prod.collapse)
  note * = atomic_write_success [OF _ envs_ok(1,2) at_rest_simps(2) _ r, unfolded at_rest_simps(1),
      OF small_fs_ok small_link(1)]
  have c: "codecs calm_env ''utf-8'' = Inr fsencode" "fsencode (lit ''new'') = Inr (lit ''new'')"
    by (simp_all add: calm_env_def env_with_def lit_def scalar_def utf8_char_def)
  obtain fd encode where fd: "codecs calm_env ''utf-8'' = Inr encode" "look s [lit ''d'', lit ''f''] = Some (File fd)"
    "encode (lit ''new'') = Inr (content (inodes s ! fd))" "perm (inodes s ! fd) = perm (inodes small_fs ! 0)"
    using conjunct2 [OF conjunct2 [OF *]] unfolding small_fs_facts(1) s_def by auto
  have "content (inodes s ! fd) = lit ''new''" using fd(1,3) c by simp
  moreover have "look s [lit ''d'', lit ''h''] = Some (File 0)"
    using conjunct1 [OF conjunct2 [OF *]] small_fs_facts(2,3) unfolding s_def by metis
  ultimately show ?thesis using fd(2,4) small_fs_facts(5) by auto
qed

text \<open>
  C29. A write that fails leaves nothing behind. As long as the cleanup's own \<open>unlink\<close> works and
  no signal lands right after the temp file's creation or right after the rename, a call
  that raises has changed no entry but for directories made on the way: the target is what
  it was, or absent, and there is no temp file.
\<close>

theorem atomic_write_failure:
  assumes "fs_ok (fs w)" and "signals_ok env" and "clean env" and "history w = []"
    and "atomic_write_text p txt enc env w = (Inl e, w')"
  shows "take (length (inodes (fs w))) (inodes (fs w')) = inodes (fs w) \<and>
    (\<forall>k. look (fs w') k = look (fs w) k \<or> look (fs w) k = None \<and> is_dir_at (fs w') k)"
  using atomic_write_run(3) [OF assms(1,2,4,5) refl assms(3)] by (simp add: changed_def)

theorem atomic_write_failure_witness:
  defines "s \<equiv> fs (snd (atomic_write_text [lit ''d'', lit ''l''] (lit ''new'') ''utf-8''
    no_sync_env (at_rest small_fs)))"
  shows "take 2 (inodes s) = inodes small_fs \<and> look s [lit ''d'', lit ''f''] = Some (File 0)"
proof -
  let ?run = "atomic_write_text [lit ''d'', lit ''l''] (lit ''new'') ''utf-8'' no_sync_env (at_rest small_fs)"
  have r: "?run = (Inl (OSError 28), snd ?run)" using run_no_sync(1) by (metis prod.collapse)
  have "take (length (inodes small_fs)) (inodes s) = inodes small_fs \<and>
      (\<forall>k. look s k = look small_fs k \<or> look small_fs k = None \<and> is_dir_at s k)"
    using atomic_write_failure [OF _ envs_ok(3,4) at_rest_simps(2) r, unfolded at_rest_simps(1), OF small_fs_ok] unfolding s_def .
  then show ?thesis using small_fs_facts by (metis option.distinct(1))
qed

section \<open>Against a map of files\<close>

text \<open>The files by where they are, and what they hold.\<close>

definition file_at :: "fs \<Rightarrow> path \<Rightarrow> bytes option" where
  "file_at s k = (case look s k of Some (File i) \<Rightarrow> Some (content (inodes s ! i)) | _ \<Rightarrow> None)"

lemma file_at_same:
  assumes "fs_ok s0" and "changed s0 X s" and "k \<notin> X"
  shows "file_at s k = file_at s0 k"
proof -
  have "inodes s ! i = inodes s0 ! i" if "i < length (inodes s0)" for i
    using changedD(3) [OF assms(2)] that by (metis nth_take)
  then show ?thesis
    using changedD(4) [OF assms(2,3)] fs_okD(3) [OF assms(1), of k]
    by (fastforce simp: file_at_def is_dir_at_def split: option.splits node.splits)
qed

lemma write_updates_files:
  assumes "fs_ok (fs w)" and "signals_ok env" and "quiet env" and "clean env"
    and "namei (fold_name env) (fs w) True p = Inr k"
    and "codecs env enc = Inr encode" and "encode txt = Inr bs"
    and "atomic_write_text p txt enc env w = (r, w')"
  shows "file_at (fs w') =
    (case r of Inr _ \<Rightarrow> (file_at (fs w))(k \<mapsto> bs) | Inl _ \<Rightarrow> file_at (fs w))"
proof -
  have ko: "known_key env (fs w) p = Some k" using assms(3,5) by (simp add: known_key_def)
  note d = specD [OF spec_atomic_write [OF ko [symmetric] assms(1,2)] assms(8) refl]
  show ?thesis
  proof (cases r)
    case (Inl e)
    then have "changed (fs w) {} (fs w')" using d(3) assms(4) by blast
    then show ?thesis using Inl file_at_same [OF assms(1)] by auto
  next
    case (Inr u)
    then obtain fd k' bs' where r: "replaced (fs w) (Some k) fd bs' k' (fs w')" "bs' = bs"
      using d(2) assms(6,7) by force
    then have "changed (fs w) {k} (fs w')" "file_at (fs w') k = Some bs"
      by (auto simp: replaced_def file_at_def)
    then show ?thesis using Inr file_at_same [OF assms(1)] by (auto simp: fun_eq_iff)
  qed
qed

text \<open>
  C27. The contract: \<open>atomic_write_text\<close> is an update of a map from places to contents, or nothing.
  A call that returns has put the encoded text where the path leads and changed no other
  file; one that raises has changed no file at all.
\<close>

theorem atomic_write_refines_update:
  assumes "fs_ok (fs w)" and "signals_ok env" and "quiet env" and "clean env"
    and "namei (fold_name env) (fs w) True p = Inr k"
    and "codecs env enc = Inr encode" and "encode txt = Inr bs"
    and "atomic_write_text p txt enc env w = (r, w')"
  shows "file_at (fs w') =
    (case r of Inr _ \<Rightarrow> (file_at (fs w))(k \<mapsto> bs) | Inl _ \<Rightarrow> file_at (fs w))"
  using assms by (rule write_updates_files)

theorem atomic_write_refines_update_witness:
  defines "s \<equiv> fs (snd (atomic_write_text [lit ''d'', lit ''l''] (lit ''new'') ''utf-8''
    calm_env (at_rest small_fs)))"
  shows "file_at s = (file_at small_fs)([lit ''d'', lit ''f''] \<mapsto> lit ''new'')"
proof -
  let ?run = "atomic_write_text [lit ''d'', lit ''l''] (lit ''new'') ''utf-8'' calm_env (at_rest small_fs)"
  have r: "?run = (Inr (), snd ?run)" using run_link by (metis prod.collapse)
  have cl: "clean calm_env" by (simp add: clean_def calm_env_def env_with_def)
  have c: "codecs calm_env ''utf-8'' = Inr fsencode" "fsencode (lit ''new'') = Inr (lit ''new'')"
    by (simp_all add: calm_env_def env_with_def lit_def scalar_def utf8_char_def)
  show ?thesis
    using atomic_write_refines_update [OF _ envs_ok(1,2) cl _ c r, unfolded at_rest_simps,
        OF small_fs_ok small_link(1)] unfolding s_def by simp
qed

end
