(* ===== verification/File_Checks.thy ===== *)
theory File_Checks
  imports Atomic_Props
begin

text \<open>
  The two questions the bench scripts ask before they run: \<open>check_writable\<close> (would the write
  succeed?) and \<open>same_file\<close> (would two writes land in one file?), answered for a machine on
  which no call fails of itself; and the paths \<open>sibling_path\<close> derives.
\<close>

section \<open>Calls that do not fail\<close>

definition calm :: "env \<Rightarrow> bool" where
  "calm env \<longleftrightarrow> (\<forall>c n. faults env c n = Works)"

lemma calm_quiet: "calm env \<Longrightarrow> quiet env"
  by (simp add: calm_def quiet_def)

text \<open>An operation that returns from every state in \<open>P\<close>.\<close>

definition total :: "env \<Rightarrow> (fs \<Rightarrow> bool) \<Rightarrow> 'a op \<Rightarrow> bool" where
  "total env P m \<longleftrightarrow> (\<forall>w. P (fs w) \<longrightarrow> (\<exists>x w'. m env w = (Inr x, w')))"

lemma totalD: "total env P m \<Longrightarrow> P (fs w) \<Longrightarrow> \<exists>x w'. m env w = (Inr x, w')"
  by (simp add: total_def)

lemma total_ret: "total env P (ret x)"
  by (simp add: total_def ret_def)

lemma total_seq:
  assumes "spec env G P m R E" and "total env P m" and "\<And>x. total env (R x) (f x)"
  shows "total env P (seq m f)"
  unfolding total_def
proof (intro allI impI)
  fix w :: world assume P: "P (fs w)"
  obtain x w1 where m: "m env w = (Inr x, w1)" using totalD [OF assms(2) P] by blast
  have "R x (fs w1)" using specD(2) [OF assms(1) m P refl] .
  then show "\<exists>y w'. seq m f env w = (Inr y, w')" using totalD [OF assms(3)] m by (simp add: seq_def)
qed

lemma total_handle: "total env P m \<Longrightarrow> total env P (handle m h)"
  unfolding total_def handle_def by fastforce

lemma total_finally:
  assumes "total env P m" and "total env (\<lambda>_. True) c"
  shows "total env P (finally_do m c)"
  unfolding total_def
proof (intro allI impI)
  fix w :: world assume "P (fs w)"
  then obtain x w1 where "m env w = (Inr x, w1)" using totalD [OF assms(1)] by blast
  moreover obtain y w2 where "c env w1 = (Inr y, w2)" using totalD [OF assms(2)] by blast
  ultimately show "\<exists>x w'. finally_do m c env w = (Inr x, w')" by (simp add: finally_do_def)
qed

lemma total_os_call:
  assumes "calm env" and "\<And>s. P s \<Longrightarrow> \<exists>x s'. eff env s = Inr (x, s')"
  shows "total env P (os_call c eff)"
  using assms by (fastforce simp: total_def os_call_def calm_def Let_def)

lemma total_os_query:
  assumes "calm env" and "\<And>s. P s \<Longrightarrow> \<exists>x. q env s = Inr x"
  shows "total env P (os_query c q)"
  unfolding os_query_def by (rule total_os_call [OF assms(1)]) (use assms(2) in fastforce)

text \<open>
  What a run does depends on the file system and the tokens to come, not on how many calls
  were made before it.
\<close>

definition indep :: "env \<Rightarrow> 'a op \<Rightarrow> bool" where
  "indep env m \<longleftrightarrow>
     (\<forall>w v r w' s v'. fs w = fs v \<longrightarrow> draws w = draws v \<longrightarrow> m env w = (r, w') \<longrightarrow> m env v = (s, v') \<longrightarrow>
        r = s \<and> fs w' = fs v' \<and> draws w' = draws v')"

lemma indepD:
  "indep env m \<Longrightarrow> fs w = fs v \<Longrightarrow> draws w = draws v \<Longrightarrow> m env w = (r, w') \<Longrightarrow> m env v = (s, v') \<Longrightarrow>
     r = s \<and> fs w' = fs v' \<and> draws w' = draws v'"
  unfolding indep_def by blast

lemma indep_ret: "indep env (ret x)"
  by (simp add: indep_def ret_def)

lemma indep_fail: "indep env (fail e)"
  by (simp add: indep_def fail_def)

lemma indep_seq:
  assumes m: "indep env m" and f: "\<And>x. indep env (f x)"
  shows "indep env (seq m f)"
  unfolding indep_def
proof (intro allI impI)
  fix w v r w' s v'
  assume eq: "fs w = fs v" "draws w = draws v" and run: "seq m f env w = (r, w')" "seq m f env v = (s, v')"
  obtain r1 w1 where a: "m env w = (r1, w1)" by (cases "m env w")
  obtain s1 v1 where b: "m env v = (s1, v1)" by (cases "m env v")
  note i = indepD [OF m eq a b]
  show "r = s \<and> fs w' = fs v' \<and> draws w' = draws v'"
  proof (cases r1)
    case (Inl e)
    then show ?thesis using i run a b by (auto simp: seq_def)
  next
    case (Inr x)
    then have "f x env w1 = (r, w')" "f x env v1 = (s, v')" using i run a b by (auto simp: seq_def)
    then show ?thesis using indepD [OF f] i by blast
  qed
qed

lemma indep_handle:
  assumes m: "indep env m" and h: "\<And>e. indep env (h e)"
  shows "indep env (handle m h)"
  unfolding indep_def
proof (intro allI impI)
  fix w v r w' s v'
  assume eq: "fs w = fs v" "draws w = draws v" and run: "handle m h env w = (r, w')" "handle m h env v = (s, v')"
  obtain r1 w1 where a: "m env w = (r1, w1)" by (cases "m env w")
  obtain s1 v1 where b: "m env v = (s1, v1)" by (cases "m env v")
  note i = indepD [OF m eq a b]
  show "r = s \<and> fs w' = fs v' \<and> draws w' = draws v'"
  proof (cases r1)
    case (Inr e)
    then show ?thesis using i run a b by (auto simp: handle_def)
  next
    case (Inl e)
    then have "h e env w1 = (r, w')" "h e env v1 = (s, v')" using i run a b by (auto simp: handle_def)
    then show ?thesis using indepD [OF h] i by blast
  qed
qed

lemma indep_os_call: "calm env \<Longrightarrow> indep env (os_call c eff)"
  by (auto simp: indep_def os_call_def calm_def log_state_def Let_def split: sum.splits prod.splits)

lemma indep_draw: "indep env draw_token"
  by (auto simp: indep_def draw_token_def)

lemma indep_create_temp:
  assumes "calm env"
  shows "indep env (create_temp t)"
proof -
  have "indep env (temp_loop n d base)" for n d base
  proof (induction n)
    case 0
    show ?case by (simp add: indep_fail)
  next
    case (Suc n)
    have o: "indep env (os_open_excl c m)" for c m
      unfolding os_open_excl_def by (rule indep_os_call [OF assms])
    show ?case
      unfolding temp_loop.simps Let_def
      by (intro indep_seq indep_draw indep_handle o)
        (auto intro: indep_ret indep_fail Suc.IH split: option.splits)
  qed
  then show ?thesis by (simp add: create_temp_def indep_fail split: sum.splits)
qed

text \<open>Everything but \<open>_create_temp\<close> leaves the tokens to come alone.\<close>

definition keeps_draws :: "env \<Rightarrow> 'a op \<Rightarrow> bool" where
  "keeps_draws env m \<longleftrightarrow> (\<forall>w r w'. m env w = (r, w') \<longrightarrow> draws w' = draws w)"

lemma keeps_drawsD: "keeps_draws env m \<Longrightarrow> m env w = (r, w') \<Longrightarrow> draws w' = draws w"
  unfolding keeps_draws_def by blast

lemma keeps_ret: "keeps_draws env (ret x)" and keeps_fail: "keeps_draws env (fail e)"
  by (simp_all add: keeps_draws_def ret_def fail_def)

lemma keeps_seq: "keeps_draws env m \<Longrightarrow> (\<And>x. keeps_draws env (f x)) \<Longrightarrow> keeps_draws env (seq m f)"
  unfolding keeps_draws_def seq_def by (auto split: prod.splits sum.splits)

lemma keeps_handle: "keeps_draws env m \<Longrightarrow> (\<And>e. keeps_draws env (h e)) \<Longrightarrow> keeps_draws env (handle m h)"
  unfolding keeps_draws_def handle_def by (auto split: prod.splits sum.splits)

lemma keeps_os_call: "keeps_draws env (os_call c eff)"
  by (auto simp: keeps_draws_def os_call_def log_state_def Let_def split: fault.splits sum.splits prod.splits)

lemma keeps_if: "keeps_draws env m \<Longrightarrow> keeps_draws env m' \<Longrightarrow> keeps_draws env (if b then m else m')"
  by simp

lemmas keeps_rules = keeps_ret keeps_fail keeps_seq keeps_handle keeps_os_call keeps_if

lemma keeps_path_is_dir: "keeps_draws env (path_is_dir p)"
  unfolding path_is_dir_def os_stat_def os_query_def by (intro keeps_rules)

lemma keeps_refuse: "keeps_draws env (refuse_unwritable_target t)"
  unfolding refuse_unwritable_target_def unless_missing_def os_stat_def os_access_def os_query_def
  by (intro keeps_rules) (auto intro!: keeps_rules split: option.splits)

lemma keeps_mkdirs: "keeps_draws env (mkdir_parents up)"
proof -
  have e: "keeps_draws env (mkdir_exist_ok p)" for p
    unfolding mkdir_exist_ok_def os_mkdir_def by (intro keeps_rules keeps_path_is_dir)
  show ?thesis by (induction up) (auto intro!: keeps_rules e)
qed

section \<open>The preflight\<close>

text \<open>What \<open>_refuse_unwritable_target\<close> refuses.\<close>

definition refuses :: "env \<Rightarrow> path \<Rightarrow> fs \<Rightarrow> bool" where
  "refuses env t s \<longleftrightarrow>
     (case stat_at (fold_name env) True t s of
        Inl e \<Rightarrow> e \<noteq> ENOENT
      | Inr (_, nd) \<Rightarrow> \<not> writable env (mode_at s nd))"

lemma calm_stat:
  assumes "calm env"
  shows "spec env (\<lambda>_. True) (\<lambda>s. s = s0) (os_query c q)
    (\<lambda>x s. s = s0 \<and> q env s0 = Inr x) (\<lambda>e s. s = s0 \<and> q env s0 = Inl e)"
  by (rule spec_os_query) (use assms in \<open>auto simp: calm_def\<close>)

lemma calm_refuse:
  assumes "calm env"
  shows "spec env (\<lambda>_. True) (\<lambda>s. s = s0) (refuse_unwritable_target t)
    (\<lambda>_ s. s = s0 \<and> \<not> refuses env t s0) (\<lambda>_ s. s = s0 \<and> refuses env t s0)"
proof -
  let ?q = "\<lambda>env. stat_at (fold_name env) True t"
  let ?a = "\<lambda>env s. case stat_at (fold_name env) True t s of
    Inl e \<Rightarrow> Inr False | Inr (_, nd) \<Rightarrow> Inr (writable env (mode_at s nd))"
  let ?R = "\<lambda>r s. s = s0 \<and> (case r of
    None \<Rightarrow> ?q env s0 = Inl ENOENT | Some kn \<Rightarrow> ?q env s0 = Inr kn)"
  have st: "spec env (\<lambda>_. True) (\<lambda>s. s = s0) (unless_missing (os_stat t)) ?R (\<lambda>_ s. s = s0 \<and> refuses env t s0)"
    unfolding unless_missing_def os_stat_def
  proof (rule spec_handle)
    show "spec env (\<lambda>_. True) (\<lambda>s. s = s0) (seq (os_query SStat ?q) (\<lambda>x. ret (Some x))) ?R
        (\<lambda>e s. s = s0 \<and> ?q env s0 = Inl e)"
      by (rule spec_seq [OF calm_stat [OF assms]], rule spec_ret) simp
    show "spec env (\<lambda>_. True) (\<lambda>s. s = s0 \<and> ?q env s0 = Inl e)
        (if e = ENOENT then ret None else fail e) ?R (\<lambda>_ s. s = s0 \<and> refuses env t s0)" for e
      by (intro spec_if spec_ret spec_fail) (auto simp: refuses_def)
  qed
  have acc: "spec env (\<lambda>_. True) (?R r)
      (case r of None \<Rightarrow> ret () | Some _ \<Rightarrow> seq (os_access t) (\<lambda>ok. if ok then ret () else fail EACCES))
      (\<lambda>_ s. s = s0 \<and> \<not> refuses env t s0) (\<lambda>_ s. s = s0 \<and> refuses env t s0)" for r
  proof (cases r)
    case None
    then show ?thesis by (auto intro!: spec_ret simp: refuses_def)
  next
    case (Some kn)
    show ?thesis
    proof (cases "?q env s0 = Inr kn")
      case True
      have "spec env (\<lambda>_. True) (\<lambda>s. s = s0) (os_access t) (\<lambda>ok s. s = s0 \<and> ok = (\<not> refuses env t s0))
          (\<lambda>_ s. s = s0 \<and> refuses env t s0)"
        unfolding os_access_def
        by (rule spec_weaken [OF calm_stat [OF assms]])
          (auto simp: True refuses_def split: prod.splits)
      then have "spec env (\<lambda>_. True) (\<lambda>s. s = s0) (seq (os_access t) (\<lambda>ok. if ok then ret () else fail EACCES))
          (\<lambda>_ s. s = s0 \<and> \<not> refuses env t s0) (\<lambda>_ s. s = s0 \<and> refuses env t s0)"
        by (rule spec_seq) (intro spec_if spec_ret spec_fail; simp)
      then show ?thesis using Some by (auto intro: spec_weaken)
    qed (simp add: Some spec_def)
  qed
  show ?thesis unfolding refuse_unwritable_target_def by (rule spec_seq [OF st acc])
qed

lemma calm_path_is_dir:
  assumes "calm env" and "namei (fold_name env) s0 True t = Inr k"
  shows "spec env (\<lambda>_. True) (\<lambda>s. s = s0) (path_is_dir t) (\<lambda>b s. s = s0 \<and> b = is_dir_at s0 k) (\<lambda>_ _. False)"
  unfolding path_is_dir_def os_stat_def
proof (rule spec_handle)
  let ?q = "\<lambda>env. stat_at (fold_name env) True t"
  show "spec env (\<lambda>_. True) (\<lambda>s. s = s0) (seq (os_query SStat ?q) (\<lambda>kn. ret (is_directory (snd kn))))
      (\<lambda>b s. s = s0 \<and> b = is_dir_at s0 k) (\<lambda>e s. s = s0 \<and> ?q env s0 = Inl e)"
    by (rule spec_seq [OF calm_stat [OF assms(1)]], rule spec_ret)
      (use assms(2) in \<open>auto simp: stat_at_def is_directory_def is_dir_at_def split: option.splits node.splits\<close>)
  show "spec env (\<lambda>_. True) (\<lambda>s. s = s0 \<and> ?q env s0 = Inl e) (if path_ignores e then ret False else fail e)
      (\<lambda>b s. s = s0 \<and> b = is_dir_at s0 k) (\<lambda>_ _. False)" for e
    using assms(2)
    by (intro spec_if spec_ret spec_fail)
      (auto simp: stat_at_def path_ignores_def ENOENT_def split: option.splits)
qed

text \<open>The directory exists: making it again returns.\<close>

lemma calm_mkdir_existing:
  assumes calm: "calm env" and ok: "fs_ok s0" and d: "namei (fold_name env) s0 True d = Inr k" "is_dir_at s0 k"
  shows "total env (\<lambda>s. s = s0) (mkdir_exist_ok d)"
  unfolding total_def
proof (intro allI impI)
  fix w :: world assume w: "fs w = s0"
  have m: "os_mkdir d env w = (Inl EEXIST, w\<lparr>clock := Suc (clock w)\<rparr>)"
    using make_entry_existing [OF ok d] calm w by (simp add: os_mkdir_def os_call_def calm_def)
  obtain r v where v: "path_is_dir d env (w\<lparr>clock := Suc (clock w)\<rparr>) = (r, v)"
    by (cases "path_is_dir d env (w\<lparr>clock := Suc (clock w)\<rparr>)")
  note s = specD [OF calm_path_is_dir [OF calm d(1)] v]
  have "r = Inr True" using s(2,3) w d(2) by (cases r) auto
  then show "\<exists>x w'. mkdir_exist_ok d env w = (Inr x, w')"
    using m v by (simp add: mkdir_exist_ok_def handle_def seq_def ret_def EEXIST_def ENOENT_def)
qed

lemma calm_mkdirs:
  assumes "calm env" and "fs_ok s0" and "namei (fold_name env) s0 True (rev up) = Inr k" and "is_dir_at s0 k"
  shows "total env (\<lambda>s. s = s0) (mkdir_parents up)"
  using calm_mkdir_existing [OF assms] by (cases up) (simp_all add: total_handle)

text \<open>With the temp file made, the rest of the write goes through unless the target is a directory.\<close>

lemma walks_snoc:
  assumes "fs_ok s" and "walks nf s False n [] (q @ [c]) k" and "c \<noteq> dotdot"
  shows "\<exists>d. walks nf s True n [] q d \<and> is_dir_at s d \<and> k = d @ [nf c]"
proof -
  obtain m d where d: "walks nf s True n [] q d" "is_dir_at s d" "walks nf s False m d [c] k"
    using walks_append [OF assms(1,2)] fs_okD(1) [OF assms(1)] by auto
  from d(3) have "k = d @ [nf c]"
  proof cases
    case down
    from down(4) show ?thesis by (auto elim: walks.cases)
  qed (use assms(3) in auto)
  then show ?thesis using d(1,2) by blast
qed

lemma temp_name_dotdot: "temp_name base token \<noteq> dotdot"
  by (simp add: temp_name_def dotdot_def lit_def)

lemma temp_at_parent:
  assumes T: "temp_at env s0 ko t tmp fd tk s"
    and t: "namei (fold_name env) s False t = Inr k" and nd: "\<not> is_dir_at s k"
  shows "parent_writable env s k"
proof -
  note D = temp_atD [OF T]
  have w: "walks (fold_name env) s False 40 [] t k" "walks (fold_name env) s False 40 [] tmp tk"
    using t D(6) by (simp_all add: namei_walks)
  have root: "is_dir_at s []" using fs_okD(1) [OF D(9)] .
  have "t \<noteq> []" using w(1) nd root by (auto elim: walks.cases)
  then have t': "t = butlast t @ [last t]" by simp
  have "last t \<noteq> dotdot"
  proof
    assume "last t = dotdot"
    then have t'': "t = butlast t @ [dotdot]" using t' by simp
    then obtain m d where d: "is_dir_at s d" "walks (fold_name env) s False m d [dotdot] k"
      using walks_append [OF D(9), of "fold_name env" False 40 "[]" "butlast t" "[dotdot]" k] w(1) root by auto
    from d(2) have "k = butlast d" by cases (auto elim: walks.cases)
    then show False using is_dir_butlast [OF D(9) d(1)] nd by simp
  qed
  then obtain d where d: "walks (fold_name env) s True 40 [] (butlast t) d" "k = d @ [fold_name env (last t)]"
    using walks_snoc [OF D(9)] w(1) t' by metis
  obtain base token where tmp: "tmp = butlast t @ [temp_name base token]" using temp_at_tmp [OF T] by blast
  obtain d' where d': "walks (fold_name env) s True 40 [] (butlast t) d'"
    "tk = d' @ [fold_name env (temp_name base token)]"
    using walks_snoc [OF D(9) w(2) [unfolded tmp] temp_name_dotdot] by blast
  have "d' = d" using d(1) d'(1) by (simp flip: walk_iff)
  then show ?thesis using D(7) d(2) d'(2) by (simp add: parent_writable_def)
qed

lemma total_replace:
  assumes calm: "calm env" and ok: "fs_ok s0" and t: "lands env s0 (Some k) t" and nd: "\<not> is_dir_at s0 k"
  shows "total env (temp_state env s0 (Some k) t tmp fd C) (os_replace tmp t)"
  unfolding os_replace_def
proof (rule total_os_call [OF calm])
  fix s assume "temp_state env s0 (Some k) t tmp fd C s"
  then obtain tk where T: "temp_at env s0 (Some k) t tmp fd tk s" by (auto simp: temp_state_def)
  note D = temp_atD [OF T]
  have k: "namei (fold_name env) s False t = Inr k" using temp_at_target(1) [OF T ok t refl] .
  have "\<not> is_dir_at s k" using temp_at_target(2) [OF T ok t refl] nd by (simp add: is_dir_at_def)
  then have "\<not> (case look s k of Some (Dir _) \<Rightarrow> True | _ \<Rightarrow> False)" by (simp add: is_dir_at_def)
  then show "\<exists>x s'. (case stat_at (fold_name env) False tmp s of
        Inl e \<Rightarrow> Inl e
      | Inr (ks, nd) \<Rightarrow>
          (case namei (fold_name env) s False t of
             Inl e \<Rightarrow> Inl e
           | Inr kd \<Rightarrow>
               if (case look s kd of Some (Dir _) \<Rightarrow> True | _ \<Rightarrow> False) then Inl EISDIR
               else if \<not> parent_writable env s ks \<or> \<not> parent_writable env s kd then Inl EACCES
               else if look s kd = Some nd \<and> (case nd of File _ \<Rightarrow> True | _ \<Rightarrow> False) then Inr ((), s)
               else Inr ((), s\<lparr>entries := AList.update kd nd (AList.delete ks (entries s))\<rparr>))) = Inr (x, s')"
    using D(4,6,7) k temp_at_parent [OF T k \<open>\<not> is_dir_at s k\<close>] by (simp add: stat_at_def)
qed

lemma total_unlink:
  assumes "calm env"
  shows "total env (temp_state env s0 ko t tmp fd C) (os_unlink tmp)"
  unfolding os_unlink_def
proof (rule total_os_call [OF assms])
  fix s assume "temp_state env s0 ko t tmp fd C s"
  then obtain tk where T: "temp_at env s0 ko t tmp fd tk s" by (auto simp: temp_state_def)
  note D = temp_atD [OF T]
  show "\<exists>x s'. (case stat_at (fold_name env) False tmp s of
        Inl e \<Rightarrow> Inl e
      | Inr (k, Dir _) \<Rightarrow> Inl EISDIR
      | Inr (k, _) \<Rightarrow>
          if \<not> parent_writable env s k then Inl EACCES
          else Inr ((), s\<lparr>entries := AList.delete k (entries s)\<rparr>)) = Inr (x, s')"
    using D(4,6,7) by (simp add: stat_at_def)
qed

lemma total_copy_mode:
  assumes calm: "calm env" and ok: "fs_ok s0" and t: "lands env s0 (Some k) t"
  shows "total env (temp_state env s0 (Some k) t tmp fd C) (copy_existing_mode t tmp)"
  unfolding total_def
proof (intro allI impI)
  fix w :: world assume P: "temp_state env s0 (Some k) t tmp fd C (fs w)"
  then obtain tk where T: "temp_at env s0 (Some k) t tmp fd tk (fs w)" by (auto simp: temp_state_def)
  note D = temp_atD [OF T]
  have tmp: "namei (fold_name env) (fs w) True tmp = Inr tk"
    using D(4,6) walks_follow [of "fold_name env" "fs w" 40 "[]" tmp tk] by (simp add: namei_walks)
  have "namei (fold_name env) (fs w) True t = Inr k" using temp_at_target(1) [OF T ok t refl] .
  then show "\<exists>x w'. copy_existing_mode t tmp env w = (Inr x, w')"
    using calm tmp D(4)
    by (auto simp: copy_existing_mode_def unless_missing_def os_stat_mode_def os_query_def os_call_def
        os_chmod_def handle_def seq_def ret_def fail_def calm_def stat_at_def log_state_def Let_def
        split: option.splits)
qed

lemma seq_Inl: "m env w = (Inl e, w') \<Longrightarrow> seq m f env w = (Inl e, w')"
  by (simp add: seq_def)

lemma seq_Inr: "m env w = (Inr x, w') \<Longrightarrow> seq m f env w = f x env w'"
  by (simp add: seq_def)

text \<open>The part the write and the preflight share, up to the temp file.\<close>

lemma shared_stage:
  assumes calm: "calm env" and ok: "fs_ok s0" and t: "lands env s0 (Some k) t" and u: "fs u = s0"
  shows "if refuses env t s0
    then \<exists>e u'. fs u' = s0 \<and> seq (refuse_unwritable_target t) (\<lambda>_. seq (mkdir_parents (rev (butlast t))) (\<lambda>_. m)) env u = (Inl e, u')
    else \<exists>u'. fs u' = s0 \<and> draws u' = draws u \<and>
      seq (refuse_unwritable_target t) (\<lambda>_. seq (mkdir_parents (rev (butlast t))) (\<lambda>_. m)) env u = m env u'"
proof -
  obtain r u1 where r: "refuse_unwritable_target t env u = (r, u1)"
    by (cases "refuse_unwritable_target t env u")
  note s = specD [OF calm_refuse [OF calm] r u]
  show ?thesis
  proof (cases "refuses env t s0")
    case True
    then obtain e where "r = Inl e" using s(2) by (cases r) auto
    then show ?thesis using True r s(3) by (simp add: seq_def)
  next
    case False
    then have r': "r = Inr ()" "fs u1 = s0" using s(2,3) by (cases r; auto)+
    obtain k' where k': "namei (fold_name env) s0 True (rev (rev (butlast t))) = Inr k'" "is_dir_at s0 k'"
      using namei_butlast [OF ok, of "fold_name env" True t k] t by (auto simp: lands_def)
    obtain u2 where u2: "mkdir_parents (rev (butlast t)) env u1 = (Inr (), u2)"
      using totalD [OF calm_mkdirs [OF calm ok k'] r'(2)] by auto
    have "fs u2 = s0"
      using specD(2) [OF spec_mkdirs_existing [where G = "\<lambda>_. True", OF TrueI ok k'] u2 r'(2) refl] .
    moreover have "draws u2 = draws u"
      using keeps_drawsD [OF keeps_refuse r] keeps_drawsD [OF keeps_mkdirs u2] by simp
    ultimately show ?thesis using False r r'(1) u2 by (intro if_not_P [THEN iffD2]) (auto simp: seq_def)
  qed
qed

lemma spec_create_temp:
  assumes "signals_ok env"
  shows "spec env (\<lambda>_. True) (before_temp s0 ko) (create_temp t)
    (\<lambda>(fd, tmp). temp_state env s0 ko t tmp fd (\<lambda>i. content i = [] \<and> perm i = new_perm env))
    (\<lambda>_ s. before_temp s0 ko s \<or> \<not> clean env)"
proof (cases "cap_base_for_temp (file_name t)")
  case (Inl e)
  then show ?thesis by (simp add: create_temp_def spec_fail)
next
  case (Inr base)
  have sig: "faults env c n = Interrupted e \<Longrightarrow> \<not> is_OSError e" for c n e
    using assms unfolding signals_ok_def by blast
  show ?thesis unfolding create_temp_def Inr sum.case
    by (rule spec_weaken [OF spec_temp_loop [OF Inr sig]]) auto
qed

lemma calm_signals: "calm env \<Longrightarrow> signals_ok env"
  by (simp add: calm_def signals_ok_def)

lemma calm_clean: "calm env \<Longrightarrow> clean env"
  by (simp add: calm_def clean_def)

text \<open>The two ends, from the temp file on.\<close>

definition write_end :: "path \<Rightarrow> pystr \<Rightarrow> string \<Rightarrow> nat \<Rightarrow> path \<Rightarrow> unit op" where
  "write_end t txt enc fd tmp =
     handle
       (seq (fdopen_codec enc) (\<lambda>encode. seq (write_synced fd encode txt) (\<lambda>_.
          seq (copy_existing_mode t tmp) (\<lambda>_. os_replace tmp t))))
       (\<lambda>e. seq (remove_temp tmp) (\<lambda>_. fail e))"

lemma total_write_end:
  assumes calm: "calm env" and ok: "fs_ok s0" and t: "lands env s0 (Some k) t" and nd: "\<not> is_dir_at s0 k"
    and enc: "codecs env enc = Inr encode" "encode txt = Inr bs"
  shows "total env (temp_state env s0 (Some k) t tmp fd (\<lambda>i. content i = [] \<and> perm i = new_perm env))
    (write_end t txt enc fd tmp)"
  unfolding write_end_def
proof (rule total_handle)
  let ?P = "temp_state env s0 (Some k) t tmp fd (\<lambda>i. content i = [] \<and> perm i = new_perm env)"
  have codec: "spec env (\<lambda>_. True) ?P (fdopen_codec enc) (\<lambda>e s. e = encode \<and> ?P s) (\<lambda>_ _. True)"
    unfolding fdopen_codec_def by (rule spec_os_query) (use enc(1) in auto)
  have tcodec: "total env ?P (fdopen_codec enc)"
    unfolding fdopen_codec_def by (rule total_os_query [OF calm]) (simp add: enc(1))
  have close: "total env (\<lambda>_. True) (os_close fd)"
    unfolding os_close_def by (rule total_os_call [OF calm]) simp
  have wr: "total env ?P (write_synced fd encode txt)"
    unfolding write_synced_def enc(2) sum.case
    using calm close
    by (intro total_finally)
      (auto simp: total_def seq_def os_write_def os_fsync_def os_call_def calm_def Let_def)
  have rest: "total env (temp_state env s0 (Some k) t tmp fd (written bs (new_perm env)))
      (seq (copy_existing_mode t tmp) (\<lambda>_. os_replace tmp t))"
  proof (rule total_seq [OF spec_copy_mode [where G = "\<lambda>_. True", OF ok t calm_quiet [OF calm] TrueI]
        total_copy_mode [OF calm ok t]])
    show "total env (\<lambda>s. \<exists>m. good_perm env s0 (Some k) m \<and> temp_state env s0 (Some k) t tmp fd (written bs m) s)
        (os_replace tmp t)"
      unfolding total_def
    proof (intro allI impI)
      fix w :: world
      assume "\<exists>m. good_perm env s0 (Some k) m \<and> temp_state env s0 (Some k) t tmp fd (written bs m) (fs w)"
      then obtain m where "temp_state env s0 (Some k) t tmp fd (written bs m) (fs w)" by blast
      then show "\<exists>x w'. os_replace tmp t env w = (Inr x, w')"
        by (rule totalD [OF total_replace [OF calm ok t nd]])
    qed
  qed
  have wrest: "total env ?P (seq (write_synced fd encode txt) (\<lambda>_. seq (copy_existing_mode t tmp) (\<lambda>_. os_replace tmp t)))"
  proof (rule total_seq [OF spec_write_synced [where G = "\<lambda>_. True", OF TrueI] wr])
    show "total env (\<lambda>s. \<exists>bs. encode txt = Inr bs \<and> temp_state env s0 (Some k) t tmp fd (written bs (new_perm env)) s)
        (seq (copy_existing_mode t tmp) (\<lambda>_. os_replace tmp t))"
      using rest enc(2) by (simp add: total_def)
  qed
  show "total env ?P (seq (fdopen_codec enc) (\<lambda>encode. seq (write_synced fd encode txt) (\<lambda>_.
      seq (copy_existing_mode t tmp) (\<lambda>_. os_replace tmp t))))"
    by (rule total_seq [OF codec tcodec]) (use wrest in \<open>simp add: total_def\<close>)
qed

lemma spec_close_temp:
  "spec env (\<lambda>_. True) (temp_state env s0 ko t tmp fd C) (os_close fd)
     (\<lambda>_. temp_state env s0 ko t tmp fd C) (\<lambda>_ _. True)"
  unfolding os_close_def by (rule spec_os_call) auto

lemma total_check_end:
  assumes "calm env"
  shows "total env (temp_state env s0 ko t tmp fd C) (seq (os_close fd) (\<lambda>_. os_unlink tmp))"
proof (rule total_seq [OF spec_close_temp])
  show "total env (temp_state env s0 ko t tmp fd C) (os_close fd)"
    unfolding os_close_def by (rule total_os_call [OF assms]) simp
  show "total env (temp_state env s0 ko t tmp fd C) (os_unlink tmp)" by (rule total_unlink [OF assms])
qed

text \<open>Every entry and every inode is as it was; an unlinked inode may be left over.\<close>

definition kept :: "fs \<Rightarrow> fs \<Rightarrow> bool" where
  "kept s0 s \<longleftrightarrow> (\<forall>k. look s k = look s0 k) \<and> take (length (inodes s0)) (inodes s) = inodes s0"

lemma kept_refl [simp]: "kept s s"
  by (simp add: kept_def)

lemma kept_length: "kept s0 s \<Longrightarrow> length (inodes s0) \<le> length (inodes s)"
  by (metis kept_def length_take min.absorb_iff1 min.commute)

lemma kept_trans: "kept s0 s \<Longrightarrow> kept s s' \<Longrightarrow> kept s0 s'"
  using kept_length [of s0 s] unfolding kept_def by (metis min.absorb1 take_take)

lemma kept_inode: "kept s0 s \<Longrightarrow> i < length (inodes s0) \<Longrightarrow> inodes s ! i = inodes s0 ! i"
  by (metis kept_def nth_take)

lemma kept_ok: "fs_ok s0 \<Longrightarrow> kept s0 s \<Longrightarrow> fs_ok s"
  using kept_length [of s0 s] unfolding fs_ok_def is_dir_at_def kept_def by (fastforce intro: order.strict_trans2)

lemma spec_check_end:
  "spec env (\<lambda>_. True) (temp_state env s0 (Some k) t tmp fd C) (seq (os_close fd) (\<lambda>_. os_unlink tmp))
     (\<lambda>_. kept s0) (\<lambda>_ _. True)"
proof (rule spec_seq [OF spec_close_temp])
  show "spec env (\<lambda>_. True) (temp_state env s0 (Some k) t tmp fd C) (os_unlink tmp)
      (\<lambda>_. kept s0) (\<lambda>_ _. True)"
    unfolding os_unlink_def
  proof (rule spec_os_call)
    fix s x s'
    assume "temp_state env s0 (Some k) t tmp fd C s" and e: "(case stat_at (fold_name env) False tmp s of
        Inl e \<Rightarrow> Inl e
      | Inr (k, Dir _) \<Rightarrow> Inl EISDIR
      | Inr (k, _) \<Rightarrow>
          if \<not> parent_writable env s k then Inl EACCES
          else Inr ((), s\<lparr>entries := AList.delete k (entries s)\<rparr>)) = Inr (x, s')"
    then obtain tk where T: "temp_at env s0 (Some k) t tmp fd tk s" by (auto simp: temp_state_def)
    note D = temp_atD [OF T]
    have "s' = s\<lparr>entries := AList.delete tk (entries s)\<rparr>" using e D(4,6,7) by (simp add: stat_at_def)
    then show "True \<and> kept s0 s'" using D(2,8) changedD(3) [OF D(1)] by (simp add: kept_def)
  qed simp_all
qed

text \<open>Both functions, from the resolved target on.\<close>

lemma write_from_target:
  "atomic_write_text p txt enc = seq (resolve_symlinked_target p) (\<lambda>t.
     seq (refuse_unwritable_target t) (\<lambda>_. seq (mkdir_parents (rev (butlast t))) (\<lambda>_.
       seq (create_temp t) (\<lambda>(fd, tmp). write_end t txt enc fd tmp))))"
  unfolding atomic_write_text_def write_end_def ..

text \<open>With the same tokens to come, both make the same temp file or none; then both go through.\<close>

lemma both_ends:
  assumes calm: "calm env" and ok: "fs_ok s0" and t: "lands env s0 (Some k) t" and nd: "\<not> is_dir_at s0 k"
    and enc: "codecs env enc = Inr encode" "encode txt = Inr bs"
    and u: "fs u = s0" "fs v = s0" "draws u = draws v"
  defines "W \<equiv> seq (create_temp t) (\<lambda>(fd, tmp). write_end t txt enc fd tmp) env u"
    and "C \<equiv> seq (create_temp t) (\<lambda>(fd, tmp). seq (os_close fd) (\<lambda>_. os_unlink tmp)) env v"
  shows "(fst W = Inr () \<longleftrightarrow> fst C = Inr ()) \<and> kept s0 (fs (snd C))"
proof -
  obtain r u1 where a: "create_temp t env u = (r, u1)" by (cases "create_temp t env u")
  obtain r' v1 where b: "create_temp t env v = (r', v1)" by (cases "create_temp t env v")
  have eq: "r' = r" "fs v1 = fs u1"
    using indepD [OF indep_create_temp [OF calm] _ u(3) a b] u(1,2) by auto
  note made = specD [OF spec_create_temp [OF calm_signals [OF calm], of s0 "Some k" t] b]
  have before: "before_temp s0 (Some k) (fs v)" using u(2) ok by (simp add: before_temp_def changed_refl)
  show ?thesis
  proof (cases r)
    case (Inl e)
    then have "fs v1 = s0" using made(3) [OF before] eq(1) calm_clean [OF calm] by (simp add: before_temp_def)
    then show ?thesis using a b eq(1) Inl unfolding W_def C_def by (simp add: seq_def)
  next
    case (Inr ft)
    obtain fd tmp where ft: "ft = (fd, tmp)" by (cases ft)
    have T: "temp_state env s0 (Some k) t tmp fd (\<lambda>i. content i = [] \<and> perm i = new_perm env) (fs v1)"
      using made(2) [OF before] eq(1) Inr ft by simp
    obtain u2 where w: "write_end t txt enc fd tmp env u1 = (Inr (), u2)"
      using totalD [OF total_write_end [OF calm ok t nd enc], of tmp fd u1] T eq(2) by auto
    obtain v2 where c: "seq (os_close fd) (\<lambda>_. os_unlink tmp) env v1 = (Inr (), v2)"
      using totalD [OF total_check_end [OF calm] T] by auto
    have "kept s0 (fs v2)" using specD(2) [OF spec_check_end c T refl] .
    then show ?thesis using a b eq(1) Inr ft w c unfolding W_def C_def by (simp add: seq_def)
  qed
qed

lemma check_and_write:
  assumes ok: "fs_ok (fs w)" and calm: "calm env" and k: "namei (fold_name env) (fs w) True p = Inr k"
    and enc: "codecs env enc = Inr encode" "encode txt = Inr bs"
  shows "(fst (check_writable p env w) = Inr () \<longleftrightarrow> fst (atomic_write_text p txt enc env w) = Inr ()) \<and>
    kept (fs w) (fs (snd (check_writable p env w)))"
proof -
  have ko: "known_key env (fs w) p = Some k" using calm_quiet [OF calm] k by (simp add: known_key_def)
  obtain r u where u: "resolve_symlinked_target p env w = (r, u)" by (cases "resolve_symlinked_target p env w")
  note res = specD [OF spec_resolve [where G = "\<lambda>_. True", OF TrueI ok] u refl, unfolded ko]
  show ?thesis
  proof (cases r)
    case (Inl e)
    then show ?thesis using u res(3) by (simp add: check_writable_def write_from_target seq_def)
  next
    case (Inr t)
    then have fu: "fs u = fs w" and t: "lands env (fs w) (Some k) t" using res(2) by auto
    have kt: "namei (fold_name env) (fs w) True t = Inr k" using t by (simp add: lands_def)
    obtain d v where v: "path_is_dir t env u = (d, v)" by (cases "path_is_dir t env u")
    note dir = specD [OF calm_path_is_dir [OF calm kt] v fu]
    have d: "d = Inr (is_dir_at (fs w) k)" and fv: "fs v = fs w" using dir(2,3) by (cases d; auto)+
    have dv: "draws v = draws u" using keeps_drawsD [OF keeps_path_is_dir v] .
    show ?thesis
    proof (cases "is_dir_at (fs w) k")
      case True
      then have "check_writable p env w = (Inl EISDIR, v)"
        using u v d Inr by (simp add: check_writable_def seq_def fail_def)
      moreover have "fst (atomic_write_text p txt enc env w) \<noteq> Inr ()"
      proof
        assume "fst (atomic_write_text p txt enc env w) = Inr ()"
        then obtain w' where "atomic_write_text p txt enc env w = (Inr (), w')"
          by (cases "atomic_write_text p txt enc env w") simp
        from specD(2) [OF spec_atomic_write [OF ko [symmetric] ok calm_signals [OF calm]] this refl refl]
        obtain k' fd bs' where "replaced (fs w) (Some k) fd bs' k' (fs w')" "\<not> is_dir_at (fs w) k'" by blast
        then show False using True by (simp add: replaced_def)
      qed
      ultimately show ?thesis using fv by simp
    next
      case False
      have C: "check_writable p env w = seq (refuse_unwritable_target t) (\<lambda>_.
          seq (mkdir_parents (rev (butlast t))) (\<lambda>_. seq (create_temp t) (\<lambda>(fd, tmp).
            seq (os_close fd) (\<lambda>_. os_unlink tmp)))) env v"
        using u v d Inr False by (simp add: check_writable_def seq_def)
      have W: "atomic_write_text p txt enc env w = seq (refuse_unwritable_target t) (\<lambda>_.
          seq (mkdir_parents (rev (butlast t))) (\<lambda>_. seq (create_temp t) (\<lambda>(fd, tmp).
            write_end t txt enc fd tmp))) env u"
        using u Inr by (simp add: write_from_target seq_def)
      show ?thesis
      proof (cases "refuses env t (fs w)")
        case True
        then show ?thesis
          using shared_stage [OF calm ok t fu, of "seq (create_temp t) (\<lambda>(fd, tmp). write_end t txt enc fd tmp)"]
            shared_stage [OF calm ok t fv, of "seq (create_temp t) (\<lambda>(fd, tmp). seq (os_close fd) (\<lambda>_. os_unlink tmp))"]
          unfolding C W by auto
      next
        case False
        obtain u' where u': "fs u' = fs w" "draws u' = draws u" "atomic_write_text p txt enc env w =
            seq (create_temp t) (\<lambda>(fd, tmp). write_end t txt enc fd tmp) env u'"
          using shared_stage [OF calm ok t fu] False unfolding W by auto
        obtain v' where v': "fs v' = fs w" "draws v' = draws v" "check_writable p env w =
            seq (create_temp t) (\<lambda>(fd, tmp). seq (os_close fd) (\<lambda>_. os_unlink tmp)) env v'"
          using shared_stage [OF calm ok t fv] False unfolding C by auto
        show ?thesis unfolding u'(3) v'(3)
          using both_ends [OF calm ok t \<open>\<not> is_dir_at (fs w) k\<close> enc u'(1) v'(1)] u'(2) v'(2) dv by simp
      qed
    qed
  qed
qed

section \<open>Two paths\<close>

text \<open>What \<open>realpath\<close> makes of a path that leads somewhere: no links are left.\<close>

lemma calm_realpath:
  assumes calm: "calm env" and ok: "fs_ok s0" and p: "namei (fold_name env) s0 True p = Inr k"
  shows "spec env (\<lambda>_. True) (\<lambda>s. s = s0) (os_realpath p)
    (\<lambda>q s. s = s0 \<and> settled (fold_name env) s0 q \<and> map (fold_name env) q = k) (\<lambda>_ _. False)"
proof -
  have ct: "check_text p = None" and wk: "walks (fold_name env) s0 True 40 (map (fold_name env) []) p k"
    using p by (simp_all add: namei_walks)
  obtain q where q: "realp (fold_name env) s0 (41 + length (entries s0)) [] p = (q, True)"
    "settled (fold_name env) s0 q" "k = map (fold_name env) q"
    using realp_walks [OF ok wk dirs_to_Nil [OF ok] ct, where f = "41 + length (entries s0)"] by auto
  show ?thesis
    unfolding os_realpath_def
  proof (rule spec_handle)
    show "spec env (\<lambda>_. True) (\<lambda>s. s = s0)
        (os_query SRealpath (\<lambda>env s. case check_text p of
          Some e \<Rightarrow> Inl e
        | None \<Rightarrow> Inr (fst (realp (fold_name env) s (41 + length (entries s)) [] p))))
        (\<lambda>q s. s = s0 \<and> settled (fold_name env) s0 q \<and> map (fold_name env) q = k) (\<lambda>_ _. False)"
      by (rule spec_weaken [OF calm_stat [OF calm]]) (auto simp: ct q)
  qed (simp add: spec_def)
qed

lemma calm_exists:
  assumes "calm env" and "namei (fold_name env) s0 True p = Inr k"
  shows "spec env (\<lambda>_. True) (\<lambda>s. s = s0) (path_exists p)
    (\<lambda>b s. s = s0 \<and> b = (look s0 k \<noteq> None)) (\<lambda>_ _. False)"
  unfolding path_exists_def os_stat_def
proof (rule spec_handle)
  let ?q = "\<lambda>env. stat_at (fold_name env) True p"
  show "spec env (\<lambda>_. True) (\<lambda>s. s = s0) (seq (os_query SStat ?q) (\<lambda>_. ret True))
      (\<lambda>b s. s = s0 \<and> b = (look s0 k \<noteq> None)) (\<lambda>e s. s = s0 \<and> ?q env s0 = Inl e)"
    by (rule spec_seq [OF calm_stat [OF assms(1)]], rule spec_ret)
      (use assms(2) in \<open>auto simp: stat_at_def split: option.splits\<close>)
  show "spec env (\<lambda>_. True) (\<lambda>s. s = s0 \<and> ?q env s0 = Inl e)
      (if is_OSError e \<or> (case e of ValueError _ \<Rightarrow> True | UnicodeEncodeError \<Rightarrow> True | _ \<Rightarrow> False)
       then ret False else fail e) (\<lambda>b s. s = s0 \<and> b = (look s0 k \<noteq> None)) (\<lambda>_ _. False)" for e
    using assms(2)
    by (intro spec_if spec_ret spec_fail) (auto simp: stat_at_def ENOENT_def split: option.splits)
qed

text \<open>One file: the same key, or two names of one inode.\<close>

definition one_file :: "fs \<Rightarrow> path \<Rightarrow> path \<Rightarrow> bool" where
  "one_file s ka kb \<longleftrightarrow> ka = kb \<or>
     (\<exists>i. look s ka = Some (File i) \<and> look s kb = Some (File i))"

lemma calm_samefile:
  assumes "calm env" and "fs_ok s0"
    and "namei (fold_name env) s0 True p = Inr ka" and "namei (fold_name env) s0 True q = Inr kb"
    and "look s0 ka \<noteq> None" and "look s0 kb \<noteq> None"
  shows "spec env (\<lambda>_. True) (\<lambda>s. s = s0) (path_samefile p q)
    (\<lambda>b s. s = s0 \<and> b = one_file s0 ka kb) (\<lambda>_ _. False)"
proof -
  obtain na nb where n: "look s0 ka = Some na" "look s0 kb = Some nb" using assms(5,6) by blast
  have nl: "\<not> is_link_at s0 ka" "\<not> is_link_at s0 kb" using namei_no_link [OF assms(2)] assms(3,4) by blast+
  have st: "stat_at (fold_name env) True p s0 = Inr (ka, na)" "stat_at (fold_name env) True q s0 = Inr (kb, nb)"
    using assms(3,4) n by (simp_all add: stat_at_def)
  have id: "(identity (ka, na) = identity (kb, nb)) = one_file s0 ka kb"
    using n nl by (auto simp: identity_def one_file_def split: node.splits)
  have a: "spec env (\<lambda>_. True) (\<lambda>s. s = s0) (os_stat p) (\<lambda>x s. s = s0 \<and> x = (ka, na)) (\<lambda>_ _. False)"
    unfolding os_stat_def by (rule spec_weaken [OF calm_stat [OF assms(1)]]) (auto simp: st)
  have b: "spec env (\<lambda>_. True) (\<lambda>s. s = s0 \<and> x = (ka, na)) (seq (os_stat q) (\<lambda>y. ret (identity x = identity y)))
      (\<lambda>b s. s = s0 \<and> b = one_file s0 ka kb) (\<lambda>_ _. False)" for x
    unfolding os_stat_def
  proof (cases "x = (ka, na)")
    case True
    have "spec env (\<lambda>_. True) (\<lambda>s. s = s0) (os_query SStat (\<lambda>env. stat_at (fold_name env) True q))
        (\<lambda>y s. s = s0 \<and> y = (kb, nb)) (\<lambda>_ _. False)"
      by (rule spec_weaken [OF calm_stat [OF assms(1)]]) (auto simp: st)
    then have "spec env (\<lambda>_. True) (\<lambda>s. s = s0)
        (seq (os_query SStat (\<lambda>env. stat_at (fold_name env) True q)) (\<lambda>y. ret (identity x = identity y)))
        (\<lambda>b s. s = s0 \<and> b = one_file s0 ka kb) (\<lambda>_ _. False)"
      by (rule spec_seq) (rule spec_ret, use True id in simp)
    then show "spec env (\<lambda>_. True) (\<lambda>s. s = s0 \<and> x = (ka, na))
        (seq (os_query SStat (\<lambda>env. stat_at (fold_name env) True q)) (\<lambda>y. ret (identity x = identity y)))
        (\<lambda>b s. s = s0 \<and> b = one_file s0 ka kb) (\<lambda>_ _. False)"
      by (rule spec_weaken) auto
  qed (simp add: spec_def)
  show ?thesis unfolding path_samefile_def by (rule spec_seq [OF a b])
qed

text \<open>Neither is there: \<open>a\<close> is made, \<open>b\<close> is looked for, \<open>a\<close> is removed.\<close>

definition probed :: "env \<Rightarrow> fs \<Rightarrow> path \<Rightarrow> fs" where
  "probed env s0 ka = s0\<lparr>entries := (ka, File (length (inodes s0))) # entries s0,
     inodes := inodes s0 @ [\<lparr>content = [], disk = [], perm = 0x180 AND NOT (umask env)\<rparr>]\<rparr>"

lemma look_probed [simp]:
  "look (probed env s0 ka) k = (if k = ka then Some (File (length (inodes s0))) else look s0 k)"
  by (simp add: probed_def look_def)

lemma probed_inodes [simp]: "take (length (inodes s0)) (inodes (probed env s0 ka)) = inodes s0"
  by (simp add: probed_def)

lemma calm_probe_open:
  assumes "calm env" and "settled (fold_name env) s0 ra" and "look s0 (map (fold_name env) ra) = None"
  shows "spec env (\<lambda>_. True) (\<lambda>s. s = s0) (os_open_excl ra 0x180)
    (\<lambda>_ s. s = probed env s0 (map (fold_name env) ra) \<and> parent_writable env s0 (map (fold_name env) ra))
    (\<lambda>_ s. s = s0 \<and> \<not> parent_writable env s0 (map (fold_name env) ra))"
  unfolding os_open_excl_def
  by (rule spec_os_call)
    (use assms namei_settled [OF assms(2), of False] in
      \<open>auto simp: make_entry_def probed_def calm_def Let_def split: if_splits\<close>)

lemma calm_probe:
  assumes calm: "calm env" and ok: "fs_ok s0"
    and ra: "settled (fold_name env) s0 ra" "map (fold_name env) ra = ka" "look s0 ka = None"
    and rb: "settled (fold_name env) s0 rb" "map (fold_name env) rb = kb" "look s0 kb = None"
  shows "spec env (\<lambda>_. True) (\<lambda>s. s = s0)
    (seq (os_open_excl ra 0x180) (\<lambda>fd. seq (os_close fd) (\<lambda>_. finally_do
       (seq (path_exists rb) (\<lambda>e. if e then path_samefile ra rb else ret False)) (os_unlink ra))))
    (\<lambda>b s. kept s0 s \<and> b = (ka = kb)) (\<lambda>_ s. s = s0 \<and> \<not> parent_writable env s0 ka)"
proof (cases "parent_writable env s0 ka")
  case False
  have "spec env (\<lambda>_. True) (\<lambda>s. s = s0) (os_open_excl ra 0x180) (\<lambda>_ _. False)
      (\<lambda>_ s. s = s0 \<and> \<not> parent_writable env s0 ka)"
    by (rule spec_weaken [OF calm_probe_open [OF calm ra(1)]]) (use ra False in auto)
  then show ?thesis by (rule spec_seq) (simp add: spec_def)
next
  case True
  let ?s = "probed env s0 ka"
  have dir: "is_dir_at s0 (butlast ka)" using True
    by (auto simp: parent_writable_def is_dir_at_def split: option.splits node.splits)
  have ne: "ka \<noteq> []" using ra(3) fs_okD(1) [OF ok] by auto
  have ok1: "fs_ok ?s"
    by (rule fs_ok_insert [OF ok ra(3) ne dir, of _ "File (length (inodes s0))"]) (simp_all add: probed_def look_def)
  have still: "namei (fold_name env) ?s fl q = Inr k" if "namei (fold_name env) s0 fl q = Inr k" for fl q k
    by (rule namei_files [OF that]) (use ra(3) in \<open>auto simp: is_dir_at_def is_link_at_def\<close>)
  have na: "namei (fold_name env) ?s True ra = Inr ka" and nb: "namei (fold_name env) ?s True rb = Inr kb"
    using still namei_settled [OF ra(1)] namei_settled [OF rb(1)] ra(2) rb(2) by simp_all
  have op: "spec env (\<lambda>_. True) (\<lambda>s. s = s0) (os_open_excl ra 0x180) (\<lambda>_ s. s = ?s)
      (\<lambda>_ s. s = s0 \<and> \<not> parent_writable env s0 ka)"
    by (rule spec_weaken [OF calm_probe_open [OF calm ra(1)]]) (use ra in auto)
  have cl: "spec env (\<lambda>_. True) (\<lambda>s. s = ?s) (os_close fd) (\<lambda>_ s. s = ?s) (\<lambda>_ _. False)" for fd
    unfolding os_close_def by (rule spec_os_call) (use calm in \<open>auto simp: calm_def\<close>)
  have same: "spec env (\<lambda>_. True) (\<lambda>s. s = ?s) (path_samefile ra rb) (\<lambda>b s. s = ?s \<and> b = (ka = kb)) (\<lambda>_ _. False)"
    if "kb = ka"
    by (rule spec_weaken [OF calm_samefile [OF calm ok1 na nb]]) (use that in \<open>auto simp: one_file_def\<close>)
  have ask: "spec env (\<lambda>_. True) (\<lambda>s. s = ?s) (seq (path_exists rb) (\<lambda>e. if e then path_samefile ra rb else ret False))
      (\<lambda>b s. s = ?s \<and> b = (ka = kb)) (\<lambda>_ _. False)"
  proof (rule spec_seq [OF calm_exists [OF calm nb]])
    show "spec env (\<lambda>_. True) (\<lambda>s. s = ?s \<and> e = (look ?s kb \<noteq> None)) (if e then path_samefile ra rb else ret False)
        (\<lambda>b s. s = ?s \<and> b = (ka = kb)) (\<lambda>_ _. False)" for e
    proof (cases "kb = ka")
      case True
      then show ?thesis using same by (intro spec_if spec_ret spec_weaken [OF same]) auto
    next
      case False
      then show ?thesis using rb(3) by (cases e) (auto simp: spec_def ret_def)
    qed
  qed
  have un: "spec env (\<lambda>_. True) (\<lambda>s. s = ?s) (os_unlink ra) (\<lambda>_. kept s0) (\<lambda>_ _. False)"
  proof -
    have "namei (fold_name env) ?s False ra = Inr ka"
      using still [OF namei_settled [OF ra(1)]] ra(2) by simp
    moreover have "parent_writable env ?s ka" using True ra(3) by (auto simp: parent_writable_def split: option.splits node.splits)
    ultimately show ?thesis
      unfolding os_unlink_def
      by (intro spec_os_call) (use calm ra(3) in \<open>auto simp: stat_at_def kept_def calm_def\<close>)
  qed
  have fin: "spec env (\<lambda>_. True) (\<lambda>s. s = ?s) (finally_do
       (seq (path_exists rb) (\<lambda>e. if e then path_samefile ra rb else ret False)) (os_unlink ra))
     (\<lambda>b s. kept s0 s \<and> b = (ka = kb)) (\<lambda>_ s. s = s0 \<and> \<not> parent_writable env s0 ka)"
  proof (rule spec_finally [OF ask])
    show "spec env (\<lambda>_. True) (\<lambda>s. s = ?s \<and> b = (ka = kb)) (os_unlink ra)
        (\<lambda>_ s. kept s0 s \<and> b = (ka = kb)) (\<lambda>_ s. s = s0 \<and> \<not> parent_writable env s0 ka)" for b
    proof (cases "b = (ka = kb)")
      case True
      then show ?thesis using spec_weaken [OF un] by auto
    qed (simp add: spec_def)
  qed (simp add: spec_def)
  have "spec env (\<lambda>_. True) (\<lambda>s. s = ?s) (seq (os_close fd) (\<lambda>_. finally_do
       (seq (path_exists rb) (\<lambda>e. if e then path_samefile ra rb else ret False)) (os_unlink ra)))
     (\<lambda>b s. kept s0 s \<and> b = (ka = kb)) (\<lambda>_ s. s = s0 \<and> \<not> parent_writable env s0 ka)" for fd
    by (rule spec_seq [OF spec_weaken [OF cl] fin]) auto
  then show ?thesis by (rule spec_seq [OF op])
qed

lemma spec_false: "(\<And>s. \<not> P s) \<Longrightarrow> spec env G P m Q E"
  by (simp add: spec_def)

lemma spec_same_file:
  assumes calm: "calm env" and ok: "fs_ok s0"
    and a: "namei (fold_name env) s0 True a = Inr ka" and b: "namei (fold_name env) s0 True b = Inr kb"
  shows "spec env (\<lambda>_. True) (\<lambda>s. s = s0) (same_file a b)
    (\<lambda>r s. kept s0 s \<and> r = one_file s0 ka kb)
    (\<lambda>_ s. s = s0 \<and> look s0 ka = None \<and> look s0 kb = None \<and> \<not> parent_writable env s0 ka)"
    (is "spec env _ ?P _ ?Q ?E")
proof -
  let ?S = "\<lambda>q k s. s = s0 \<and> settled (fold_name env) s0 q \<and> map (fold_name env) q = k"
  have ask: "spec env (\<lambda>_. True) (?S rb kb)
      (if ra = rb then ret True
       else seq (path_exists ra) (\<lambda>a_exists. seq (path_exists rb) (\<lambda>b_exists.
         if a_exists \<and> b_exists then path_samefile ra rb
         else if a_exists \<or> b_exists then ret False
         else seq (os_open_excl ra 0x180) (\<lambda>fd. seq (os_close fd) (\<lambda>_.
           finally_do (seq (path_exists rb) (\<lambda>e. if e then path_samefile ra rb else ret False)) (os_unlink ra))))))
      ?Q ?E" if ra: "settled (fold_name env) s0 ra" "map (fold_name env) ra = ka" for ra rb
  proof (cases "settled (fold_name env) s0 rb \<and> map (fold_name env) rb = kb")
    case True
    then have rb: "settled (fold_name env) s0 rb" "map (fold_name env) rb = kb" by auto
    have na: "namei (fold_name env) s0 True ra = Inr ka" and nb: "namei (fold_name env) s0 True rb = Inr kb"
      using namei_settled [OF ra(1)] namei_settled [OF rb(1)] ra(2) rb(2) by simp_all
    let ?rest = "\<lambda>a_exists b_exists. if a_exists \<and> b_exists then path_samefile ra rb
         else if a_exists \<or> b_exists then ret False
         else seq (os_open_excl ra 0x180) (\<lambda>fd. seq (os_close fd) (\<lambda>_.
           finally_do (seq (path_exists rb) (\<lambda>e. if e then path_samefile ra rb else ret False)) (os_unlink ra)))"
    have rest: "spec env (\<lambda>_. True) ?P (?rest (look s0 ka \<noteq> None) (look s0 kb \<noteq> None)) ?Q ?E"
    proof -
      consider (both) "look s0 ka \<noteq> None" "look s0 kb \<noteq> None"
        | (one) "(look s0 ka \<noteq> None) \<noteq> (look s0 kb \<noteq> None)"
        | (none) "look s0 ka = None" "look s0 kb = None" by blast
      then show ?thesis
      proof cases
        case both
        then show ?thesis using spec_weaken [OF calm_samefile [OF calm ok na nb both], of _ ?Q ?E] by auto
      next
        case one
        then have "\<not> one_file s0 ka kb" by (auto simp: one_file_def split: option.splits node.splits)
        then show ?thesis using one by (auto intro!: spec_ret)
      next
        case none
        have p: "spec env (\<lambda>_. True) ?P
            (seq (os_open_excl ra 0x180) (\<lambda>fd. seq (os_close fd) (\<lambda>_. finally_do
              (seq (path_exists rb) (\<lambda>e. if e then path_samefile ra rb else ret False)) (os_unlink ra)))) ?Q ?E"
          by (rule spec_weaken [OF calm_probe [OF calm ok ra none(1) rb none(2)]])
            (use none in \<open>auto simp: one_file_def\<close>)
        then show ?thesis using none by simp
      qed
    qed
    have ex: "spec env (\<lambda>_. True) ?P (seq (path_exists ra) (\<lambda>x. seq (path_exists rb) (\<lambda>y. ?rest x y))) ?Q ?E"
    proof (rule spec_seq)
      show "spec env (\<lambda>_. True) ?P (path_exists ra) (\<lambda>x s. s = s0 \<and> x = (look s0 ka \<noteq> None)) ?E"
        by (rule spec_weaken [OF calm_exists [OF calm na]]) auto
      show "spec env (\<lambda>_. True) (\<lambda>s. s = s0 \<and> x = (look s0 ka \<noteq> None)) (seq (path_exists rb) (\<lambda>y. ?rest x y)) ?Q ?E" for x
      proof (cases "x = (look s0 ka \<noteq> None)")
        case True
        have "spec env (\<lambda>_. True) ?P (seq (path_exists rb) (\<lambda>y. ?rest x y)) ?Q ?E"
        proof (rule spec_seq)
          show "spec env (\<lambda>_. True) ?P (path_exists rb) (\<lambda>y s. s = s0 \<and> y = (look s0 kb \<noteq> None)) ?E"
            by (rule spec_weaken [OF calm_exists [OF calm nb]]) auto
          show "spec env (\<lambda>_. True) (\<lambda>s. s = s0 \<and> y = (look s0 kb \<noteq> None)) (?rest x y) ?Q ?E" for y
            using rest True by (cases "y = (look s0 kb \<noteq> None)") (auto simp: spec_def)
        qed
        then show ?thesis by (rule spec_weaken) auto
      next
        case False
        then show ?thesis by (intro spec_false) auto
      qed
    qed
    show ?thesis
    proof (cases "ra = rb")
      case True
      then show ?thesis using ra(2) rb(2) by (auto intro!: spec_ret simp: one_file_def)
    next
      case False
      then show ?thesis by (auto intro: spec_weaken [OF ex])
    qed
  next
    case False
    then show ?thesis by (auto simp: spec_def)
  qed
  have rb: "spec env (\<lambda>_. True) (?S ra ka) (os_realpath b) (\<lambda>rb. ?S rb kb) ?E" for ra
    by (rule spec_weaken [OF calm_realpath [OF calm ok b]]) auto
  have second: "spec env (\<lambda>_. True) (?S ra ka) (seq (os_realpath b) (\<lambda>rb.
       if ra = rb then ret True
       else seq (path_exists ra) (\<lambda>a_exists. seq (path_exists rb) (\<lambda>b_exists.
         if a_exists \<and> b_exists then path_samefile ra rb
         else if a_exists \<or> b_exists then ret False
         else seq (os_open_excl ra 0x180) (\<lambda>fd. seq (os_close fd) (\<lambda>_.
           finally_do (seq (path_exists rb) (\<lambda>e. if e then path_samefile ra rb else ret False)) (os_unlink ra)))))))
      ?Q ?E" for ra
  proof (cases "settled (fold_name env) s0 ra \<and> map (fold_name env) ra = ka")
    case True
    then have r: "settled (fold_name env) s0 ra" "map (fold_name env) ra = ka" by auto
    show ?thesis by (rule spec_seq [OF rb [of ra] ask [OF r]])
  next
    case False
    then show ?thesis by (auto simp: spec_def)
  qed
  show ?thesis
    unfolding same_file_def
    by (rule spec_seq [OF spec_weaken [OF calm_realpath [OF calm ok a]] second]) auto
qed

text \<open>
  C30. The preflight is the write. On a machine where no call fails of itself, and for a text the
  codec takes, \<open>check_writable\<close> returns exactly where \<open>atomic_write_text\<close> would, called in its
  place; and whatever it answers it leaves every entry as it was.
\<close>

theorem check_writable_iff:
  assumes "fs_ok (fs w)" and "calm env" and "namei (fold_name env) (fs w) True p = Inr k"
    and "codecs env enc = Inr encode" and "encode txt = Inr bs"
    and "check_writable p env w = (r, w')"
  shows "(r = Inr () \<longleftrightarrow> (\<exists>w''. atomic_write_text p txt enc env w = (Inr (), w''))) \<and>
    (\<forall>k. look (fs w') k = look (fs w) k)"
proof -
  have "fst (atomic_write_text p txt enc env w) = Inr () \<longleftrightarrow> (\<exists>w''. atomic_write_text p txt enc env w = (Inr (), w''))"
    by (cases "atomic_write_text p txt enc env w") simp
  then show ?thesis using check_and_write [OF assms(1-5)] assms(6) by (simp add: kept_def)
qed

lemma check_link_runs:
  "fst (check_writable [lit ''d'', lit ''l''] calm_env (at_rest small_fs)) = Inr ()"
  by (simp add: check_writable_def calm_env_def run_file cong: run_congs)

lemma same_link_runs:
  "fst (same_file [lit ''d'', lit ''l''] [lit ''d'', lit ''h''] calm_env (at_rest small_fs)) = Inr True"
  by (simp add: same_file_def calm_env_def run_file cong: run_congs)

lemma calm_env_calm: "calm calm_env"
  by (simp add: calm_def calm_env_def env_with_def)

theorem check_writable_iff_witness:
  "\<exists>w''. atomic_write_text [lit ''d'', lit ''l''] (lit ''new'') ''utf-8'' calm_env (at_rest small_fs) = (Inr (), w'')"
proof -
  let ?run = "check_writable [lit ''d'', lit ''l''] calm_env (at_rest small_fs)"
  have r: "?run = (Inr (), snd ?run)" using check_link_runs by (metis prod.collapse)
  have c: "codecs calm_env ''utf-8'' = Inr fsencode" "fsencode (lit ''new'') = Inr (lit ''new'')"
    by (simp_all add: calm_env_def env_with_def lit_def scalar_def utf8_char_def)
  show ?thesis
    using check_writable_iff [OF _ calm_env_calm _ c r, unfolded at_rest_simps, OF small_fs_ok small_link(1)] by simp
qed

text \<open>
  C31. Whether two paths are one file. On a machine where no call fails of itself, for paths that
  lead somewhere (a file, or a free name in a directory that is there), \<open>same_file\<close> answers
  True exactly when they lead to the same place or to two names of one inode; links, \<open>..\<close>,
  and names the file system takes for equal are seen through even where neither file is
  there yet. It leaves every entry as it was, and raises only where neither is there and the
  directory refuses the file it asks with.
\<close>

theorem same_file_correct:
  assumes "fs_ok (fs w)" and "calm env"
    and "namei (fold_name env) (fs w) True a = Inr ka" and "namei (fold_name env) (fs w) True b = Inr kb"
    and "same_file a b env w = (r, w')"
  shows "(\<forall>k. look (fs w') k = look (fs w) k) \<and>
    (case r of
       Inr same \<Rightarrow> same = (ka = kb \<or> (\<exists>i. look (fs w) ka = Some (File i) \<and> look (fs w) kb = Some (File i)))
     | Inl e \<Rightarrow> look (fs w) ka = None \<and> look (fs w) kb = None \<and> \<not> parent_writable env (fs w) ka)"
proof -
  note d = specD [OF spec_same_file [OF assms(2,1,3,4)] assms(5) refl]
  show ?thesis
  proof (cases r)
    case (Inl e)
    then show ?thesis using d(3) by simp
  next
    case (Inr same)
    then show ?thesis using d(2) by (simp add: kept_def one_file_def)
  qed
qed

theorem same_file_correct_witness:
  "look (fs (snd (same_file [lit ''d'', lit ''l''] [lit ''d'', lit ''h''] calm_env (at_rest small_fs))))
     [lit ''d'', lit ''f''] = Some (File 0)"
proof -
  let ?run = "same_file [lit ''d'', lit ''l''] [lit ''d'', lit ''h''] calm_env (at_rest small_fs)"
  have r: "?run = (Inr True, snd ?run)" using same_link_runs by (metis prod.collapse)
  show ?thesis
    using conjunct1 [OF same_file_correct [OF _ calm_env_calm _ _ r, unfolded at_rest_simps, OF small_fs_ok small_link]]
      small_fs_facts(1) by simp
qed

end
