(* ===== verification/File_Divergences.thy ===== *)
theory File_Divergences
  imports File_Checks
begin

text \<open>
  Runs of \<open>io_utils.py\<close> on the small machine, where the code does something else than its
  comments say.
\<close>

text \<open>
  The text of \<open>atomic_write_text\<close> promises that on any failure path, a signal named first, the
  destination is unchanged. A signal that lands between the rename and \<open>tmp_path = None\<close> gets
  out with the destination already replaced.
\<close>

lemma late_signal_has_written:
  fixes env :: env
  defines "env \<equiv> env_with (\<lambda>c _. if c = SReplace then Interrupted KeyboardInterrupt else Works)"
  defines "res \<equiv> atomic_write_text [lit ''d'', lit ''f''] (lit ''new'') ''utf-8'' env (at_rest small_fs)"
  shows "fst res = Inl KeyboardInterrupt"
    and "look (fs (snd res)) [lit ''d'', lit ''f''] = Some (File 2)"
    and "content (inodes (fs (snd res)) ! 2) = lit ''new''"
  by (simp_all add: res_def env_def atomic_write_text_def run_file cong: run_congs)

text \<open>
  A read-only file is refused (#246), but not through a path that leads over a directory which
  is not there yet: \<open>d/new/../r\<close> is taken for missing, \<open>mkdir\<close> makes \<open>d/new\<close>, and the path then
  leads to \<open>d/r\<close>, mode 0444, which is replaced.
\<close>

lemma read_only_bypassed:
  defines "res \<equiv> atomic_write_text [lit ''d'', lit ''new'', dotdot, lit ''r''] (lit ''x'') ''utf-8''
    calm_env (at_rest small_fs)"
  shows "fst (atomic_write_text [lit ''d'', lit ''r''] (lit ''x'') ''utf-8'' calm_env (at_rest small_fs)) = Inl EACCES"
    and "fst res = Inr ()"
    and "look (fs (snd res)) [lit ''d'', lit ''r''] = Some (File 2)"
    and "content (inodes (fs (snd res)) ! 2) = lit ''x''"
  by (simp_all add: res_def calm_env_def atomic_write_text_def run_file cong: run_congs)

text \<open>
  \<open>same_file\<close> is to say whether writing \<open>a\<close> and writing \<open>b\<close> would write one file, hard links
  named among the aliases. But a write replaces the directory entry: after writing both,
  there are two files, each with its own text.
\<close>

definition first_written :: fs where
  "first_written = fs (snd (atomic_write_text [lit ''d'', lit ''f''] (lit ''x'') ''utf-8''
     calm_env (at_rest small_fs)))"

lemma first_written_eq:
  "first_written = \<lparr>
     entries = [([], Dir 0x1FF), ([lit ''d''], Dir 0x1FF), ([lit ''d'', lit ''f''], File 2),
       ([lit ''d'', lit ''h''], File 0), ([lit ''d'', lit ''l''], Link False [lit ''f'']),
       ([lit ''d'', lit ''r''], File 1)],
     inodes = [\<lparr>content = lit ''old'', disk = lit ''old'', perm = 0x1A4\<rparr>,
       \<lparr>content = [], disk = [], perm = 0x124\<rparr>, \<lparr>content = lit ''x'', disk = lit ''x'', perm = 0x1A4\<rparr>]\<rparr>"
  by (simp add: first_written_def calm_env_def atomic_write_text_def run_file cong: run_congs)

lemma hard_links_written_apart:
  defines "s \<equiv> fs (snd (atomic_write_text [lit ''d'', lit ''h''] (lit ''y'') ''utf-8'' calm_env (at_rest first_written)))"
  shows "fst (same_file [lit ''d'', lit ''f''] [lit ''d'', lit ''h''] calm_env (at_rest small_fs)) = Inr True"
    and "look s [lit ''d'', lit ''f''] = Some (File 2) \<and> look s [lit ''d'', lit ''h''] = Some (File 3)"
    and "content (inodes s ! 2) = lit ''x'' \<and> content (inodes s ! 3) = lit ''y''"
proof -
  have s: "s = \<lparr>
     entries = [([], Dir 0x1FF), ([lit ''d''], Dir 0x1FF), ([lit ''d'', lit ''f''], File 2),
       ([lit ''d'', lit ''h''], File 3), ([lit ''d'', lit ''l''], Link False [lit ''f'']),
       ([lit ''d'', lit ''r''], File 1)],
     inodes = inodes first_written @ [\<lparr>content = lit ''y'', disk = lit ''y'', perm = 0x1A4\<rparr>]\<rparr>"
    unfolding s_def first_written_eq by (simp add: calm_env_def atomic_write_text_def run_file cong: run_congs)
  show "look s [lit ''d'', lit ''f''] = Some (File 2) \<and> look s [lit ''d'', lit ''h''] = Some (File 3)"
    by (simp add: s look_def lit_def)
  show "content (inodes s ! 2) = lit ''x'' \<and> content (inodes s ! 3) = lit ''y''"
    by (simp add: s first_written_eq)
  show "fst (same_file [lit ''d'', lit ''f''] [lit ''d'', lit ''h''] calm_env (at_rest small_fs)) = Inr True"
    by (simp add: same_file_def calm_env_def run_file cong: run_congs)
qed

text \<open>
  \<open>sibling_path\<close> appends where the suffix is not its own "so two runs with different suffixes do
  not share a sibling" (#118): \<open>bp\<close> and \<open>bp.md\<close> share \<open>bp.json\<close>.
\<close>

lemma siblings_shared:
  "fst (sibling_path [lit ''d'', lit ''bp''] (lit ''.md'') (lit ''.json'') env w) = Inr [lit ''d'', lit ''bp.json'']"
  "fst (sibling_path [lit ''d'', lit ''bp.md''] (lit ''.md'') (lit ''.json'') env w) = Inr [lit ''d'', lit ''bp.json'']"
  by (simp_all add: sibling_path_def path_with_suffix_def with_suffix_def py_suffix_def rfind_dot_def file_name_def
      lit_def ret_def upt_rec ascii_lower_def)

end
