(* ===== verification/Json.thy ===== *)
theory Json
  imports Py_Str "HOL-Library.List_Lexorder"
begin

text \<open>
  \<open>json.dumps\<close> as the library calls it, with \<open>indent=2\<close>, with and without \<open>sort_keys\<close>, and the
  reader \<open>json.loads\<close> its output is meant for. The text of a finite float is a parameter, as is
  how it is read back (\<open>float.__repr__\<close> and \<open>float()\<close>, which round-trip).
\<close>

section \<open>Values and their text\<close>

text \<open>A dict in insertion order.\<close>

datatype json =
    JNull
  | JBool bool
  | JInt int
  | JFloat pyfloat
  | JStr pystr
  | JArr "json list"
  | JObj "(pystr \<times> json) list"

definition hex4 :: "nat \<Rightarrow> pystr" where
  "hex4 c = map hex_digit [c div 4096 mod 16, c div 256 mod 16, c div 16 mod 16, c mod 16]"

text \<open>\<open>ensure_ascii\<close>: what is not printable ASCII is written \<open>\uXXXX\<close>, above \<open>U+FFFF\<close> in two.\<close>

definition json_esc :: "nat \<Rightarrow> pystr" where
  "json_esc c =
     (if c = 34 then [92, 34] else if c = 92 then [92, 92]
      else if c = 10 then [92, 110] else if c = 13 then [92, 114] else if c = 9 then [92, 116]
      else if c = 12 then [92, 102] else if c = 8 then [92, 98]
      else if 32 \<le> c \<and> c \<le> 126 then [c]
      else if c < 0x10000 then [92, 117] @ hex4 c
      else [92, 117] @ hex4 (0xD800 + (c - 0x10000) div 1024) @
           [92, 117] @ hex4 (0xDC00 + (c - 0x10000) mod 1024))"

definition json_str :: "pystr \<Rightarrow> pystr" where
  "json_str s = [34] @ concat (map json_esc s) @ [34]"

definition json_float :: "(rat \<Rightarrow> pystr) \<Rightarrow> pyfloat \<Rightarrow> pystr" where
  "json_float fw f =
     (case f of Fin q \<Rightarrow> fw q | PInf \<Rightarrow> lit ''Infinity'' | NInf \<Rightarrow> lit ''-Infinity'' | NaN \<Rightarrow> lit ''NaN'')"

definition json_newline :: "nat \<Rightarrow> pystr" where
  "json_newline level = 10 # replicate (2 * level) 32"

fun json_dump :: "(rat \<Rightarrow> pystr) \<Rightarrow> nat \<Rightarrow> json \<Rightarrow> pystr" where
  "json_dump fw l JNull = lit ''null''"
| "json_dump fw l (JBool b) = (if b then lit ''true'' else lit ''false'')"
| "json_dump fw l (JInt n) = dec_int n"
| "json_dump fw l (JFloat f) = json_float fw f"
| "json_dump fw l (JStr s) = json_str s"
| "json_dump fw l (JArr xs) =
     (if xs = [] then lit ''[]''
      else [91] @ json_newline (Suc l) @
           py_join (44 # json_newline (Suc l)) (map (json_dump fw (Suc l)) xs) @
           json_newline l @ [93])"
| "json_dump fw l (JObj kvs) =
     (if kvs = [] then lit ''{}''
      else [123] @ json_newline (Suc l) @
           py_join (44 # json_newline (Suc l))
             (map (\<lambda>(k, v). json_str k @ [58, 32] @ json_dump fw (Suc l) v) kvs) @
           json_newline l @ [125])"

text \<open>\<open>sort_keys=True\<close>: the keys of every dict by their code points.\<close>

fun json_sort :: "json \<Rightarrow> json" where
  "json_sort (JArr xs) = JArr (map json_sort xs)"
| "json_sort (JObj kvs) = JObj (sort_key fst (map (\<lambda>(k, v). (k, json_sort v)) kvs))"
| "json_sort j = j"

definition json_dumps :: "(rat \<Rightarrow> pystr) \<Rightarrow> bool \<Rightarrow> json \<Rightarrow> pystr" where
  "json_dumps fw sort_keys j = json_dump fw 0 (if sort_keys then json_sort j else j)"

section \<open>Reading it back\<close>

definition unhex :: "nat \<Rightarrow> nat option" where
  "unhex d =
     (if 48 \<le> d \<and> d \<le> 57 then Some (d - 48)
      else if 97 \<le> d \<and> d \<le> 102 then Some (d - 87)
      else if 65 \<le> d \<and> d \<le> 70 then Some (d - 55) else None)"

definition unhex4 :: "pystr \<Rightarrow> nat option" where
  "unhex4 r =
     (case r of
        a # b # c # d # _ \<Rightarrow>
          (case (unhex a, unhex b, unhex c, unhex d) of
             (Some a, Some b, Some c, Some d) \<Rightarrow> Some (4096 * a + 256 * b + 16 * c + d)
           | _ \<Rightarrow> None)
      | _ \<Rightarrow> None)"

definition unescape :: "nat \<Rightarrow> nat option" where
  "unescape e =
     map_of [(34, 34), (92, 92), (47, 47), (98, 8), (102, 12), (110, 10), (114, 13), (116, 9)] e"

function (sequential) scan_str :: "pystr \<Rightarrow> (pystr \<times> pystr) option" where
  "scan_str [] = None"
| "scan_str (c # cs) =
     (if c = 34 then Some ([], cs)
      else if c < 32 then None
      else if c \<noteq> 92 then map_option (apfst (Cons c)) (scan_str cs)
      else (case cs of
              [] \<Rightarrow> None
            | e # r \<Rightarrow>
                if e \<noteq> 117
                then (case unescape e of
                        None \<Rightarrow> None
                      | Some d \<Rightarrow> map_option (apfst (Cons d)) (scan_str r))
                else (case unhex4 r of
                        None \<Rightarrow> None
                      | Some u \<Rightarrow>
                          if 0xD800 \<le> u \<and> u \<le> 0xDBFF \<and> take 2 (drop 4 r) = [92, 117]
                          then (case unhex4 (drop 6 r) of
                                  None \<Rightarrow> None
                                | Some v \<Rightarrow>
                                    if 0xDC00 \<le> v \<and> v \<le> 0xDFFF
                                    then map_option (apfst (Cons (0x10000 + (u - 0xD800) * 1024 + (v - 0xDC00))))
                                           (scan_str (drop 10 r))
                                    else map_option (apfst (Cons u)) (scan_str (drop 4 r)))
                          else map_option (apfst (Cons u)) (scan_str (drop 4 r)))))"
  by pat_completeness auto

termination by (relation "measure length") auto

definition is_ws :: "nat \<Rightarrow> bool" where
  "is_ws c \<longleftrightarrow> c = 32 \<or> c = 9 \<or> c = 10 \<or> c = 13"

definition skip_ws :: "pystr \<Rightarrow> pystr" where
  "skip_ws s = dropWhile is_ws s"

definition is_num :: "nat \<Rightarrow> bool" where
  "is_num c \<longleftrightarrow> is_digit c \<or> c = 43 \<or> c = 45 \<or> c = 46 \<or> c = 69 \<or> c = 101"

definition read_num :: "(pystr \<Rightarrow> rat option) \<Rightarrow> pystr \<Rightarrow> (json \<times> pystr) option" where
  "read_num fr s =
     (let tok = takeWhile is_num s; rest = dropWhile is_num s;
          neg = (tok \<noteq> [] \<and> hd tok = 45); ds = (if neg then tl tok else tok)
      in if ds \<noteq> [] \<and> list_all is_digit ds
         then Some (JInt (if neg then - int (undec ds) else int (undec ds)), rest)
         else map_option (\<lambda>q. (JFloat (Fin q), rest)) (fr tok))"

definition read_word :: "pystr \<Rightarrow> (json \<times> pystr) option" where
  "read_word s =
     (let word = (\<lambda>t j. if take (length t) s = t then Some (j, drop (length t) s) else None)
      in case word (lit ''null'') JNull of Some r \<Rightarrow> Some r | None \<Rightarrow>
         (case word (lit ''true'') (JBool True) of Some r \<Rightarrow> Some r | None \<Rightarrow>
         (case word (lit ''false'') (JBool False) of Some r \<Rightarrow> Some r | None \<Rightarrow>
         (case word (lit ''NaN'') (JFloat NaN) of Some r \<Rightarrow> Some r | None \<Rightarrow>
         (case word (lit ''Infinity'') (JFloat PInf) of Some r \<Rightarrow> Some r | None \<Rightarrow>
         word (lit ''-Infinity'') (JFloat NInf))))))"

text \<open>White space, then the character \<open>c\<close>.\<close>

definition expect :: "nat \<Rightarrow> pystr \<Rightarrow> pystr option" where
  "expect c s = (case skip_ws s of [] \<Rightarrow> None | d # r \<Rightarrow> if d = c then Some r else None)"

fun read_val :: "(pystr \<Rightarrow> rat option) \<Rightarrow> nat \<Rightarrow> pystr \<Rightarrow> (json \<times> pystr) option"
and read_arr :: "(pystr \<Rightarrow> rat option) \<Rightarrow> nat \<Rightarrow> pystr \<Rightarrow> (json list \<times> pystr) option"
and read_obj :: "(pystr \<Rightarrow> rat option) \<Rightarrow> nat \<Rightarrow> pystr \<Rightarrow> ((pystr \<times> json) list \<times> pystr) option" where
  "read_val fr 0 s = None"
| "read_val fr (Suc n) s =
     (case skip_ws s of
        [] \<Rightarrow> None
      | c # cs \<Rightarrow>
          if c = 34 then map_option (apfst JStr) (scan_str cs)
          else if c = 91
          then (case expect 93 cs of
                  Some r \<Rightarrow> Some (JArr [], r)
                | None \<Rightarrow> map_option (apfst JArr) (read_arr fr n cs))
          else if c = 123
          then (case expect 125 cs of
                  Some r \<Rightarrow> Some (JObj [], r)
                | None \<Rightarrow> map_option (apfst JObj) (read_obj fr n cs))
          else (case read_word (c # cs) of Some r \<Rightarrow> Some r | None \<Rightarrow> read_num fr (c # cs)))"
| "read_arr fr 0 s = None"
| "read_arr fr (Suc n) s =
     (case read_val fr n s of
        None \<Rightarrow> None
      | Some (x, r) \<Rightarrow>
          (case expect 44 r of
             Some cs \<Rightarrow> map_option (apfst (Cons x)) (read_arr fr n cs)
           | None \<Rightarrow> map_option (Pair [x]) (expect 93 r)))"
| "read_obj fr 0 s = None"
| "read_obj fr (Suc n) s =
     (case Option.bind (expect 34 s) scan_str of
        None \<Rightarrow> None
      | Some (k, r) \<Rightarrow>
          (case Option.bind (expect 58 r) (read_val fr n) of
             None \<Rightarrow> None
           | Some (x, r') \<Rightarrow>
               (case expect 44 r' of
                  Some cs \<Rightarrow> map_option (apfst (Cons (k, x))) (read_obj fr n cs)
                | None \<Rightarrow> map_option (Pair [(k, x)]) (expect 125 r'))))"

definition json_loads :: "(pystr \<Rightarrow> rat option) \<Rightarrow> pystr \<Rightarrow> json option" where
  "json_loads fr s =
     (case read_val fr (Suc (length s)) s of
        Some (j, r) \<Rightarrow> if skip_ws r = [] then Some j else None
      | None \<Rightarrow> None)"

section \<open>Strings and numbers come back\<close>

lemma unhex_digit: "d < 16 \<Longrightarrow> unhex (hex_digit d) = Some d"
  by (auto simp: unhex_def hex_digit_def)

lemma hex4_digits:
  assumes "c < (0x10000 :: nat)"
  shows "4096 * (c div 4096 mod 16) + 256 * (c div 256 mod 16) + 16 * (c div 16 mod 16) + c mod 16 = c"
proof -
  have "16 * (c div 16) + c mod 16 = c" by (rule mult_div_mod_eq)
  moreover have "16 * (c div 256) + c div 16 mod 16 = c div 16"
    using mult_div_mod_eq [of 16 "c div 16"] by (simp add: div_mult2_eq [symmetric])
  moreover have "16 * (c div 4096) + c div 256 mod 16 = c div 256"
    using mult_div_mod_eq [of 16 "c div 256"] by (simp add: div_mult2_eq [symmetric])
  moreover have "c div 4096 mod 16 = c div 4096" using assms by simp
  ultimately show ?thesis by linarith
qed

lemma unhex4_hex4:
  assumes "c < 0x10000"
  shows "unhex4 (hex4 c @ rest) = Some c"
proof -
  have "unhex4 (hex4 c @ rest) =
      Some (4096 * (c div 4096 mod 16) + 256 * (c div 256 mod 16) + 16 * (c div 16 mod 16) + c mod 16)"
    unfolding hex4_def unhex4_def list.map append_Cons list.case by (simp only: unhex_digit mod_less_divisor zero_less_numeral prod.case option.case)
  then show ?thesis unfolding hex4_digits [OF assms] .
qed

lemma length_hex4 [simp]: "length (hex4 c) = 4"
  by (simp add: hex4_def)

lemma drop_hex4 [simp]: "drop 4 (hex4 c @ rest) = rest"
  by simp

text \<open>The reader on a character's text.\<close>

lemma scan_esc:
  assumes "scalar c"
  shows "scan_str (json_esc c @ rest) = map_option (apfst (Cons c)) (scan_str rest)"
proof -
  have u: "scan_str (92 # 117 # hex4 u @ r) = map_option (apfst (Cons u)) (scan_str r)"
    if "u < 0x10000" "\<not> (0xD800 \<le> u \<and> u \<le> 0xDBFF)" for u r
    using unhex4_hex4 [OF that(1), of r] that(2) by (simp del: drop_append) auto
  consider (short) "c < 127" "json_esc c \<noteq> [92, 117] @ hex4 c"
    | (wide) "c < 0x10000" "json_esc c = [92, 117] @ hex4 c"
    | (pair) "0x10000 \<le> c" by (fastforce simp: json_esc_def split: if_splits)
  then show ?thesis
  proof cases
    case short
    then show ?thesis by (auto simp: json_esc_def unescape_def split: if_splits)
  next
    case wide
    then show ?thesis using assms u [of c rest] by (auto simp: scalar_def)
  next
    case pair
    let ?h = "0xD800 + (c - 0x10000) div 1024" and ?l = "0xDC00 + (c - 0x10000) mod 1024"
    have h: "?h < 0x10000" "0xD800 \<le> ?h" "?h \<le> 0xDBFF" and l: "?l < 0x10000" "0xDC00 \<le> ?l" "?l \<le> 0xDFFF"
      using assms pair by (auto simp: scalar_def)
    have e: "json_esc c = [92, 117] @ hex4 ?h @ [92, 117] @ hex4 ?l" using pair by (simp add: json_esc_def)
    have "unhex4 (hex4 ?h @ 92 # 117 # hex4 ?l @ rest) = Some ?h" "unhex4 (hex4 ?l @ rest) = Some ?l"
      using unhex4_hex4 h(1) l(1) by blast+
    moreover have "drop 10 (hex4 ?h @ 92 # 117 # hex4 ?l @ rest) = rest"
      "drop 6 (hex4 ?h @ 92 # 117 # hex4 ?l @ rest) = hex4 ?l @ rest" by simp_all
    moreover have "0x10000 + (?h - 0xD800) * 1024 + (?l - 0xDC00) = c"
      using pair by simp
    ultimately show ?thesis unfolding e using h l by simp
  qed
qed

lemma scan_json_str: "list_all scalar s \<Longrightarrow> scan_str (concat (map json_esc s) @ 34 # rest) = Some (s, rest)"
  by (induction s) (simp_all add: scan_esc)

definition no_num :: "pystr \<Rightarrow> bool" where
  "no_num rest \<longleftrightarrow> rest = [] \<or> \<not> is_num (hd rest)"

lemma num_prefix:
  "list_all is_num t \<Longrightarrow> no_num rest \<Longrightarrow> takeWhile is_num (t @ rest) = t \<and> dropWhile is_num (t @ rest) = rest"
  by (induction t) (cases rest; simp add: no_num_def)+

lemma is_digit_num: "is_digit c \<Longrightarrow> is_num c"
  by (simp add: is_num_def)

lemma dec_nat_Cons: "\<exists>d ds. dec_nat n = d # ds \<and> is_digit d \<and> list_all is_digit ds"
  using dec_nat_digits [of n] by (cases "dec_nat n") auto

lemma read_num_int:
  assumes "no_num rest"
  shows "read_num fr (dec_int n @ rest) = Some (JInt n, rest)"
proof -
  obtain d ds where d: "dec_nat (nat \<bar>n\<bar>) = d # ds" "is_digit d" "list_all is_digit ds"
    using dec_nat_Cons by blast
  have n: "list_all is_num (dec_int n)"
    using dec_nat_digits [of "nat n"] dec_nat_digits [of "nat (- n)"] is_digit_num
    by (auto simp: dec_int_def list_all_iff is_num_def)
  have "d \<noteq> 45" using d(2) by (auto simp: is_digit_def)
  moreover have "undec (d # ds) = nat \<bar>n\<bar>" using undec_dec_nat [of "nat \<bar>n\<bar>"] d(1) by simp
  ultimately show ?thesis
    using d num_prefix [OF n assms] by (cases "n < 0") (simp_all add: read_num_def dec_int_def Let_def)
qed

text \<open>
  What the two float functions are relied on for: \<open>repr\<close> is read back as the same float, and
  is made of the characters of a number, a point or an exponent among them.
\<close>

definition float_ok :: "(rat \<Rightarrow> pystr) \<Rightarrow> (pystr \<Rightarrow> rat option) \<Rightarrow> rat \<Rightarrow> bool" where
  "float_ok fw fr q \<longleftrightarrow> fr (fw q) = Some q \<and> list_all is_num (fw q) \<and>
     list_ex (\<lambda>c. \<not> is_digit c \<and> c \<noteq> 45) (fw q)"

lemma read_num_float:
  assumes "float_ok fw fr q" and "no_num rest"
  shows "read_num fr (fw q @ rest) = Some (JFloat (Fin q), rest)"
proof -
  have f: "fr (fw q) = Some q" "list_all is_num (fw q)" and
    x: "\<exists>c \<in> set (fw q). \<not> is_digit c \<and> c \<noteq> 45"
    using assms(1) by (auto simp: float_ok_def list_ex_iff)
  have "\<not> list_all is_digit (fw q)" "fw q \<noteq> [] \<and> hd (fw q) = 45 \<Longrightarrow> \<not> list_all is_digit (tl (fw q))"
    using x by (auto simp: list_all_iff) (metis list.sel(1) list.sel(3) list.set_cases)
  then show ?thesis using f num_prefix [OF f(2) assms(2)] by (simp add: read_num_def Let_def)
qed

lemma read_word_num:
  assumes "is_num c" and "c = 45 \<Longrightarrow> cs = [] \<or> hd cs \<noteq> 73"
  shows "read_word (c # cs) = None"
proof -
  have other: "take (length t) (c # cs) \<noteq> t" if "t \<noteq> []" "\<not> is_num (hd t)" for t
    using that assms(1) by (cases t) auto
  have inf: "take (length (45 # 73 # t)) (c # cs) \<noteq> 45 # 73 # t" for t
    using assms(2) by (cases cs) auto
  have w: "take (length (lit ''null'')) (c # cs) \<noteq> lit ''null''" "take (length (lit ''true'')) (c # cs) \<noteq> lit ''true''"
    "take (length (lit ''false'')) (c # cs) \<noteq> lit ''false''" "take (length (lit ''NaN'')) (c # cs) \<noteq> lit ''NaN''"
    "take (length (lit ''Infinity'')) (c # cs) \<noteq> lit ''Infinity''"
    by (rule other; simp add: lit_def is_num_def is_digit_def)+
  have "lit ''-Infinity'' = 45 # 73 # lit ''nfinity''" by (simp add: lit_def)
  then have "take (length (lit ''-Infinity'')) (c # cs) \<noteq> lit ''-Infinity''" using inf by metis
  then show ?thesis using w unfolding read_word_def Let_def by (simp only: if_False option.case)
qed

section \<open>Documents come back\<close>

fun json_ok :: "(rat \<Rightarrow> pystr) \<Rightarrow> (pystr \<Rightarrow> rat option) \<Rightarrow> json \<Rightarrow> bool" where
  "json_ok fw fr (JFloat f) = (case f of Fin q \<Rightarrow> float_ok fw fr q | _ \<Rightarrow> True)"
| "json_ok fw fr (JStr s) = list_all scalar s"
| "json_ok fw fr (JArr xs) = list_all (json_ok fw fr) xs"
| "json_ok fw fr (JObj kvs) = list_all (\<lambda>(k, v). list_all scalar k \<and> json_ok fw fr v) kvs"
| "json_ok fw fr _ = True"

text \<open>How deep the reader has to go; never more than the text is long.\<close>

fun need :: "json \<Rightarrow> nat" where
  "need (JArr xs) = Suc (sum_list (map (\<lambda>x. Suc (need x)) xs))"
| "need (JObj kvs) = Suc (sum_list (map (\<lambda>(k, v). Suc (need v)) kvs))"
| "need _ = 1"

lemma skip_ws_append: "list_all is_ws w \<Longrightarrow> skip_ws (w @ s) = skip_ws s"
  by (induction w) (simp_all add: skip_ws_def)

lemma skip_ws_Cons [simp]: "skip_ws (c # s) = (if is_ws c then skip_ws s else c # s)"
  by (simp add: skip_ws_def)

lemma newline_ws: "list_all is_ws (json_newline l)"
  by (simp add: json_newline_def is_ws_def list_all_iff)

lemma read_val_ws: "list_all is_ws w \<Longrightarrow> read_val fr n (w @ s) = read_val fr n s"
  by (cases n) (simp_all add: skip_ws_append)

lemma read_arr_ws: "list_all is_ws w \<Longrightarrow> read_arr fr n (w @ s) = read_arr fr n s"
  by (cases n) (simp_all add: read_val_ws)

lemma expect_ws: "list_all is_ws w \<Longrightarrow> expect c (w @ s) = expect c s"
  by (simp add: expect_def skip_ws_append)

lemma expect_Cons: "\<not> is_ws d \<Longrightarrow> expect c (d # s) = (if d = c then Some s else None)"
  by (simp add: expect_def)

lemma read_obj_ws: "list_all is_ws w \<Longrightarrow> read_obj fr n (w @ s) = read_obj fr n s"
  by (cases n) (simp_all add: expect_ws)

lemma ws_points [simp]: "\<not> is_ws 44" "\<not> is_ws 93" "\<not> is_ws 125" "\<not> is_ws 34" "\<not> is_ws 58" "\<not> is_ws 91"
  "\<not> is_ws 123" "is_ws 32" "is_ws 10"
  by (simp_all add: is_ws_def)

lemma num_points [simp]: "\<not> is_num 44" "\<not> is_num 93" "\<not> is_num 125" "\<not> is_num 10" "\<not> is_num 32" "\<not> is_num 34"
  by (simp_all add: is_num_def is_digit_def)

lemma no_num_newline: "no_num (json_newline l @ s)" and no_num_Cons: "no_num (c # s) = (\<not> is_num c)"
  by (simp_all add: no_num_def json_newline_def)

lemma read_arr_items:
  assumes "\<And>x n rest. x \<in> set xs \<Longrightarrow> need x \<le> n \<Longrightarrow> no_num rest \<Longrightarrow> read_val fr n (d x @ rest) = Some (x, rest)"
    and "xs \<noteq> []" and "sum_list (map (\<lambda>x. Suc (need x)) xs) \<le> n"
  shows "read_arr fr n (py_join (44 # json_newline l) (map d xs) @ json_newline l' @ 93 # rest) = Some (xs, rest)"
  using assms
proof (induction xs arbitrary: n)
  case (Cons x xs)
  obtain m where n: "n = Suc m" and m: "need x \<le> m" "sum_list (map (\<lambda>x. Suc (need x)) xs) \<le> m"
    using Cons.prems(3) by (cases n) auto
  note first = Cons.prems(1) [of x m, OF _ m(1)]
  show ?case
  proof (cases xs)
    case Nil
    then show ?thesis using first [OF _ no_num_newline]
      by (simp add: n expect_ws [OF newline_ws] expect_Cons)
  next
    case (Cons y ys)
    then have "read_arr fr m (py_join (44 # json_newline l) (map d xs) @ json_newline l' @ 93 # rest) = Some (xs, rest)"
      using Cons.IH [OF Cons.prems(1) _ m(2)] by simp
    then show ?thesis
      using first [of "44 # json_newline l @ py_join (44 # json_newline l) (map d xs) @ json_newline l' @ 93 # rest"]
      by (simp add: n Cons no_num_Cons expect_Cons read_arr_ws [OF newline_ws])
  qed
qed simp

lemma read_obj_items:
  assumes "\<And>kv n rest. kv \<in> set kvs \<Longrightarrow> need (snd kv) \<le> n \<Longrightarrow> no_num rest \<Longrightarrow>
      read_val fr n (d (snd kv) @ rest) = Some (snd kv, rest)"
    and "\<And>kv. kv \<in> set kvs \<Longrightarrow> list_all scalar (fst kv)"
    and "kvs \<noteq> []" and "sum_list (map (\<lambda>(k, v). Suc (need v)) kvs) \<le> n"
  shows "read_obj fr n (py_join (44 # json_newline l) (map (\<lambda>(k, v). json_str k @ [58, 32] @ d v) kvs) @
    json_newline l' @ 125 # rest) = Some (kvs, rest)"
  using assms
proof (induction kvs arbitrary: n)
  case (Cons kx kvs)
  obtain k x where kx: "kx = (k, x)" by (cases kx)
  obtain m where n: "n = Suc m" and m: "need x \<le> m" "sum_list (map (\<lambda>(k, v). Suc (need v)) kvs) \<le> m"
    using Cons.prems(4) kx by (cases n) auto
  have first: "no_num r \<Longrightarrow> read_val fr m (d x @ r) = Some (x, r)" for r
    using Cons.prems(1) [of "(k, x)" m] m(1) kx by simp
  have key: "scan_str (concat (map json_esc k) @ 34 # r) = Some (k, r)" for r
    using scan_json_str Cons.prems(2) [of "(k, x)"] kx by simp
  have colon: "read_val fr m (32 # s) = read_val fr m s" for s
    using read_val_ws [of "[32]" fr m s] by simp
  show ?case
  proof (cases kvs)
    case Nil
    then show ?thesis using first [OF no_num_newline]
      by (simp add: n kx json_str_def key expect_ws [OF newline_ws] expect_Cons colon)
  next
    case (Cons ky kys)
    let ?d = "\<lambda>(k, v). json_str k @ [58, 32] @ d v"
    have "read_obj fr m (py_join (44 # json_newline l) (map ?d kvs) @ json_newline l' @ 125 # rest) = Some (kvs, rest)"
      by (rule Cons.IH [OF Cons.prems(1,2)]) (use m(2) Cons in simp_all)
    then show ?thesis
      using first [of "44 # json_newline l @ py_join (44 # json_newline l) (map ?d kvs) @ json_newline l' @ 125 # rest"]
      by (simp add: n kx Cons json_str_def key no_num_Cons expect_Cons colon read_obj_ws [OF newline_ws])
  qed
qed simp

lemma dec_int_hd: "\<exists>c cs. dec_int n = c # cs \<and> is_num c \<and> (c = 45 \<longrightarrow> cs \<noteq> [] \<and> is_digit (hd cs))"
proof -
  obtain d ds where d: "dec_nat (nat \<bar>n\<bar>) = d # ds" "is_digit d" using dec_nat_Cons by blast
  then have "d \<noteq> 45" by (auto simp: is_digit_def)
  then show ?thesis using d by (cases "n < 0") (auto simp: dec_int_def is_num_def)
qed

lemma float_hd:
  assumes "float_ok fw fr q"
  shows "\<exists>c cs. fw q = c # cs \<and> is_num c \<and> (c = 45 \<longrightarrow> cs \<noteq> [] \<and> is_num (hd cs))"
proof -
  obtain c cs where q: "fw q = c # cs" using assms by (cases "fw q") (auto simp: float_ok_def)
  moreover have "c = 45 \<longrightarrow> cs \<noteq> [] \<and> is_num (hd cs)"
    using assms q by (cases cs) (auto simp: float_ok_def)
  ultimately show ?thesis using assms by (auto simp: float_ok_def)
qed

lemma is_num_points: "is_num c \<Longrightarrow> \<not> is_ws c \<and> c \<noteq> 34 \<and> c \<noteq> 91 \<and> c \<noteq> 93 \<and> c \<noteq> 123 \<and> c \<noteq> 125 \<and> c \<noteq> 73"
  by (auto simp: is_num_def is_digit_def is_ws_def)

text \<open>What starts with a number is read as one.\<close>

lemma read_val_num:
  assumes "t = c # cs" and "is_num c" and "c = 45 \<longrightarrow> cs \<noteq> [] \<and> is_num (hd cs)"
    and "read_num fr (t @ rest) = Some r"
  shows "read_val fr (Suc n) (t @ rest) = Some r"
proof -
  have "read_word (c # cs @ rest) = None"
    using assms(2,3) is_num_points by (intro read_word_num) (auto simp: hd_append)
  then show ?thesis using assms is_num_points [OF assms(2)] by simp
qed

lemma dump_hd:
  assumes "json_ok fw fr j"
  shows "\<exists>c cs. json_dump fw l j = c # cs \<and> \<not> is_ws c \<and> c \<noteq> 93 \<and> c \<noteq> 125"
proof (cases j)
  case (JInt n)
  then show ?thesis using dec_int_hd [of n] is_num_points by auto
next
  case (JFloat f)
  then show ?thesis using assms float_hd [of fw fr] is_num_points
    by (cases f) (fastforce simp: json_float_def lit_def is_ws_def)+
qed (auto simp: lit_def json_str_def is_ws_def)

lemma join_hd: "xs \<noteq> [] \<Longrightarrow> hd xs = c # cs \<Longrightarrow> \<exists>r. py_join sep xs = c # r"
  by (cases "(sep, xs)" rule: py_join.cases) auto

lemma read_dump:
  "json_ok fw fr j \<Longrightarrow> need j \<le> n \<Longrightarrow> no_num rest \<Longrightarrow>
     read_val fr n (json_dump fw l j @ rest) = Some (j, rest)"
proof (induction j arbitrary: n l rest)
  case (JArr xs)
  obtain m where n: "n = Suc m" and m: "sum_list (map (\<lambda>x. Suc (need x)) xs) \<le> m"
    using JArr.prems(2) by (cases n) auto
  show ?case
  proof (cases "xs = []")
    case True
    then show ?thesis by (simp add: n lit_def expect_Cons)
  next
    case False
    have "read_arr fr m (py_join (44 # json_newline (Suc l)) (map (json_dump fw (Suc l)) xs) @
        json_newline l @ 93 # rest) = Some (xs, rest)"
      by (rule read_arr_items [OF _ False m]) (use JArr in \<open>auto simp: list_all_iff\<close>)
    moreover obtain c cs where "py_join (44 # json_newline (Suc l)) (map (json_dump fw (Suc l)) xs) = c # cs"
      "\<not> is_ws c" "c \<noteq> 93"
      using dump_hd [of fw fr "hd xs" "Suc l"] join_hd [of "map (json_dump fw (Suc l)) xs"] False JArr.prems(1)
      by (fastforce simp: list_all_iff hd_map)
    ultimately show ?thesis
      using False by (simp add: n expect_ws [OF newline_ws] expect_Cons read_arr_ws [OF newline_ws])
  qed
next
  case (JObj kvs)
  obtain m where n: "n = Suc m" and m: "sum_list (map (\<lambda>(k, v). Suc (need v)) kvs) \<le> m"
    using JObj.prems(2) by (cases n) auto
  let ?d = "\<lambda>(k, v). json_str k @ [58, 32] @ json_dump fw (Suc l) v"
  show ?case
  proof (cases "kvs = []")
    case True
    then show ?thesis by (simp add: n lit_def expect_Cons)
  next
    case False
    have ok: "list_all scalar (fst kv) \<and> json_ok fw fr (snd kv)" if "kv \<in> set kvs" for kv
      using JObj.prems(1) that by (auto simp: list_all_iff)
    have items: "read_val fr i (json_dump fw (Suc l) (snd kv) @ r) = Some (snd kv, r)"
      if "kv \<in> set kvs" "need (snd kv) \<le> i" "no_num r" for kv i r
      using JObj.IH [OF that(1), of "snd kv"] ok [OF that(1)] that by (cases kv) auto
    have "read_obj fr m (py_join (44 # json_newline (Suc l)) (map ?d kvs) @ json_newline l @ 125 # rest) = Some (kvs, rest)"
      by (rule read_obj_items [OF items _ False m]) (use ok in auto)
    moreover obtain cs where "py_join (44 # json_newline (Suc l)) (map ?d kvs) = 34 # cs"
      using join_hd [of "map ?d kvs" 34] False by (cases kvs) (auto simp: json_str_def)
    ultimately show ?thesis
      using False by (simp add: n expect_ws [OF newline_ws] expect_Cons read_obj_ws [OF newline_ws])
  qed
next
  case (JInt i)
  then obtain m where "n = Suc m" by (cases n) auto
  then show ?case
    using dec_int_hd [of i] read_num_int [OF JInt.prems(3)] is_digit_num
    by (auto intro!: read_val_num simp del: read_val.simps)
next
  case (JFloat f)
  then obtain m where n: "n = Suc m" by (cases n) auto
  show ?case
  proof (cases f)
    case (Fin q)
    then have ok: "float_ok fw fr q" using JFloat.prems(1) by simp
    obtain c cs where c: "fw q = c # cs" "is_num c" "c = 45 \<longrightarrow> cs \<noteq> [] \<and> is_num (hd cs)"
      using float_hd [OF ok] by blast
    show ?thesis
      using read_val_num [OF c read_num_float [OF ok JFloat.prems(3)]] by (simp add: n Fin json_float_def)
  qed (simp_all add: n json_float_def lit_def is_ws_def read_word_def)
next
  case (JStr s)
  then obtain m where "n = Suc m" by (cases n) auto
  then show ?case using JStr.prems(1) by (simp add: json_str_def scan_json_str)
next
  case (JBool b)
  then obtain m where "n = Suc m" by (cases n) auto
  then show ?case by (simp add: lit_def is_ws_def read_word_def)
next
  case JNull
  then obtain m where "n = Suc m" by (cases n) auto
  then show ?case by (simp add: lit_def is_ws_def read_word_def)
qed

lemma join_length: "xs \<noteq> [] \<Longrightarrow> length (py_join (c # sep) xs) + 1 \<ge> sum_list (map (\<lambda>x. Suc (length x)) xs)"
  by (induction "c # sep" xs rule: py_join.induct) auto

lemma newline_length: "1 \<le> length (json_newline l)"
  by (simp add: json_newline_def)

lemma need_length: "json_ok fw fr j \<Longrightarrow> need j \<le> length (json_dump fw l j)"
proof (induction j arbitrary: l)
  case (JArr xs)
  show ?case
  proof (cases "xs = []")
    case False
    have "sum_list (map (\<lambda>x. Suc (need x)) xs) \<le> sum_list (map (\<lambda>x. Suc (length (json_dump fw (Suc l) x))) xs)"
      by (rule sum_list_mono) (use JArr in \<open>auto simp: list_all_iff\<close>)
    also have "\<dots> \<le> length (py_join (44 # json_newline (Suc l)) (map (json_dump fw (Suc l)) xs)) + 1"
      using join_length [of "map (json_dump fw (Suc l)) xs"] False by (simp add: comp_def)
    finally show ?thesis using False newline_length [of l] newline_length [of "Suc l"] by simp
  qed (simp add: lit_def)
next
  case (JObj kvs)
  let ?d = "\<lambda>(k, v). json_str k @ [58, 32] @ json_dump fw (Suc l) v"
  show ?case
  proof (cases "kvs = []")
    case False
    have "Suc (need (snd kv)) \<le> Suc (length (?d kv))" if "kv \<in> set kvs" for kv
      using JObj.IH [OF that, of "snd kv" "Suc l"] JObj.prems that by (cases kv) (fastforce simp: list_all_iff)
    then have "sum_list (map (\<lambda>(k, v). Suc (need v)) kvs) \<le> sum_list (map (\<lambda>kv. Suc (length (?d kv))) kvs)"
      by (intro sum_list_mono) (auto simp: case_prod_beta')
    also have "\<dots> \<le> length (py_join (44 # json_newline (Suc l)) (map ?d kvs)) + 1"
      using join_length [of "map ?d kvs"] False by (simp add: comp_def)
    finally show ?thesis using False newline_length [of l] newline_length [of "Suc l"] by simp
  qed (simp add: lit_def)
next
  case (JInt n)
  then show ?case using dec_int_hd [of n] by auto
next
  case (JFloat f)
  then show ?case using float_hd [of fw fr] by (cases f) (fastforce simp: json_float_def lit_def)+
qed (auto simp: lit_def json_str_def)

lemma loads_dump:
  assumes "json_ok fw fr j"
  shows "json_loads fr (json_dump fw 0 j) = Some j"
  using read_dump [OF assms, of "Suc (length (json_dump fw 0 j))" "[]" 0] need_length [OF assms, of 0]
  by (simp add: json_loads_def no_num_def skip_ws_def del: read_val.simps)

section \<open>Sorted keys, and plain ASCII\<close>

lemma json_ok_sort: "json_ok fw fr j \<Longrightarrow> json_ok fw fr (json_sort j)"
proof (induction j)
  case (JObj kvs)
  have "json_ok fw fr (json_sort v)" if "(k, v) \<in> set kvs" for k v
    using JObj.IH [OF that, of v] JObj.prems that by (auto simp: list_all_iff)
  then show ?case using JObj.prems by (auto simp: list_all_iff)
qed (auto simp: list_all_iff)

lemma loads_dumps:
  assumes "json_ok fw fr j"
  shows "json_loads fr (json_dumps fw sort_keys j) = Some (if sort_keys then json_sort j else j)"
  using loads_dump [OF assms] loads_dump [OF json_ok_sort [OF assms]] by (simp add: json_dumps_def)

definition ascii :: "nat \<Rightarrow> bool" where
  "ascii c \<longleftrightarrow> c < 128"

lemma ascii_join: "list_all ascii sep \<Longrightarrow> list_all (list_all ascii) xs \<Longrightarrow> list_all ascii (py_join sep xs)"
  by (induction sep xs rule: py_join.induct) auto

lemma ascii_hex4: "list_all ascii (hex4 c)"
proof -
  have "hex_digit (d mod 16) < 128" for d
    using mod_less_divisor [of 16 d] unfolding hex_digit_def by (simp split: if_split) linarith
  then show ?thesis by (simp add: hex4_def ascii_def)
qed

lemma ascii_esc: "list_all ascii (json_esc c)"
proof -
  have "list_all ascii [92, 117]" by (simp add: ascii_def)
  then show ?thesis unfolding json_esc_def by (simp add: ascii_hex4) (simp add: ascii_def)
qed

lemma ascii_str: "list_all ascii (json_str s)"
proof -
  have "list_all ascii (concat (map json_esc s))" using ascii_esc by (induction s) simp_all
  then show ?thesis by (simp add: json_str_def) (simp add: ascii_def)
qed

lemma is_num_ascii: "is_num c \<Longrightarrow> ascii c"
  by (auto simp: is_num_def is_digit_def ascii_def)

lemma ascii_int: "list_all ascii (dec_int n)"
  using dec_nat_digits is_num_ascii is_digit_num by (auto simp: dec_int_def list_all_iff ascii_def is_digit_def)

lemma ascii_dump: "json_ok fw fr j \<Longrightarrow> list_all ascii (json_dump fw l j)"
proof (induction j arbitrary: l)
  case (JArr xs)
  have "list_all ascii (py_join (44 # json_newline (Suc l)) (map (json_dump fw (Suc l)) xs))"
    by (rule ascii_join) (use JArr in \<open>auto simp: list_all_iff json_newline_def ascii_def\<close>)
  then show ?case by (auto simp: json_newline_def ascii_def lit_def list_all_iff)
next
  case (JObj kvs)
  let ?d = "\<lambda>(k, v). json_str k @ [58, 32] @ json_dump fw (Suc l) v"
  have "list_all ascii (?d kv)" if "kv \<in> set kvs" for kv
    using JObj.IH [OF that, of "snd kv" "Suc l"] JObj.prems that ascii_str
    by (cases kv) (fastforce simp: list_all_iff ascii_def)
  then have "list_all ascii (py_join (44 # json_newline (Suc l)) (map ?d kvs))"
    by (intro ascii_join) (auto simp: list_all_iff json_newline_def ascii_def)
  then show ?case by (auto simp: json_newline_def ascii_def lit_def list_all_iff)
next
  case (JFloat f)
  then show ?case using is_num_ascii
    by (cases f) (auto simp: json_float_def lit_def ascii_def float_ok_def list_all_iff)
qed (auto simp: lit_def ascii_def ascii_str ascii_int)

lemma ascii_dumps: "json_ok fw fr j \<Longrightarrow> list_all ascii (json_dumps fw sort_keys j)"
  using ascii_dump [of fw fr j] ascii_dump [OF json_ok_sort, of fw fr j] by (simp add: json_dumps_def)

section \<open>As a text format\<close>

text \<open>
  What the writers of a file rely on: values are rendered in ASCII, and what is rendered reads
  back as the value, up to a normal form.
\<close>

locale text_format =
  fixes valid :: "'a \<Rightarrow> bool"
    and render :: "'a \<Rightarrow> pystr"
    and reads :: "pystr \<Rightarrow> 'a option"
    and normal :: "'a \<Rightarrow> 'a"
  assumes reads_back: "valid x \<Longrightarrow> reads (render x) = Some (normal x)"
    and plain: "valid x \<Longrightarrow> list_all ascii (render x)"
begin

lemma render_inj: "valid x \<Longrightarrow> valid y \<Longrightarrow> render x = render y \<Longrightarrow> normal x = normal y"
  using reads_back by (metis option.inject)

text \<open>Whatever codec keeps ASCII, the bytes are the text.\<close>

lemma stored:
  assumes "valid x" and "\<And>t. list_all ascii t \<Longrightarrow> encode t = Inr t"
  shows "encode (render x) = Inr (render x) \<and> reads (render x) = Some (normal x)"
  using assms reads_back plain by blast

end

interpretation sorted_json: text_format "json_ok fw fr" "json_dumps fw True" "json_loads fr" json_sort
  for fw fr by unfold_locales (simp_all add: loads_dumps ascii_dumps)

interpretation plain_json: text_format "json_ok fw fr" "json_dumps fw False" "json_loads fr" "\<lambda>j. j"
  for fw fr by unfold_locales (simp_all add: loads_dumps ascii_dumps)

end
