(* ===== verification/Benchmark.thy ===== *)
theory Benchmark
  imports Process Json
begin

text \<open>
  \<open>benchmark.py\<close>: the workload and its guards, the three pipelines, the batch plumbing
  (\<open>_chunk\<close>, \<open>_check_batch_len\<close>, \<open>make_batch_caller\<close>), the runner and the speedup
  column. A document is its text; an LLM client is what awaiting it on a prompt comes to,
  a batch caller the same for a batch, with any Python object as its answer. A duration is a
  float; quotients are taken exactly, not rounded to a double.
\<close>

section \<open>Workload\<close>

record workload =
  n_docs :: nat
  llm_call_seconds :: pyval \<comment> \<open>kept as given, an int or a float\<close>
  w_concurrency :: nat
  w_batch_size :: nat

definition workload_init :: "pyval \<Rightarrow> pyval \<Rightarrow> pyval \<Rightarrow> pyval \<Rightarrow> exc + workload" where
  "workload_init n latency concurrency batch_size =
     (case require_positive_int ''n_docs'' n of
        Inl e \<Rightarrow> Inl e
      | Inr n' \<Rightarrow>
          (case require_duration_seconds latency ''llm_call_seconds'' of
             Inl e \<Rightarrow> Inl e
           | Inr _ \<Rightarrow>
               (case require_positive_int ''concurrency'' concurrency of
                  Inl e \<Rightarrow> Inl e
                | Inr k \<Rightarrow>
                    (case require_positive_int ''batch_size'' batch_size of
                       Inl e \<Rightarrow> Inl e
                     | Inr b \<Rightarrow>
                         Inr \<lparr>n_docs = n', llm_call_seconds = latency, w_concurrency = k,
                              w_batch_size = b\<rparr>))))"

definition workload_to_dict :: "workload \<Rightarrow> (string \<times> pyval) list" where
  "workload_to_dict w =
     [(''n_docs'', PInt (int (n_docs w))), (''llm_call_seconds'', llm_call_seconds w),
      (''concurrency'', PInt (int (w_concurrency w))), (''batch_size'', PInt (int (w_batch_size w)))]"

text \<open>\<open>Workload(**d)\<close>: the keyword call on a dict that has the four fields.\<close>

definition workload_of_dict :: "(string \<times> pyval) list \<Rightarrow> exc + workload" where
  "workload_of_dict d =
     (case (map_of d ''n_docs'', map_of d ''llm_call_seconds'', map_of d ''concurrency'',
            map_of d ''batch_size'') of
        (Some n, Some l, Some c, Some b) \<Rightarrow> workload_init n l c b
      | _ \<Rightarrow> Inl (TypeError ''missing argument''))"

section \<open>Clients\<close>

type_synonym llm = "string \<Rightarrow> string outcome"

record fake_llm =
  latency_seconds :: pyval
  call_id :: string
  call_count :: nat

definition fake_llm_init :: "pyval \<Rightarrow> string \<Rightarrow> exc + fake_llm" where
  "fake_llm_init latency cid =
     (case require_duration_seconds latency ''latency_seconds'' of
        Inl e \<Rightarrow> Inl e
      | Inr _ \<Rightarrow> Inr \<lparr>latency_seconds = latency, call_id = cid, call_count = 0\<rparr>)"

text \<open>A call that its sleep lets through: the answer, and the client with the call counted.\<close>

definition fake_llm_call :: "fake_llm \<Rightarrow> string \<Rightarrow> string \<times> fake_llm" where
  "fake_llm_call llm prompt =
     (prompt @ '':'' @ call_id llm, llm\<lparr>call_count := Suc (call_count llm)\<rparr>)"

definition fake_answers :: "fake_llm \<Rightarrow> llm" where
  "fake_answers llm prompt = Returned (fst (fake_llm_call llm prompt))"

section \<open>Pipelines\<close>

text \<open>\<open>for doc in docs\<close>: the items one at a time.\<close>

definition py_iter :: "'a pyobj \<Rightarrow> exc + 'a source" where
  "py_iter v =
     (case v of
        OIterator src \<Rightarrow> Inr src
      | _ \<Rightarrow> (case py_list v of
                Some (Inr xs) \<Rightarrow> Inr (FiniteSrc xs)
              | Some (Inl e) \<Rightarrow> Inl e
              | None \<Rightarrow> Inl (TypeError ''not iterable'')))"

fun source_nth :: "'a source \<Rightarrow> nat \<Rightarrow> 'a option" where
  "source_nth (FiniteSrc xs) n = (if n < length xs then Some (xs ! n) else None)"
| "source_nth (EndlessSrc f) n = Some (f n)"

text \<open>The loop of \<open>SerialPipeline.run\<close> from item \<open>n\<close> on; it may never return.\<close>

partial_function (option) serial_loop ::
    "llm \<Rightarrow> llm \<Rightarrow> string source \<Rightarrow> nat \<Rightarrow> string list \<Rightarrow> (exc + string list) option" where
  "serial_loop llm1 llm2 src n out =
     (case source_nth src n of
        None \<Rightarrow> Some (Inr out)
      | Some doc \<Rightarrow>
          (case llm1 doc of
             Raised e \<Rightarrow> Some (Inl e)
           | Returned mid \<Rightarrow>
               (case llm2 mid of
                  Raised e \<Rightarrow> Some (Inl e)
                | Returned f \<Rightarrow> serial_loop llm1 llm2 src (Suc n) (out @ [f]))))"

definition serial_run :: "llm \<Rightarrow> llm \<Rightarrow> string pyobj \<Rightarrow> (exc + string list) option" where
  "serial_run llm1 llm2 docs =
     (case refuse_bare_string ''docs'' docs of
        Inl e \<Rightarrow> Some (Inl e)
      | Inr _ \<Rightarrow>
          (case py_iter docs of
             Inl e \<Rightarrow> Some (Inl e)
           | Inr src \<Rightarrow> serial_loop llm1 llm2 src 0 []))"

text \<open>The guards of \<open>AsyncPipeline.__init__\<close> and \<open>BatchedAsyncPipeline.__init__\<close>.\<close>

definition async_init :: "pyval \<Rightarrow> exc + nat" where
  "async_init concurrency = require_positive_int ''concurrency'' concurrency"

definition batched_init :: "pyval \<Rightarrow> pyval \<Rightarrow> exc + nat \<times> nat" where
  "batched_init concurrency batch_size =
     (case require_positive_int ''concurrency'' concurrency of
        Inl e \<Rightarrow> Inl e
      | Inr k \<Rightarrow>
          (case require_positive_int ''batch_size'' batch_size of
             Inl e \<Rightarrow> Inl e | Inr b \<Rightarrow> Inr (k, b)))"

text \<open>
  \<open>process(items, fn, concurrency=k)\<close> with a function of the program. A schedule says when an
  await of \<open>fn\<close> ends, and whether it came through or had an exception (a cancellation) thrown
  into it; what it returns or raises when it came through is \<open>fn\<close>'s.
\<close>

fun answered :: "('i \<Rightarrow> 'r outcome) \<Rightarrow> 'i list \<Rightarrow> unit fevent \<Rightarrow> 'r fevent" where
  "answered fn xs (EFn i f) =
     EFn i \<lparr>fn_outcome = (case fn_outcome f of Returned _ \<Rightarrow> fn (xs ! i) | Raised e \<Rightarrow> Raised e),
            fn_fired = fn_fired f, fn_entry = fn_entry f, fn_leak = fn_leak f\<rparr>"
| "answered fn xs (EStart i) = EStart i"
| "answered fn xs (EWake i) = EWake i"
| "answered fn xs (EDone i) = EDone i"
| "answered fn xs EParent = EParent"
| "answered fn xs ERearm = ERearm"
| "answered fn xs ECancel = ECancel"
| "answered fn xs ERearmOther = ERearmOther"

definition process_fn :: "pyver \<Rightarrow> 'i pyobj \<Rightarrow> ('i \<Rightarrow> 'r outcome) \<Rightarrow> nat \<Rightarrow> task \<Rightarrow> unit fevent list \<Rightarrow>
    (exc + 'r slot option list) option" where
  "process_fn ver items fn k t0 es =
     (let xs = (case py_list items of Some (Inr xs) \<Rightarrow> xs | _ \<Rightarrow> [])
      in process ver items (PInt (int k)) False PNone t0 (map (answered fn xs) es))"

text \<open>\<open>AsyncPipeline.run\<close> and its \<open>process_one\<close>.\<close>

definition process_one :: "llm \<Rightarrow> llm \<Rightarrow> string \<Rightarrow> string outcome" where
  "process_one llm1 llm2 doc =
     (case llm1 doc of Raised e \<Rightarrow> Raised e | Returned mid \<Rightarrow> llm2 mid)"

definition async_run :: "pyver \<Rightarrow> nat \<Rightarrow> llm \<Rightarrow> llm \<Rightarrow> string pyobj \<Rightarrow> task \<Rightarrow> unit fevent list \<Rightarrow>
    (exc + string slot option list) option" where
  "async_run ver k llm1 llm2 docs t0 es =
     (case refuse_bare_string ''docs'' docs of
        Inl e \<Rightarrow> Some (Inl e)
      | Inr _ \<Rightarrow> process_fn ver docs (process_one llm1 llm2) k t0 es)"

text \<open>\<open>range(0, n, sz)\<close> and \<open>_chunk\<close>.\<close>

definition range_step :: "nat \<Rightarrow> nat \<Rightarrow> nat list" where
  "range_step n sz = map (\<lambda>j. j * sz) [0..<(n + sz - 1) div sz]"

definition chunk :: "'a list \<Rightarrow> nat \<Rightarrow> 'a list list" where
  "chunk items sz = map (\<lambda>i. take sz (drop i items)) (range_step (length items) sz)"

text \<open>\<open>isinstance(v, Collection)\<close>: a \<open>ctypes\<close> array is none, nor is an iterator.\<close>

definition is_collection :: "'a pyobj \<Rightarrow> bool" where
  "is_collection v =
     (case v of OIterator _ \<Rightarrow> False | ONotIterable \<Rightarrow> False | OCtypesArray _ _ \<Rightarrow> False | _ \<Rightarrow> True)"

definition check_batch_len ::
    "string \<Rightarrow> 'a list \<Rightarrow> 'b pyobj \<Rightarrow> exc + 'b list" where
  "check_batch_len who sent got =
     (case refuse_bare_string who got of
        Inl e \<Rightarrow> Inl e
      | Inr _ \<Rightarrow>
          if is_set_or_mapping got then Inl (ValueError who)
          else (case
                  (if is_collection got
                   then (case py_list got of Some r \<Rightarrow> r | None \<Rightarrow> Inr [])
                   else (case got of
                           OIterator src \<Rightarrow>
                             (let outputs = islice src (length sent + 1)
                              in if length sent < length outputs then Inl (ValueError who)
                                 else Inr outputs)
                         | _ \<Rightarrow> Inl (ValueError who)))
                of
                  Inl e \<Rightarrow> Inl e
                | Inr outputs \<Rightarrow>
                    if length outputs \<noteq> length sent then Inl (ValueError who)
                    else Inr outputs))"

type_synonym batch_llm = "string list \<Rightarrow> string pyobj outcome"

definition process_batch :: "batch_llm \<Rightarrow> batch_llm \<Rightarrow> string list \<Rightarrow> string list outcome" where
  "process_batch llm1_batch llm2_batch batch =
     (case llm1_batch batch of
        Raised e \<Rightarrow> Raised e
      | Returned got1 \<Rightarrow>
          (case check_batch_len ''llm1_batch'' batch got1 of
             Inl e \<Rightarrow> Raised e
           | Inr mids \<Rightarrow>
               (case llm2_batch mids of
                  Raised e \<Rightarrow> Raised e
                | Returned got2 \<Rightarrow>
                    (case check_batch_len ''llm2_batch'' mids got2 of
                       Inl e \<Rightarrow> Raised e | Inr outs \<Rightarrow> Returned outs))))"

text \<open>\<open>for batch_out in outs: flat.extend(batch_out)\<close>.\<close>

fun flatten :: "'a list slot option list \<Rightarrow> exc + 'a list" where
  "flatten [] = Inr []"
| "flatten (Some (Val xs) # outs) =
     (case flatten outs of Inl e \<Rightarrow> Inl e | Inr flat \<Rightarrow> Inr (xs @ flat))"
| "flatten (_ # outs) = Inl (TypeError ''not iterable'')"

definition batched_run :: "pyver \<Rightarrow> nat \<Rightarrow> nat \<Rightarrow> batch_llm \<Rightarrow> batch_llm \<Rightarrow> string pyobj \<Rightarrow> task \<Rightarrow>
    unit fevent list \<Rightarrow> (exc + string list) option" where
  "batched_run ver k sz llm1_batch llm2_batch docs t0 es =
     (case refuse_bare_string ''docs'' docs of
        Inl e \<Rightarrow> Some (Inl e)
      | Inr _ \<Rightarrow>
          (case py_list docs of
             None \<Rightarrow> None
           | Some (Inl e) \<Rightarrow> Some (Inl e)
           | Some (Inr xs) \<Rightarrow>
               (let batches = chunk xs sz
                in case process_fn ver (OSequence [0..<length batches])
                          (\<lambda>index. process_batch llm1_batch llm2_batch (batches ! index)) k t0 es of
                     None \<Rightarrow> None
                   | Some (Inl e) \<Rightarrow> Some (Inl e)
                   | Some (Inr outs) \<Rightarrow> Some (flatten outs))))"

text \<open>The batch endpoint \<open>make_batch_caller\<close> simulates: its guard and what a call answers.\<close>

definition make_batch_caller :: "pyval option \<Rightarrow> string option \<Rightarrow> pyval \<Rightarrow> exc + batch_llm" where
  "make_batch_caller llm_latency llm_call_id batch_seconds =
     (case (if batch_seconds \<noteq> PNone then require_duration_seconds batch_seconds ''batch_seconds''
            else require_duration_seconds
                   (case llm_latency of Some l \<Rightarrow> l | None \<Rightarrow> PFloat (Fin 0))
                   ''llm.latency_seconds'') of
        Inl e \<Rightarrow> Inl e
      | Inr _ \<Rightarrow>
          Inr (\<lambda>items. Returned (OSequence (map (\<lambda>item. item @ '':'' @
                 (case llm_call_id of Some c \<Rightarrow> c | None \<Rightarrow> ''fake'') @ ''-batched'') items))))"

section \<open>Runner and speedups\<close>

record run_result =
  pipeline_name :: pystr
  r_docs :: nat
  duration_seconds :: pyfloat
  docs_per_second :: "pyfloat option"
  speedup_vs_serial :: "pyfloat option"
  extra :: "(pystr \<times> json) list"

text \<open>\<open>>\<close> against zero, and the quotient, of two floats; no division by a zero is reached.\<close>

definition f_pos :: "pyfloat \<Rightarrow> bool" where
  "f_pos f = (case f of Fin q \<Rightarrow> 0 < q | PInf \<Rightarrow> True | _ \<Rightarrow> False)"

definition f_div :: "pyfloat \<Rightarrow> pyfloat \<Rightarrow> pyfloat" where
  "f_div a b =
     (case (a, b) of
        (Fin p, Fin q) \<Rightarrow> Fin (p / q)
      | (Fin _, NaN) \<Rightarrow> NaN
      | (Fin _, _) \<Rightarrow> Fin 0
      | (PInf, Fin q) \<Rightarrow> if q < 0 then NInf else PInf
      | (NInf, Fin q) \<Rightarrow> if q < 0 then PInf else NInf
      | _ \<Rightarrow> NaN)"

text \<open>\<open>serial_duration and serial_duration > 0\<close>: \<open>None\<close> and zero are falsy.\<close>

definition truthy_float :: "pyfloat option \<Rightarrow> bool" where
  "truthy_float d = (case d of None \<Rightarrow> False | Some f \<Rightarrow> f \<noteq> Fin 0)"

definition run_result_of :: "pystr \<Rightarrow> nat \<Rightarrow> rat \<Rightarrow> run_result" where
  "run_result_of name n elapsed =
     \<lparr>pipeline_name = name, r_docs = n, duration_seconds = Fin elapsed,
      docs_per_second = (if elapsed > 0 then Some (Fin (of_nat n / elapsed)) else None),
      speedup_vs_serial = None, extra = []\<rparr>"

definition json_opt :: "pyfloat option \<Rightarrow> json" where
  "json_opt f = (case f of None \<Rightarrow> JNull | Some x \<Rightarrow> JFloat x)"

definition run_result_to_dict :: "run_result \<Rightarrow> (pystr \<times> json) list" where
  "run_result_to_dict r =
     [(lit ''pipeline_name'', JStr (pipeline_name r)), (lit ''n_docs'', JInt (int (r_docs r))),
      (lit ''duration_seconds'', JFloat (duration_seconds r)),
      (lit ''docs_per_second'', json_opt (docs_per_second r)),
      (lit ''speedup_vs_serial'', json_opt (speedup_vs_serial r)), (lit ''extra'', JObj (extra r))]"

text \<open>
  \<open>run_pipeline\<close>: the pipeline is \<open>run\<close>, called on the list read up front; the clock was
  \<open>t0\<close> before and \<open>t1\<close> after it.
\<close>

definition run_pipeline :: "pystr \<Rightarrow> (string pyobj \<Rightarrow> (exc + 'r) option) \<Rightarrow> string pyobj \<Rightarrow>
    rat \<Rightarrow> rat \<Rightarrow> (exc + run_result) option" where
  "run_pipeline name pipeline docs t0 t1 =
     (case refuse_bare_string ''docs'' docs of
        Inl e \<Rightarrow> Some (Inl e)
      | Inr _ \<Rightarrow>
          (case py_list docs of
             None \<Rightarrow> None
           | Some (Inl e) \<Rightarrow> Some (Inl e)
           | Some (Inr xs) \<Rightarrow>
               (case pipeline (OSequence xs) of
                  None \<Rightarrow> None
                | Some (Inl e) \<Rightarrow> Some (Inl e)
                | Some (Inr _) \<Rightarrow> Some (Inr (run_result_of name (length xs) (t1 - t0))))))"

definition attach_speedup :: "run_result list \<Rightarrow> run_result list" where
  "attach_speedup results =
     (let serial = find (\<lambda>r. pipeline_name r = lit ''serial'') results;
          d = map_option duration_seconds serial
      in map (\<lambda>r. r\<lparr>speedup_vs_serial :=
               (if truthy_float d \<and> (case d of Some f \<Rightarrow> f_pos f | None \<Rightarrow> False)
                then (if f_pos (duration_seconds r)
                      then map_option (\<lambda>f. f_div f (duration_seconds r)) d else None)
                else None)\<rparr>) results)"

section \<open>Chunks\<close>

lemma chunk_Nil [simp]: "0 < sz \<Longrightarrow> chunk [] sz = []"
  by (simp add: chunk_def range_step_def)

lemma chunk_step:
  assumes "0 < sz" and "xs \<noteq> []"
  shows "chunk xs sz = take sz xs # chunk (drop sz xs) sz"
proof -
  let ?n = "length xs" and ?m = "length xs - sz"
  have count: "(?n + sz - 1) div sz = Suc ((?m + sz - 1) div sz)"
  proof (cases "sz \<le> ?n")
    case True
    then have "?n + sz - 1 = (?m + sz - 1) + sz" using assms by simp
    then have "(?n + sz - 1) div sz = ((?m + sz - 1) + sz) div sz" by (rule arg_cong)
    also have "\<dots> = Suc ((?m + sz - 1) div sz)" using assms(1) by (subst div_add_self2) auto
    finally show ?thesis .
  next
    case False
    have "?n + sz - 1 = (?n - 1) + sz" using assms(2) by (cases xs) simp_all
    then have "(?n + sz - 1) div sz = ((?n - 1) + sz) div sz" by (rule arg_cong)
    also have "\<dots> = Suc ((?n - 1) div sz)" using assms(1) by (subst div_add_self2) auto
    also have "(?n - 1) div sz = 0" using False by (intro div_less) linarith
    also have "0 = (?m + sz - 1) div sz" using False assms(1) by (intro div_less [symmetric]) linarith
    finally show ?thesis .
  qed
  have shift: "take sz (drop (Suc j * sz) xs) = take sz (drop (j * sz) (drop sz xs))" for j
    by (simp add: add.commute)
  have "chunk xs sz = map (\<lambda>j. take sz (drop (j * sz) xs)) [0..<Suc ((?m + sz - 1) div sz)]"
    unfolding chunk_def range_step_def count by simp
  also have "\<dots> = take sz xs # map (\<lambda>j. take sz (drop (Suc j * sz) xs)) [0..<(?m + sz - 1) div sz]"
    unfolding upt_conv_Cons [OF zero_less_Suc] map_Suc_upt [symmetric] by simp
  also have "\<dots> = take sz xs # chunk (drop sz xs) sz"
    unfolding shift chunk_def range_step_def length_drop by simp
  finally show ?thesis .
qed

lemma chunk_induct [consumes 1, case_names Nil step]:
  assumes "0 < sz" and "P []"
    and "\<And>xs. xs \<noteq> [] \<Longrightarrow> P (drop sz xs) \<Longrightarrow> P xs"
  shows "P xs"
proof (induction "length xs" arbitrary: xs rule: less_induct)
  case less
  then show ?case using assms by (cases "xs = []") auto
qed

lemma concat_chunk:
  assumes "0 < sz"
  shows "concat (chunk xs sz) = xs"
  using assms by (induction xs rule: chunk_induct) (simp_all add: assms chunk_step)

lemma length_chunk: "length (chunk xs sz) = (length xs + sz - 1) div sz"
  by (simp add: chunk_def range_step_def)

lemma chunk_nth:
  "i < length (chunk xs sz) \<Longrightarrow> chunk xs sz ! i = take sz (drop (i * sz) xs)"
  by (simp add: chunk_def range_step_def)

lemma chunk_offset:
  assumes "0 < sz" and "i < length (chunk xs sz)"
  shows "i * sz < length xs"
proof -
  have "Suc i \<le> (length xs + sz - 1) div sz" using assms(2) by (simp add: length_chunk)
  then have "Suc i * sz \<le> length xs + sz - 1" using assms(1) by (simp add: less_eq_div_iff_mult_less_eq)
  then show ?thesis using assms(1) by simp
qed

lemma chunk_same_lengths:
  assumes "0 < sz" and "list_all2 (\<lambda>b ys. length ys = length b) (chunk xs sz) yss"
  shows "chunk (concat yss) sz = yss \<and> length (concat yss) = length xs"
  using assms
proof (induction xs arbitrary: yss rule: chunk_induct)
  case (step xs)
  note chunk = chunk_step [OF assms(1)]
  then obtain ys zss where y: "yss = ys # zss" "length ys = length (take sz xs)"
    "list_all2 (\<lambda>b ys. length ys = length b) (chunk (drop sz xs) sz) zss"
    using step.prems chunk [OF step.hyps] by (auto simp: list_all2_Cons1)
  have IH: "chunk (concat zss) sz = zss" "length (concat zss) = length xs - sz"
    using step.IH [OF y(3)] by simp_all
  have "ys \<noteq> []" using y(2) step.hyps assms(1) by (cases xs) auto
  then have ne: "ys @ concat zss \<noteq> []" by simp
  show ?case
  proof (cases "sz \<le> length xs")
    case True
    then show ?thesis using y IH chunk [OF ne] by simp
  next
    case False
    then have "concat zss = []" using IH(2) by simp
    then have "zss = []" using IH(1) chunk_Nil [OF assms(1)] by metis
    then show ?thesis using y False chunk [OF ne] assms(1) by simp
  qed
qed (simp add: assms(1))

section \<open>Batch outputs\<close>

lemma take_Suc_all: "length (take (Suc n) xs) = n \<Longrightarrow> take (Suc n) xs = xs"
  by (cases "length xs \<le> n") auto

lemma check_batch_len_Inr:
  "check_batch_len who sent got = Inr outs \<longleftrightarrow>
     length outs = length sent \<and>
     (case got of
        OSequence xs \<Rightarrow> xs = outs
      | OMemoryView fmt xs \<Rightarrow> xs = outs \<and> \<not> is_bytes_like got
      | OArray code xs \<Rightarrow> xs = outs \<and> \<not> is_text_array got
      | OIterator (FiniteSrc xs) \<Rightarrow> xs = outs
      | _ \<Rightarrow> False)"
proof (cases got)
  case (OIterator src)
  show ?thesis
  proof (cases src)
    case (FiniteSrc xs)
    have "take (Suc (length sent)) xs = outs \<and> length outs = length sent \<longleftrightarrow>
        xs = outs \<and> length outs = length sent"
      using take_Suc_all [of "length sent" xs] by auto
    then show ?thesis
      using OIterator FiniteSrc
      by (auto simp: check_batch_len_def refuse_bare_string_def is_str_like_def is_bytes_like_def
          is_text_array_def is_ctypes_char_array_def is_set_or_mapping_def is_collection_def Let_def)
  qed (auto simp: OIterator check_batch_len_def refuse_bare_string_def is_str_like_def
      is_bytes_like_def is_text_array_def is_ctypes_char_array_def is_set_or_mapping_def
      is_collection_def Let_def)
qed (auto simp: check_batch_len_def refuse_bare_string_def is_str_like_def is_bytes_like_def
    is_text_array_def is_ctypes_char_array_def is_set_or_mapping_def is_collection_def)

lemma check_batch_len_Inl:
  "check_batch_len who sent got = Inl e \<Longrightarrow> \<exists>m. e = ValueError m"
  by (cases got)
     (auto simp: check_batch_len_def refuse_bare_string_def is_set_or_mapping_def
       is_collection_def Let_def split: if_splits source.splits)

lemma process_batch_length:
  "process_batch b1 b2 batch = Returned outs \<Longrightarrow> length outs = length batch"
  by (auto simp: process_batch_def check_batch_len_Inr split: outcome.splits sum.splits)

section \<open>The pipelines against one another\<close>

text \<open>The reference: \<open>f\<close> on one item after the other, up to the first that raises.\<close>

fun run_each :: "('a \<Rightarrow> 'b outcome) \<Rightarrow> 'a list \<Rightarrow> exc + 'b list" where
  "run_each f [] = Inr []"
| "run_each f (x # xs) =
     (case f x of
        Raised e \<Rightarrow> Inl e
      | Returned y \<Rightarrow> (case run_each f xs of Inl e \<Rightarrow> Inl e | Inr ys \<Rightarrow> Inr (y # ys)))"

definition chained :: "llm \<Rightarrow> llm \<Rightarrow> llm" where
  "chained llm1 llm2 doc = (case llm1 doc of Raised e \<Rightarrow> Raised e | Returned mid \<Rightarrow> llm2 mid)"

lemma serial_loop_list:
  "serial_loop llm1 llm2 (FiniteSrc (ys @ xs)) (length ys) out =
     Some (case run_each (chained llm1 llm2) xs of Inl e \<Rightarrow> Inl e | Inr zs \<Rightarrow> Inr (out @ zs))"
proof (induction xs arbitrary: ys out)
  case Nil
  then show ?case by (simp add: serial_loop.simps)
next
  case (Cons x xs)
  have "serial_loop llm1 llm2 (FiniteSrc (ys @ x # xs)) (Suc (length ys)) o2 =
      Some (case run_each (chained llm1 llm2) xs of Inl e \<Rightarrow> Inl e | Inr zs \<Rightarrow> Inr (o2 @ zs))" for o2
    using Cons.IH [of "ys @ [x]" o2] by simp
  then show ?case by (subst serial_loop.simps) (auto simp: chained_def split: outcome.splits sum.splits)
qed

lemma serial_run_list:
  assumes "\<not> one_document docs" and "py_list docs = Some (Inr xs)"
  shows "serial_run llm1 llm2 docs = Some (run_each (chained llm1 llm2) xs)"
proof -
  have "py_iter docs = Inr (FiniteSrc xs)"
    using assms(2) by (cases docs rule: py_list.cases) (simp_all add: py_iter_def)
  moreover have "refuse_bare_string ''docs'' docs = Inr ()" using assms(1) by (simp add: refuse_bare_string_Inr)
  ultimately show ?thesis
    using serial_loop_list [of llm1 llm2 "[]" xs "[]"] by (simp add: serial_run_def split: sum.splits)
qed

lemma serial_run_Inr:
  assumes "py_list docs = Some (Inr xs)"
  shows "serial_run llm1 llm2 docs = Some (Inr ys) \<longleftrightarrow>
    \<not> one_document docs \<and> run_each (chained llm1 llm2) xs = Inr ys"
proof (cases "one_document docs")
  case True
  then have "refuse_bare_string ''docs'' docs \<noteq> Inr ()" by (simp add: refuse_bare_string_Inr)
  then show ?thesis using True by (auto simp: serial_run_def split: sum.splits)
qed (simp add: serial_run_list assms)

lemma run_each_Inr:
  "run_each f xs = Inr ys \<longleftrightarrow> length ys = length xs \<and> (\<forall>i < length xs. f (xs ! i) = Returned (ys ! i))"
proof (induction xs arbitrary: ys)
  case (Cons x xs)
  note IH = Cons.IH
  show ?case
  proof (cases ys)
    case (Cons y zs)
    have "run_each f (x # xs) = Inr (y # zs) \<longleftrightarrow> f x = Returned y \<and> run_each f xs = Inr zs"
      by (auto split: outcome.splits sum.splits)
    then show ?thesis using IH [of zs] Cons by (auto simp: All_less_Suc2)
  qed (auto split: outcome.splits sum.splits)
qed auto

lemma run_each_map: "(\<And>x. x \<in> set xs \<Longrightarrow> f x = Returned (g x)) \<Longrightarrow> run_each f xs = Inr (map g xs)"
  by (simp add: run_each_Inr)

text \<open>What \<open>process\<close> with a function returns, and that it raises only if the function or somebody outside does.\<close>

lemma answered_EFn:
  "EFn i f \<in> set (map (answered fn xs) es) \<Longrightarrow>
     \<exists>g. EFn i g \<in> set es \<and> fn_outcome f = (case fn_outcome g of Returned _ \<Rightarrow> fn (xs ! i) | Raised e \<Rightarrow> Raised e)"
proof -
  assume "EFn i f \<in> set (map (answered fn xs) es)"
  then obtain e where e: "e \<in> set es" "answered fn xs e = EFn i f" by (auto simp del: in_set_conv_decomp)
  show ?thesis
  proof (cases e)
    case (EFn j g)
    then show ?thesis using e by (intro exI [of _ g]) auto
  qed (use e(2) in simp_all)
qed

lemma answered_outside: "live_cancel t0 (map (answered fn xs) es) = live_cancel t0 es"
proof -
  have "cancels (map (answered fn xs) es) = cancels es \<and> rearms_seen (map (answered fn xs) es) = rearms_seen es"
  proof (induction es rule: rev_induct)
    case (snoc e es)
    then show ?case by (cases e) (simp_all add: cancels_snoc)
  qed simp
  then show ?thesis by (simp add: live_cancel_def)
qed

text \<open>No exception is thrown into an await.\<close>

definition undisturbed :: "task \<Rightarrow> unit fevent list \<Rightarrow> bool" where
  "undisturbed t0 es \<longleftrightarrow> \<not> live_cancel t0 es \<and>
     list_all (\<lambda>ev. case ev of EFn i f \<Rightarrow> fn_outcome f = Returned () | _ \<Rightarrow> True) es"

lemma process_fn_entry:
  assumes "0 < k" and "\<not> one_document items" and "py_list items = Some (Inr xs)"
  shows "process_entry items (PInt (int k)) PNone = Some (Inr (k, None, xs))"
  using assms by (simp add: process_entry_Inr require_timeout_seconds_eq)

lemma process_fn_Inr:
  assumes k: "0 < k" "\<not> one_document items" and xs: "py_list items = Some (Inr xs)"
    and ret: "process_fn ver items fn k t0 es = Some (Inr rs)"
  shows "\<exists>vs. rs = map (\<lambda>v. Some (Val v)) vs \<and> run_each fn xs = Inr vs"
proof -
  have ret: "process ver items (PInt (int k)) False PNone t0 (map (answered fn xs) es) = Some (Inr rs)"
    using ret by (simp add: process_fn_def xs)
  note r = process_returned [OF process_fn_entry [OF k xs] ret]
  define vs where "vs = map (\<lambda>x. case fn x of Returned v \<Rightarrow> v) xs"
  have v: "fn (xs ! i) = Returned (vs ! i) \<and> rs ! i = Some (Val (vs ! i))" if i: "i < length xs" for i
  proof -
    obtain f where f: "EFn i f \<in> set (map (answered fn xs) es)" "case fn_outcome f of
          Returned v \<Rightarrow> rs ! i = Some (Val v)
        | Raised e \<Rightarrow> False \<and> is_Exception (item_error None None i (fn_fired f) e) \<and>
                      rs ! i = Some (Exn (item_error None None i (fn_fired f) e))"
      using conjunct2 [OF r] i by blast
    then obtain v where "fn_outcome f = Returned v" "rs ! i = Some (Val v)"
      by (auto split: outcome.splits)
    moreover from this have "fn (xs ! i) = Returned v"
      using answered_EFn [OF f(1)] by (force split: outcome.splits)
    ultimately show ?thesis using i by (simp add: vs_def)
  qed
  have "rs = map (\<lambda>v. Some (Val v)) vs"
    using conjunct1 [OF r] v by (intro nth_equalityI) (simp_all add: vs_def)
  moreover have "run_each fn xs = Inr vs" using v by (simp add: run_each_Inr vs_def)
  ultimately show ?thesis by blast
qed

lemma process_fn_Inl:
  assumes k: "0 < k" "\<not> one_document items" and xs: "py_list items = Some (Inr xs)"
    and calm: "undisturbed t0 es"
    and ret: "process_fn ver items fn k t0 es = Some (Inl e)"
  shows "run_each fn xs \<noteq> Inr vs"
proof -
  let ?es = "map (answered fn xs) es"
  have ret: "process ver items (PInt (int k)) False PNone t0 ?es = Some (Inl e)"
    using ret by (simp add: process_fn_def xs)
  note entry = process_fn_entry [OF k xs]
  have "xs \<noteq> []" using ret entry by (auto simp: process_def)
  then obtain s where s: "process_run ver k None False xs t0 ?es = Some s" "final s = Some (Some e)"
    using process_cases [OF entry _ ret] by metis
  obtain k' where k': "k = Suc k'" using k(1) by (cases k) simp_all
  have "\<not> live_cancel t0 ?es" using calm by (simp add: undisturbed_def answered_outside)
  with process_fan.raised [OF s(1) [unfolded k' process_go] s(2)] last_in_set
  obtain i f st c x where i: "i < length xs" and f: "EFn i f \<in> set ?es"
    and h: "process_handler False None i st c f = Propagate x" by metis
  obtain y where "fn_outcome f = Raised y" using process_handler_Propagate(3) [OF h] by blast
  moreover obtain g where g: "EFn i g \<in> set es"
    "fn_outcome f = (case fn_outcome g of Returned _ \<Rightarrow> fn (xs ! i) | Raised e \<Rightarrow> Raised e)"
    using answered_EFn [OF f] by blast
  moreover have "fn_outcome g = Returned ()" using calm g(1) by (auto simp: undisturbed_def list_all_iff)
  ultimately show ?thesis using i by (auto simp: run_each_Inr)
qed

lemma flatten_values: "flatten (map (\<lambda>v. Some (Val v)) vss) = Inr (concat vss)"
  by (induction vss) simp_all

text \<open>What a batched run that returned has returned, batch by batch.\<close>

abbreviation batch_fn :: "batch_llm \<Rightarrow> batch_llm \<Rightarrow> string list list \<Rightarrow> nat \<Rightarrow> string list outcome" where
  "batch_fn b1 b2 batches \<equiv> (\<lambda>i. process_batch b1 b2 (batches ! i))"

lemma run_each_nth: "run_each (\<lambda>i. f (xs ! i)) [0..<length xs] = Inr ys \<longleftrightarrow> run_each f xs = Inr ys"
  by (simp add: run_each_Inr)

lemma batched_run_open:
  assumes nd: "\<not> one_document docs" and docs: "py_list docs = Some (Inr xs)"
    and ret: "batched_run ver k sz b1 b2 docs t0 es = Some res"
  obtains e where "process_fn ver (OSequence [0..<length (chunk xs sz)]) (batch_fn b1 b2 (chunk xs sz)) k t0 es = Some (Inl e)"
      and "res = Inl e"
    | rs where "process_fn ver (OSequence [0..<length (chunk xs sz)]) (batch_fn b1 b2 (chunk xs sz)) k t0 es = Some (Inr rs)"
      and "res = flatten rs"
  using ret nd
  by (auto simp: batched_run_def docs Let_def refuse_bare_string_Inr [of "''docs''" docs, symmetric]
      split: option.splits sum.splits)

lemma batched_returned:
  assumes init: "batched_init concurrency batch_size = Inr (k, sz)"
    and docs: "py_list docs = Some (Inr xs)"
    and ret: "batched_run ver k sz b1 b2 docs t0 es = Some (Inr outs)"
  shows "\<not> one_document docs \<and> length outs = length xs \<and>
    run_each (process_batch b1 b2) (chunk xs sz) = Inr (chunk outs sz)"
proof -
  let ?n = "length (chunk xs sz)"
  have pos: "0 < k" "0 < sz"
    using init by (auto simp: batched_init_def require_positive_int_Inr split: sum.splits)
  have nd: "\<not> one_document docs"
    using ret refuse_bare_string_Inr [of "''docs''" docs]
    by (auto simp: batched_run_def split: sum.splits)
  obtain rs where rs: "process_fn ver (OSequence [0..<?n]) (batch_fn b1 b2 (chunk xs sz)) k t0 es = Some (Inr rs)"
    "flatten rs = Inr outs"
    using nd docs ret by (rule batched_run_open) auto
  obtain vss where v: "rs = map (\<lambda>v. Some (Val v)) vss" "run_each (process_batch b1 b2) (chunk xs sz) = Inr vss"
    using process_fn_Inr [OF pos(1) _ _ rs(1)] run_each_nth by (auto simp: bare_string_defs)
  have outs: "outs = concat vss" using rs(2) v(1) by (simp add: flatten_values)
  have each: "length vss = ?n" "\<And>i. i < ?n \<Longrightarrow> process_batch b1 b2 (chunk xs sz ! i) = Returned (vss ! i)"
    using v(2) by (simp_all add: run_each_Inr)
  have "list_all2 (\<lambda>b ys. length ys = length b) (chunk xs sz) vss"
    using each process_batch_length [OF each(2)] by (simp add: list_all2_conv_all_nth)
  then have "chunk outs sz = vss" "length outs = length xs"
    using chunk_same_lengths [OF pos(2)] outs by auto
  then show ?thesis using nd v(2) by simp
qed

section \<open>Batch callers that answer as a client does\<close>

text \<open>
  What a batch endpoint promises: one output per prompt, in the order of the prompts, each what
  the client gives for that prompt alone, in a list or from an iterator; and an error where
  the client has no answer to one of them.
\<close>

definition answers_as :: "llm \<Rightarrow> batch_llm \<Rightarrow> bool" where
  "answers_as llm llm_batch \<longleftrightarrow>
     (\<forall>prompts. case run_each llm prompts of
        Inr outs \<Rightarrow> llm_batch prompts \<in> {Returned (OSequence outs), Returned (OIterator (FiniteSrc outs))}
      | Inl _ \<Rightarrow> \<exists>e. llm_batch prompts = Raised e)"

lemma answers_as_Returned:
  assumes "answers_as llm llm_batch"
  shows "(case llm_batch prompts of
      Returned got \<Rightarrow> \<exists>outs. run_each llm prompts = Inr outs \<and> (\<forall>who. check_batch_len who prompts got = Inr outs)
    | Raised _ \<Rightarrow> \<exists>e. run_each llm prompts = Inl e)"
proof (cases "run_each llm prompts")
  case (Inl e)
  then show ?thesis using assms [unfolded answers_as_def, rule_format, of prompts] by auto
next
  case (Inr outs)
  then have "length outs = length prompts" by (simp add: run_each_Inr)
  then have "check_batch_len who prompts got = Inr outs"
    if "got = OSequence outs \<or> got = OIterator (FiniteSrc outs)" for who got
    using that by (auto simp: check_batch_len_Inr)
  then show ?thesis using assms [unfolded answers_as_def, rule_format, of prompts] Inr by auto
qed

lemma run_each_chained:
  "run_each (chained llm1 llm2) xs = Inr ys \<longleftrightarrow>
     (\<exists>mids. run_each llm1 xs = Inr mids \<and> run_each llm2 mids = Inr ys)"
proof (induction xs arbitrary: ys)
  case (Cons x xs)
  show ?case
  proof (cases "llm1 x")
    case (Returned mid)
    show ?thesis
    proof (cases "llm2 mid")
      case r: (Returned y)
      have "run_each (chained llm1 llm2) (x # xs) = Inr ys \<longleftrightarrow>
          (\<exists>zs. ys = y # zs \<and> run_each (chained llm1 llm2) xs = Inr zs)"
        using Returned r by (auto simp: chained_def split: sum.splits)
      also have "\<dots> \<longleftrightarrow> (\<exists>mids. run_each llm1 (x # xs) = Inr mids \<and> run_each llm2 mids = Inr ys)"
        unfolding Cons.IH using Returned r by (force split: sum.splits)
      finally show ?thesis .
    qed (use Returned in \<open>auto simp: chained_def split: sum.splits\<close>)
  qed (simp add: chained_def)
qed simp

lemma process_batch_answers:
  assumes "answers_as llm1 b1" and "answers_as llm2 b2"
  shows "process_batch b1 b2 batch = Returned outs \<longleftrightarrow> run_each (chained llm1 llm2) batch = Inr outs"
proof (cases "b1 batch")
  case (Raised e)
  then show ?thesis
    using answers_as_Returned [OF assms(1), of batch] by (auto simp: process_batch_def run_each_chained)
next
  case (Returned got)
  then obtain mids where m: "run_each llm1 batch = Inr mids" "\<And>who. check_batch_len who batch got = Inr mids"
    using answers_as_Returned [OF assms(1), of batch] by auto
  show ?thesis
    using answers_as_Returned [OF assms(2), of mids] Returned m
    by (auto simp: process_batch_def run_each_chained split: outcome.splits)
qed

lemma run_each_append:
  "run_each f (xs @ ys) = Inr zs \<longleftrightarrow>
     (\<exists>us vs. zs = us @ vs \<and> run_each f xs = Inr us \<and> run_each f ys = Inr vs)"
proof (induction xs arbitrary: zs)
  case (Cons x xs)
  show ?case
  proof (cases "f x")
    case (Returned y)
    have "run_each f ((x # xs) @ ys) = Inr zs \<longleftrightarrow> (\<exists>ws. zs = y # ws \<and> run_each f (xs @ ys) = Inr ws)"
      using Returned by (auto split: sum.splits)
    also have "\<dots> \<longleftrightarrow> (\<exists>us vs. zs = us @ vs \<and> run_each f (x # xs) = Inr us \<and> run_each f ys = Inr vs)"
      unfolding Cons.IH using Returned by (force split: sum.splits)
    finally show ?thesis .
  qed simp
qed auto

lemma run_each_concat:
  assumes "\<And>b ys. b \<in> set bs \<Longrightarrow> g b = Returned ys \<longleftrightarrow> run_each f b = Inr ys"
  shows "run_each f (concat bs) = Inr zs \<longleftrightarrow> (\<exists>zss. zs = concat zss \<and> run_each g bs = Inr zss)"
  using assms
proof (induction bs arbitrary: zs)
  case (Cons b bs)
  have b: "g b = Returned ys \<longleftrightarrow> run_each f b = Inr ys" for ys using Cons.prems by simp
  have IH: "run_each f (concat bs) = Inr zs \<longleftrightarrow> (\<exists>zss. zs = concat zss \<and> run_each g bs = Inr zss)" for zs
    by (rule Cons.IH) (use Cons.prems in simp)
  have "run_each f (concat (b # bs)) = Inr zs \<longleftrightarrow>
      (\<exists>us zss. zs = us @ concat zss \<and> g b = Returned us \<and> run_each g bs = Inr zss)"
    by (simp only: concat.simps run_each_append IH b) blast
  also have "\<dots> \<longleftrightarrow> (\<exists>zss. zs = concat zss \<and> run_each g (b # bs) = Inr zss)"
    by (cases "g b"; cases "run_each g bs") auto
  finally show ?case .
qed auto

text \<open>The callers of \<open>make_batch_caller\<close> are such endpoints, for a client with the longer suffix.\<close>

lemma make_batch_caller_answers:
  assumes "make_batch_caller latency (Some (call_id llm)) seconds = Inr llm_batch"
  shows "answers_as (fake_answers (llm\<lparr>call_id := call_id llm @ ''-batched''\<rparr>)) llm_batch"
proof -
  let ?g = "\<lambda>item. item @ '':'' @ call_id llm @ ''-batched''"
  have b: "llm_batch = (\<lambda>items. Returned (OSequence (map ?g items)))"
    using assms by (auto simp: make_batch_caller_def split: sum.splits)
  have "run_each (fake_answers (llm\<lparr>call_id := call_id llm @ ''-batched''\<rparr>)) prompts = Inr (map ?g prompts)" for prompts
    by (rule run_each_map) (simp add: fake_answers_def fake_llm_call_def)
  then show ?thesis by (simp add: answers_as_def b)
qed

section \<open>Properties\<close>

text \<open>
  \<open>Workload\<close> is validated as a whole and its \<open>to_dict\<close> is faithful: whatever is
  constructed has positive integer fields and a finite latency that is not negative, keeps
  the four arguments as they were given (the latency as the int or the float it was), and
  \<open>Workload(**w.to_dict())\<close> is the same workload again.
\<close>

theorem workload_roundtrip:
  assumes "workload_init n latency concurrency batch_size = Inr w"
  shows "workload_of_dict (workload_to_dict w) = Inr w \<and>
    workload_to_dict w = [(''n_docs'', n), (''llm_call_seconds'', latency),
      (''concurrency'', concurrency), (''batch_size'', batch_size)] \<and>
    0 < n_docs w \<and> 0 < w_concurrency w \<and> 0 < w_batch_size w \<and>
    (\<exists>q. finite_number (llm_call_seconds w) = Some q \<and> 0 \<le> q)"
  using assms
  by (auto simp: workload_init_def workload_of_dict_def workload_to_dict_def require_positive_int_Inr
      require_duration_seconds_eq require_positive_int_PInt split: sum.splits option.splits if_splits)

text \<open>
  \<open>_chunk\<close> cuts the documents into batches that are, one after the other, exactly the
  documents: each batch but the last has \<open>batch_size\<close> of them, none is empty, and there are
  \<open>ceil(n / batch_size)\<close>.
\<close>

theorem chunk_partitions:
  assumes "0 < sz"
  shows "concat (chunk xs sz) = xs \<and> length (chunk xs sz) = (length xs + sz - 1) div sz \<and>
    (\<forall>i < length (chunk xs sz). chunk xs sz ! i \<noteq> [] \<and>
       length (chunk xs sz ! i) = (if Suc i < length (chunk xs sz) then sz else length xs - i * sz) \<and>
       length (chunk xs sz ! i) \<le> sz)"
proof (intro conjI allI impI)
  fix i assume i: "i < length (chunk xs sz)"
  note n = chunk_nth [OF i] and off = chunk_offset [OF assms i]
  show "chunk xs sz ! i \<noteq> []" using n off assms by simp
  show "length (chunk xs sz ! i) \<le> sz" using n by simp
  show "length (chunk xs sz ! i) = (if Suc i < length (chunk xs sz) then sz else length xs - i * sz)"
  proof (cases "Suc i < length (chunk xs sz)")
    case True
    then show ?thesis using chunk_offset [OF assms True] n by simp
  next
    case False
    then have "(length xs + sz - 1) div sz < Suc (Suc i)" by (simp add: length_chunk)
    then have "length xs + sz - 1 < Suc (Suc i) * sz"
      using div_less_iff_less_mult [OF assms] by blast
    then show ?thesis using n False by simp
  qed
qed (simp_all add: assms concat_chunk length_chunk)

text \<open>
  C21. \<open>_check_batch_len\<close> accepts exactly an ordered answer with one output per input, as a
  list: a list or other ordered collection, a numeric buffer, or an iterator that yields
  exactly that many. A string or byte buffer, a set, a mapping, a \<open>ctypes\<close> array, something
  not iterable, a wrong length and an iterator with too many items, be it an endless one,
  are each refused with a \<open>ValueError\<close>; the check always returns.
\<close>

theorem check_batch_len_exact:
  "(check_batch_len who sent got = Inr outs) =
     (length outs = length sent \<and>
      (case got of
         OSequence xs \<Rightarrow> xs = outs
       | OMemoryView fmt xs \<Rightarrow> xs = outs \<and> fmt \<notin> {''B'', ''b'', ''c''}
       | OArray code xs \<Rightarrow> xs = outs \<and> code \<notin> {''u'', ''w''}
       | OIterator (FiniteSrc xs) \<Rightarrow> xs = outs
       | _ \<Rightarrow> False))
   \<and> (\<exists>r. check_batch_len who sent got = r \<and> (case r of Inr _ \<Rightarrow> True | Inl e \<Rightarrow> \<exists>m. e = ValueError m))"
proof (intro conjI exI [of _ "check_batch_len who sent got"] refl)
  show "case check_batch_len who sent got of Inr _ \<Rightarrow> True | Inl e \<Rightarrow> \<exists>m. e = ValueError m"
    using check_batch_len_Inl [of who sent got] by (auto split: sum.splits)
qed (auto simp: check_batch_len_Inr is_bytes_like_def is_text_array_def BYTE_FORMATS_def
    TEXT_TYPECODES_def split: pyobj.splits)

text \<open>
  C23. The fan-out changes nothing but the time. With the same two clients, whatever the
  schedule, what \<open>AsyncPipeline.run\<close> returns is what \<open>SerialPipeline.run\<close> returns, the same
  texts in the same order; and where the serial run returns, the fan-out does not raise
  unless an exception from outside is thrown into it.
\<close>

theorem async_equals_serial:
  assumes "async_init concurrency = Inr k" and "py_list docs = Some (Inr xs)"
    and "async_run ver k llm1 llm2 docs t0 es = Some res"
  shows "(\<forall>rs. res = Inr rs \<longrightarrow>
      (\<exists>texts. serial_run llm1 llm2 docs = Some (Inr texts) \<and> rs = map (\<lambda>v. Some (Val v)) texts)) \<and>
    (undisturbed t0 es \<longrightarrow> (\<forall>texts. serial_run llm1 llm2 docs = Some (Inr texts) \<longrightarrow>
      res = Inr (map (\<lambda>v. Some (Val v)) texts)))"
proof (cases "one_document docs")
  case True
  then have "\<exists>e. refuse_bare_string ''docs'' docs = Inl e"
    using refuse_bare_string_Inr [of "''docs''" docs] by (cases "refuse_bare_string ''docs'' docs") auto
  then show ?thesis using assms(3) by (auto simp: async_run_def serial_run_def)
next
  case False
  have k: "0 < k" using assms(1) by (simp add: async_init_def require_positive_int_Inr)
  have "refuse_bare_string ''docs'' docs = Inr ()" using False by (simp add: refuse_bare_string_Inr)
  then have ret: "process_fn ver docs (process_one llm1 llm2) k t0 es = Some res"
    using assms(3) by (simp add: async_run_def)
  have one: "process_one llm1 llm2 = chained llm1 llm2"
    by (rule ext) (simp add: process_one_def chained_def)
  note S = serial_run_list [OF False assms(2), of llm1 llm2]
  show ?thesis
  proof (cases res)
    case (Inr rs)
    then show ?thesis using process_fn_Inr [OF k False assms(2) ret [unfolded Inr]] S by (auto simp: one)
  next
    case (Inl e)
    then show ?thesis using process_fn_Inl [OF k False assms(2) _ ret [unfolded Inl]] S by (auto simp: one)
  qed
qed

text \<open>
  C22. No document gets another one's output: when \<open>BatchedAsyncPipeline.run\<close> returns, it has
  one output per document, and the outputs of each batch of documents are, in place, what
  the two batch callers gave for that very batch, checked between the calls.
\<close>

theorem batched_outputs_aligned:
  assumes "batched_init concurrency batch_size = Inr (k, sz)"
    and "py_list docs = Some (Inr xs)"
    and "batched_run ver k sz llm1_batch llm2_batch docs t0 es = Some (Inr outs)"
  shows "length outs = length xs \<and> length (chunk outs sz) = length (chunk xs sz) \<and>
    (\<forall>i < length (chunk xs sz).
       process_batch llm1_batch llm2_batch (chunk xs sz ! i) = Returned (chunk outs sz ! i))"
  using batched_returned [OF assms] by (simp add: run_each_Inr)

text \<open>
  C24. Batching changes nothing but the time either. With batch endpoints that answer each
  prompt as the two clients do, whatever the batch size and the schedule, what
  \<open>BatchedAsyncPipeline.run\<close> returns is what \<open>SerialPipeline.run\<close> returns with these clients;
  and where the serial run returns, the batched one does not raise unless an exception from
  outside is thrown into it.
\<close>

theorem batched_equals_serial:
  assumes "batched_init concurrency batch_size = Inr (k, sz)"
    and "py_list docs = Some (Inr xs)"
    and "answers_as llm1 llm1_batch" and "answers_as llm2 llm2_batch"
    and "batched_run ver k sz llm1_batch llm2_batch docs t0 es = Some res"
  shows "(\<forall>outs. res = Inr outs \<longrightarrow> serial_run llm1 llm2 docs = Some (Inr outs)) \<and>
    (undisturbed t0 es \<longrightarrow> (\<forall>outs. serial_run llm1 llm2 docs = Some (Inr outs) \<longrightarrow> res = Inr outs))"
proof -
  have pos: "0 < k" "0 < sz"
    using assms(1) by (auto simp: batched_init_def require_positive_int_Inr split: sum.splits)
  have serial: "serial_run llm1 llm2 docs = Some (Inr ys) \<longleftrightarrow> \<not> one_document docs \<and>
      (\<exists>yss. ys = concat yss \<and> run_each (process_batch llm1_batch llm2_batch) (chunk xs sz) = Inr yss)" for ys
    using run_each_concat [OF process_batch_answers [OF assms(3,4)], of "chunk xs sz" ys]
    by (simp add: serial_run_Inr [OF assms(2)] concat_chunk [OF pos(2)])
  have returned: "serial_run llm1 llm2 docs = Some (Inr outs)" if "res = Inr outs" for outs
    using batched_returned [OF assms(1,2), of ver llm1_batch llm2_batch t0 es outs] assms(5) that
      concat_chunk [OF pos(2), of outs] by (auto simp: serial)
  have "res = Inr outs" if calm: "undisturbed t0 es" and s: "serial_run llm1 llm2 docs = Some (Inr outs)" for outs
  proof -
    have nd: "\<not> one_document docs" using s serial by blast
    from batched_run_open [OF nd assms(2,5)] show ?thesis
    proof cases
      case (1 e)
      have "run_each (batch_fn llm1_batch llm2_batch (chunk xs sz)) [0..<length (chunk xs sz)] \<noteq> Inr vs" for vs
        by (rule process_fn_Inl [OF pos(1) _ _ calm 1(1)]) (simp_all add: bare_string_defs)
      then have "run_each (process_batch llm1_batch llm2_batch) (chunk xs sz) \<noteq> Inr vs" for vs
        unfolding run_each_nth .
      then show ?thesis using s serial by blast
    next
      case (2 rs)
      then obtain vss where "rs = map (\<lambda>v. Some (Val v)) vss"
        using process_fn_Inr [OF pos(1) _ _ 2(1)] by (auto simp: bare_string_defs)
      then have r: "res = Inr (concat vss)" using 2(2) by (simp add: flatten_values)
      then show ?thesis using returned [OF r] s by simp
    qed
  qed
  then show ?thesis using returned by blast
qed

lemma find_map_same:
  "(\<And>x. P (f x) = P x) \<Longrightarrow> find P (map f xs) = map_option f (find P xs)"
  by (induction xs) simp_all

text \<open>
  \<open>attach_speedup\<close> returns one row per measurement, in order, changed in nothing but the
  speedup: against the first \<open>serial\<close> row, and only where both durations are positive, it is
  the factor by which the row was faster, so that the baseline's own row gets exactly 1;
  every other row, and every row of a result set without a serial one, has none.
\<close>

theorem attach_speedup_rows:
  "map (\<lambda>r. r\<lparr>speedup_vs_serial := None\<rparr>) (attach_speedup rs) = map (\<lambda>r. r\<lparr>speedup_vs_serial := None\<rparr>) rs \<and>
   (case find (\<lambda>r. pipeline_name r = lit ''serial'') rs of
      None \<Rightarrow> map speedup_vs_serial (attach_speedup rs) = map (\<lambda>_. None) rs
    | Some s \<Rightarrow>
        map speedup_vs_serial (attach_speedup rs) =
          map (\<lambda>r. case (duration_seconds s, duration_seconds r) of
             (Fin p, Fin q) \<Rightarrow> if 0 < p \<and> 0 < q then Some (Fin (p / q)) else None
           | (Fin p, PInf) \<Rightarrow> if 0 < p then Some (Fin 0) else None
           | (PInf, Fin q) \<Rightarrow> if 0 < q then Some PInf else None
           | (PInf, PInf) \<Rightarrow> Some NaN
           | _ \<Rightarrow> None) rs \<and>
        (case duration_seconds s of
           Fin p \<Rightarrow> (if 0 < p then map_option speedup_vs_serial
                (find (\<lambda>r. pipeline_name r = lit ''serial'') (attach_speedup rs)) = Some (Some (Fin 1))
              else True)
         | _ \<Rightarrow> True))"
proof (cases "find (\<lambda>r. pipeline_name r = lit ''serial'') rs")
  case None
  then show ?thesis by (auto simp: attach_speedup_def truthy_float_def)
next
  case (Some s)
  have rows: "map speedup_vs_serial (attach_speedup rs) =
      map (\<lambda>r. if f_pos (duration_seconds s) \<and> f_pos (duration_seconds r)
               then Some (f_div (duration_seconds s) (duration_seconds r)) else None) rs"
    by (cases "duration_seconds s") (auto simp: attach_speedup_def Some truthy_float_def f_pos_def)
  have keep: "map (\<lambda>r. r\<lparr>speedup_vs_serial := None\<rparr>) (attach_speedup rs) = map (\<lambda>r. r\<lparr>speedup_vs_serial := None\<rparr>) rs"
    by (simp add: attach_speedup_def Let_def)
  have base: "map_option speedup_vs_serial (find (\<lambda>r. pipeline_name r = lit ''serial'') (attach_speedup rs)) =
      Some (Some (Fin 1))" if "duration_seconds s = Fin p" "0 < p" for p
    using that by (simp add: attach_speedup_def Let_def find_map_same Some truthy_float_def f_pos_def f_div_def)
  have fast: "(case duration_seconds s of
           Fin p \<Rightarrow> (if 0 < p then map_option speedup_vs_serial
                (find (\<lambda>r. pipeline_name r = lit ''serial'') (attach_speedup rs)) = Some (Some (Fin 1))
              else True)
         | _ \<Rightarrow> True)"
    using base by (auto split: pyfloat.splits)
  show ?thesis
    unfolding Some option.case rows
    by (intro conjI keep fast map_cong refl) (auto simp: f_pos_def f_div_def split: pyfloat.splits)
qed

section \<open>Witnesses\<close>

definition client :: "string \<Rightarrow> fake_llm" where
  "client cid = \<lparr>latency_seconds = PInt 0, call_id = cid, call_count = 0\<rparr>"

definition two_texts :: "unit fevent list" where
  "two_texts = [EStart 0, EStart 1, EFn 0 (ended_with (Returned ())), EWake 1,
     EFn 1 (ended_with (Returned ())), EDone 0, EDone 1, EParent]"

definition two_batches :: "unit fevent list" where
  "two_batches = [EStart 0, EStart 1, EFn 1 (ended_with (Returned ())), EFn 0 (ended_with (Returned ())),
     EDone 0, EDone 1, EParent]"

definition batch_answers :: "string \<Rightarrow> batch_llm" where
  "batch_answers cid items = Returned (OSequence (map (\<lambda>item. item @ '':'' @ cid @ ''-batched'') items))"

lemma make_batch_caller_client: "make_batch_caller None (Some cid) (PInt 0) = Inr (batch_answers cid)"
proof -
  have "require_duration_seconds (PInt 0) ''batch_seconds'' = Inr (Fin 0)"
    using int_to_double_exact [of 0] by (simp add: require_duration_seconds_eq)
  then show ?thesis by (simp add: make_batch_caller_def batch_answers_def [abs_def])
qed

lemma async_equals_serial_witness:
  "serial_run (fake_answers (client ''x'')) (fake_answers (client ''y'')) (OSequence [''a'', ''b''])
     = Some (Inr [''a:x:y'', ''b:x:y''])"
proof -
  have "async_init (PInt 1) = Inr 1"
    and "py_list (OSequence [''a'', ''b'']) = Some (Inr [''a'', ''b''])"
    and "async_run Py312 1 (fake_answers (client ''x'')) (fake_answers (client ''y'')) (OSequence [''a'', ''b''])
        fresh_task two_texts = Some (Inr [Some (Val ''a:x:y''), Some (Val ''b:x:y'')])"
    by code_simp+
  from async_equals_serial [OF this] show ?thesis by (auto simp: map_eq_Cons_conv)
qed

lemma batched_pair:
  "batched_init (PInt 3) (PInt 2) = Inr (3, 2)"
  "py_list (OSequence [''a'', ''b'', ''c'']) = Some (Inr [''a'', ''b'', ''c''])"
  "batched_run Py314 3 2 (batch_answers ''x'') (batch_answers ''y'') (OSequence [''a'', ''b'', ''c''])
     fresh_task two_batches
     = Some (Inr [''a:x-batched:y-batched'', ''b:x-batched:y-batched'', ''c:x-batched:y-batched''])"
  by code_simp+

lemma batched_equals_serial_witness:
  "serial_run (fake_answers (client ''x''\<lparr>call_id := call_id (client ''x'') @ ''-batched''\<rparr>))
     (fake_answers (client ''y''\<lparr>call_id := call_id (client ''y'') @ ''-batched''\<rparr>))
     (OSequence [''a'', ''b'', ''c''])
     = Some (Inr [''a:x-batched:y-batched'', ''b:x-batched:y-batched'', ''c:x-batched:y-batched''])"
proof -
  have c: "make_batch_caller None (Some (call_id (client cid))) (PInt 0) = Inr (batch_answers cid)" for cid
    using make_batch_caller_client [of cid] by (simp add: client_def)
  show ?thesis
    using batched_equals_serial [OF batched_pair(1,2) make_batch_caller_answers [OF c]
        make_batch_caller_answers [OF c] batched_pair(3)] by blast
qed

lemma batched_outputs_aligned_witness:
  "process_batch (batch_answers ''x'') (batch_answers ''y'') (chunk [''a'', ''b'', ''c''] 2 ! 1)
     = Returned [''c:x-batched:y-batched'']"
proof -
  note r = batched_outputs_aligned [OF batched_pair, THEN conjunct2, THEN conjunct2, rule_format, of 1]
  have "1 < length (chunk [''a'', ''b'', ''c''] 2)"
    and "chunk [''a:x-batched:y-batched'', ''b:x-batched:y-batched'', ''c:x-batched:y-batched''] 2 ! 1
      = [''c:x-batched:y-batched'']"
    by code_simp+
  then show ?thesis using r by simp
qed

lemma chunk_partitions_witness:
  "concat (chunk [CHR ''a'', CHR ''b'', CHR ''c''] 2) = [CHR ''a'', CHR ''b'', CHR ''c''] \<and>
   length (chunk [CHR ''a'', CHR ''b'', CHR ''c''] 2) = 2"
  using chunk_partitions [of 2 "[CHR ''a'', CHR ''b'', CHR ''c'']"] by simp

lemma workload_roundtrip_witness:
  "\<exists>w. workload_init (PInt 4) (PFloat (Fin (1 / 50))) (PInt 32) (PInt 8) = Inr w \<and>
       workload_of_dict (workload_to_dict w) = Inr w"
proof -
  have "workload_init (PInt 4) (PFloat (Fin (1 / 50))) (PInt 32) (PInt 8) =
      Inr \<lparr>n_docs = 4, llm_call_seconds = PFloat (Fin (1 / 50)), w_concurrency = 32, w_batch_size = 8\<rparr>"
    by code_simp
  from workload_roundtrip [OF this] this show ?thesis by blast
qed

end
