(* ===== verification/Benchmark_File.thy ===== *)
theory Benchmark_File
  imports Benchmark File_Checks
begin

text \<open>
  \<open>dump_benchmark_json\<close>: the payload, its text and the atomic write, put together from the
  workload and result rows of \<open>Benchmark\<close>, the JSON of \<open>Json\<close> and the file system.
\<close>

definition json_of_pyval :: "pyval \<Rightarrow> json" where
  "json_of_pyval v =
     (case v of PNone \<Rightarrow> JNull | PBool b \<Rightarrow> JBool b | PInt n \<Rightarrow> JInt n | PFloat f \<Rightarrow> JFloat f
      | PStr s \<Rightarrow> JStr (lit s) | POther _ \<Rightarrow> JNull)"

definition benchmark_payload :: "workload \<Rightarrow> run_result list \<Rightarrow> json" where
  "benchmark_payload w results =
     JObj [(lit ''workload'', JObj (map (\<lambda>(k, v). (lit k, json_of_pyval v)) (workload_to_dict w))),
           (lit ''results'', JArr (map (\<lambda>r. JObj (run_result_to_dict r)) results))]"

definition dump_benchmark_json :: "(rat \<Rightarrow> pystr) \<Rightarrow> path \<Rightarrow> workload \<Rightarrow> run_result list \<Rightarrow> unit op" where
  "dump_benchmark_json fw p w results =
     atomic_write_text p (json_dumps fw True (benchmark_payload w results)) ''utf-8''"

text \<open>
  C38. \<open>dump_benchmark_json\<close> publishes what it was given. Whatever fails, a call that raises has
  changed no file; one that returns has changed one, the one the path leads to, which now is
  ASCII text that \<open>json.loads\<close> reads back as the payload with its keys sorted: the workload's
  four fields and one object per row, every number as it was and every character of every
  name, for all names and all numbers the rows can hold.
\<close>

theorem dump_benchmark_json_roundtrip:
  assumes "fs_ok (fs w)" and "signals_ok env" and "quiet env" and "clean env"
    and "namei (fold_name env) (fs w) True p = Inr k"
    and "codecs env ''utf-8'' = Inr encode" and "\<And>t. list_all ascii t \<Longrightarrow> encode t = Inr t"
    and "json_ok fw fr (benchmark_payload wl rs)"
    and "dump_benchmark_json fw p wl rs env w = (r, w')"
  shows "case r of
      Inl _ \<Rightarrow> file_at (fs w') = file_at (fs w)
    | Inr _ \<Rightarrow> (\<exists>bs. file_at (fs w') = (file_at (fs w))(k \<mapsto> bs) \<and> list_all ascii bs \<and>
        json_loads fr bs = Some (json_sort (benchmark_payload wl rs)))"
proof -
  let ?t = "json_dumps fw True (benchmark_payload wl rs)"
  have t: "list_all ascii ?t" "json_loads fr ?t = Some (json_sort (benchmark_payload wl rs))"
    using sorted_json.plain [OF assms(8)] sorted_json.reads_back [OF assms(8)] by simp_all
  have "atomic_write_text p ?t ''utf-8'' env w = (r, w')"
    using assms(9) by (simp add: dump_benchmark_json_def)
  from write_updates_files [OF assms(1-6) assms(7) [OF t(1)] this] t show ?thesis
    by (auto split: sum.splits)
qed

lemma fsencode_plain: "list_all ascii t \<Longrightarrow> fsencode t = Inr t"
  by (rule fsencode_ascii) (simp add: ascii_def list_all_iff)

definition small_workload :: workload where
  "small_workload = \<lparr>n_docs = 2, llm_call_seconds = PFloat (Fin (1 / 50)), w_concurrency = 4, w_batch_size = 1\<rparr>"

definition small_rows :: "run_result list" where
  "small_rows = [\<lparr>pipeline_name = [97, 124, 0x1F600], r_docs = 2, duration_seconds = Fin (1 / 2),
     docs_per_second = None, speedup_vs_serial = None, extra = []\<rparr>]"

definition small_repr :: "rat \<Rightarrow> pystr" where
  "small_repr q = (if q = 1 / 50 then lit ''0.02'' else lit ''0.5'')"

definition small_read :: "pystr \<Rightarrow> rat option" where
  "small_read t = (if t = lit ''0.02'' then Some (1 / 50) else Some (1 / 2))"

lemma small_payload_ok: "json_ok small_repr small_read (benchmark_payload small_workload small_rows)"
proof -
  have "float_ok small_repr small_read (1 / 50)" "float_ok small_repr small_read (1 / 2)"
    by (simp_all add: float_ok_def small_repr_def small_read_def lit_def is_num_def is_digit_def)
  then show ?thesis
    by (simp add: benchmark_payload_def small_workload_def small_rows_def workload_to_dict_def
        run_result_to_dict_def json_of_pyval_def json_opt_def lit_def scalar_def)
qed

theorem dump_benchmark_json_roundtrip_witness:
  "\<exists>bs. file_at (fs (snd (dump_benchmark_json small_repr [lit ''d'', lit ''l''] small_workload small_rows
       calm_env (at_rest small_fs)))) = (file_at small_fs)([lit ''d'', lit ''f''] \<mapsto> bs) \<and>
     json_loads small_read bs = Some (json_sort (benchmark_payload small_workload small_rows))"
proof -
  let ?dump = "dump_benchmark_json small_repr [lit ''d'', lit ''l''] small_workload small_rows
       calm_env (at_rest small_fs)"
  have cl: "clean calm_env" using calm_clean [OF calm_env_calm] .
  have c: "codecs calm_env ''utf-8'' = Inr fsencode" by (simp add: calm_env_def env_with_def)
  have "fsencode (json_dumps small_repr True (benchmark_payload small_workload small_rows)) =
      Inr (json_dumps small_repr True (benchmark_payload small_workload small_rows))"
    by (rule fsencode_plain [OF ascii_dumps [OF small_payload_ok]])
  then have "fst ?dump = Inr ()"
    using check_and_write [OF _ calm_env_calm _ c, of "at_rest small_fs"] check_link_runs small_fs_ok small_link(1)
    unfolding dump_benchmark_json_def by fastforce
  then have r: "?dump = (Inr (), snd ?dump)" by (metis prod.collapse)
  show ?thesis
    using dump_benchmark_json_roundtrip [OF _ envs_ok(1,2) cl _ c fsencode_plain small_payload_ok r,
        unfolded at_rest_simps, OF small_fs_ok small_link(1)] by auto
qed

end
