(* ===== verification/Bench_Report.thy ===== *)
theory Bench_Report
  imports Benchmark_File
begin

text \<open>
  The report of \<open>scripts/bench_1000_doc.py\<close>: its table and what it says of the numbers in it.
  The text of a float (\<open>repr\<close>), of a latency in milliseconds (\<open>:g\<close>) and of the host are
  parameters; \<open>:.nf\<close> is written out.
\<close>

record texts =
  repr_float :: "rat \<Rightarrow> pystr"
  millis :: "pyval \<Rightarrow> pystr" \<comment> \<open>\<open>f"{1000 * x:g}"\<close>\<close>
  host_line :: pystr

definition num_text :: "texts \<Rightarrow> pyval \<Rightarrow> pystr" where
  "num_text tx v =
     (case v of PInt n \<Rightarrow> dec_int n | PFloat f \<Rightarrow> (case f of Fin q \<Rightarrow> repr_float tx q | _ \<Rightarrow> fixed 0 f)
      | _ \<Rightarrow> lit ''None'')"

text \<open>The double nearest to 0.02.\<close>

definition DEFAULT_WORKLOAD :: workload where
  "DEFAULT_WORKLOAD = \<lparr>n_docs = 1000,
     llm_call_seconds = PFloat (Fin (5764607523034235 / 288230376151711744)),
     w_concurrency = 32, w_batch_size = 8\<rparr>"

text \<open>\<open>value != default\<close> on numbers, an int against a float by value.\<close>

definition num_value :: "pyval \<Rightarrow> pyfloat" where
  "num_value v = (case v of PFloat f \<Rightarrow> f | _ \<Rightarrow> Fin (of_int (int_value v)))"

definition num_differs :: "pyval \<Rightarrow> pyval \<Rightarrow> bool" where
  "num_differs a b = (num_value a = NaN \<or> num_value b = NaN \<or> num_value a \<noteq> num_value b)"

definition changed_flags :: "texts \<Rightarrow> workload \<Rightarrow> pystr list" where
  "changed_flags tx w =
     map (\<lambda>(flag, v, d). lit ''`'' @ flag @ lit '' '' @ num_text tx v @ lit ''`'')
       (filter (\<lambda>(flag, v, d). num_differs v d)
         [(lit ''--n'', PInt (int (n_docs w)), PInt (int (n_docs DEFAULT_WORKLOAD))),
          (lit ''--latency'', llm_call_seconds w, llm_call_seconds DEFAULT_WORKLOAD),
          (lit ''--concurrency'', PInt (int (w_concurrency w)), PInt (int (w_concurrency DEFAULT_WORKLOAD))),
          (lit ''--batch-size'', PInt (int (w_batch_size w)), PInt (int (w_batch_size DEFAULT_WORKLOAD)))])"

section \<open>The table\<close>

definition dash :: pystr where "dash = [0x2014]"
definition times_sign :: pystr where "times_sign = [0xD7]"

definition speedup_cell :: "run_result \<Rightarrow> pystr" where
  "speedup_cell r =
     (case speedup_vs_serial r of None \<Rightarrow> dash | Some f \<Rightarrow> fixed 2 f @ times_sign)"

definition rate_cell :: "run_result \<Rightarrow> pystr" where
  "rate_cell r = (case docs_per_second r of None \<Rightarrow> dash | Some f \<Rightarrow> fixed 1 f)"

definition escape_cell :: "pystr \<Rightarrow> pystr" where
  "escape_cell name = replace_char 124 [92, 124] name"

definition table_row :: "run_result \<Rightarrow> pystr" where
  "table_row r =
     lit ''| '' @ escape_cell (pipeline_name r) @ lit '' | '' @ fixed 3 (duration_seconds r) @
     lit '' | '' @ rate_cell r @ lit '' | '' @ speedup_cell r @ lit '' |''"

definition table_head :: "pystr list" where
  "table_head =
     [lit ''| pipeline | duration (s) | docs/s | speedup vs serial |'',
      lit ''| -------- | -----------: | -----: | ----------------: |'']"

section \<open>What the report says of the speedups\<close>

text \<open>\<open>a > b\<close> on floats.\<close>

definition f_gt :: "pyfloat \<Rightarrow> pyfloat \<Rightarrow> bool" where
  "f_gt a b =
     (case (a, b) of
        (Fin p, Fin q) \<Rightarrow> p > q
      | (PInf, Fin _) \<Rightarrow> True | (PInf, NInf) \<Rightarrow> True | (Fin _, NInf) \<Rightarrow> True
      | _ \<Rightarrow> False)"

text \<open>\<open>max(xs, default=None)\<close>: the first that no later one exceeds.\<close>

fun py_max :: "pyfloat list \<Rightarrow> pyfloat option" where
  "py_max [] = None"
| "py_max (x # xs) = Some (foldl (\<lambda>m y. if f_gt y m then y else m) x xs)"

definition ceiling_of :: "run_result list \<Rightarrow> pyfloat option" where
  "ceiling_of results =
     py_max (List.map_filter
       (\<lambda>r. if pipeline_name r \<in> {lit ''serial'', lit ''async+batched''} then None
            else speedup_vs_serial r) results)"

text \<open>\<open>round(ceiling, 2) >= 20\<close>.\<close>

definition published_at_least_20 :: "pyfloat \<Rightarrow> bool" where
  "published_at_least_20 f =
     (case f of Fin q \<Rightarrow> 2000 \<le> round_rat (100 * q) | PInf \<Rightarrow> True | _ \<Rightarrow> False)"

definition default_words :: "texts \<Rightarrow> pystr" where
  "default_words tx =
     lit ''the 5-20x spec range assumes the default workload of '' @ dec_nat (n_docs DEFAULT_WORKLOAD) @
     lit '' docs, '' @ millis tx (llm_call_seconds DEFAULT_WORKLOAD) @
     lit '' ms per call, `--concurrency '' @ dec_nat (w_concurrency DEFAULT_WORKLOAD) @
     lit ''`, `--batch-size '' @ dec_nat (w_batch_size DEFAULT_WORKLOAD) @ lit ''`''"

definition landing :: "texts \<Rightarrow> workload \<Rightarrow> run_result list \<Rightarrow> pystr" where
  "landing tx w results =
     (let in_range = lit ''so real-API speedups land in the 5-20x spec range. ''
      in case ceiling_of results of
           None \<Rightarrow> in_range
         | Some c \<Rightarrow>
             if published_at_least_20 c then in_range
             else (let changed = changed_flags tx w;
                       assumes_text = default_words tx @
                         (if changed = [] then []
                          else lit ''; this run used '' @ py_join (lit '', '') changed)
                   in lit ''so real-API speedups land below the '' @ fixed 2 c @ times_sign @
                      lit '' measured above ('' @ assumes_text @ lit ''). ''))"

section \<open>The report\<close>

definition render_markdown :: "texts \<Rightarrow> workload \<Rightarrow> run_result list \<Rightarrow> pystr" where
  "render_markdown tx w results = py_join [10] (
     [lit ''# Async-pipeline benchmarks (issue #4)'', [],
      lit ''- **Workload.** '' @ dec_nat (n_docs w) @ lit '' docs '' @ [0xB7] @ lit '' 2 LLM calls per doc '' @
        [0xB7] @ lit '' '' @ millis tx (llm_call_seconds w) @ lit '' ms simulated per call '' @ [0xB7] @
        lit '' concurrency '' @ dec_nat (w_concurrency w) @ lit '' '' @ [0xB7] @ lit '' batch size '' @
        dec_nat (w_batch_size w),
      lit ''- **Synthetic LLM disclosure.** Each call is a deterministic `await asyncio.sleep('' @
        num_text tx (llm_call_seconds w) @
        lit '')`. The speedup ratios are load-bearing under this model; the absolute latency is per the simulated cost. Real-API numbers for the serial and async rows are a `FakeLLM` '' @ [0x2192] @
        lit '' `AnthropicLLM` swap; the `LLMClient` Protocol is the seam.'',
      host_line tx, []] @
     table_head @ map table_row results @
     [[], lit ''## Reproduce'', [], lit ''```bash'',
      lit ''python scripts/bench_1000_doc.py --n '' @ dec_nat (n_docs w) @ lit '' --latency '' @
        num_text tx (llm_call_seconds w) @ lit '' --concurrency '' @ dec_nat (w_concurrency w) @
        lit '' --batch-size '' @ dec_nat (w_batch_size w) @ lit '' --out /tmp/bench.md'',
      lit ''```'', [], lit ''## Real-API mode (operator action)'', [],
      lit ''Swap `FakeLLM` for an Anthropic adapter that conforms to the `LLMClient` Protocol (`async __call__(prompt: str) -> str`) and re-run. That swap reaches the serial and async rows only: the async+batched row's callers come from `make_batch_caller`, which never calls the client it wraps, so that row stays one simulated sleep per batch until its callers are replaced with a real batch endpoint (D-008). Expect the speedup ratios to be **lower** than the synthetic ones above, not higher: `FakeLLM`'s pure-wait `asyncio.sleep` has no per-request CPU, socket, TLS or JSON cost, so it fans out perfectly and the ratios here are the theoretical upper bound. Real API I/O adds that overhead and is additionally bounded by rate limits and connection-pool limits, '' @
        landing tx w results @
        lit ''Batch API workloads are the documented exception and can exceed it.'',
      []])"

section \<open>Rows as a reader splits them\<close>

text \<open>GitHub's tables: a cell ends at a \<open>|\<close> that no backslash precedes, and \<open>\|\<close> in it is shown as \<open>|\<close>.\<close>

fun gfm_cells :: "bool \<Rightarrow> pystr \<Rightarrow> pystr list" where
  "gfm_cells b [] = [[]]"
| "gfm_cells b (c # cs) =
     (if c = 124 \<and> \<not> b then [] # gfm_cells False cs
      else (case gfm_cells (c = 92) cs of [] \<Rightarrow> [[c]] | y # ys \<Rightarrow> (c # y) # ys))"

fun gfm_shown :: "pystr \<Rightarrow> pystr" where
  "gfm_shown [] = []"
| "gfm_shown [c] = [c]"
| "gfm_shown (c # d # cs) = (if c = 92 \<and> d = 124 then 124 # gfm_shown cs else c # gfm_shown (d # cs))"

lemma cells_end:
  "gfm_cells b s = [s] \<Longrightarrow> gfm_cells b (s @ 32 # 124 # rest) = (s @ [32]) # gfm_cells False rest"
proof (induction b s rule: gfm_cells.induct)
  case (2 b c cs)
  have "\<not> (c = 124 \<and> \<not> b)"
  proof
    assume "c = 124 \<and> \<not> b"
    then have "gfm_cells b (c # cs) = [] # gfm_cells False cs" by simp
    with "2.prems" show False by (metis list.distinct(1) list.inject)
  qed
  moreover have "gfm_cells (c = 92) cs = [cs]"
    using "2.prems" calculation by (simp only: gfm_cells.simps if_False split: list.splits) auto
  ultimately show ?case using "2.IH"(2) by simp
qed simp

lemma cells_plain: "124 \<notin> set s \<Longrightarrow> gfm_cells b s = [s]"
  by (induction b s rule: gfm_cells.induct) auto

lemma cells_escaped: "gfm_cells b (escape_cell s) = [escape_cell s]"
  by (induction s arbitrary: b) (simp_all add: escape_cell_def replace_char_def)

lemma shown_escaped: "gfm_shown (escape_cell s) = s"
proof (induction s)
  case (Cons c s)
  have "gfm_shown (c # escape_cell s) = c # gfm_shown (escape_cell s)" if "c \<noteq> 124"
  proof (cases s)
    case (Cons d t)
    then show ?thesis by (cases "d = 124") (simp_all add: escape_cell_def replace_char_def)
  qed (simp add: escape_cell_def replace_char_def)
  moreover have "escape_cell (c # s) = (if c = 124 then 92 # 124 # escape_cell s else c # escape_cell s)"
    by (simp add: escape_cell_def replace_char_def)
  ultimately show ?case using Cons.IH by simp
qed (simp add: escape_cell_def replace_char_def)

lemma dec_nat_no_pipe: "124 \<notin> set (dec_nat n)"
  using dec_nat_digits [of n] by (auto simp: list_all_iff is_digit_def)

lemma fixed_no_pipe: "124 \<notin> set (fixed n f)"
  using dec_nat_no_pipe
  by (cases f) (auto simp: fixed_def fixed_rat_def pad_zeros_def lit_def Let_def)

lemma escape_newline: "10 \<in> set (escape_cell s) \<longleftrightarrow> 10 \<in> set s"
  by (auto simp: escape_cell_def replace_char_def split: if_splits)

text \<open>
  The report's table keeps its four columns whatever a pipeline is called: every row is split
  by a GitHub reader into exactly the name, the duration, the rate and the speedup, between
  an empty start and an empty end like the header and the separator; the name is shown as it
  is, pipes and backslashes included; and its cell is on one line exactly when the name is.
\<close>

theorem table_row_columns:
  "gfm_cells False (table_row r) =
     [[], [32] @ escape_cell (pipeline_name r) @ [32], [32] @ fixed 3 (duration_seconds r) @ [32],
      [32] @ rate_cell r @ [32], [32] @ speedup_cell r @ [32], []] \<and>
   gfm_shown (escape_cell (pipeline_name r)) = pipeline_name r \<and>
   (10 \<in> set (escape_cell (pipeline_name r)) \<longleftrightarrow> 10 \<in> set (pipeline_name r)) \<and>
   map (length \<circ> gfm_cells False) table_head = [6, 6]"
proof -
  have c: "gfm_cells False (32 # s @ 32 # 124 # rest) = ([32] @ s @ [32]) # gfm_cells False rest"
    if "gfm_cells False s = [s]" for s rest
  proof -
    have "gfm_cells False (32 # s) = [32 # s]" using that by simp
    from cells_end [OF this] show ?thesis by simp
  qed
  have p: "gfm_cells False (fixed 3 (duration_seconds r)) = [fixed 3 (duration_seconds r)]"
    "gfm_cells False (rate_cell r) = [rate_cell r]" "gfm_cells False (speedup_cell r) = [speedup_cell r]"
    using fixed_no_pipe
    by (auto intro!: cells_plain simp: rate_cell_def speedup_cell_def dash_def times_sign_def split: option.splits)
  have "table_row r = 124 # (32 # escape_cell (pipeline_name r) @ 32 # 124 #
      (32 # fixed 3 (duration_seconds r) @ 32 # 124 # (32 # rate_cell r @ 32 # 124 #
      (32 # speedup_cell r @ 32 # 124 # []))))"
    by (simp add: table_row_def lit_def)
  moreover have "gfm_cells False (124 # x) = [] # gfm_cells False x" for x by simp
  ultimately have "gfm_cells False (table_row r) =
     [[], [32] @ escape_cell (pipeline_name r) @ [32], [32] @ fixed 3 (duration_seconds r) @ [32],
      [32] @ rate_cell r @ [32], [32] @ speedup_cell r @ [32], []]"
    by (simp only: c [OF cells_escaped] c [OF p(1)] c [OF p(2)] c [OF p(3)] gfm_cells.simps(1))
  moreover have "map (length \<circ> gfm_cells False) table_head = [6, 6]"
    by (simp add: table_head_def lit_def)
  ultimately show ?thesis using shown_escaped escape_newline by simp
qed


section \<open>The paragraph and the table agree\<close>

definition counted :: "run_result \<Rightarrow> pyfloat option" where
  "counted r =
     (if pipeline_name r \<in> {lit ''serial'', lit ''async+batched''} then None else speedup_vs_serial r)"

lemma ceiling_counted: "ceiling_of rs = py_max (List.map_filter counted rs)"
  unfolding ceiling_of_def counted_def ..

lemma py_max_fold:
  assumes "foldl (\<lambda>m y. if f_gt y m then y else m) x xs = Fin q"
  shows "Fin q \<in> set (x # xs) \<and> (\<forall>q'. Fin q' \<in> set (x # xs) \<longrightarrow> q' \<le> q)"
  using assms
proof (induction xs arbitrary: x)
  case (Cons y ys)
  have "foldl (\<lambda>m y. if f_gt y m then y else m) (if f_gt y x then y else x) ys = Fin q"
    using Cons.prems by simp
  from Cons.IH [OF this] have m: "Fin q \<in> set ((if f_gt y x then y else x) # ys)"
    and u: "\<And>q'. Fin q' \<in> set ((if f_gt y x then y else x) # ys) \<Longrightarrow> q' \<le> q" by blast+
  have "q' \<le> q" if "Fin q' \<in> set (x # y # ys)" for q'
  proof (cases "f_gt y x")
    case True
    then show ?thesis
    proof (cases "Fin q' = x")
      case eq: True
      then obtain p where "y = Fin p \<and> q' < p \<or> y = PInf"
        using True by (cases y) (auto simp: f_gt_def)
      moreover have "y \<noteq> PInf"
      proof
        assume y: "y = PInf"
        have "foldl (\<lambda>m y. if f_gt y m then y else m) PInf zs = PInf" for zs
          by (induction zs) (auto simp: f_gt_def split: pyfloat.splits)
        then show False using Cons.prems True y by simp
      qed
      ultimately show ?thesis using u [of p] True by auto
    qed (use u [of q'] that True in auto)
  next
    case False
    show ?thesis
    proof (cases "Fin q' = y")
      case eq: True
      show ?thesis
      proof (cases x)
        case (Fin p)
        then show ?thesis using False eq u [of p] by (auto simp: f_gt_def)
      next
        case PInf
        have "foldl (\<lambda>m y. if f_gt y m then y else m) PInf zs = PInf" for zs
          by (induction zs) (auto simp: f_gt_def split: pyfloat.splits)
        then show ?thesis using Cons.prems False PInf by simp
      next
        case NInf
        then show ?thesis using False eq by (auto simp: f_gt_def)
      next
        case NaN
        have "foldl (\<lambda>m y. if f_gt y m then y else m) NaN zs = NaN" for zs
          by (induction zs) (auto simp: f_gt_def split: pyfloat.splits)
        then show ?thesis using Cons.prems False NaN by simp
      qed
    qed (use u [of q'] that False in auto)
  qed
  then show ?case using m by (auto split: if_splits)
qed simp

lemma ceiling_row:
  assumes "ceiling_of rs = Some (Fin q)"
  shows "\<exists>r \<in> set rs. counted r = Some (Fin q)"
    and "r' \<in> set rs \<Longrightarrow> counted r' = Some (Fin q') \<Longrightarrow> q' \<le> q"
proof -
  obtain x xs where l: "List.map_filter counted rs = x # xs"
    and f: "foldl (\<lambda>m y. if f_gt y m then y else m) x xs = Fin q"
    using assms by (cases "List.map_filter counted rs") (auto simp: ceiling_counted)
  have mem: "f \<in> set (x # xs) \<longleftrightarrow> (\<exists>r \<in> set rs. counted r = Some f)" for f
    using l [symmetric] by (auto simp: List.map_filter_def image_iff)
  note m = py_max_fold [OF f]
  show "\<exists>r \<in> set rs. counted r = Some (Fin q)" using m mem by blast
  show "r' \<in> set rs \<Longrightarrow> counted r' = Some (Fin q') \<Longrightarrow> q' \<le> q" using m mem by blast
qed

text \<open>The whole number a reader sees before the point.\<close>

lemma shown_whole:
  assumes "0 \<le> q"
  shows "undec (takeWhile is_digit (fixed 2 (Fin q) @ s)) = nat (round_rat (100 * q)) div 100"
proof -
  let ?m = "nat (round_rat (100 * q))"
  have "fixed 2 (Fin q) @ s = dec_nat (?m div 100) @ 46 # pad_zeros 2 (dec_nat (?m mod 100)) @ s"
    using assms by (simp add: fixed_def fixed_rat_def Let_def)
  moreover have "takeWhile is_digit (dec_nat (?m div 100) @ 46 # pad_zeros 2 (dec_nat (?m mod 100)) @ s) =
      dec_nat (?m div 100)"
    using dec_nat_digits [of "?m div 100"] by (simp add: takeWhile_append2 list_all_iff is_digit_def)
  ultimately show ?thesis by (simp add: undec_dec_nat)
qed

text \<open>
  C37. The paragraph on real APIs speaks of a number a reader finds in the table: the speedup it
  calls "measured above" is the cell of a row that is neither the baseline nor the batched
  one, no such row measured more, and the paragraph claims the 5-20x range exactly when the number
  printed in that cell is at least 20, so cell and sentence cannot disagree by rounding.
\<close>

theorem landing_matches_table:
  assumes "ceiling_of rs = Some (Fin q)" and "0 \<le> q"
  shows "\<exists>r. r \<in> set rs \<and> pipeline_name r \<notin> {lit ''serial'', lit ''async+batched''} \<and>
     speedup_vs_serial r = Some (Fin q) \<and>
     (\<forall>r' q'. r' \<in> set rs \<and> pipeline_name r' \<notin> {lit ''serial'', lit ''async+batched''} \<and>
        speedup_vs_serial r' = Some (Fin q') \<longrightarrow> q' \<le> q) \<and>
     landing tx w rs =
       (if 20 \<le> undec (takeWhile is_digit (speedup_cell r))
        then lit ''so real-API speedups land in the 5-20x spec range. ''
        else lit ''so real-API speedups land below the '' @ speedup_cell r @ lit '' measured above ('' @
          default_words tx @
          (if changed_flags tx w = [] then []
           else lit ''; this run used '' @ py_join (lit '', '') (changed_flags tx w)) @ lit ''). '')"
proof -
  obtain r where r: "r \<in> set rs" "counted r = Some (Fin q)" using ceiling_row(1) [OF assms(1)] by blast
  then have n: "pipeline_name r \<notin> {lit ''serial'', lit ''async+batched''}" "speedup_vs_serial r = Some (Fin q)"
    by (auto simp: counted_def split: if_splits)
  have cell: "speedup_cell r = fixed 2 (Fin q) @ times_sign" using n(2) by (simp add: speedup_cell_def)
  have "20 \<le> undec (takeWhile is_digit (speedup_cell r)) \<longleftrightarrow> 20 \<le> nat (round_rat (100 * q)) div 100"
    by (simp only: cell shown_whole [OF assms(2)])
  also have "\<dots> \<longleftrightarrow> published_at_least_20 (Fin q)" unfolding published_at_least_20_def pyfloat.case by linarith
  finally have p: "20 \<le> undec (takeWhile is_digit (speedup_cell r)) \<longleftrightarrow> published_at_least_20 (Fin q)" .
  have "q' \<le> q" if "r' \<in> set rs" "pipeline_name r' \<notin> {lit ''serial'', lit ''async+batched''}"
    "speedup_vs_serial r' = Some (Fin q')" for r' q'
    using ceiling_row(2) [OF assms(1) that(1)] that(2,3) by (simp add: counted_def)
  then show ?thesis
    using r(1) n by (intro exI [of _ r]) (auto simp: landing_def assms(1) p [unfolded cell] cell Let_def)
qed

definition slow_row :: run_result where
  "slow_row = \<lparr>pipeline_name = lit ''async'', r_docs = 10, duration_seconds = Fin 1,
     docs_per_second = Some (Fin 10), speedup_vs_serial = Some (Fin (19996 / 1000)), extra = []\<rparr>"

theorem landing_matches_table_witness:
  "landing \<lparr>repr_float = \<lambda>_. [], millis = \<lambda>_. [], host_line = []\<rparr> DEFAULT_WORKLOAD [slow_row] =
     lit ''so real-API speedups land in the 5-20x spec range. '' \<and> speedup_cell slow_row = lit ''20.00'' @ times_sign"
proof -
  have c: "ceiling_of [slow_row] = Some (Fin (19996 / 1000))"
    by (simp add: ceiling_of_def slow_row_def List.map_filter_def lit_def)
  have m: "\<lfloor>(9998 / 5 :: rat)\<rfloor> = 1999" by (rule floor_unique) simp_all
  have "dec_nat 20 = [50, 48]" "dec_nat 0 = [48]" by (simp_all add: dec_nat.simps)
  then have f: "speedup_cell slow_row = lit ''20.00'' @ times_sign"
    by (simp add: speedup_cell_def slow_row_def fixed_def fixed_rat_def round_rat_def m pad_zeros_def lit_def)
  have "undec (takeWhile is_digit (speedup_cell slow_row)) = 20"
    by (simp add: f lit_def is_digit_def undec_def)
  moreover note landing_matches_table [OF c, of "\<lparr>repr_float = \<lambda>_. [], millis = \<lambda>_. [], host_line = []\<rparr>" DEFAULT_WORKLOAD]
  ultimately show ?thesis using f by auto
qed


section \<open>The report can be encoded\<close>

definition texts_ok :: "texts \<Rightarrow> bool" where
  "texts_ok tx \<longleftrightarrow> (\<forall>q. list_all scalar (repr_float tx q)) \<and> (\<forall>v. list_all scalar (millis tx v)) \<and>
     list_all scalar (host_line tx)"

lemma escape_scalar [scalars]: "list_all scalar s \<Longrightarrow> list_all scalar (escape_cell s)"
  by (auto simp: escape_cell_def replace_char_def list_all_iff scalar_def)

lemma num_text_scalar [scalars]: "texts_ok tx \<Longrightarrow> list_all scalar (num_text tx v)"
  using dec_nat_scalar fixed_scalar
  by (auto simp: num_text_def texts_ok_def dec_int_def lit_scalar scalar_def split: pyval.splits pyfloat.splits)

lemma row_scalar: "list_all scalar (pipeline_name r) \<Longrightarrow> list_all scalar (table_row r)"
  by (auto simp: table_row_def rate_cell_def speedup_cell_def scalars dash_def times_sign_def scalar_def
      split: option.splits)

lemma landing_scalar: "texts_ok tx \<Longrightarrow> list_all scalar (landing tx w rs)"
proof -
  assume tx: "texts_ok tx"
  then have "list_all scalar (millis tx v)" for v by (simp add: texts_ok_def)
  then have d: "list_all scalar (default_words tx)" by (simp add: default_words_def scalars)
  have c: "list_all (list_all scalar) (changed_flags tx w)"
    using tx by (auto simp: changed_flags_def scalars list_all_iff [of "list_all scalar"])
  show ?thesis
    using d py_join_all [OF lit_scalar c]
    by (auto simp: landing_def scalars times_sign_def scalar_def Let_def split: option.splits)
qed

lemma render_scalar:
  assumes tx: "texts_ok tx" and names: "list_all (\<lambda>r. list_all scalar (pipeline_name r)) rs"
  shows "list_all scalar (render_markdown tx w rs)"
proof -
  have m: "list_all scalar (millis tx v)" "list_all scalar (host_line tx)" for v using tx by (simp_all add: texts_ok_def)
  have r: "list_all (list_all scalar) (map table_row rs)"
    using names row_scalar by (auto simp: list_all_iff [of "list_all scalar"] list_all_iff [of "\<lambda>r. list_all scalar (pipeline_name r)"])
  have n: "scalar 10" "scalar 0xB7" "scalar 0x2192" by (simp_all add: scalar_def)
  have h: "list_all (list_all scalar) table_head" by (simp add: table_head_def scalars)
  show ?thesis
    unfolding render_markdown_def
    by (rule py_join_all) (simp_all add: m r n h tx scalars landing_scalar)
qed

end
