(* ===== verification/Write_Pairs.thy ===== *)
theory Write_Pairs
  imports File_Checks
begin

text \<open>
  When a write goes through, as a property of the tree alone, and what follows for the scripts'
  pattern: check both output paths, compare them, do the work, then write both.
\<close>

section \<open>Ready to be written\<close>

definition ready :: "env \<Rightarrow> fs \<Rightarrow> path \<Rightarrow> path \<Rightarrow> bool" where
  "ready env s p k \<longleftrightarrow>
     namei (fold_name env) s True p = Inr k \<and> \<not> is_dir_at s k \<and> parent_writable env s k \<and>
     (case look s k of None \<Rightarrow> True | Some nd \<Rightarrow> writable env (mode_at s nd))"

text \<open>\<open>secrets.token_hex(4)\<close>, and no file around that has the name of a temp file.\<close>

definition hex_tokens :: "env \<Rightarrow> bool" where
  "hex_tokens env \<longleftrightarrow> (\<forall>n. length (tokens env n) = 8 \<and> list_all (\<lambda>c. 0 < c \<and> c < 0x80) (tokens env n))"

definition temp_like :: "env \<Rightarrow> path \<Rightarrow> bool" where
  "temp_like env k \<longleftrightarrow> k \<noteq> [] \<and> (\<exists>n base. last k = fold_name env (temp_name base (tokens env n)))"

definition no_temps :: "env \<Rightarrow> fs \<Rightarrow> bool" where
  "no_temps env s \<longleftrightarrow> (\<forall>k. temp_like env k \<longrightarrow> look s k = None)"

lemma refuses_ready:
  "lands env s (Some k) t \<Longrightarrow>
     refuses env t s \<longleftrightarrow> \<not> (case look s k of None \<Rightarrow> True | Some nd \<Rightarrow> writable env (mode_at s nd))"
  by (auto simp: lands_def refuses_def stat_at_def split: option.splits)

text \<open>The directory of a target that is no directory.\<close>

lemma target_parent:
  assumes ok: "fs_ok s" and t: "namei nf s False t = Inr k" and nd: "\<not> is_dir_at s k"
  shows "t \<noteq> [] \<and> (\<exists>d. walks nf s True 40 [] (butlast t) d \<and> is_dir_at s d \<and> k = d @ [nf (last t)])"
proof -
  have w: "walks nf s False 40 [] t k" using t by (simp add: namei_walks)
  have root: "is_dir_at s []" using fs_okD(1) [OF ok] .
  have "t \<noteq> []" using w(1) nd root by (auto elim: walks.cases)
  then have t': "t = butlast t @ [last t]" by simp
  have "last t \<noteq> dotdot"
  proof
    assume "last t = dotdot"
    then have t'': "t = butlast t @ [dotdot]" using t' by simp
    then obtain m d where d: "is_dir_at s d" "walks nf s False m d [dotdot] k"
      using walks_append [OF ok, of nf False 40 "[]" "butlast t" "[dotdot]" k] w(1) root by auto
    from d(2) have "k = butlast d" by cases (auto elim: walks.cases)
    then show False using is_dir_butlast [OF ok d(1)] nd by simp
  qed
  then show ?thesis using walks_snoc [OF ok] w(1) t' \<open>t \<noteq> []\<close> by metis
qed

lemma walks_new_leaf:
  "walks nf s True n cur xs d \<Longrightarrow> is_dir_at s d \<Longrightarrow> c \<noteq> dotdot \<Longrightarrow> \<not> too_long c \<Longrightarrow>
     look s (d @ [nf c]) = None \<Longrightarrow> walks nf s False n cur (xs @ [c]) (d @ [nf c])"
proof (induction rule: walks.induct)
  case (link c' cur absolute t cs n k)
  then show ?case by (auto intro!: walks.link)
qed (auto intro: walks.intros)

lemma create_temp_total:
  assumes calm: "calm env" and ok: "fs_ok s" and t: "lands env s (Some k) t" and nd: "\<not> is_dir_at s k"
    and pw: "parent_writable env s k" and toks: "hex_tokens env" and free: "no_temps env s" and w: "fs w = s"
  shows "\<exists>x w'. create_temp t env w = (Inr x, w')"
proof -
  have nt: "namei (fold_name env) s False t = Inr k" using t by (simp add: lands_def)
  obtain d where d: "t \<noteq> []" "walks (fold_name env) s True 40 [] (butlast t) d" "is_dir_at s d"
    "k = d @ [fold_name env (last t)]"
    using target_parent [OF ok nt nd] by blast
  have ct: "check_text t = None" using nt by (simp add: namei_walks)
  then have cb: "check_text (butlast t) = None" "check_text [last t] = None"
    using check_text_append [of "butlast t" "[last t]"] d(1) by simp_all
  then obtain bs where "fsencode (file_name t) = Inr bs"
    using d(1) by (auto simp: file_name_def split: sum.splits)
  then obtain n i where n: "cap_base_for_temp (file_name t) = Inr (take n (file_name t))"
    "name_bytes (take n (file_name t)) = Inr i" "i \<le> 200"
    using cap_base_longest unfolding MAX_TEMP_BASE_BYTES_def by blast
  let ?base = "take n (file_name t)" and ?tok = "tokens env (draws w)"
  let ?c = "temp_name ?base ?tok"
  have tok: "length ?tok = 8" "list_all (\<lambda>c. c < 0x80) ?tok" "0 \<notin> set ?tok"
    using toks by (auto simp: hex_tokens_def list_all_iff)
  obtain bs' where b: "fsencode ?base = Inr bs'" "length bs' = i" using n(2) by (auto simp: name_bytes_Inr)
  have e: "fsencode ?c = Inr (lit ''.'' @ bs' @ lit ''.'' @ ?tok @ lit ''.tmp'')"
    by (rule fsencode_temp_name [OF b(1) tok(2)])
  then have long: "\<not> too_long ?c" using b(2) n(3) tok(1) by (simp add: too_long_def name_bytes_def lit_def)
  have "0 \<notin> set (file_name t)" using cb(2) d(1) by (auto simp: file_name_def split: sum.splits if_splits)
  then have "0 \<notin> set ?c" using tok(3) set_take_subset [of n "file_name t"] by (auto simp: temp_name_def lit_def)
  then have ctc: "check_text (butlast t @ [?c]) = None" using cb(1) e by (simp add: check_text_append)
  let ?k = "d @ [fold_name env ?c]"
  have "temp_like env ?k" unfolding temp_like_def by auto
  then have none: "look s ?k = None" using free by (simp add: no_temps_def)
  have "walks (fold_name env) s False 40 [] (butlast t @ [?c]) ?k"
    by (rule walks_new_leaf [OF d(2,3) temp_name_dotdot long none])
  then have ni: "namei (fold_name env) s False (butlast t @ [?c]) = Inr ?k" using ctc by (simp add: namei_walks)
  have "parent_writable env s ?k" using pw d(4) by (simp add: parent_writable_def)
  then have "total env (\<lambda>s'. s' = s) (os_open_excl (butlast t @ [?c]) 0x1B6)"
    unfolding os_open_excl_def
    by (intro total_os_call [OF calm]) (use ni none in \<open>simp add: make_entry_def Let_def\<close>)
  then obtain fd w1 where o: "os_open_excl (butlast t @ [?c]) 0x1B6 env (w\<lparr>draws := Suc (draws w)\<rparr>) = (Inr fd, w1)"
    using totalD [of env _ _ "w\<lparr>draws := Suc (draws w)\<rparr>"] w by fastforce
  then show ?thesis
    using n(1)
    by (simp add: create_temp_def TEMP_ATTEMPTS_def temp_loop_first seq_def handle_def ret_def draw_token_def)
qed

section \<open>Ready, checked and written are the same\<close>

text \<open>Looking a path up that leads somewhere does not fail.\<close>

lemma resolve_total:
  assumes calm: "calm env" and ok: "fs_ok s0" and p: "namei (fold_name env) s0 True p = Inr k"
  shows "total env (\<lambda>s. s = s0) (resolve_symlinked_target p)"
proof -
  have nf: "\<exists>k'. namei (fold_name env) s0 False p = Inr k'"
    using walks_nofollow [of "fold_name env" s0 40 "[]" p k] p by (auto simp: namei_walks)
  have sym: "total env (\<lambda>s. s = s0) (path_is_symlink p)"
    unfolding total_def
  proof (intro allI impI)
    fix w :: world assume w: "fs w = s0"
    show "\<exists>x w'. path_is_symlink p env w = (Inr x, w')"
      using nf calm w
      by (auto simp: path_is_symlink_def os_lstat_def os_query_def os_call_def calm_def handle_def seq_def ret_def
          stat_at_def path_ignores_def ENOENT_def Let_def split: option.splits)
  qed
  have real: "total env (\<lambda>s. s = s0) (os_realpath p)"
    unfolding os_realpath_def
    by (intro total_handle total_os_query [OF calm]) (use p in \<open>simp add: namei_walks\<close>)
  have "spec env (\<lambda>_. True) (\<lambda>s. s = s0) (path_is_symlink p) (\<lambda>_ s. s = s0) (\<lambda>_ _. True)"
    by (rule spec_weaken [OF spec_is_symlink]) auto
  then show ?thesis
    unfolding resolve_symlinked_target_def
    by (rule total_seq [OF _ sym]) (use real in \<open>auto simp: total_ret\<close>)
qed

lemma resolve_calm:
  assumes "calm env" and "fs_ok (fs w)" and "namei (fold_name env) (fs w) True p = Inr k"
  obtains t u where "resolve_symlinked_target p env w = (Inr t, u)" and "fs u = fs w"
    and "lands env (fs w) (Some k) t"
proof -
  obtain t u where u: "resolve_symlinked_target p env w = (Inr t, u)"
    using totalD [OF resolve_total [OF assms] refl] by blast
  have ko: "known_key env (fs w) p = Some k" using calm_quiet [OF assms(1)] assms(3) by (simp add: known_key_def)
  show ?thesis
    using that [OF u] specD(2) [OF spec_resolve [where G = "\<lambda>_. True", OF TrueI assms(2)] u refl refl] ko by simp
qed

lemma write_ready:
  assumes calm: "calm env" and ok: "fs_ok (fs w)" and r: "ready env (fs w) p k"
    and toks: "hex_tokens env" and free: "no_temps env (fs w)"
    and enc: "codecs env enc = Inr encode" "encode txt = Inr bs"
  shows "fst (atomic_write_text p txt enc env w) = Inr ()"
proof -
  have k: "namei (fold_name env) (fs w) True p = Inr k" and nd: "\<not> is_dir_at (fs w) k"
    and pw: "parent_writable env (fs w) k" using r by (simp_all add: ready_def)
  obtain t u where u: "resolve_symlinked_target p env w = (Inr t, u)" "fs u = fs w" "lands env (fs w) (Some k) t"
    using resolve_calm [OF calm ok k] by blast
  have nr: "\<not> refuses env t (fs w)" using r refuses_ready [OF u(3)] by (simp add: ready_def)
  let ?m = "seq (create_temp t) (\<lambda>(fd, tmp). write_end t txt enc fd tmp)"
  obtain u' where u': "fs u' = fs w" "atomic_write_text p txt enc env w = ?m env u'"
    using shared_stage [OF calm ok u(3,2), of ?m] nr u(1) by (auto simp: write_from_target seq_def)
  obtain fd tmp u1 where c: "create_temp t env u' = (Inr (fd, tmp), u1)"
    using create_temp_total [OF calm ok u(3) nd pw toks free u'(1)] by auto
  have "before_temp (fs w) (Some k) (fs u')" using u'(1) ok by (simp add: before_temp_def changed_refl)
  then have T: "temp_state env (fs w) (Some k) t tmp fd (\<lambda>i. content i = [] \<and> perm i = new_perm env) (fs u1)"
    using specD(2) [OF spec_create_temp [OF calm_signals [OF calm], of "fs w" "Some k" t] c] by simp
  obtain u2 where "write_end t txt enc fd tmp env u1 = (Inr (), u2)"
    using totalD [OF total_write_end [OF calm ok u(3) nd enc] T] by auto
  then show ?thesis using u'(2) c by (simp add: seq_def)
qed

lemma check_ready:
  assumes calm: "calm env" and ok: "fs_ok (fs w)" and k: "namei (fold_name env) (fs w) True p = Inr k"
    and c: "check_writable p env w = (Inr (), w')"
  shows "ready env (fs w) p k \<and> kept (fs w) (fs w')"
proof -
  obtain t u where u: "resolve_symlinked_target p env w = (Inr t, u)" "fs u = fs w" "lands env (fs w) (Some k) t"
    using resolve_calm [OF calm ok k] by blast
  have kt: "namei (fold_name env) (fs w) True t = Inr k" using u(3) by (simp add: lands_def)
  obtain d v where v: "path_is_dir t env u = (d, v)" by (cases "path_is_dir t env u")
  note dir = specD [OF calm_path_is_dir [OF calm kt] v u(2)]
  have d: "d = Inr (is_dir_at (fs w) k)" and fv: "fs v = fs w" using dir(2,3) by (cases d; auto)+
  have nd: "\<not> is_dir_at (fs w) k" using c u(1) v d by (auto simp: check_writable_def seq_def fail_def)
  let ?m = "seq (create_temp t) (\<lambda>(fd, tmp). seq (os_close fd) (\<lambda>_. os_unlink tmp))"
  have C: "check_writable p env w = seq (refuse_unwritable_target t) (\<lambda>_.
      seq (mkdir_parents (rev (butlast t))) (\<lambda>_. ?m)) env v"
    using u(1) v d nd by (simp add: check_writable_def seq_def)
  have nr: "\<not> refuses env t (fs w)" using shared_stage [OF calm ok u(3) fv, of ?m] c C by (auto split: if_splits)
  then obtain v' where v': "fs v' = fs w" "?m env v' = (Inr (), w')"
    using shared_stage [OF calm ok u(3) fv, of ?m] c C by auto
  then obtain fd tmp v1 where cr: "create_temp t env v' = (Inr (fd, tmp), v1)"
    and e: "seq (os_close fd) (\<lambda>_. os_unlink tmp) env v1 = (Inr (), w')"
    by (auto simp: seq_def split: prod.splits sum.splits)
  have "before_temp (fs w) (Some k) (fs v')" using v'(1) ok by (simp add: before_temp_def changed_refl)
  then have T: "temp_state env (fs w) (Some k) t tmp fd (\<lambda>i. content i = [] \<and> perm i = new_perm env) (fs v1)"
    using specD(2) [OF spec_create_temp [OF calm_signals [OF calm], of "fs w" "Some k" t] cr] by simp
  then obtain tk where tk: "temp_at env (fs w) (Some k) t tmp fd tk (fs v1)" by (auto simp: temp_state_def)
  note D = temp_atD [OF tk]
  have pw1: "parent_writable env (fs v1) k"
  proof (rule temp_at_parent [OF tk])
    show "namei (fold_name env) (fs v1) False t = Inr k" using temp_at_target(1) [OF tk ok u(3) refl] .
    show "\<not> is_dir_at (fs v1) k" using temp_at_target(2) [OF tk ok u(3) refl] nd by (simp add: is_dir_at_def)
  qed
  then have "butlast k \<noteq> tk" using D(4) by (auto simp: parent_writable_def)
  then have "parent_writable env (fs w) k" using pw1 D(8) by (simp add: parent_writable_def)
  then show ?thesis
    using k nd nr refuses_ready [OF u(3)] specD(2) [OF spec_check_end e T refl] by (simp add: ready_def)
qed

section \<open>Ready stays ready\<close>

lemma kept_namei: "kept s s' \<Longrightarrow> namei nf s fl p = Inr k \<Longrightarrow> namei nf s' fl p = Inr k"
  by (rule namei_files [where s = s]) (simp_all add: kept_def)

lemma mode_at_old:
  assumes "fs_ok s" and "take (length (inodes s)) (inodes s') = inodes s" and "look s k = Some nd"
  shows "mode_at s' nd = mode_at s nd"
proof -
  have "inodes s' ! i = inodes s ! i" if "i < length (inodes s)" for i
    using assms(2) that by (metis nth_take)
  then show ?thesis using fs_okD(3) [OF assms(1), of k] assms(3) by (auto simp: mode_at_def split: node.split)
qed

lemma ready_kept:
  assumes "fs_ok s" and "ready env s p k" and "kept s s'"
  shows "ready env s' p k"
  using assms kept_namei [OF assms(3), of "fold_name env" True p k] mode_at_old [OF assms(1), of s' k]
  by (auto simp: ready_def kept_def is_dir_at_def parent_writable_def split: option.splits)

lemma no_temps_kept: "no_temps env s \<Longrightarrow> kept s s' \<Longrightarrow> no_temps env s'"
  by (simp add: no_temps_def kept_def)

lemma kept_file_at: "fs_ok s \<Longrightarrow> kept s s' \<Longrightarrow> file_at s' = file_at s"
  using fs_okD(3) [of s] kept_inode [of s s']
  by (fastforce simp: file_at_def kept_def fun_eq_iff split: option.splits node.splits)

lemma ready_replaced:
  assumes ok: "fs_ok s" and a: "ready env s pa ka" and r: "replaced s (Some ka) fd bs k s'"
    and b: "ready env s p kb" and ne: "kb \<noteq> ka"
  shows "ready env s' p kb"
proof -
  have k: "k = ka" and c: "changed s {ka} s'" and new: "look s' ka = Some (File fd)"
    and old: "\<And>k. k \<noteq> ka \<Longrightarrow> look s' k = look s k"
    using r by (auto simp: replaced_def)
  have na: "\<not> is_dir_at s ka" "\<not> is_link_at s ka"
    using a namei_no_link [OF ok] by (auto simp: ready_def)
  have "namei (fold_name env) s' True p = Inr kb"
  proof (rule namei_files)
    show "namei (fold_name env) s True p = Inr kb" using b by (simp add: ready_def)
    show "look s' x = look s x \<or> \<not> is_dir_at s x \<and> \<not> is_link_at s x \<and> \<not> is_link_at s' x" for x
      using old na new by (cases "x = ka") auto
  qed
  moreover have "butlast kb \<noteq> ka"
    using b na(1) by (auto simp: ready_def parent_writable_def is_dir_at_def split: option.splits node.splits)
  ultimately show ?thesis
    using b old [OF ne] old mode_at_old [OF ok changedD(3) [OF c], of kb]
    by (auto simp: ready_def is_dir_at_def parent_writable_def split: option.splits)
qed

text \<open>A write to a place that is ready.\<close>

lemma write_done:
  assumes calm: "calm env" and ok: "fs_ok (fs w)" and r: "ready env (fs w) p k"
    and toks: "hex_tokens env" and free: "no_temps env (fs w)"
    and enc: "codecs env enc = Inr encode" "encode txt = Inr bs"
  obtains w' fd where "atomic_write_text p txt enc env w = (Inr (), w')"
    and "replaced (fs w) (Some k) fd bs k (fs w')" and "fs_ok (fs w')"
    and "file_at (fs w') = (file_at (fs w))(k \<mapsto> bs)"
proof -
  have k: "namei (fold_name env) (fs w) True p = Inr k" using r by (simp add: ready_def)
  have ko: "known_key env (fs w) p = Some k" using calm_quiet [OF calm] k by (simp add: known_key_def)
  obtain w' where w': "atomic_write_text p txt enc env w = (Inr (), w')"
    using write_ready [OF assms] by (cases "atomic_write_text p txt enc env w") auto
  from specD(2) [OF spec_atomic_write [OF ko [symmetric] ok calm_signals [OF calm]] w' refl refl]
  obtain fd k' encode' bs' where f: "codecs env enc = Inr encode'" "encode' txt = Inr bs'"
    "replaced (fs w) (Some k) fd bs' k' (fs w')" by blast
  then have rep: "replaced (fs w) (Some k) fd bs k (fs w')" using enc by (auto simp: replaced_def)
  have "file_at (fs w') = (file_at (fs w))(k \<mapsto> bs)"
    using write_updates_files [OF ok calm_signals [OF calm] calm_quiet [OF calm] calm_clean [OF calm] k enc w'] by simp
  then show ?thesis using that w' rep changedD(1) by (auto simp: replaced_def)
qed

section \<open>Two outputs\<close>

definition check_both :: "path \<Rightarrow> path \<Rightarrow> bool op" where
  "check_both a b = seq (check_writable a) (\<lambda>_. seq (check_writable b) (\<lambda>_. same_file a b))"

lemma check_keeps:
  assumes "calm env" and "fs_ok (fs w)" and "namei (fold_name env) (fs w) True p = Inr k"
    and "codecs env enc = Inr encode" and "encode txt = Inr bs"
    and "check_writable p env w = (r, w')"
  shows "kept (fs w) (fs w')"
  using check_and_write [OF assms(2,1,3-5)] assms(6) by simp

lemma check_both_result:
  assumes calm: "calm env" and ok: "fs_ok (fs w)"
    and ka: "namei (fold_name env) (fs w) True a = Inr ka" and kb: "namei (fold_name env) (fs w) True b = Inr kb"
    and enc: "codecs env enc = Inr encode" "encode txt = Inr bs"
    and c: "check_both a b env w = (r, w')"
  shows "kept (fs w) (fs w') \<and>
    (r = Inr False \<longrightarrow> ready env (fs w') a ka \<and> ready env (fs w') b kb \<and> \<not> one_file (fs w') ka kb)"
proof -
  obtain r1 w1 where c1: "check_writable a env w = (r1, w1)" by (cases "check_writable a env w")
  have k1: "kept (fs w) (fs w1)" using check_keeps [OF calm ok ka enc c1] .
  show ?thesis
  proof (cases r1)
    case (Inl e)
    then show ?thesis using c c1 k1 by (auto simp: check_both_def seq_def)
  next
    case (Inr u)
    then have ra: "ready env (fs w) a ka" using check_ready [OF calm ok ka, of w1] c1 by simp
    have ok1: "fs_ok (fs w1)" using kept_ok [OF ok k1] .
    obtain r2 w2 where c2: "check_writable b env w1 = (r2, w2)" by (cases "check_writable b env w1")
    have kb1: "namei (fold_name env) (fs w1) True b = Inr kb" using kept_namei [OF k1 kb] .
    have k2: "kept (fs w1) (fs w2)" using check_keeps [OF calm ok1 kb1 enc c2] .
    show ?thesis
    proof (cases r2)
      case (Inl e)
      then show ?thesis using c c1 c2 Inr kept_trans [OF k1 k2] by (auto simp: check_both_def seq_def)
    next
      case (Inr u')
      then have rb: "ready env (fs w1) b kb" using check_ready [OF calm ok1 kb1, of w2] c2 by simp
      have k02: "kept (fs w) (fs w2)" using kept_trans [OF k1 k2] .
      note ok2 = kept_ok [OF ok k02]
      have f: "same_file a b env w2 = (r, w')" using c c1 c2 \<open>r1 = Inr u\<close> Inr by (simp add: check_both_def seq_def)
      note d = specD [OF spec_same_file [OF calm ok2 kept_namei [OF k02 ka] kept_namei [OF k02 kb]] f refl]
      have k3: "kept (fs w2) (fs w')" using d(2,3) by (cases r) auto
      have "\<not> one_file (fs w') ka kb" if "r = Inr False"
        using d(2) [OF that] by (simp add: one_file_def kept_def)
      moreover have "ready env (fs w') a ka" using ready_kept [OF ok ra] kept_trans [OF k02 k3] .
      moreover have "ready env (fs w') b kb" using ready_kept [OF ok1 rb] kept_trans [OF k2 k3] .
      ultimately show ?thesis using kept_trans [OF k02 k3] by blast
    qed
  qed
qed

text \<open>What the checks find is what was there before them.\<close>

lemma ready_was:
  assumes "fs_ok s" and "kept s s'" and "namei (fold_name env) s True p = Inr k" and "ready env s' p k"
  shows "ready env s p k"
  using assms mode_at_old [OF assms(1), of s' k]
  by (auto simp: ready_def kept_def is_dir_at_def parent_writable_def split: option.splits)

lemma one_file_kept: "kept s s' \<Longrightarrow> one_file s' ka kb = one_file s ka kb"
  by (simp add: one_file_def kept_def)

lemma check_both_ready:
  assumes calm: "calm env" and ok: "fs_ok (fs w)" and toks: "hex_tokens env" and free: "no_temps env (fs w)"
    and a: "ready env (fs w) a ka" and b: "ready env (fs w) b kb"
    and enc: "codecs env enc = Inr encode" "encode txt = Inr bs"
  obtains w' where "check_both a b env w = (Inr (one_file (fs w) ka kb), w')"
proof -
  have ka: "namei (fold_name env) (fs w) True a = Inr ka" and kb: "namei (fold_name env) (fs w) True b = Inr kb"
    using a b by (simp_all add: ready_def)
  obtain w1 where w1: "check_writable a env w = (Inr (), w1)"
    using check_and_write [OF ok calm ka enc] write_ready [OF calm ok a toks free enc]
    by (cases "check_writable a env w") auto
  have k1: "kept (fs w) (fs w1)" using check_keeps [OF calm ok ka enc w1] .
  note ok1 = kept_ok [OF ok k1] and a1 = ready_kept [OF ok a k1] and b1 = ready_kept [OF ok b k1]
  note kb1 = kept_namei [OF k1 kb]
  obtain w2 where w2: "check_writable b env w1 = (Inr (), w2)"
    using check_and_write [OF ok1 calm kb1 enc] write_ready [OF calm ok1 b1 toks no_temps_kept [OF free k1] enc]
    by (cases "check_writable b env w1") auto
  have k2: "kept (fs w1) (fs w2)" using check_keeps [OF calm ok1 kb1 enc w2] .
  note k = kept_trans [OF k1 k2]
  note ok2 = kept_ok [OF ok k]
  obtain r w' where f: "same_file a b env w2 = (r, w')" by (cases "same_file a b env w2")
  note d = specD [OF spec_same_file [OF calm ok2 kept_namei [OF k ka] kept_namei [OF k kb]] f refl]
  have "parent_writable env (fs w2) ka" using ready_kept [OF ok a k] by (simp add: ready_def)
  then have "r = Inr (one_file (fs w) ka kb)" using d(2,3) one_file_kept [OF k] by (cases r) auto
  then show ?thesis using that w1 w2 f by (simp add: check_both_def seq_def)
qed

text \<open>After the checks, both writes go through, and both texts are there.\<close>

lemma write_both:
  assumes calm: "calm env" and ok: "fs_ok (fs w)" and toks: "hex_tokens env"
    and free: "no_temps env (fs w)" "\<not> temp_like env ka"
    and a: "ready env (fs w) a ka" and b: "ready env (fs w) b kb" and ne: "ka \<noteq> kb"
    and enc: "codecs env enc = Inr encode" "encode ta = Inr bsa" "encode tb = Inr bsb"
  obtains w1 w2 where "atomic_write_text a ta enc env w = (Inr (), w1)"
    and "atomic_write_text b tb enc env w1 = (Inr (), w2)"
    and "file_at (fs w2) = (file_at (fs w))(ka \<mapsto> bsa, kb \<mapsto> bsb)"
proof -
  obtain w1 fd where w1: "atomic_write_text a ta enc env w = (Inr (), w1)"
    "replaced (fs w) (Some ka) fd bsa ka (fs w1)" "fs_ok (fs w1)"
    "file_at (fs w1) = (file_at (fs w))(ka \<mapsto> bsa)"
    using write_done [OF calm ok a toks free(1) enc(1,2)] by blast
  have b1: "ready env (fs w1) b kb" using ready_replaced [OF ok a w1(2) b] ne by simp
  have free1: "no_temps env (fs w1)"
    using free w1(2) by (auto simp: no_temps_def replaced_def)
  obtain w2 fd2 where "atomic_write_text b tb enc env w1 = (Inr (), w2)"
    "file_at (fs w2) = (file_at (fs w1))(kb \<mapsto> bsb)"
    using write_done [OF calm w1(3) b1 toks free1 enc(1,3)] by blast
  then show ?thesis using that w1(1,4) by simp
qed

end
