(* ===== verification/Command.thy ===== *)
theory Command
  imports Write_Pairs Json
begin

text \<open>
  What the two benchmark scripts share: arguments that name paths, exit code 2 for an
  \<open>OSError\<close>, and the order of a command, checks before the run and writes after it.
\<close>

section \<open>The code\<close>

text \<open>\<open>Path(s)\<close>: its parts, and where it is, seen from the working directory.\<close>

definition path_parts :: "pystr \<Rightarrow> path" where
  "path_parts s = filter (\<lambda>c. c \<noteq> [] \<and> c \<noteq> [46]) (split_char 47 s)"

definition path_of :: "path \<Rightarrow> pystr \<Rightarrow> path" where
  "path_of cwd s =
     (case s of c # _ \<Rightarrow> if c = 47 then path_parts s else cwd @ path_parts s | [] \<Rightarrow> cwd)"

text \<open>\<open>except OSError\<close>: exit code 2.\<close>

definition or_exit_2 :: "(nat + 'a) op \<Rightarrow> (nat + 'a) op" where
  "or_exit_2 m = handle m (\<lambda>e. if is_OSError e then ret (Inl 2) else fail e)"

text \<open>The text of \<open>print(f"... {display_path(p)}")\<close> can be made, or raises.\<close>

definition shown :: "path \<Rightarrow> unit op" where
  "shown p = (case display_path (py_join [47] p) of Inl e \<Rightarrow> fail e | Inr _ \<Rightarrow> ret ())"

text \<open>
  The checks give an exit code or go on; then the run, which raises, returns, or has not come to its
  end (\<open>None\<close>); then the writes.
\<close>

definition command :: "(nat + 'x) op \<Rightarrow> (exc + 'r) option \<Rightarrow> ('x \<Rightarrow> 'r \<Rightarrow> (nat + unit) op) \<Rightarrow> nat option op" where
  "command checks outcome writes =
     seq checks (\<lambda>go.
       case go of
         Inl code \<Rightarrow> ret (Some code)
       | Inr x \<Rightarrow>
           (case outcome of
              None \<Rightarrow> ret None
            | Some (Inl e) \<Rightarrow> fail e
            | Some (Inr r) \<Rightarrow>
                seq (writes x r) (\<lambda>done. ret (Some (case done of Inl code \<Rightarrow> code | Inr _ \<Rightarrow> 0)))))"

text \<open>\<open>a and then b\<close>, with exceptions and with a run that has not come to its end.\<close>

fun and_then :: "(exc + 'a) option \<Rightarrow> ('a \<Rightarrow> (exc + 'b) option) \<Rightarrow> (exc + 'b) option" where
  "and_then None f = None"
| "and_then (Some (Inl e)) f = Some (Inl e)"
| "and_then (Some (Inr x)) f = f x"

section \<open>Lemmas\<close>

lemma and_then_Inr: "and_then m f = Some (Inr y) \<longleftrightarrow> (\<exists>x. m = Some (Inr x) \<and> f x = Some (Inr y))"
  by (cases m; cases "the m") auto

lemma fsencode_join: "check_text p = None \<Longrightarrow> \<exists>bs. fsencode (py_join [47] p) = Inr bs"
proof (induction "[47 :: nat]" p rule: py_join.induct)
  case (2 x)
  then show ?case by (simp split: sum.splits)
next
  case (3 x y zs)
  have "check_text [x] = None" "check_text (y # zs) = None"
    using "3.prems" check_text_append [of "[x]" "y # zs"] by simp_all
  moreover have "scalar 47" by (simp add: scalar_def)
  ultimately show ?case using "3.hyps" by (auto simp: fsencode_append split: sum.splits)
qed simp

lemma shown_total: "namei nf s fl p = Inr k \<Longrightarrow> shown p env w = (Inr (), w)"
  using fsencode_join [of p] by (auto simp: namei_walks shown_def display_path_def ret_def)

lemma or_exit_2_Inr: "m env w = (Inr x, w') \<Longrightarrow> or_exit_2 m env w = (Inr x, w')"
  by (simp add: or_exit_2_def handle_def)

lemma or_exit_2_seq: "m env w = (Inr x, w') \<Longrightarrow> or_exit_2 (seq m f) env w = or_exit_2 (f x) env w'"
  by (simp add: or_exit_2_def handle_def seq_def)

lemma utf8_ascii: "list_all ascii t \<Longrightarrow> list_all scalar t \<and> concat (map utf8_char t) = t"
  by (induction t) (auto simp: ascii_def scalar_def utf8_char_def)

lemma utf8_keeps_ascii:
  "(\<And>t. list_all scalar t \<Longrightarrow> encode t = Inr (concat (map utf8_char t))) \<Longrightarrow> list_all ascii t \<Longrightarrow> encode t = Inr t"
  using utf8_ascii by metis

text \<open>The checks of two outputs.\<close>

lemma checked_pair:
  assumes calm: "calm env" and ok: "fs_ok (fs w)" and toks: "hex_tokens env" and free: "no_temps env (fs w)"
    and a: "namei (fold_name env) (fs w) True a = Inr ka" and b: "namei (fold_name env) (fs w) True b = Inr kb"
    and enc: "codecs env enc = Inr encode" "encode t = Inr bs"
    and o: "or_exit_2 (seq (check_both a b) (\<lambda>same. if same then ret (Inl 2) else ret (Inr x))) env w = (g, w')"
  shows "kept (fs w) (fs w') \<and>
    (if ready env (fs w) a ka \<and> ready env (fs w) b kb \<and> \<not> one_file (fs w) ka kb
     then g = Inr (Inr x)
     else (case g of Inl _ \<Rightarrow> True | Inr (Inl code) \<Rightarrow> code = 2 | Inr (Inr _) \<Rightarrow> False))"
proof -
  obtain c w1 where c: "check_both a b env w = (c, w1)" by (cases "check_both a b env w")
  note C = check_both_result [OF calm ok a b enc c]
  have k: "kept (fs w) (fs w')" and g: "g = (case c of Inl e \<Rightarrow> (if is_OSError e then Inr (Inl 2) else Inl e)
      | Inr same \<Rightarrow> if same then Inr (Inl 2) else Inr (Inr x))"
    using o c C by (auto simp: or_exit_2_def handle_def seq_def ret_def fail_def split: sum.splits if_splits)
  show ?thesis
  proof (cases "ready env (fs w) a ka \<and> ready env (fs w) b kb \<and> \<not> one_file (fs w) ka kb")
    case True
    then have "c = Inr False"
      using check_both_ready [OF calm ok toks free, of a ka b kb enc encode t bs] enc c by fastforce
    then show ?thesis using True k g by simp
  next
    case False
    have "c \<noteq> Inr False"
    proof
      assume c: "c = Inr False"
      have kw: "kept (fs w) (fs w1)" using C by blast
      have "ready env (fs w1) a ka" "ready env (fs w1) b kb" "\<not> one_file (fs w1) ka kb" using C c by blast+
      then show False using False ready_was [OF ok kw a] ready_was [OF ok kw b] one_file_kept [OF kw] by blast
    qed
    then show ?thesis using False k g by (auto split: sum.splits if_splits)
  qed
qed

text \<open>A command whose checks pass exactly when \<open>C\<close>, and whose writes then go through.\<close>

lemma command_contract:
  assumes ok: "fs_ok (fs w)" and go: "checks env w = (g, w1)"
    and g: "kept (fs w) (fs w1) \<and>
      (if C then g = Inr (Inr x) else (case g of Inl _ \<Rightarrow> True | Inr (Inl code) \<Rightarrow> code = 2 | Inr (Inr _) \<Rightarrow> False))"
    and wr: "\<And>r. C \<Longrightarrow> outcome = Some (Inr r) \<Longrightarrow> \<exists>w'. writes x r env w1 = (Inr (Inr ()), w') \<and> Q r w'"
  shows "if C
    then \<exists>w'. (case outcome of
        None \<Rightarrow> command checks outcome writes env w = (Inr None, w') \<and> file_at (fs w') = file_at (fs w)
      | Some (Inl e) \<Rightarrow> command checks outcome writes env w = (Inl e, w') \<and> file_at (fs w') = file_at (fs w)
      | Some (Inr r) \<Rightarrow> command checks outcome writes env w = (Inr (Some 0), w') \<and> Q r w')
    else \<exists>r w'. r \<noteq> Inr (Some 0) \<and> file_at (fs w') = file_at (fs w) \<and>
      (\<forall>outcome'. command checks outcome' writes env w = (r, w'))"
proof -
  have same: "file_at (fs w1) = file_at (fs w)" using kept_file_at [OF ok] g by blast
  note run = command_def seq_def go ret_def fail_def
  show ?thesis
  proof (cases C)
    case False
    then have "\<forall>outcome'. command checks outcome' writes env w =
        (case g of Inl e \<Rightarrow> Inl e | Inr _ \<Rightarrow> Inr (Some 2), w1)"
      using g by (auto simp: run split: sum.splits)
    moreover have "(case g of Inl e \<Rightarrow> Inl e | Inr _ \<Rightarrow> Inr (Some (2 :: nat))) \<noteq> Inr (Some 0)" by (cases g) auto
    ultimately show ?thesis using same False by auto
  next
    case True
    then have go': "g = Inr (Inr x)" using g by simp
    show ?thesis
    proof (cases "\<exists>r. outcome = Some (Inr r)")
      case False
      then show ?thesis using True go' same by (auto simp: run split: option.splits sum.splits)
    next
      case returned: True
      then obtain r where r: "outcome = Some (Inr r)" by blast
      obtain w' where "writes x r env w1 = (Inr (Inr ()), w')" "Q r w'" using wr [OF True r] by blast
      then show ?thesis using True go' r by (auto simp: run)
    qed
  qed
qed

section \<open>An example\<close>

text \<open>Two outputs side by side in the small machine's directory.\<close>

lemma calm_env_tokens: "hex_tokens calm_env"
  by (simp add: hex_tokens_def calm_env_def env_with_def lit_def)

lemma small_no_temps: "no_temps calm_env small_fs"
proof -
  have "look small_fs k = None" if "temp_like calm_env k" for k
  proof -
    have "k \<noteq> [] \<and> (\<exists>b. last k = temp_name b (lit ''01234567''))"
      using that by (simp add: temp_like_def calm_env_def env_with_def)
    then obtain b where "k \<noteq> []" "last k = temp_name b (lit ''01234567'')" by blast
    then have "2 < length (last k)" "k \<noteq> []" by (simp_all add: temp_name_def lit_def)
    then show ?thesis by (auto simp: look_small lit_def)
  qed
  then show ?thesis by (simp add: no_temps_def)
qed

lemma small_out_keys:
  "namei (fold_name calm_env) small_fs True [lit ''d'', lit ''x.md''] = Inr [lit ''d'', lit ''x.md'']"
  "namei (fold_name calm_env) small_fs True [lit ''d'', lit ''x.json''] = Inr [lit ''d'', lit ''x.json'']"
  by (simp_all add: calm_env_def run_file cong: run_congs)

lemma small_out_ready:
  "ready calm_env small_fs [lit ''d'', lit ''x.md''] [lit ''d'', lit ''x.md'']"
  "ready calm_env small_fs [lit ''d'', lit ''x.json''] [lit ''d'', lit ''x.json'']"
proof -
  have "parent_writable calm_env small_fs [lit ''d'', c]" for c
    by (simp add: calm_env_def run_file cong: run_congs)
  then show "ready calm_env small_fs [lit ''d'', lit ''x.md''] [lit ''d'', lit ''x.md'']"
    "ready calm_env small_fs [lit ''d'', lit ''x.json''] [lit ''d'', lit ''x.json'']"
    using small_out_keys by (simp_all add: ready_def is_dir_at_def look_small) (simp_all add: lit_def)
qed

lemma small_out_free:
  "\<not> temp_like calm_env [lit ''d'', lit ''x.md'']" "codecs calm_env ''utf-8'' = Inr fsencode"
  "\<not> one_file small_fs [lit ''d'', lit ''x.md''] [lit ''d'', lit ''x.json'']"
proof -
  show "\<not> temp_like calm_env [lit ''d'', lit ''x.md'']"
    by (auto simp: temp_like_def temp_name_def lit_def calm_env_def env_with_def)
  show "codecs calm_env ''utf-8'' = Inr fsencode" by (simp add: calm_env_def env_with_def)
  show "\<not> one_file small_fs [lit ''d'', lit ''x.md''] [lit ''d'', lit ''x.json'']"
    by (simp add: one_file_def look_small) (simp add: lit_def)
qed

end
