(* ===== verification/Bench_Main.thy ===== *)
theory Bench_Main
  imports Bench_Report Command
begin

text \<open>
  \<open>scripts/bench_1000_doc.py\<close> from its parsed arguments to its exit code: the three pipelines on
  one set of documents, the checks of both output paths before the run, and the two writes
  after it. What is printed is not modelled, only that a path is made printable on the way.
\<close>

section \<open>The run\<close>

text \<open>\<open>f"doc-{i:04d}"\<close>.\<close>

definition doc_name :: "nat \<Rightarrow> string" where
  "doc_name i = ''doc-'' @ map char_of (pad_zeros 4 (dec_nat i))"

text \<open>The moments of a run: the clock before and after each pipeline, and the schedules.\<close>

record moments =
  version :: pyver
  main_task :: task
  clocks :: "nat \<Rightarrow> rat \<times> rat"
  async_events :: "unit fevent list"
  batched_events :: "unit fevent list"

definition run_all :: "moments \<Rightarrow> workload \<Rightarrow> (exc + run_result list) option" where
  "run_all m w =
     (let docs = OSequence (map doc_name [0..<n_docs w]);
          latency = llm_call_seconds w
      in and_then (Some (fake_llm_init latency ''llm1-serial'')) (\<lambda>s1.
         and_then (Some (fake_llm_init latency ''llm2-serial'')) (\<lambda>s2.
         and_then (Some (fake_llm_init latency ''llm1-async'')) (\<lambda>a1.
         and_then (Some (fake_llm_init latency ''llm2-async'')) (\<lambda>a2.
         and_then (Some (async_init (PInt (int (w_concurrency w))))) (\<lambda>k.
         and_then (Some (fake_llm_init latency ''llm1-batched'')) (\<lambda>b1.
         and_then (Some (make_batch_caller (Some latency) (Some ''llm1-batched'') latency)) (\<lambda>c1.
         and_then (Some (fake_llm_init latency ''llm2-batched'')) (\<lambda>b2.
         and_then (Some (make_batch_caller (Some latency) (Some ''llm2-batched'') latency)) (\<lambda>c2.
         and_then (Some (batched_init (PInt (int (w_concurrency w))) (PInt (int (w_batch_size w))))) (\<lambda>(bk, sz).
         and_then (run_pipeline (lit ''serial'') (serial_run (fake_answers s1) (fake_answers s2)) docs
           (fst (clocks m 0)) (snd (clocks m 0))) (\<lambda>r1.
         and_then (run_pipeline (lit ''async'') 
           (\<lambda>d. async_run (version m) k (fake_answers a1) (fake_answers a2) d (main_task m) (async_events m)) docs
           (fst (clocks m 1)) (snd (clocks m 1))) (\<lambda>r2.
         and_then (run_pipeline (lit ''async+batched'')
           (\<lambda>d. batched_run (version m) bk sz c1 c2 d (main_task m) (batched_events m)) docs
           (fst (clocks m 2)) (snd (clocks m 2))) (\<lambda>r3.
         Some (Inr (attach_speedup [r1, r2, r3]))))))))))))))))"

section \<open>Arguments\<close>

record bench_args =
  a_n :: int
  a_latency :: pyfloat
  a_concurrency :: int
  a_batch_size :: int
  a_out :: pystr

text \<open>What \<open>build_arg_parser\<close> gives without flags.\<close>

definition default_args :: bench_args where
  "default_args = \<lparr>a_n = int (n_docs DEFAULT_WORKLOAD),
     a_latency = (case llm_call_seconds DEFAULT_WORKLOAD of PFloat f \<Rightarrow> f | _ \<Rightarrow> NaN),
     a_concurrency = int (w_concurrency DEFAULT_WORKLOAD), a_batch_size = int (w_batch_size DEFAULT_WORKLOAD),
     a_out = lit ''docs/benchmarks.md''\<rparr>"

definition workload_from_args :: "bench_args \<Rightarrow> exc + workload" where
  "workload_from_args a =
     workload_init (PInt (a_n a)) (PFloat (a_latency a)) (PInt (a_concurrency a)) (PInt (a_batch_size a))"

definition json_path_for :: "path \<Rightarrow> path op" where
  "json_path_for p = sibling_path p (lit ''.md'') (lit ''.json'')"

section \<open>The command\<close>

text \<open>The part of \<open>amain\<close> before the run: an exit code, or the two paths.\<close>

definition out_paths :: "path \<Rightarrow> pystr \<Rightarrow> (nat + path \<times> path) op" where
  "out_paths cwd out =
     (if path_parts out = [] then ret (Inl 2)
      else let p = path_of cwd out in
        or_exit_2 (seq (json_path_for p) (\<lambda>j. seq (check_both p j) (\<lambda>same.
          if same then ret (Inl 2) else ret (Inr (p, j))))))"

text \<open>The part after it: both writes.\<close>

definition write_reports :: "texts \<Rightarrow> path \<Rightarrow> path \<Rightarrow> workload \<Rightarrow> run_result list \<Rightarrow> (nat + unit) op" where
  "write_reports tx p j w results =
     or_exit_2
       (seq (atomic_write_text p (render_markdown tx w results) ''utf-8'') (\<lambda>_.
        seq (shown p) (\<lambda>_.
        seq (dump_benchmark_json (repr_float tx) j w results) (\<lambda>_.
        seq (shown j) (\<lambda>_. ret (Inr ()))))))"

definition amain :: "texts \<Rightarrow> moments \<Rightarrow> path \<Rightarrow> bench_args \<Rightarrow> nat option op" where
  "amain tx m cwd a =
     (case workload_from_args a of
        Inl (ValueError _) \<Rightarrow> ret (Some 2)
      | Inl e \<Rightarrow> fail e
      | Inr w \<Rightarrow>
          command (out_paths cwd (a_out a)) (run_all m w) (\<lambda>(p, j). write_reports tx p j w))"

section \<open>The rows of a run\<close>

lemma run_pipeline_row:
  "run_pipeline name f docs t0 t1 = Some (Inr r) \<Longrightarrow>
     \<exists>xs. py_list docs = Some (Inr xs) \<and> r = run_result_of name (length xs) (t1 - t0)"
  by (auto simp: run_pipeline_def split: sum.splits option.splits)

lemma run_all_Inr:
  assumes "run_all m w = Some (Inr rs)"
  shows "rs = attach_speedup (map (\<lambda>(name, i). run_result_of name (n_docs w) (snd (clocks m i) - fst (clocks m i)))
     [(lit ''serial'', 0), (lit ''async'', 1), (lit ''async+batched'', 2)])"
proof -
  have row: "run_pipeline name f (OSequence (map doc_name [0..<n_docs w])) t0 t1 = Some (Inr r) \<Longrightarrow>
      r = run_result_of name (n_docs w) (t1 - t0)" for name f t0 t1 r
    by (drule run_pipeline_row) simp
  show ?thesis
    using assms unfolding run_all_def Let_def case_prod_beta and_then_Inr
    by (simp only: option.inject sum.inject) (elim exE conjE, drule row, drule row, drule row, simp)
qed

lemma run_all_names:
  "run_all m w = Some (Inr rs) \<Longrightarrow> list_all (\<lambda>r. list_all scalar (pipeline_name r)) rs"
  by (drule run_all_Inr) (simp add: attach_speedup_def run_result_of_def lit_scalar Let_def)

section \<open>The two parts of the command\<close>

lemma write_reports_done:
  assumes calm: "calm env" and ok: "fs_ok (fs w)" and toks: "hex_tokens env"
    and free: "no_temps env (fs w)" "\<not> temp_like env kp"
    and p: "ready env (fs w) p kp" and j: "ready env (fs w) j kj" and ne: "kp \<noteq> kj"
    and enc: "codecs env ''utf-8'' = Inr encode" "encode (render_markdown tx wl rs) = Inr report"
    and raw: "encode (json_dumps (repr_float tx) True (benchmark_payload wl rs)) = Inr bs"
  obtains w' where "write_reports tx p j wl rs env w = (Inr (Inr ()), w')"
    and "file_at (fs w') = (file_at (fs w))(kp \<mapsto> report, kj \<mapsto> bs)"
proof -
  obtain w1 w2 where w: "atomic_write_text p (render_markdown tx wl rs) ''utf-8'' env w = (Inr (), w1)"
    "dump_benchmark_json (repr_float tx) j wl rs env w1 = (Inr (), w2)"
    "file_at (fs w2) = (file_at (fs w))(kp \<mapsto> report, kj \<mapsto> bs)"
    using write_both [OF calm ok toks free p j ne enc raw] unfolding dump_benchmark_json_def by metis
  have s: "shown p env u = (Inr (), u)" "shown j env u = (Inr (), u)" for u
    using shown_total p j unfolding ready_def by blast+
  have "write_reports tx p j wl rs env w = (Inr (Inr ()), w2)"
    unfolding write_reports_def by (rule or_exit_2_Inr) (simp add: seq_def w s ret_def)
  then show ?thesis using that w(3) by blast
qed

section \<open>Property\<close>

text \<open>
  C32. A benchmark is never run in vain and never half published. On a machine where calls work,
  the command runs exactly when the report and the JSON beside it can both be written and are
  not one file; otherwise it ends before the run, with no file changed and the same outcome
  whatever the run would have done. A run that returns rows ends in exit code 0 with both
  files written, the report at the path given and beside it JSON that reads back as the
  rows, and no other file touched; a run that raises, or has not ended, has changed no file.
\<close>

theorem bench_main_publishes:
  assumes "calm env" and "fs_ok (fs w)" and "hex_tokens env" and "no_temps env (fs w)"
    and "workload_from_args a = Inr wl" and "path_parts (a_out a) \<noteq> []" and "p = path_of cwd (a_out a)"
    and "json_path_for p env w = (Inr j, w)"
    and "namei (fold_name env) (fs w) True p = Inr kp" and "namei (fold_name env) (fs w) True j = Inr kj"
    and "\<not> temp_like env kp"
    and "codecs env ''utf-8'' = Inr encode"
    and utf8: "\<And>t. list_all scalar t \<Longrightarrow> encode t = Inr (concat (map utf8_char t))" and "texts_ok tx"
    and "\<And>rs. run_all m wl = Some (Inr rs) \<Longrightarrow> json_ok (repr_float tx) fr (benchmark_payload wl rs)"
  shows "if ready env (fs w) p kp \<and> ready env (fs w) j kj \<and> \<not> one_file (fs w) kp kj
    then \<exists>w'. (case run_all m wl of
        None \<Rightarrow> amain tx m cwd a env w = (Inr None, w') \<and> file_at (fs w') = file_at (fs w)
      | Some (Inl e) \<Rightarrow> amain tx m cwd a env w = (Inl e, w') \<and> file_at (fs w') = file_at (fs w)
      | Some (Inr rs) \<Rightarrow> amain tx m cwd a env w = (Inr (Some 0), w') \<and>
          (\<exists>bs. file_at (fs w') = (file_at (fs w))(kp \<mapsto> concat (map utf8_char (render_markdown tx wl rs)), kj \<mapsto> bs) \<and>
             json_loads fr bs = Some (json_sort (benchmark_payload wl rs))))
    else \<exists>r w'. r \<noteq> Inr (Some 0) \<and> file_at (fs w') = file_at (fs w) \<and>
      (\<forall>m'. amain tx m' cwd a env w = (r, w'))"
proof -
  let ?C = "ready env (fs w) p kp \<and> ready env (fs w) j kj \<and> \<not> one_file (fs w) kp kj"
  let ?report = "\<lambda>rs. concat (map utf8_char (render_markdown tx wl rs))"
  obtain g w1 where o: "out_paths cwd (a_out a) env w = (g, w1)" by (cases "out_paths cwd (a_out a) env w")
  have checks: "or_exit_2 (seq (check_both p j) (\<lambda>same. if same then ret (Inl 2) else ret (Inr (p, j)))) env w = (g, w1)"
    using o assms(6) unfolding assms(7)
    by (simp add: out_paths_def Let_def or_exit_2_seq [of "json_path_for (path_of cwd (a_out a))" env w j w, OF assms(8) [unfolded assms(7)]])
  have "encode [] = Inr []" using utf8 [of "[]"] by simp
  note O = checked_pair [OF assms(1-4,9,10,12) this checks]
  have k: "kept (fs w) (fs w1)" using O by blast
  note ok1 = kept_ok [OF assms(2) k]
  have wr: "\<exists>w'. write_reports tx p j wl rs env w1 = (Inr (Inr ()), w') \<and>
      (\<exists>bs. file_at (fs w') = (file_at (fs w))(kp \<mapsto> ?report rs, kj \<mapsto> bs) \<and>
         json_loads fr bs = Some (json_sort (benchmark_payload wl rs)))"
    if C: ?C and rs: "run_all m wl = Some (Inr rs)" for rs
  proof -
    let ?t = "json_dumps (repr_float tx) True (benchmark_payload wl rs)"
    note e = assms(15) [OF rs]
    have report: "encode (render_markdown tx wl rs) = Inr (?report rs)"
      using utf8 render_scalar [OF assms(14) run_all_names [OF rs]] by blast
    have t: "encode ?t = Inr ?t" "json_loads fr ?t = Some (json_sort (benchmark_payload wl rs))"
      using sorted_json.stored [OF e utf8_keeps_ascii [OF utf8]] by simp_all
    have r: "ready env (fs w1) p kp" "ready env (fs w1) j kj" "kp \<noteq> kj"
      using C ready_kept [OF assms(2) _ k] by (auto simp: one_file_def)
    obtain w' where "write_reports tx p j wl rs env w1 = (Inr (Inr ()), w')"
      "file_at (fs w') = (file_at (fs w1))(kp \<mapsto> ?report rs, kj \<mapsto> ?t)"
      using write_reports_done [OF assms(1) ok1 assms(3) no_temps_kept [OF assms(4) k] assms(11) r assms(12) report t(1)]
      by blast
    then show ?thesis using t(2) kept_file_at [OF assms(2) k] by auto
  qed
  have A: "amain tx m' cwd a = command (out_paths cwd (a_out a)) (run_all m' wl) (\<lambda>(p, j). write_reports tx p j wl)" for m'
    using assms(5) by (simp add: amain_def)
  note R = command_contract [where checks = "out_paths cwd (a_out a)" and env = env and w = w and x = "(p, j)"
      and outcome = "run_all m wl" and writes = "\<lambda>(p, j). write_reports tx p j wl"
      and Q = "\<lambda>rs w'. \<exists>bs. file_at (fs w') = (file_at (fs w))(kp \<mapsto> ?report rs, kj \<mapsto> bs) \<and>
         json_loads fr bs = Some (json_sort (benchmark_payload wl rs))",
      OF assms(2) o O, unfolded prod.case, OF wr]
  show ?thesis
  proof (cases ?C)
    case True
    show ?thesis using R unfolding A if_P [OF True] .
  next
    case False
    show ?thesis using R unfolding A if_not_P [OF False] by blast
  qed
qed

text \<open>
  The report compares like with like. A run that returns has timed the three pipelines on the
  same documents, in the table's order; the baseline's row is 1 and the others are the
  serial duration over their own, so the number the paragraph measures real APIs against is
  the async row's, whatever the batched row shows.
\<close>

theorem bench_rows:
  assumes "run_all m w = Some (Inr rs)" and "serial = snd (clocks m 0) - fst (clocks m 0)"
    and "async = snd (clocks m 1) - fst (clocks m 1)" and "batched = snd (clocks m 2) - fst (clocks m 2)"
    and "0 < serial" and "0 < async" and "0 < batched"
  shows "map (\<lambda>r. (pipeline_name r, r_docs r, duration_seconds r, speedup_vs_serial r)) rs =
      [(lit ''serial'', n_docs w, Fin serial, Some (Fin 1)),
       (lit ''async'', n_docs w, Fin async, Some (Fin (serial / async))),
       (lit ''async+batched'', n_docs w, Fin batched, Some (Fin (serial / batched)))] \<and>
    ceiling_of rs = Some (Fin (serial / async))"
proof -
  have names: "lit ''async'' \<noteq> lit ''serial''" "lit ''async+batched'' \<noteq> lit ''serial''"
    "lit ''async'' \<noteq> lit ''async+batched''" by (simp_all add: lit_def)
  have "rs = [(run_result_of (lit ''serial'') (n_docs w) serial)\<lparr>speedup_vs_serial := Some (Fin 1)\<rparr>,
      (run_result_of (lit ''async'') (n_docs w) async)\<lparr>speedup_vs_serial := Some (Fin (serial / async))\<rparr>,
      (run_result_of (lit ''async+batched'') (n_docs w) batched)\<lparr>speedup_vs_serial := Some (Fin (serial / batched))\<rparr>]"
    using assms(5-7) run_all_Inr [OF assms(1)] unfolding assms(2-4)
    by (simp add: attach_speedup_def Let_def truthy_float_def run_result_of_def f_pos_def f_div_def)
  then show ?thesis using names by (simp add: ceiling_of_def List.map_filter_def run_result_of_def)
qed

section \<open>Witnesses\<close>

definition small_args :: bench_args where
  "small_args = \<lparr>a_n = 1, a_latency = Fin (1 / 2), a_concurrency = 1, a_batch_size = 1, a_out = lit ''d/x.md''\<rparr>"

definition small_moments :: moments where
  "small_moments = \<lparr>version = Py312, main_task = fresh_task, clocks = (\<lambda>i. (0, if i = 0 then 1 else 1 / 2)),
     async_events = [EStart 0, EFn 0 (ended_with (Returned ())), EDone 0, EParent],
     batched_events = [EStart 0, EFn 0 (ended_with (Returned ())), EDone 0, EParent]\<rparr>"

definition small_load :: workload where
  "small_load = \<lparr>n_docs = 1, llm_call_seconds = PFloat (Fin (1 / 2)), w_concurrency = 1, w_batch_size = 1\<rparr>"

lemma small_args_load: "workload_from_args small_args = Inr small_load"
  by code_simp

definition small_client :: "string \<Rightarrow> fake_llm" where
  "small_client i = \<lparr>latency_seconds = PFloat (Fin (1 / 2)), call_id = i, call_count = 0\<rparr>"

lemma small_serial:
  "serial_run (fake_answers (small_client ''llm1-serial'')) (fake_answers (small_client ''llm2-serial''))
     (OSequence [''doc-0000'']) = Some (Inr [''doc-0000:llm1-serial:llm2-serial''])"
proof -
  have "refuse_bare_string ''docs'' (OSequence [''doc-0000'']) = Inr ()" by code_simp
  then show ?thesis
    by (simp add: serial_run_def py_iter_def serial_loop.simps fake_answers_def fake_llm_call_def small_client_def)
qed

lemma small_parts:
  "map doc_name [0..<1] = [''doc-0000'']"
  "fake_llm_init (PFloat (Fin (1 / 2))) i =
     Inr (small_client i)"
  "async_init (PInt (int 1)) = Inr 1" "batched_init (PInt (int 1)) (PInt (int 1)) = Inr (1, 1)"
  "async_run Py312 1 (fake_answers (small_client ''llm1-async'')) (fake_answers (small_client ''llm2-async''))
     (OSequence [''doc-0000'']) fresh_task (async_events small_moments) =
     Some (Inr [Some (Val ''doc-0000:llm1-async:llm2-async'')])"
  "batched_run Py312 1 1 (batch_answers ''llm1-batched'') (batch_answers ''llm2-batched'')
     (OSequence [''doc-0000'']) fresh_task (batched_events small_moments) =
     Some (Inr [''doc-0000:llm1-batched-batched:llm2-batched-batched''])"
  "refuse_bare_string ''docs'' (OSequence [''doc-0000'']) = Inr ()"
  by code_simp+

lemma small_batch_caller:
  "make_batch_caller (Some (PFloat (Fin (1 / 2)))) (Some i) (PFloat (Fin (1 / 2))) = Inr (batch_answers i)"
proof -
  have "require_duration_seconds (PFloat (Fin (1 / 2))) ''batch_seconds'' = Inr (Fin (1 / 2))" by code_simp
  then show ?thesis by (simp add: make_batch_caller_def batch_answers_def [abs_def])
qed

lemma small_run:
  "run_all small_moments small_load = Some (Inr (attach_speedup
     [run_result_of (lit ''serial'') 1 1, run_result_of (lit ''async'') 1 (1 / 2),
      run_result_of (lit ''async+batched'') 1 (1 / 2)]))"
proof -
  have "version small_moments = Py312" "main_task small_moments = fresh_task"
    "clocks small_moments 0 = (0, 1)" "clocks small_moments 1 = (0, 1 / 2)" "clocks small_moments 2 = (0, 1 / 2)"
    "n_docs small_load = 1" "llm_call_seconds small_load = PFloat (Fin (1 / 2))"
    "w_concurrency small_load = 1" "w_batch_size small_load = 1"
    by (simp_all add: small_moments_def small_load_def)
  then show ?thesis
    unfolding run_all_def Let_def
    by (simp only: small_parts small_serial small_batch_caller and_then.simps run_pipeline_def py_list.simps prod.case sum.case
        option.case) simp
qed

lemma bench_rows_witness:
  "\<exists>rs. run_all small_moments small_load = Some (Inr rs) \<and> ceiling_of rs = Some (Fin 2)"
proof (intro exI conjI)
  have c: "1 = snd (clocks small_moments 0) - fst (clocks small_moments 0)"
    "1 / 2 = snd (clocks small_moments 1) - fst (clocks small_moments 1)"
    "1 / 2 = snd (clocks small_moments 2) - fst (clocks small_moments 2)"
    "(0 :: rat) < 1" "(0 :: rat) < 1 / 2" "(1 :: rat) / (1 / 2) = 2" by (simp_all add: small_moments_def)
  show "run_all small_moments small_load = Some (Inr (attach_speedup
     [run_result_of (lit ''serial'') 1 1, run_result_of (lit ''async'') 1 (1 / 2),
      run_result_of (lit ''async+batched'') 1 (1 / 2)]))" by (rule small_run)
  show "ceiling_of (attach_speedup
     [run_result_of (lit ''serial'') 1 1, run_result_of (lit ''async'') 1 (1 / 2),
      run_result_of (lit ''async+batched'') 1 (1 / 2)]) = Some (Fin 2)"
    using bench_rows [OF small_run c(1,2,3,4,5,5)] unfolding c(6) by (rule conjunct2)
qed

definition half_texts :: texts where
  "half_texts = \<lparr>repr_float = (\<lambda>q. if q = 1 / 2 then lit ''0.5'' else if q = 1 then lit ''1.0'' else lit ''2.0''),
     millis = (\<lambda>_. lit ''500''), host_line = lit ''- **Host.**''\<rparr>"

definition half_read :: "pystr \<Rightarrow> rat option" where
  "half_read t = Some (if t = lit ''0.5'' then 1 / 2 else if t = lit ''1.0'' then 1 else 2)"

lemma half_floats:
  "float_ok (repr_float half_texts) half_read (1 / 2)" "float_ok (repr_float half_texts) half_read 1"
  "float_ok (repr_float half_texts) half_read 2"
  by (simp_all add: float_ok_def half_texts_def half_read_def lit_def is_num_def is_digit_def)

lemma small_rows_ok:
  assumes "run_all small_moments small_load = Some (Inr rs)"
  shows "json_ok (repr_float half_texts) half_read (benchmark_payload small_load rs)"
proof -
  have rs: "rs = attach_speedup [run_result_of (lit ''serial'') 1 1, run_result_of (lit ''async'') 1 (1 / 2),
      run_result_of (lit ''async+batched'') 1 (1 / 2)]" using assms small_run by simp
  have names: "lit ''async'' \<noteq> lit ''serial''" "lit ''async+batched'' \<noteq> lit ''serial''" by (simp_all add: lit_def)
  show ?thesis
    unfolding rs using half_floats names
    by (simp add: attach_speedup_def run_result_of_def truthy_float_def f_pos_def f_div_def benchmark_payload_def
        small_load_def workload_to_dict_def run_result_to_dict_def json_of_pyval_def json_opt_def lit_scalar Let_def)
qed

lemma half_texts_ok: "texts_ok half_texts"
  by (simp add: texts_ok_def half_texts_def lit_scalar)

lemma small_out:
  "path_of [] (a_out small_args) = [lit ''d'', lit ''x.md'']" "path_parts (a_out small_args) \<noteq> []"
  "json_path_for [lit ''d'', lit ''x.md''] calm_env (at_rest small_fs) =
     (Inr [lit ''d'', lit ''x.json''], at_rest small_fs)"
  by code_simp+

theorem bench_main_publishes_witness:
  "\<exists>rs w' bs. amain half_texts small_moments [] small_args calm_env (at_rest small_fs) = (Inr (Some 0), w') \<and>
     file_at (fs w') = (file_at small_fs)([lit ''d'', lit ''x.md''] \<mapsto>
         concat (map utf8_char (render_markdown half_texts small_load rs)), [lit ''d'', lit ''x.json''] \<mapsto> bs) \<and>
     json_loads half_read bs = Some (json_sort (benchmark_payload small_load rs))"
proof -
  note R = bench_main_publishes [of calm_env "at_rest small_fs" _ _ _ _ _ _ _ _ _ small_moments, unfolded at_rest_simps,
        OF calm_env_calm small_fs_ok calm_env_tokens small_no_temps small_args_load small_out(2)
        small_out(1) [symmetric] small_out(3) small_out_keys small_out_free(1,2) fsencode_scalars half_texts_ok small_rows_ok, unfolded small_run option.case sum.case]
  show ?thesis using R small_out_ready small_out_free(3) by auto
qed

end
