(* ===== verification/Backpressure.thy ===== *)
theory Backpressure
  imports Stream_Pauses Bench_Report "HOL-Library.Product_Lexorder"
begin

text \<open>
  \<open>scripts/bench_backpressure.py\<close>: one measured run of \<open>stream\<close> and the report made of several.
  As in the other script the text of a float is a parameter, \<open>:.nf\<close> is written out, and the
  clock and \<open>tracemalloc\<close> are readings that a run is given.
\<close>

section \<open>One run\<close>

record bp_result =
  bp_n :: nat
  bp_queue_size :: nat
  bp_consumer_ms :: pyfloat
  bp_concurrency :: nat
  bp_duration_s :: pyfloat
  peak_heap_kb :: pyfloat
  bp_metrics :: "(string \<times> metric_value) list"

definition json_of_metric :: "metric_value \<Rightarrow> json" where
  "json_of_metric v = (case v of Count n \<Rightarrow> JInt (int n) | Seconds q \<Rightarrow> JFloat (Fin q))"

definition bp_to_dict :: "bp_result \<Rightarrow> (pystr \<times> json) list" where
  "bp_to_dict r =
     [(lit ''n'', JInt (int (bp_n r))), (lit ''queue_size'', JInt (int (bp_queue_size r))),
      (lit ''consumer_ms'', JFloat (bp_consumer_ms r)), (lit ''concurrency'', JInt (int (bp_concurrency r))),
      (lit ''duration_s'', JFloat (bp_duration_s r)), (lit ''peak_heap_kb'', JFloat (peak_heap_kb r)),
      (lit ''metrics'', JObj (map (\<lambda>(k, v). (lit k, json_of_metric v)) (bp_metrics r)))]"

text \<open>\<open>r.metrics[k]\<close>.\<close>

definition metric_count :: "bp_result \<Rightarrow> string \<Rightarrow> nat" where
  "metric_count r k = (case map_of (bp_metrics r) k of Some (Count n) \<Rightarrow> n | _ \<Rightarrow> 0)"

definition metric_seconds :: "bp_result \<Rightarrow> string \<Rightarrow> pyfloat" where
  "metric_seconds r k = (case map_of (bp_metrics r) k of Some (Seconds q) \<Rightarrow> Fin q | _ \<Rightarrow> NaN)"

text \<open>\<open>_fast_producer\<close>: the next of 0, 1, ... below \<open>n\<close>, after \<open>i\<close> of them.\<close>

definition fast_producer :: "nat \<Rightarrow> nat \<Rightarrow> int src" where
  "fast_producer n i = (if i < n then SrcItem (int i) else SrcEnd)"

text \<open>The \<open>consume\<close> of \<open>_make_slow_consumer\<close>, once its sleep is over.\<close>

definition consume :: "int \<Rightarrow> int outcome" where "consume x = Returned x"

text \<open>
  \<open>stream\<close> with this source and this consumer. The generator never awaits, so while the producer
  pulls no task has a turn; only the handler of an interrupt can then cancel the caller. An
  await of \<open>consume\<close> ends in its value or in a \<open>CancelledError\<close> thrown into its sleep.
\<close>

definition bp_enabled :: "nat \<Rightarrow> (int, 'r) stream \<Rightarrow> (int, int) sevent \<Rightarrow> bool" where
  "bp_enabled n s e =
     (case e of
        SSource r \<Rightarrow> r = fast_producer n (length (pulled s))
      | SCFn i f \<Rightarrow> prod_pc s \<noteq> PPull \<and>
          (fn_outcome f = Raised CancelledError \<or>
           (case cons s ! i of CFn _ x \<Rightarrow> fn_outcome f = consume x | _ \<Rightarrow> False))
      | SCancel \<Rightarrow> True
      | _ \<Rightarrow> prod_pc s \<noteq> PPull)"

definition bp_step :: "pyver \<Rightarrow> nat \<Rightarrow> (int, int slot) stream \<Rightarrow> (int, int) sevent \<Rightarrow>
    (int, int slot) stream option" where
  "bp_step ver n s e = (if bp_enabled n s e then s_step ver (stream_handler False None) s e else None)"

text \<open>The moments of one run.\<close>

record bp_moments =
  bp_version :: pyver
  bp_task :: task
  bp_events :: "(int, int) sevent list"
  bp_clock :: "rat \<times> rat"
  bp_peak :: nat

definition run_one :: "bp_moments \<Rightarrow> nat \<Rightarrow> nat \<Rightarrow> pyfloat \<Rightarrow> nat \<Rightarrow> (exc + bp_result) option" where
  "run_one mo n queue_size consumer_ms concurrency =
     (case stream_entry (PInt (int concurrency)) (PInt (int queue_size)) PNone of
        Inl e \<Rightarrow> Some (Inl e)
      | Inr (k, q, _) \<Rightarrow>
          (case run (bp_step (bp_version mo) n)
                  (stream_init (bp_version mo) k q (Some metrics_init) (bp_task mo)) (bp_events mo) of
             None \<Rightarrow> None
           | Some s \<Rightarrow>
               (case s_final s of
                  None \<Rightarrow> None
                | Some (Some e) \<Rightarrow> Some (Inl e)
                | Some None \<Rightarrow>
                    Some (Inr \<lparr>bp_n = n, bp_queue_size = queue_size, bp_consumer_ms = consumer_ms,
                      bp_concurrency = concurrency,
                      bp_duration_s = Fin (snd (bp_clock mo) - fst (bp_clock mo)),
                      peak_heap_kb = Fin (of_nat (bp_peak mo) / 1024),
                      bp_metrics = (case meter s of Some m \<Rightarrow> metrics_to_dict m | None \<Rightarrow> [])\<rparr>))))"

section \<open>What the rows are evidence of\<close>

text \<open>The nested \<open>saturated\<close>.\<close>

definition saturated :: "bp_result \<Rightarrow> bool" where
  "saturated r =
     (if bp_n r \<le> bp_queue_size r then False
      else bp_queue_size r \<le> metric_count r ''max_queue_depth'' \<or> 0 < metric_count r ''producer_pauses'')"

definition sorted_set :: "'a :: linorder list \<Rightarrow> 'a list" where
  "sorted_set xs = sort (remdups xs)"

definition saturated_n :: "bp_result list \<Rightarrow> nat list" where
  "saturated_n rs = sorted_set (map bp_n (filter saturated rs))"

definition unfilled_rows :: "bp_result list \<Rightarrow> (nat \<times> nat) list" where
  "unfilled_rows rs =
     sorted_set (map (\<lambda>r. (bp_n r, bp_queue_size r)) (filter (\<lambda>r. \<not> saturated r) rs))"

definition base_queue :: "bp_result list \<Rightarrow> nat" where
  "base_queue rs = hd (sorted_set (map bp_queue_size rs))"

text \<open>The rows whose heap the report quotes: the extreme \<open>n\<close> of the first queue size that has two.\<close>

definition growth :: "bp_result list \<Rightarrow> (nat \<times> bp_result \<times> bp_result) option" where
  "growth rs =
     find (\<lambda>(q, lo, hi). bp_n lo \<noteq> bp_n hi \<and> f_pos (peak_heap_kb lo))
       (map (\<lambda>q. let rows = sort_key bp_n (filter (\<lambda>r. bp_queue_size r = q) rs)
                 in (q, hd rows, last rows))
          (sorted_set (map bp_queue_size rs)))"

section \<open>The report\<close>

definition py_list_str :: "('a \<Rightarrow> pystr) \<Rightarrow> 'a list \<Rightarrow> pystr" where
  "py_list_str f xs = lit ''['' @ py_join (lit '', '') (map f xs) @ lit '']''"

definition pair_str :: "nat \<times> nat \<Rightarrow> pystr" where
  "pair_str p = lit ''('' @ dec_nat (fst p) @ lit '', '' @ dec_nat (snd p) @ lit '')''"

definition float_str :: "(rat \<Rightarrow> pystr) \<Rightarrow> pyfloat \<Rightarrow> pystr" where
  "float_str rp f = (case f of Fin q \<Rightarrow> rp q | _ \<Rightarrow> fixed 0 f)"

definition results_are_o_n_sentence :: "bp_result list \<Rightarrow> pystr" where
  "results_are_o_n_sentence rs =
     (let head = lit ''That is a bound on the input side, not on the process: `stream` returns every result in one list, so results are O(n) and `stream` is not safe on a source that never ends -- it never returns''
      in case growth rs of
           None \<Rightarrow> head @ lit ''.''
         | Some (q, lo, hi) \<Rightarrow>
             head @ lit ''. In this table, at `queue_size` '' @ dec_nat q @ lit '', `peak_heap_kb` goes '' @
             fixed 1 (peak_heap_kb lo) @ lit '' '' @ [0x2192] @ lit '' '' @ fixed 1 (peak_heap_kb hi) @ lit '' ('' @
             fixed 1 (f_div (peak_heap_kb hi) (peak_heap_kb lo)) @ times_sign @ lit '') as `n` goes '' @
             dec_nat (bp_n lo) @ lit '' '' @ [0x2192] @ lit '' '' @ dec_nat (bp_n hi) @ lit '' ('' @
             fixed 1 (Fin (of_nat (bp_n hi) / of_nat (bp_n lo))) @ times_sign @ lit '').'')"

definition bp_row :: "(rat \<Rightarrow> pystr) \<Rightarrow> bp_result \<Rightarrow> pystr" where
  "bp_row rp r =
     lit ''| '' @ dec_nat (bp_n r) @ lit '' | '' @ dec_nat (bp_queue_size r) @ lit '' | '' @
     float_str rp (bp_consumer_ms r) @ lit '' | '' @ dec_nat (bp_concurrency r) @ lit '' | '' @
     fixed 3 (bp_duration_s r) @ lit '' | '' @ fixed 1 (peak_heap_kb r) @ lit '' | '' @
     dec_nat (metric_count r ''producer_pauses'') @ lit '' | '' @
     dec_nat (metric_count r ''max_queue_depth'') @ lit '' | '' @
     fixed 3 (metric_seconds r ''producer_pause_seconds'') @ lit '' |''"

definition COMPARE_N_DIVISOR :: nat where "COMPARE_N_DIVISOR = 10"

definition bp_intro :: "pystr list" where
  "bp_intro =
     [lit ''# Backpressure demo (#3)'' @ [10],
      lit ''Generated by `scripts/bench_backpressure.py`. The producer emits items with zero per-item latency; the consumer sleeps `--consumer-ms` per item. `stream`'s bounded `asyncio.Queue` applies backpressure when the consumer can't keep up.'' @ [10],
      lit ''## Measured'' @ [10],
      lit ''| n | queue_size | consumer_ms | concurrency | duration_s | peak_heap_kb | producer_pauses | max_queue_depth | pause_seconds |'' @ [10] @
      lit ''|---:|---:|---:|---:|---:|---:|---:|---:|---:|'']"

text \<open>What is said of the bound.\<close>

definition bound_paragraph :: "bp_result list \<Rightarrow> pystr" where
  "bound_paragraph rs =
     (let shape = lit '' ('' @ dec_nat (length rs) @ lit '' rows, queue_size '' @
            py_list_str dec_nat (sorted_set (map bp_queue_size rs)) @ lit '', n '' @
            py_list_str dec_nat (sorted_set (map bp_n rs)) @ lit '')''
      in if saturated_n rs \<noteq> []
         then lit ''`max_queue_depth` is bounded by `queue_size` in every row above'' @ shape @
              lit ''. That bounds the input *waiting to be processed*: a fast producer cannot pile items up ahead of a slow consumer, at any `n`.''
         else lit ''`max_queue_depth` never exceeded `queue_size` in any row above'' @ shape @
              lit '', but no row reached it with items still to put, so this run does not show what the bound prevents.'')"

text \<open>What the rows are said to be evidence of, and what to run for more.\<close>

datatype evidence = All_Rows | Filled_Rows | No_Row | One_N

definition evidence_of :: "bp_result list \<Rightarrow> evidence" where
  "evidence_of rs =
     (if 1 < length (saturated_n rs) \<and> unfilled_rows rs = [] then All_Rows
      else if 1 < length (saturated_n rs) then Filled_Rows
      else if saturated_n rs = [] then No_Row
      else One_N)"

definition evidence_paragraph :: "bp_result list \<Rightarrow> pystr" where
  "evidence_paragraph rs =
     (let proven = lit ''The general claim is proved where it belongs, over a parameterised table in `tests/test_stream.py` -- `test_stream_metrics_max_depth_bounded_by_queue_size` -- which is host-independent; this table is the measured illustration.'';
          q = dec_nat (base_queue rs); tenth = dec_nat COMPARE_N_DIVISOR;
          filled = py_list_str dec_nat (saturated_n rs)
      in (case evidence_of rs of
            All_Rows \<Rightarrow>
              lit ''The rows span more than one `n` ('' @ py_list_str dec_nat (sorted_set (map bp_n rs)) @
              lit '') at a fixed `queue_size`, which is what makes this table evidence for the `n`-independence of the bound rather than only for its value at one workload size. ''
          | Filled_Rows \<Rightarrow>
              lit ''The rows that filled the queue span more than one `n` ('' @ filled @
              lit '') at a fixed `queue_size`, which is what makes them evidence for the `n`-independence of the bound rather than only for its value at one workload size. ''
          | No_Row \<Rightarrow>
              lit ''No row filled the queue while the producer had items left to put (no producer pauses), so this run exercises the bound nowhere and its depth followed `n`. A row is evidence only if it fills the queue: run with an `--n` above the `queue_size` ('' @ q @
              lit ''), and under `--compare-n` one large enough that `n // '' @ tenth @
              lit ''` exceeds the `queue_size` ('' @ q @ lit ''). ''
          | One_N \<Rightarrow>
              lit ''The rows that filled the queue share one `n` ('' @ filled @
              lit ''), so they show the bound at a single workload size and not its independence from `n`. A varied-`n` row is evidence only if it also fills the queue: run `--compare-n` with an `--n` large enough that `n // '' @ tenth @
              lit ''` exceeds the `queue_size` ('' @ q @ lit ''). '') @ proven)"

definition bp_render :: "(rat \<Rightarrow> pystr) \<Rightarrow> bp_result list \<Rightarrow> pystr" where
  "bp_render rp rs = py_join [10] (
     bp_intro @ map (bp_row rp) rs @
     [[], lit ''## OOM-safety claim'' @ [10], bound_paragraph rs, [], results_are_o_n_sentence rs, [],
      evidence_paragraph rs] @
     (if unfilled_rows rs \<noteq> [] \<and> saturated_n rs \<noteq> []
      then [[], lit ''Rows at (`n`, `queue_size`) '' @ py_list_str pair_str (unfilled_rows rs) @
              lit '' never filled the queue while the producer had items left to put (no producer pauses), so the bound never applied to them: their depth followed `n`.'']
      else []) @ [[]])"

section \<open>Sorted sets\<close>

lemma set_sorted_set [simp]: "set (sorted_set xs) = set xs"
  by (simp add: sorted_set_def)

lemma length_sorted_set: "length (sorted_set xs) = card (set xs)"
  by (simp add: sorted_set_def length_remdups_card_conv)

lemma sorted_set_Nil [simp]: "sorted_set xs = [] \<longleftrightarrow> xs = []"
  by (metis set_empty set_sorted_set)

lemma hd_sorted_set:
  assumes "x \<in> set xs" and "\<And>y. y \<in> set xs \<Longrightarrow> x \<le> y"
  shows "hd (sorted_set xs) = x"
proof -
  have x: "x \<in> set (sorted_set xs)" using assms(1) by simp
  then obtain y ys where y: "sorted_set xs = y # ys" by (cases "sorted_set xs") simp_all
  have "sorted (y # ys)" unfolding y [symmetric] by (simp add: sorted_set_def)
  then have "y \<le> x" using x y by auto
  moreover have "y \<in> set xs" using y set_sorted_set [of xs] by (metis list.set_intros(1))
  ultimately show ?thesis using assms(2) y by fastforce
qed

lemma find_member: "find P xs = Some x \<Longrightarrow> x \<in> set xs \<and> P x"
  by (auto simp: find_Some_iff)

section \<open>A row says what happened\<close>

lemma bp_step_Some:
  "bp_step ver n s e = Some t \<longleftrightarrow> bp_enabled n s e \<and> s_step ver (stream_handler False None) s e = Some t"
  by (simp add: bp_step_def)

lemma bp_run_stream:
  "run (bp_step ver n) s es = Some u \<Longrightarrow> run (s_step ver (stream_handler False None)) s es = Some u"
  by (induction es arbitrary: s) (auto simp: bp_step_Some split: option.splits)

text \<open>An invariant of this composition, kept where the stream's own holds.\<close>

lemma bp_trace:
  assumes g: "run (bp_step ver n) (stream_init ver (Suc k) (Suc q) (Some metrics_init) t0) es = Some s"
    and init: "P (stream_init ver (Suc k) (Suc q) (Some metrics_init) t0)"
    and step: "\<And>u v e. stream_inv (Suc k) (Suc q) u \<Longrightarrow> meter_ok (Suc q) metrics_init u \<Longrightarrow> P u \<Longrightarrow>
      bp_enabled n u e \<Longrightarrow> s_step ver (stream_handler False None) u e = Some v \<Longrightarrow> P v"
  shows "P s"
  using g
proof (induction es arbitrary: s rule: rev_induct)
  case (snoc e es)
  then obtain u where u: "run (bp_step ver n) (stream_init ver (Suc k) (Suc q) (Some metrics_init) t0) es = Some u"
    "bp_enabled n u e" "s_step ver (stream_handler False None) u e = Some s"
    by (auto simp: run_snoc bp_step_Some split: option.splits)
  note go = bp_run_stream [OF u(1)]
  show ?case
    using step [OF stream_runs.go_inv [OF go] stream_runs.meter_trace [OF go] snoc.IH [OF u(1)] u(2,3)] .
qed (use init in simp)

text \<open>The source gives its \<open>n\<close> items before it ends.\<close>

lemma bp_pulled:
  assumes g: "run (bp_step ver n) (stream_init ver (Suc k) (Suc q) (Some metrics_init) t0) es = Some s"
  shows "pulled s = map int [0..<length (pulled s)] \<and> length (pulled s) \<le> n \<and>
    (closing (prod_pc s) \<longrightarrow> length (pulled s) = n)"
proof (rule bp_trace [OF g, where P = "\<lambda>s. pulled s = map int [0..<length (pulled s)] \<and> length (pulled s) \<le> n \<and>
    (closing (prod_pc s) \<longrightarrow> length (pulled s) = n)"], goal_cases)
  case 1
  show ?case by (simp add: stream_init_def Let_def closing_def split: prod.splits)
next
  case (2 u v e)
  note f = feed_step(1) [OF 2(5)]
  show ?case
  proof (cases "\<exists>x. e = SSource (SrcItem x)")
    case True
    then obtain x where x: "e = SSource (SrcItem x)" by blast
    then have "length (pulled u) < n" "x = int (length (pulled u))"
      using 2(4) by (auto simp: bp_enabled_def fast_producer_def split: if_splits)
    moreover have "\<not> closing (prod_pc v)"
      using s_stepD [OF 2(5)] x closing_step [OF 2(5)] by (auto simp: closing_def)
    ultimately show ?thesis using 2(3) f x by simp
  next
    case False
    then have "yielded [e] = []" by (cases e) (auto split: src.splits)
    moreover have "closing (prod_pc v) \<longrightarrow> length (pulled u) = n"
      using closing_step [OF 2(5)] 2(3,4) by (auto simp: bp_enabled_def fast_producer_def split: if_splits)
    ultimately show ?thesis using 2(3) f by simp
  qed
qed

text \<open>
  More items than the queue holds always fill it: the producer puts as many as fit before any
  consumer has its first turn.
\<close>

definition fills :: "nat \<Rightarrow> ('i, 'r) stream \<Rightarrow> bool" where
  "fills q s \<longleftrightarrow> s_over s \<or> q \<le> max_queue_depth (the (meter s)) \<or>
     pulled s = [] \<and> prod_pc s = PCreated \<and> buf (queue s) = [] \<or>
     prod_pc s = PPull \<and> length (buf (queue s)) = length (pulled s) \<and> length (pulled s) < q"

lemma other_drains:
  assumes "s_step ver handler s e = Some t"
    and "\<And>r dt. e \<noteq> SSource r \<and> e \<noteq> SPWake dt \<and> e \<noteq> SPStart \<and> e \<noteq> SPDone"
  shows "drains t s"
  using s_stepD(2) [OF assms(1)] assms(2)
  by (cases e) (auto simp: drains_fn drains_loop drains_done, auto simp: drains_def gauge_def)

lemma depth_mono:
  assumes "stream_inv k q u" and "0 < k" and "meter_ok q m0 u" and "s_step ver (stream_handler False None) u e = Some v"
    and "stream_inv k q v"
  shows "max_queue_depth (the (meter u)) \<le> max_queue_depth (the (meter v))"
proof -
  obtain m where m: "meter u = Some m" using assms(3) by (cases "meter u") (simp_all add: meter_ok_def)
  have "meter_ok q (m0\<lparr>max_queue_depth := max_queue_depth m\<rparr>) u"
    using assms(3) m by (auto simp: meter_ok_def)
  from meter_step [OF assms(1,5,4) this] show ?thesis
    using m by (cases "meter v") (simp_all add: meter_ok_def)
qed

lemma fills_put:
  assumes "maxsize (queue s) = q" and "length (buf (queue s)) < q" and "length (pulled s) = Suc (length (buf (queue s)))"
    and "meter s \<noteq> None"
  shows "fills q (p_put x s)"
proof -
  obtain b r where p: "q_put (QItem x) (queue s) = (b, r)" by (metis surj_pair)
  then have b: b using assms(1,2) by (auto simp: q_put_def q_full_def split: if_splits)
  then have "buf r = buf (queue s) @ [QItem x]" using put_buf(1) p by simp
  then show ?thesis using p b assms by (auto simp: fills_def p_put_def p_put_done_def)
qed

lemma fills_pull:
  assumes inv: "stream_inv k q s" and run: "s_final s = None" and f: "fills q s" and p: "prod_pc s = PPull"
    and q: "\<not> s_over s" "\<not> q \<le> max_queue_depth (the (meter s))" and m: "meter s \<noteq> None"
  shows "fills q (p_source (SrcItem x) s)"
proof -
  let ?s = "s\<lparr>pulled := pulled s @ [x]\<rparr>"
  note I = stream_invD [OF inv]
  have b: "length (buf (queue s)) = length (pulled s)" "length (pulled s) < q"
    using f p q by (auto simp: fills_def)
  have size: "maxsize (queue s) = q" using wait_invD(2) [OF I(2)] .
  have st: "\<not> s_stopping s" using q(1) by (simp add: s_over_def)
  then have "\<not> aborting (s_group s)" using inv_aborting [OF I(1) run] by blast
  moreover have "\<not> s_stopping ?s" using st by (simp add: s_stopping_def)
  moreover have "fills q (p_put x ?s)" "fills q (p_put x (p_spawn ?s))"
    using b size m by (auto intro!: fills_put simp: p_spawn_def)
  ultimately show ?thesis by (simp add: p_source_def p_item_def raise_if_cancellation_absorbed_def)
qed

lemma bp_fills:
  assumes g: "run (bp_step ver n) (stream_init ver (Suc k) (Suc q) (Some metrics_init) t0) es = Some s"
    and n: "Suc q < n"
  shows "fills (Suc q) s"
proof (rule bp_trace [OF g, where P = "fills (Suc q)"], goal_cases)
  case 1
  show ?case by (simp add: fills_def stream_init_def q_init_def Let_def split: prod.splits)
next
  case (2 u v e)
  note st = 2(5) note en = s_stepD(1) [OF st] and v = s_stepD(2) [OF st] note I = stream_invD [OF 2(1)]
  have mu: "meter u \<noteq> None" using 2(2) by (cases "meter u") (simp_all add: meter_ok_def)
  have inv: "stream_inv (Suc k) (Suc q) v" using stream_runs.machine.inv_step [OF 2(1) st] .
  show ?case
  proof (cases "s_over u \<or> Suc q \<le> max_queue_depth (the (meter u))")
    case True
    then show ?thesis
      using s_over_step [OF 2(1) st] depth_mono [OF 2(1) _ 2(2) st inv] by (auto simp: fills_def)
  next
    case False
    then have nq: "\<not> s_over u" "\<not> Suc q \<le> max_queue_depth (the (meter u))" by blast+
    then consider "pulled u = []" "prod_pc u = PCreated" "buf (queue u) = []"
      | "prod_pc u = PPull" "length (buf (queue u)) = length (pulled u)" "length (pulled u) < Suc q"
      using 2(3) by (auto simp: fills_def)
    then show ?thesis
    proof cases
      case 1
      show ?thesis
      proof (cases "e = SPStart")
        case True
        have "s_final u = None" using s_running(1) [OF 2(1) st] True by simp
        then have "\<not> prod_creq u" using creq_stopping(1) [OF I(1)] nq(1) by (auto simp: s_over_def)
        then show ?thesis using v 1 True by (simp add: p_start_def fills_def)
      next
        case False
        then have "drains v u" using other_drains [OF st] en 1(2) by (cases e) auto
        then show ?thesis using 1 by (simp add: drains_def fills_def)
      qed
    next
      case p: 2
      show ?thesis
      proof (cases e)
        case (SSource r)
        have "s_final u = None" using s_running(1) [OF 2(1) st] SSource by simp
        moreover have "r = SrcItem (int (length (pulled u)))"
          using "2"(4) SSource p(3) n by (simp add: bp_enabled_def fast_producer_def)
        ultimately show ?thesis using fills_pull [OF "2"(1) _ "2"(3) p(1) nq mu] v SSource by simp
      next
        case SCancel
        then show ?thesis using v p by (simp add: fills_def)
      qed (use "2"(4) p(1) in \<open>simp_all add: bp_enabled_def\<close>)
    qed
  qed
qed

lemma metrics_read:
  assumes "bp_metrics r = metrics_to_dict m"
  shows "metric_count r ''produced'' = produced m" "metric_count r ''consumed'' = consumed m"
    "metric_count r ''max_queue_depth'' = max_queue_depth m"
    "metric_count r ''producer_pauses'' = producer_pauses m"
  by (simp_all add: metric_count_def assms metrics_to_dict_def)

lemma run_one_row:
  assumes ret: "run_one mo n queue_size consumer_ms concurrency = Some (Inr r)"
  shows "bp_n r = n \<and> bp_queue_size r = queue_size \<and>
    metric_count r ''produced'' = n \<and> metric_count r ''consumed'' = n \<and>
    metric_count r ''max_queue_depth'' \<le> min queue_size n \<and>
    metric_count r ''producer_pauses'' \<le> n - queue_size \<and>
    (queue_size < n \<longrightarrow> metric_count r ''max_queue_depth'' = queue_size)"
proof -
  obtain k q t where entry: "stream_entry (PInt (int concurrency)) (PInt (int queue_size)) PNone = Inr (k, q, t)"
    using ret by (auto simp: run_one_def split: sum.splits)
  then have q: "q = queue_size" by (simp add: stream_entry_Inr)
  obtain s where bp: "run (bp_step (bp_version mo) n)
      (stream_init (bp_version mo) k q (Some metrics_init) (bp_task mo)) (bp_events mo) = Some s"
    and fin: "s_final s = Some None"
    using ret entry by (auto simp: run_one_def split: option.splits)
  obtain k' q' where kq: "k = Suc k'" "q = Suc q'" using stream_entry_pos [OF entry] .
  note bp' = bp [unfolded kq] note g = bp_run_stream [OF bp']
  have pc: "prod_pc s = PReaped EndNormal"
  proof -
    note T = stream_invD(1) [OF stream_runs.go_inv [OF g], unfolded task_inv_def]
    have "\<forall>x \<in> set (stat s). x = Reaped EndNormal" using T fin by (simp add: tasks_inv_def)
    then show ?thesis by (cases "prod_pc s") (auto simp: stat_def)
  qed
  have P: "length (pulled s) = n" using bp_pulled [OF bp'] pc by (simp add: closing_def)
  note M = stream_runs.meter_trace [OF g, unfolded meter_ok_def]
  obtain m where m: "meter s = Some m" using M by (cases "meter s") simp_all
  have r: "bp_n r = n" "bp_queue_size r = queue_size" "bp_metrics r = metrics_to_dict m"
    using ret entry bp fin m by (auto simp: run_one_def)
  have z: "produced metrics_init = 0" "consumed metrics_init = 0" "max_queue_depth metrics_init = 0"
    "producer_pauses metrics_init = 0" by (simp_all add: metrics_init_def)
  note R = stream_runs.returned [OF g fin]
  have "length (finished s) = n" using R(2) P by (metis length_upt minus_nat.diff_0 size_mset)
  then have c: "produced m = n" "consumed m = n" using M m R(4) P pc z by simp_all
  have "level_ok q metrics_init s" using stream_runs.level_trace [OF g] kq by simp
  then have "gauge_ok q metrics_init s" by (simp add: level_ok_def)
  then have d: "max_queue_depth m \<le> n"
    "producer_pauses m = 0 \<or> queue_size \<le> max_queue_depth m \<and> 0 < producer_pauses m \<and> producer_pauses m + queue_size \<le> n"
    using m P z q by (simp_all add: gauge_ok_def gauge_def)
  have b: "max_queue_depth m \<le> queue_size" using M m kq q z by simp
  have f: "queue_size \<le> max_queue_depth m" if "queue_size < n"
    using bp_fills [OF bp'] that R(5) pc m q kq by (auto simp: fills_def)
  have "producer_pauses m \<le> n - queue_size" using d(2) by (elim disjE conjE) simp_all
  then show ?thesis
    unfolding metrics_read [OF r(3)] r(1,2) c using d(1) b f by (intro conjI impI refl) simp_all
qed

text \<open>
  C34. A row of the backpressure table says what happened. In any run that returns, all \<open>n\<close>
  items were put and consumed and no more than \<open>queue_size\<close>, nor \<open>n\<close>, ever waited; a row the
  report counts as having filled the queue did so with items still to put, and a row it says
  never did had no producer pause, as the report states of it; and a run of more items than
  the queue holds always fills it, whatever the schedule.
\<close>

theorem bp_row_truthful:
  assumes "run_one mo n queue_size consumer_ms concurrency = Some (Inr r)"
  shows "bp_n r = n \<and> bp_queue_size r = queue_size \<and>
    metric_count r ''produced'' = n \<and> metric_count r ''consumed'' = n \<and>
    metric_count r ''max_queue_depth'' \<le> min queue_size n \<and>
    metric_count r ''producer_pauses'' \<le> n - queue_size \<and>
    (if saturated r then queue_size < n \<and> metric_count r ''max_queue_depth'' = queue_size
     else n \<le> queue_size \<and> metric_count r ''producer_pauses'' = 0)"
  using run_one_row [OF assms] by (auto simp: saturated_def)

section \<open>What the report quotes\<close>

text \<open>
  The heap figures of the report are those of its own table. If it quotes a growth, both ends
  are rows of the table at the queue size it names, with the smallest and the largest \<open>n\<close> at that
  size, which differ; if it quotes none, every queue size in the table has one \<open>n\<close> only, or a
  smallest row with no heap to compare with.
\<close>

theorem growth_quotes_rows:
  "case growth rs of
     Some (q, lo, hi) \<Rightarrow>
       lo \<in> set rs \<and> hi \<in> set rs \<and> bp_queue_size lo = q \<and> bp_queue_size hi = q \<and> bp_n lo < bp_n hi \<and>
       f_pos (peak_heap_kb lo) \<and>
       (\<forall>r. r \<in> set rs \<and> bp_queue_size r = q \<longrightarrow> bp_n lo \<le> bp_n r \<and> bp_n r \<le> bp_n hi)
   | None \<Rightarrow>
       (\<forall>r r'. r \<in> set rs \<and> r' \<in> set rs \<and> bp_queue_size r = bp_queue_size r' \<and> bp_n r < bp_n r' \<longrightarrow>
          (\<exists>lo. lo \<in> set rs \<and> bp_queue_size lo = bp_queue_size r \<and> bp_n lo \<le> bp_n r \<and> \<not> f_pos (peak_heap_kb lo)))"
proof -
  define rows_at where "rows_at q = sort_key bp_n (filter (\<lambda>r. bp_queue_size r = q) rs)" for q
  have in_rows: "set (rows_at q) = {r. r \<in> set rs \<and> bp_queue_size r = q}" for q by (auto simp: rows_at_def)
  have ends: "bp_n (hd (rows_at q)) \<le> bp_n r \<and> bp_n r \<le> bp_n (last (rows_at q)) \<and> hd (rows_at q) \<in> set (rows_at q) \<and> last (rows_at q) \<in> set (rows_at q)"
    if m: "r \<in> set (rows_at q)" for q r
  proof -
    have s: "sorted (map bp_n (rows_at q))" by (simp add: rows_at_def)
    obtain i where i: "i < length (rows_at q)" "rows_at q ! i = r" using m [unfolded in_set_conv_nth] by blast
    then have ne: "rows_at q \<noteq> []" by auto
    note h = hd_conv_nth [OF ne] last_conv_nth [OF ne]
    have l: "0 < length (rows_at q)" "length (rows_at q) - 1 < length (rows_at q)" using ne by simp_all
    have "bp_n (rows_at q ! 0) \<le> bp_n (rows_at q ! i)" "bp_n (rows_at q ! i) \<le> bp_n (rows_at q ! (length (rows_at q) - 1))"
      using sorted_nth_mono [OF s, of 0 i] sorted_nth_mono [OF s, of i "length (rows_at q) - 1"] i(1) l by auto
    then show ?thesis using nth_mem [OF l(1)] nth_mem [OF l(2)] unfolding h i(2) by blast
  qed
  have g: "growth rs = find (\<lambda>(q, lo, hi). bp_n lo \<noteq> bp_n hi \<and> f_pos (peak_heap_kb lo))
      (map (\<lambda>q. (q, hd (rows_at q), last (rows_at q))) (sorted_set (map bp_queue_size rs)))"
    by (simp add: growth_def rows_at_def Let_def)
  show ?thesis
  proof (cases "growth rs")
    case None
    have "\<exists>lo. lo \<in> set rs \<and> bp_queue_size lo = bp_queue_size r \<and> bp_n lo \<le> bp_n r \<and> \<not> f_pos (peak_heap_kb lo)"
      if r: "r \<in> set rs" "r' \<in> set rs" "bp_queue_size r = bp_queue_size r'" "bp_n r < bp_n r'" for r r'
    proof -
      let ?q = "bp_queue_size r"
      have m: "r \<in> set (rows_at ?q)" "r' \<in> set (rows_at ?q)" using r in_rows by auto
      have "bp_n (hd (rows_at ?q)) \<noteq> bp_n (last (rows_at ?q))" using ends [OF m(1)] ends [OF m(2)] r(4) by linarith
      moreover have "\<not> (bp_n (hd (rows_at ?q)) \<noteq> bp_n (last (rows_at ?q)) \<and> f_pos (peak_heap_kb (hd (rows_at ?q))))"
        using None r(1) unfolding g find_None_iff by auto
      ultimately show ?thesis using ends [OF m(1)] in_rows by blast
    qed
    then show ?thesis using None by auto
  next
    case (Some x)
    obtain q lo hi where x: "x = (q, lo, hi)" by (cases x)
    have q: "q \<in> set (map bp_queue_size rs)" "lo = hd (rows_at q)" "hi = last (rows_at q)" "bp_n lo \<noteq> bp_n hi"
      "f_pos (peak_heap_kb lo)"
      using find_member [OF Some [unfolded g x]] by auto
    then obtain r where "r \<in> set (rows_at q)" using in_rows by auto
    then have e: "lo \<in> set (rows_at q)" "hi \<in> set (rows_at q)" "bp_n lo \<le> bp_n hi" using ends q by (metis le_trans)+
    have "bp_n lo \<le> bp_n r \<and> bp_n r \<le> bp_n hi" if "r \<in> set rs" "bp_queue_size r = q" for r
      using ends [of r q] that in_rows unfolding q(2,3) by blast
    moreover have "lo \<in> set rs" "hi \<in> set rs" "bp_queue_size lo = q" "bp_queue_size hi = q"
      using e(1,2) in_rows by simp_all
    ultimately show ?thesis using e(3) q(4,5) unfolding Some x by (simp only: option.case prod.case) force
  qed
qed

section \<open>The cells of a run, and what they are evidence of\<close>

text \<open>The runs \<open>main_async\<close> makes: \<open>n\<close> and \<open>queue_size\<close> of each.\<close>

definition bp_cells :: "nat \<Rightarrow> nat \<Rightarrow> bool \<Rightarrow> bool \<Rightarrow> (nat \<times> nat) list" where
  "bp_cells n queue_size compare compare_n =
     [(n, queue_size)] @ (if compare then [(n, queue_size * 4)] else []) @
     (if compare_n then [(max 1 (n div COMPARE_N_DIVISOR), queue_size)] else [])"

definition of_cells :: "(nat \<times> nat) list \<Rightarrow> bp_result list \<Rightarrow> bool" where
  "of_cells cells rs \<longleftrightarrow> map (\<lambda>r. (bp_n r, bp_queue_size r)) rs = cells"

lemma of_cells_member:
  "of_cells cells rs \<Longrightarrow> r \<in> set rs \<Longrightarrow> (bp_n r, bp_queue_size r) \<in> set cells"
  by (auto simp: of_cells_def)

lemma base_row:
  assumes "of_cells (bp_cells n queue_size compare compare_n) rs"
  shows "rs \<noteq> [] \<and> bp_n (hd rs) = n \<and> bp_queue_size (hd rs) = queue_size"
  using assms by (cases rs) (auto simp: of_cells_def bp_cells_def)

lemma saturated_n_card: "length (saturated_n rs) = card (bp_n ` {r. r \<in> set rs \<and> saturated r})"
  by (simp add: saturated_n_def length_sorted_set)

text \<open>A second \<open>n\<close> can only come from the row at the base row's queue size.\<close>

lemma second_n:
  assumes c: "of_cells (bp_cells n queue_size compare compare_n) rs"
    and two: "1 < length (saturated_n rs)"
  obtains r where "r \<in> set rs" and "saturated r" and "bp_queue_size r = queue_size" and "bp_n r \<noteq> n"
proof -
  have "\<not> bp_n ` {r. r \<in> set rs \<and> saturated r} \<subseteq> {n}"
  proof
    assume "bp_n ` {r. r \<in> set rs \<and> saturated r} \<subseteq> {n}"
    then have "card (bp_n ` {r. r \<in> set rs \<and> saturated r}) \<le> card {n}" by (rule card_mono [rotated]) simp
    then show False using two saturated_n_card [of rs] by simp
  qed
  then obtain r where r: "r \<in> set rs" "saturated r" "bp_n r \<noteq> n" by auto
  then have "bp_queue_size r = queue_size"
    using of_cells_member [OF c r(1)] by (auto simp: bp_cells_def split: if_splits)
  then show ?thesis using that r by blast
qed

lemma base_queue_cells:
  assumes "of_cells (bp_cells n queue_size compare compare_n) rs"
  shows "base_queue rs = queue_size"
  unfolding base_queue_def
proof (rule hd_sorted_set)
  show "queue_size \<in> set (map bp_queue_size rs)" using base_row [OF assms] by (cases rs) auto
  show "queue_size \<le> y" if y: "y \<in> set (map bp_queue_size rs)" for y
  proof -
    obtain r where "r \<in> set rs" "y = bp_queue_size r" using y by auto
    then show ?thesis using of_cells_member [OF assms, of r] by (auto simp: bp_cells_def split: if_splits)
  qed
qed

section \<open>Witnesses\<close>

text \<open>Two items through a queue of one, and one item through it.\<close>

definition two_item_feed :: "(int, int) sevent list" where
  "two_item_feed = [SPStart, SSource (SrcItem 0), SSource (SrcItem 1), SCStart 0, SPWake 1,
     SSource SrcEnd, SCFn 0 (ended_with (Returned 0)), SPWake 0,
     SCFn 0 (ended_with (Returned 1)), SPDone, SCDone 0, SParent]"

definition two_item_moments :: bp_moments where
  "two_item_moments = \<lparr>bp_version = Py312, bp_task = fresh_task, bp_events = two_item_feed,
     bp_clock = (0, 1), bp_peak = 2048\<rparr>"

definition two_item_row :: bp_result where
  "two_item_row = \<lparr>bp_n = 2, bp_queue_size = 1, bp_consumer_ms = Fin 1, bp_concurrency = 1,
     bp_duration_s = Fin 1, peak_heap_kb = Fin 2,
     bp_metrics = [(''produced'', Count 2), (''consumed'', Count 2), (''producer_pauses'', Count 1),
       (''max_queue_depth'', Count 1), (''producer_pause_seconds'', Seconds 1)]\<rparr>"

definition one_item_row :: bp_result where
  "one_item_row = two_item_row\<lparr>bp_n := 1, peak_heap_kb := Fin 1,
     bp_metrics := [(''produced'', Count 1), (''consumed'', Count 1), (''producer_pauses'', Count 0),
       (''max_queue_depth'', Count 1), (''producer_pause_seconds'', Seconds 0)]\<rparr>"

lemma two_item_run: "run_one two_item_moments 2 1 (Fin 1) 1 = Some (Inr two_item_row)"
proof -
  let ?run = "run (bp_step Py312 2) (stream_init Py312 1 1 (Some metrics_init) fresh_task) two_item_feed"
  have "map_option (\<lambda>s. (s_final s, map_option metrics_to_dict (meter s))) ?run =
      Some (Some None, Some (bp_metrics two_item_row))"
    by code_simp
  then obtain s m where "?run = Some s" "s_final s = Some None" "meter s = Some m"
    "metrics_to_dict m = bp_metrics two_item_row"
    by auto
  moreover have "stream_entry (PInt (int 1)) (PInt (int 1)) PNone = Inr (1, 1, None)" by code_simp
  ultimately show ?thesis by (simp add: run_one_def two_item_moments_def) (simp add: two_item_row_def)
qed

lemma bp_row_truthful_witness:
  "saturated two_item_row \<and> metric_count two_item_row ''max_queue_depth'' = 1"
proof -
  have s: "saturated two_item_row" by code_simp
  then show ?thesis using bp_row_truthful [OF two_item_run] by simp
qed

lemma growth_quotes_rows_witness:
  "\<exists>lo hi. growth [two_item_row, one_item_row] = Some (1, lo, hi) \<and> bp_n lo < bp_n hi"
proof -
  have g: "growth [two_item_row, one_item_row] = Some (1, one_item_row, two_item_row)" by code_simp
  have "bp_n one_item_row < bp_n two_item_row"
    using growth_quotes_rows [of "[two_item_row, one_item_row]"] unfolding g option.case prod.case by blast
  then show ?thesis using g by blast
qed

end
