(* ===== verification/Backpressure_Main.thy ===== *)
theory Backpressure_Main
  imports Backpressure Command
begin

text \<open>
  \<open>scripts/bench_backpressure.py\<close> from its parsed arguments to its exit code: the two output paths
  resolved as a pair, the checks before the first run, one run per cell, and the writes; and what
  the page's two paragraphs of conclusions say of the rows that a command measures.
\<close>

section \<open>The two outputs\<close>

definition DEFAULT_OUT_MD :: pystr where "DEFAULT_OUT_MD = lit ''docs/backpressure.md''"
definition DEFAULT_OUT_JSON :: pystr where "DEFAULT_OUT_JSON = lit ''docs/backpressure.json''"

text \<open>An output as the script's \<open>if path\<close> sees it: an empty string is none.\<close>

definition output_of :: "path \<Rightarrow> pystr \<Rightarrow> path option" where
  "output_of cwd s = (if s = [] then None else Some (path_of cwd s))"

definition bp_sibling :: "path \<Rightarrow> pystr \<Rightarrow> pystr \<Rightarrow> path op" where
  "bp_sibling p own other = sibling_path p own other"

definition resolve_out_paths ::
    "path \<Rightarrow> pystr option \<Rightarrow> pystr option \<Rightarrow> (path option \<times> path option) op" where
  "resolve_out_paths cwd out_md out_json =
     (case (out_md, out_json) of
        (None, None) \<Rightarrow> ret (output_of cwd DEFAULT_OUT_MD, output_of cwd DEFAULT_OUT_JSON)
      | (Some md, Some js) \<Rightarrow> ret (output_of cwd md, output_of cwd js)
      | (Some md, None) \<Rightarrow>
          if path_parts md = [] then fail (ValueError ''names no file'')
          else seq (bp_sibling (path_of cwd md) (lit ''.md'') (lit ''.json'')) (\<lambda>derived.
                 ret (output_of cwd md, Some derived))
      | (None, Some js) \<Rightarrow>
          if path_parts js = [] then fail (ValueError ''names no file'')
          else seq (bp_sibling (path_of cwd js) (lit ''.json'') (lit ''.md'')) (\<lambda>derived.
                 ret (Some derived, output_of cwd js)))"

section \<open>The command\<close>

record bp_args =
  b_n :: int
  b_queue_size :: int
  b_consumer_ms :: pyfloat
  b_concurrency :: int
  b_compare :: bool
  b_compare_n :: bool
  b_out_md :: "pystr option"
  b_out_json :: "pystr option"

text \<open>What \<open>_build_parser\<close> gives without flags.\<close>

definition bp_default_args :: bp_args where
  "bp_default_args = \<lparr>b_n = 5000, b_queue_size = 8, b_consumer_ms = Fin 1, b_concurrency = 2,
     b_compare = False, b_compare_n = False, b_out_md = None, b_out_json = None\<rparr>"

record bp_texts =
  bp_repr :: "rat \<Rightarrow> pystr"
  bp_host :: pystr
  bp_python :: pystr

text \<open>\<open>except ValueError\<close>, of which \<open>UnicodeEncodeError\<close> is one.\<close>

fun is_ValueError :: "exc \<Rightarrow> bool" where
  "is_ValueError (ValueError _) = True"
| "is_ValueError UnicodeEncodeError = True"
| "is_ValueError _ = False"

definition bp_args_ok :: "bp_args \<Rightarrow> bool" where
  "bp_args_ok a \<longleftrightarrow> \<not> (b_n a \<le> 0 \<or> b_queue_size a \<le> 0 \<or> b_concurrency a \<le> 0) \<and>
     (case b_consumer_ms a of Fin q \<Rightarrow> 0 \<le> q | _ \<Rightarrow> False)"

text \<open>The checks before the first run: is it one file?\<close>

definition check_outs :: "path option \<times> path option \<Rightarrow> bool op" where
  "check_outs dests =
     (case dests of
        (Some a, Some b) \<Rightarrow> check_both a b
      | (Some a, None) \<Rightarrow> seq (check_writable a) (\<lambda>_. ret False)
      | (None, Some b) \<Rightarrow> seq (check_writable b) (\<lambda>_. ret False)
      | (None, None) \<Rightarrow> ret False)"

definition bp_out_paths :: "path \<Rightarrow> bp_args \<Rightarrow> (nat + path option \<times> path option) op" where
  "bp_out_paths cwd a =
     seq (handle (seq (resolve_out_paths cwd (b_out_md a) (b_out_json a)) (\<lambda>dests. ret (Inr dests)))
           (\<lambda>e. if is_ValueError e then ret (Inl 2) else fail e)) (\<lambda>go.
       case go of
         Inl code \<Rightarrow> ret (Inl code)
       | Inr dests \<Rightarrow>
           or_exit_2 (seq (check_outs dests) (\<lambda>same. if same then ret (Inl 2) else ret (Inr dests))))"

text \<open>\<open>for n, qs, cms, c in cells\<close>.\<close>

fun run_cells :: "(nat \<Rightarrow> bp_moments) \<Rightarrow> nat \<Rightarrow> pyfloat \<Rightarrow> nat \<Rightarrow> (nat \<times> nat) list \<Rightarrow>
    (exc + bp_result list) option" where
  "run_cells mo i ms c [] = Some (Inr [])"
| "run_cells mo i ms c ((n, qs) # cells) =
     and_then (run_one (mo i) n qs ms c) (\<lambda>r.
     and_then (run_cells mo (Suc i) ms c cells) (\<lambda>rs. Some (Inr (r # rs))))"

definition bp_run :: "(nat \<Rightarrow> bp_moments) \<Rightarrow> bp_args \<Rightarrow> (exc + bp_result list) option" where
  "bp_run mo a =
     run_cells mo 0 (b_consumer_ms a) (nat (b_concurrency a))
       (bp_cells (nat (b_n a)) (nat (b_queue_size a)) (b_compare a) (b_compare_n a))"

definition bp_payload :: "bp_texts \<Rightarrow> bp_result list \<Rightarrow> json" where
  "bp_payload tx rs =
     JObj [(lit ''results'', JArr (map (\<lambda>r. JObj (bp_to_dict r)) rs)), (lit ''host'', JStr (bp_host tx)),
           (lit ''python'', JStr (bp_python tx))]"

definition write_output :: "path option \<Rightarrow> pystr \<Rightarrow> unit op" where
  "write_output out t =
     (case out of None \<Rightarrow> ret () | Some p \<Rightarrow> seq (atomic_write_text p t ''utf-8'') (\<lambda>_. shown p))"

definition bp_write :: "bp_texts \<Rightarrow> path option \<times> path option \<Rightarrow> bp_result list \<Rightarrow> (nat + unit) op" where
  "bp_write tx dests rs =
     or_exit_2
       (seq (write_output (fst dests) (bp_render (bp_repr tx) rs)) (\<lambda>_.
        seq (write_output (snd dests) (json_dumps (bp_repr tx) False (bp_payload tx rs))) (\<lambda>_.
        ret (Inr ()))))"

definition main_async :: "bp_texts \<Rightarrow> (nat \<Rightarrow> bp_moments) \<Rightarrow> path \<Rightarrow> bp_args \<Rightarrow> nat option op" where
  "main_async tx mo cwd a =
     (if \<not> bp_args_ok a then ret (Some 2)
      else command (bp_out_paths cwd a) (bp_run mo a) (bp_write tx))"

section \<open>The report can be encoded\<close>

lemma py_list_scalar: "(\<And>x. list_all scalar (f x)) \<Longrightarrow> list_all scalar (py_list_str f xs)"
proof -
  assume f: "\<And>x. list_all scalar (f x)"
  have "list_all (list_all scalar) (map f xs)" using f by (simp add: list_all_iff [of "list_all scalar"])
  from py_join_all [OF lit_scalar this] show ?thesis by (simp add: py_list_str_def lit_scalar)
qed

lemma pair_scalar [scalars]: "list_all scalar (pair_str p)"
  by (simp add: pair_str_def scalars)

lemma bp_row_scalar: "(\<And>q. list_all scalar (rp q)) \<Longrightarrow> list_all scalar (bp_row rp r)"
  by (simp add: bp_row_def float_str_def scalars split: pyfloat.splits)

lemma growth_scalar: "list_all scalar (results_are_o_n_sentence rs)"
proof -
  have "scalar 0x2192" by (simp add: scalar_def)
  then show ?thesis
    by (auto simp: results_are_o_n_sentence_def Let_def scalars times_sign_def scalar_def split: option.splits)
qed

lemma paragraphs_scalar: "list_all scalar (bound_paragraph rs)" "list_all scalar (evidence_paragraph rs)"
  by (simp_all add: bound_paragraph_def evidence_paragraph_def Let_def scalars py_list_scalar split: evidence.splits)

lemma bp_render_scalar:
  assumes rp: "\<And>q. list_all scalar (rp q)"
  shows "list_all scalar (bp_render rp rs)"
proof -
  have n: "scalar 10" by (simp add: scalar_def)
  have r: "list_all (list_all scalar) (map (bp_row rp) rs)"
    using bp_row_scalar [of rp, OF rp] by (simp add: list_all_iff [of "list_all scalar"])
  have i: "list_all (list_all scalar) bp_intro" by (simp add: bp_intro_def scalars n)
  show ?thesis
    unfolding bp_render_def
    by (rule py_join_all) (simp_all add: n r i scalars growth_scalar paragraphs_scalar py_list_scalar pair_scalar)
qed

section \<open>Both outputs\<close>

lemma bp_write_done:
  assumes calm: "calm env" and ok: "fs_ok (fs w)" and toks: "hex_tokens env"
    and free: "no_temps env (fs w)" "\<not> temp_like env kp"
    and p: "ready env (fs w) p kp" and j: "ready env (fs w) j kj" and ne: "kp \<noteq> kj"
    and enc: "codecs env ''utf-8'' = Inr encode" "encode (bp_render (bp_repr tx) rs) = Inr report"
    and raw: "encode (json_dumps (bp_repr tx) False (bp_payload tx rs)) = Inr bs"
  obtains w' where "bp_write tx (Some p, Some j) rs env w = (Inr (Inr ()), w')"
    and "file_at (fs w') = (file_at (fs w))(kp \<mapsto> report, kj \<mapsto> bs)"
proof -
  obtain w1 w2 where w: "atomic_write_text p (bp_render (bp_repr tx) rs) ''utf-8'' env w = (Inr (), w1)"
    "atomic_write_text j (json_dumps (bp_repr tx) False (bp_payload tx rs)) ''utf-8'' env w1 = (Inr (), w2)"
    "file_at (fs w2) = (file_at (fs w))(kp \<mapsto> report, kj \<mapsto> bs)"
    using write_both [OF calm ok toks free p j ne enc raw] by metis
  have s: "shown p env u = (Inr (), u)" "shown j env u = (Inr (), u)" for u
    using shown_total p j unfolding ready_def by blast+
  have "bp_write tx (Some p, Some j) rs env w = (Inr (Inr ()), w2)"
    unfolding bp_write_def by (rule or_exit_2_Inr) (simp add: write_output_def seq_def w s ret_def)
  then show ?thesis using that w(3) by blast
qed

lemma bp_checks:
  assumes "resolve_out_paths cwd (b_out_md a) (b_out_json a) env w = (Inr (Some p, Some j), w)"
  shows "bp_out_paths cwd a env w =
    or_exit_2 (seq (check_both p j) (\<lambda>same. if same then ret (Inl 2) else ret (Inr (Some p, Some j)))) env w"
  using assms by (simp add: bp_out_paths_def check_outs_def seq_def handle_def ret_def)

text \<open>
  C33. The backpressure script, with two outputs: the first run starts exactly when both files
  can be written and are not one; otherwise the command ends before it, with no file
  changed and the same outcome whatever the runs would have done. If every run returns, the
  command ends in exit code 0 with both files written, the report and JSON that reads back
  as the rows, host and version, and no other file touched; if one raises, or has not
  ended, no file has changed.
\<close>

theorem bp_main_publishes:
  assumes "calm env" and "fs_ok (fs w)" and "hex_tokens env" and "no_temps env (fs w)"
    and "bp_args_ok a"
    and "resolve_out_paths cwd (b_out_md a) (b_out_json a) env w = (Inr (Some p, Some j), w)"
    and "namei (fold_name env) (fs w) True p = Inr kp" and "namei (fold_name env) (fs w) True j = Inr kj"
    and "\<not> temp_like env kp"
    and "codecs env ''utf-8'' = Inr encode"
    and utf8: "\<And>t. list_all scalar t \<Longrightarrow> encode t = Inr (concat (map utf8_char t))"
    and repr: "\<And>q. list_all scalar (bp_repr tx q)"
    and "\<And>rs. bp_run mo a = Some (Inr rs) \<Longrightarrow> json_ok (bp_repr tx) fr (bp_payload tx rs)"
  shows "if ready env (fs w) p kp \<and> ready env (fs w) j kj \<and> \<not> one_file (fs w) kp kj
    then \<exists>w'. (case bp_run mo a of
        None \<Rightarrow> main_async tx mo cwd a env w = (Inr None, w') \<and> file_at (fs w') = file_at (fs w)
      | Some (Inl e) \<Rightarrow> main_async tx mo cwd a env w = (Inl e, w') \<and> file_at (fs w') = file_at (fs w)
      | Some (Inr rs) \<Rightarrow> main_async tx mo cwd a env w = (Inr (Some 0), w') \<and>
          (\<exists>bs. file_at (fs w') =
               (file_at (fs w))(kp \<mapsto> concat (map utf8_char (bp_render (bp_repr tx) rs)), kj \<mapsto> bs) \<and>
             json_loads fr bs = Some (bp_payload tx rs)))
    else \<exists>r w'. r \<noteq> Inr (Some 0) \<and> file_at (fs w') = file_at (fs w) \<and>
      (\<forall>mo'. main_async tx mo' cwd a env w = (r, w'))"
proof -
  let ?C = "ready env (fs w) p kp \<and> ready env (fs w) j kj \<and> \<not> one_file (fs w) kp kj"
  let ?report = "\<lambda>rs. concat (map utf8_char (bp_render (bp_repr tx) rs))"
  obtain g w1 where o: "bp_out_paths cwd a env w = (g, w1)" by (cases "bp_out_paths cwd a env w")
  have "encode [] = Inr []" using utf8 [of "[]"] by simp
  note O = checked_pair [OF assms(1-4,7,8,10) this o [unfolded bp_checks [OF assms(6)]]]
  have k: "kept (fs w) (fs w1)" using O by blast
  note ok1 = kept_ok [OF assms(2) k]
  have wr: "\<exists>w'. bp_write tx (Some p, Some j) rs env w1 = (Inr (Inr ()), w') \<and>
      (\<exists>bs. file_at (fs w') = (file_at (fs w))(kp \<mapsto> ?report rs, kj \<mapsto> bs) \<and>
         json_loads fr bs = Some (bp_payload tx rs))"
    if C: ?C and rs: "bp_run mo a = Some (Inr rs)" for rs
  proof -
    let ?t = "json_dumps (bp_repr tx) False (bp_payload tx rs)"
    note e = assms(13) [OF rs]
    have report: "encode (bp_render (bp_repr tx) rs) = Inr (?report rs)"
      using utf8 bp_render_scalar [of "bp_repr tx", OF repr] by blast
    have t: "encode ?t = Inr ?t" "json_loads fr ?t = Some (bp_payload tx rs)"
      using plain_json.stored [OF e utf8_keeps_ascii [OF utf8]] by simp_all
    have r: "ready env (fs w1) p kp" "ready env (fs w1) j kj" "kp \<noteq> kj"
      using C ready_kept [OF assms(2) _ k] by (auto simp: one_file_def)
    obtain w' where "bp_write tx (Some p, Some j) rs env w1 = (Inr (Inr ()), w')"
      "file_at (fs w') = (file_at (fs w1))(kp \<mapsto> ?report rs, kj \<mapsto> ?t)"
      using bp_write_done [OF assms(1) ok1 assms(3) no_temps_kept [OF assms(4) k] assms(9) r assms(10) report t(1)]
      by blast
    then show ?thesis using t(2) kept_file_at [OF assms(2) k] by auto
  qed
  have A: "main_async tx mo' cwd a = command (bp_out_paths cwd a) (bp_run mo' a) (bp_write tx)" for mo'
    using assms(5) by (simp add: main_async_def)
  note R = command_contract [where checks = "bp_out_paths cwd a" and env = env and w = w and x = "(Some p, Some j)"
      and outcome = "bp_run mo a" and writes = "bp_write tx"
      and Q = "\<lambda>rs w'. \<exists>bs. file_at (fs w') = (file_at (fs w))(kp \<mapsto> ?report rs, kj \<mapsto> bs) \<and>
         json_loads fr bs = Some (bp_payload tx rs)",
      OF assms(2) o O, OF wr]
  show ?thesis
  proof (cases ?C)
    case True
    show ?thesis using R unfolding A if_P [OF True] .
  next
    case False
    show ?thesis using R unfolding A if_not_P [OF False] by blast
  qed
qed

section \<open>The pair\<close>

lemma suffixes:
  assumes "stem \<noteq> []"
  shows "py_suffix (stem @ lit ''.md'') = lit ''.md''" "py_suffix (stem @ lit ''.json'') = lit ''.json''"
    "with_suffix (stem @ lit ''.md'') (lit ''.json'') = Inr (stem @ lit ''.json'')"
    "with_suffix (stem @ lit ''.json'') (lit ''.md'') = Inr (stem @ lit ''.md'')"
proof -
  show s: "py_suffix (stem @ lit ''.md'') = lit ''.md''" "py_suffix (stem @ lit ''.json'') = lit ''.json''"
    using assms by (simp_all add: py_suffix_def rfind_dot_def lit_def nth_append)
  have "lit ''.md'' \<noteq> []" "lit ''.json'' \<noteq> []" "hd (lit ''.md'') = 46" "hd (lit ''.json'') = 46"
    "lit ''.md'' \<noteq> [46]" "lit ''.json'' \<noteq> [46]" by (simp_all add: lit_def)
  then show "with_suffix (stem @ lit ''.md'') (lit ''.json'') = Inr (stem @ lit ''.json'')"
    "with_suffix (stem @ lit ''.json'') (lit ''.md'') = Inr (stem @ lit ''.md'')"
    using s by (simp_all add: with_suffix_def)
qed

text \<open>
  C36. The two outputs are one pair, whichever flag names it. A report \<open>stem.md\<close> given alone, its
  \<open>stem.json\<close> given alone, and both given, resolve to the same two files, without a call to the
  file system; without a flag the pair is the committed one. A lone report whose suffix is no
  case variant of \<open>.md\<close> gets its JSON beside it, \<open>.json\<close> appended to its name, and a lone JSON
  file likewise; the file placed so is one of the committed pair for exactly one name, which is
  in neither: \<open>backpressure\<close> in \<open>docs\<close>, without a suffix.
\<close>

theorem outputs_are_a_pair:
  assumes "path_of cwd md = dir @ [stem @ lit ''.md'']" and "path_of cwd js = dir @ [stem @ lit ''.json'']"
    and "stem \<noteq> []" and "path_parts md \<noteq> []" and "path_parts js \<noteq> []"
    and "path_of cwd other = d @ [name]" and "path_parts other \<noteq> []"
  shows "(let pair = (Some (dir @ [stem @ lit ''.md'']), Some (dir @ [stem @ lit ''.json'']))
     in resolve_out_paths cwd (Some md) None env w = (Inr pair, w) \<and>
        resolve_out_paths cwd None (Some js) env w = (Inr pair, w) \<and>
        resolve_out_paths cwd (Some md) (Some js) env w = (Inr pair, w)) \<and>
    resolve_out_paths cwd None None env w =
      (Inr (Some (cwd @ [lit ''docs'', lit ''backpressure.md'']),
            Some (cwd @ [lit ''docs'', lit ''backpressure.json''])), w) \<and>
    (ascii_lower (py_suffix name) \<noteq> lit ''.md'' \<longrightarrow>
       resolve_out_paths cwd (Some other) None env w =
         (Inr (Some (d @ [name]), Some (d @ [name @ lit ''.json''])), w) \<and>
       (d @ [name @ lit ''.json''] = cwd @ [lit ''docs'', lit ''backpressure.json''] \<longleftrightarrow>
          d @ [name] = cwd @ [lit ''docs'', lit ''backpressure''])) \<and>
    (ascii_lower (py_suffix name) \<noteq> lit ''.json'' \<longrightarrow>
       resolve_out_paths cwd None (Some other) env w =
         (Inr (Some (d @ [name @ lit ''.md'']), Some (d @ [name])), w) \<and>
       (d @ [name @ lit ''.md''] = cwd @ [lit ''docs'', lit ''backpressure.md''] \<longleftrightarrow>
          d @ [name] = cwd @ [lit ''docs'', lit ''backpressure'']))"
proof -
  have out: "output_of cwd s = Some (path_of cwd s)" if "path_parts s \<noteq> []" for s
    using that by (auto simp: output_of_def path_parts_def)
  have o: "sibling_path (d @ [name]) own suff env w = (Inr (d @ [name @ suff]), w)"
    if "ascii_lower (py_suffix name) \<noteq> ascii_lower own" for own suff
  proof -
    have "py_suffix name \<noteq> own" using that by auto
    then show ?thesis using that by (simp add: sibling_path_def file_name_def ret_def Let_def)
  qed
  have l: "ascii_lower (lit ''.md'') = lit ''.md''" "ascii_lower (lit ''.json'') = lit ''.json''"
    by (simp_all add: lit_def ascii_lower_def)
  note om = o [of "lit ''.md''", unfolded l] and oj = o [of "lit ''.json''", unfolded l]
  have s: "sibling_path (dir @ [stem @ lit ''.md'']) (lit ''.md'') (lit ''.json'') env w =
      (Inr (dir @ [stem @ lit ''.json'']), w)"
    "sibling_path (dir @ [stem @ lit ''.json'']) (lit ''.json'') (lit ''.md'') env w =
      (Inr (dir @ [stem @ lit ''.md'']), w)"
    using suffixes [OF assms(3)] by (simp_all add: sibling_path_def path_with_suffix_def file_name_def ret_def Let_def)
  have def_paths: "path_of cwd DEFAULT_OUT_MD = cwd @ [lit ''docs'', lit ''backpressure.md'']"
    "path_of cwd DEFAULT_OUT_JSON = cwd @ [lit ''docs'', lit ''backpressure.json'']"
    "path_parts DEFAULT_OUT_MD \<noteq> []" "path_parts DEFAULT_OUT_JSON \<noteq> []"
    by (simp_all add: path_of_def path_parts_def DEFAULT_OUT_MD_def DEFAULT_OUT_JSON_def lit_def)
  have c: "d @ [name @ suff] = cwd @ [lit ''docs'', lit ''backpressure'' @ suff] \<longleftrightarrow>
      d @ [name] = cwd @ [lit ''docs'', lit ''backpressure'']" for suff
    using append1_eq_conv [of d _ "cwd @ [lit ''docs'']"] by simp
  have n: "lit ''backpressure.json'' = lit ''backpressure'' @ lit ''.json''"
    "lit ''backpressure.md'' = lit ''backpressure'' @ lit ''.md''" by (simp_all add: lit_def)
  show ?thesis
    unfolding n c
    by (simp add: resolve_out_paths_def bp_sibling_def out assms(4,5,7) def_paths assms(1,2,6) s om oj seq_def ret_def n)
qed

section \<open>What the rows are evidence of\<close>

text \<open>A row that filled its queue with items still to put.\<close>

definition full_row :: "bp_result \<Rightarrow> bool" where
  "full_row r \<longleftrightarrow> bp_queue_size r < bp_n r \<and> metric_count r ''max_queue_depth'' = bp_queue_size r"

definition two_ns :: "bp_result list \<Rightarrow> bool" where
  "two_ns rs \<longleftrightarrow> (\<exists>r r'. r \<in> set rs \<and> r' \<in> set rs \<and> full_row r \<and> full_row r' \<and>
     bp_queue_size r = bp_queue_size r' \<and> bp_n r \<noteq> bp_n r')"

lemma of_cells_in:
  assumes "of_cells cells rs" and "(n, q) \<in> set cells"
  obtains r where "r \<in> set rs" and "bp_n r = n" and "bp_queue_size r = q"
  using assms by (auto simp: of_cells_def)

text \<open>A row that the report reads right.\<close>

definition read_right :: "bp_result \<Rightarrow> bool" where
  "read_right r \<longleftrightarrow> (saturated r \<longleftrightarrow> bp_queue_size r < bp_n r) \<and> (saturated r \<longleftrightarrow> full_row r) \<and>
     (saturated r \<or> metric_count r ''producer_pauses'' = 0)"

lemma read_rightD:
  assumes "read_right r"
  shows "saturated r \<longleftrightarrow> bp_queue_size r < bp_n r" and "saturated r \<longleftrightarrow> full_row r"
    and "\<not> saturated r \<Longrightarrow> bp_n r \<le> bp_queue_size r \<and> metric_count r ''producer_pauses'' = 0"
  using assms by (auto simp: read_right_def)

lemma run_cells_rows:
  assumes "run_cells mo i ms c cells = Some (Inr rs)"
  shows "of_cells cells rs \<and> (\<forall>r \<in> set rs. read_right r)"
  using assms
proof (induction mo i ms c cells arbitrary: rs rule: run_cells.induct)
  case (2 mo i ms c n qs cells)
  then obtain r rs' where r: "run_one (mo i) n qs ms c = Some (Inr r)"
    and rs': "run_cells mo (Suc i) ms c cells = Some (Inr rs')" and rs: "rs = r # rs'"
    by (auto simp: and_then_Inr)
  have "read_right r" using run_one_row [OF r] by (auto simp: read_right_def saturated_def full_row_def)
  then show ?case using "2.IH" [OF rs'] run_one_row [OF r] by (simp add: of_cells_def rs)
qed (simp add: of_cells_def)

lemma evidence_rows:
  assumes cells: "of_cells (bp_cells n queue_size compare compare_n) rs" and n: "0 < n"
    and rows: "\<And>r. r \<in> set rs \<Longrightarrow> read_right r"
  shows "1 < length (saturated_n rs) \<longleftrightarrow> two_ns rs"
proof
  assume l: "1 < length (saturated_n rs)"
  obtain r where r: "r \<in> set rs" "saturated r" "bp_queue_size r = queue_size" "bp_n r \<noteq> n"
    using second_n [OF cells l] .
  then have "bp_n r = max 1 (n div COMPARE_N_DIVISOR)"
    using of_cells_member [OF cells r(1)] by (auto simp: bp_cells_def split: if_splits)
  moreover have "n div COMPARE_N_DIVISOR \<le> n" by (simp add: COMPARE_N_DIVISOR_def)
  ultimately have "bp_n r \<le> n" using n by simp
  moreover have "queue_size < bp_n r" using read_rightD(1) [OF rows [OF r(1)]] r(2,3) by simp
  ultimately have q: "queue_size < n" by simp
  have h: "hd rs \<in> set rs" "bp_n (hd rs) = n" "bp_queue_size (hd rs) = queue_size"
    using base_row [OF cells] by auto
  have "full_row (hd rs)" using read_rightD(1,2) [OF rows [OF h(1)]] h q by simp
  moreover have "full_row r" using read_rightD(2) [OF rows [OF r(1)]] r(2) by simp
  ultimately show "two_ns rs"
    unfolding two_ns_def using r h by (intro exI [of _ r] exI [of _ "hd rs"]) simp
next
  assume "two_ns rs"
  then obtain r r' where r: "r \<in> set rs" "r' \<in> set rs" "full_row r" "full_row r'" "bp_n r \<noteq> bp_n r'"
    unfolding two_ns_def by blast
  then have "{bp_n r, bp_n r'} \<subseteq> bp_n ` {r. r \<in> set rs \<and> saturated r}"
    using read_rightD(2) [OF rows] by blast
  then have "card {bp_n r, bp_n r'} \<le> card (bp_n ` {r. r \<in> set rs \<and> saturated r})" by (rule card_mono [rotated]) simp
  then show "1 < length (saturated_n rs)" using saturated_n_card [of rs] r(5) by simp
qed

lemma bp_run_rows:
  assumes "bp_args_ok a" and "bp_run mo a = Some (Inr rs)"
  shows "of_cells (bp_cells (nat (b_n a)) (nat (b_queue_size a)) (b_compare a) (b_compare_n a)) rs"
    and "r \<in> set rs \<Longrightarrow> read_right r"
    and "1 < length (saturated_n rs) \<longleftrightarrow> two_ns rs"
proof -
  note R = run_cells_rows [OF assms(2) [unfolded bp_run_def]]
  show c: "of_cells (bp_cells (nat (b_n a)) (nat (b_queue_size a)) (b_compare a) (b_compare_n a)) rs"
    by (rule conjunct1 [OF R])
  show rows: "r \<in> set rs \<Longrightarrow> read_right r" for r using conjunct2 [OF R] by blast
  have "0 < nat (b_n a)" using assms(1) by (simp add: bp_args_ok_def)
  then show "1 < length (saturated_n rs) \<longleftrightarrow> two_ns rs" using evidence_rows [OF c _ rows] by blast
qed

text \<open>Two rows of one queue size that the advice's \<open>n\<close> gives.\<close>

lemma advice_rows:
  assumes cells: "of_cells (bp_cells n q compare True) rs" and rows: "\<And>r. r \<in> set rs \<Longrightarrow> read_right r"
    and n: "q < n div COMPARE_N_DIVISOR"
  shows "two_ns rs"
proof -
  have m: "(n, q) \<in> set (bp_cells n q compare True)"
    "(n div COMPARE_N_DIVISOR, q) \<in> set (bp_cells n q compare True)"
    using n by (auto simp: bp_cells_def max_def)
  obtain r where r: "r \<in> set rs" "bp_n r = n" "bp_queue_size r = q" using of_cells_in [OF cells m(1)] .
  obtain r' where r': "r' \<in> set rs" "bp_n r' = n div COMPARE_N_DIVISOR" "bp_queue_size r' = q"
    using of_cells_in [OF cells m(2)] .
  have d: "q < n" "n div COMPARE_N_DIVISOR \<noteq> n"
    using n by (auto simp: COMPARE_N_DIVISOR_def)
  have "full_row r" "full_row r'"
    using read_rightD(1,2) [OF rows [OF r(1)]] read_rightD(1,2) [OF rows [OF r'(1)]] r r' d(1) n by simp_all
  then show "two_ns rs"
    unfolding two_ns_def using r r' d(2) by (intro exI [of _ r] exI [of _ r']) simp
qed

text \<open>
  C35. The report claims evidence only where the runs gave it, and its advice works. Whatever
  the schedules of a command's runs, it says that rows spanning several \<open>n\<close> at a fixed queue
  size filled the queue exactly when two rows of one queue size and different \<open>n\<close> did, with
  more items than the queue holds and the depth at the queue size; it says so of the whole
  table only if every row did; it says no row did exactly when every run had no more items
  than its queue holds, and that none had a pause is true; otherwise the rows that did share
  one \<open>n\<close>. And any command that follows the advice (same queue size, \<open>--compare-n\<close>, an \<open>--n\<close>
  whose tenth exceeds the queue size quoted) ends, if its runs return, in a report with that
  evidence.
\<close>

theorem evidence_is_evidence:
  assumes "bp_args_ok a" and "bp_run mo a = Some (Inr rs)"
  shows "(case evidence_of rs of
       All_Rows \<Rightarrow> two_ns rs \<and> list_all full_row rs
     | Filled_Rows \<Rightarrow> two_ns rs \<and> \<not> list_all full_row rs
     | No_Row \<Rightarrow> list_all (\<lambda>r. bp_n r \<le> bp_queue_size r \<and> metric_count r ''producer_pauses'' = 0) rs
     | One_N \<Rightarrow> \<not> two_ns rs \<and> (\<exists>m. {bp_n r | r. r \<in> set rs \<and> bp_queue_size r < bp_n r} = {m})) \<and>
    (\<forall>mo' a' rs'. bp_args_ok a' \<and> b_queue_size a' = b_queue_size a \<and> b_compare_n a' \<and>
       base_queue rs < nat (b_n a') div COMPARE_N_DIVISOR \<and> bp_run mo' a' = Some (Inr rs') \<longrightarrow>
       evidence_of rs' = All_Rows \<or> evidence_of rs' = Filled_Rows)"
proof -
  note R = bp_run_rows [OF assms]
  note right = read_rightD [OF R(2)]
  have unfilled: "unfilled_rows rs = [] \<longleftrightarrow> list_all full_row rs"
    using right(2) by (auto simp: unfilled_rows_def filter_empty_conv list_all_iff)
  have none: "saturated_n rs = [] \<longleftrightarrow> (\<forall>r \<in> set rs. \<not> saturated r)"
    by (simp add: saturated_n_def filter_empty_conv)
  have one: "\<exists>m. {bp_n r | r. r \<in> set rs \<and> bp_queue_size r < bp_n r} = {m}"
    if "\<not> 1 < length (saturated_n rs)" "saturated_n rs \<noteq> []"
  proof -
    have "card (bp_n ` {r. r \<in> set rs \<and> saturated r}) = Suc 0"
      using that saturated_n_card [of rs] by (metis One_nat_def length_0_conv less_one linorder_neqE_nat)
    then obtain m where "bp_n ` {r. r \<in> set rs \<and> saturated r} = {m}" by (auto simp: card_Suc_eq)
    moreover have "bp_n ` {r. r \<in> set rs \<and> saturated r} = {bp_n r | r. r \<in> set rs \<and> bp_queue_size r < bp_n r}"
      using right(1) by blast
    ultimately show ?thesis by simp
  qed
  have e: "case evidence_of rs of
       All_Rows \<Rightarrow> two_ns rs \<and> list_all full_row rs
     | Filled_Rows \<Rightarrow> two_ns rs \<and> \<not> list_all full_row rs
     | No_Row \<Rightarrow> list_all (\<lambda>r. bp_n r \<le> bp_queue_size r \<and> metric_count r ''producer_pauses'' = 0) rs
     | One_N \<Rightarrow> \<not> two_ns rs \<and> (\<exists>m. {bp_n r | r. r \<in> set rs \<and> bp_queue_size r < bp_n r} = {m})"
  proof -
    consider "1 < length (saturated_n rs)" | "saturated_n rs = []" | "\<not> 1 < length (saturated_n rs)" "saturated_n rs \<noteq> []"
      by blast
    then show ?thesis
    proof cases
      case 1
      then show ?thesis using R(3) by (simp add: evidence_of_def unfilled)
    next
      case 2
      then show ?thesis using right(3) none by (simp add: evidence_of_def list_all_iff)
    next
      case 3
      then show ?thesis using R(3) one by (simp add: evidence_of_def)
    qed
  qed
  have advice: "evidence_of rs' = All_Rows \<or> evidence_of rs' = Filled_Rows"
    if a: "bp_args_ok a'" "b_queue_size a' = b_queue_size a" "b_compare_n a'"
      and n: "base_queue rs < nat (b_n a') div COMPARE_N_DIVISOR" and ret: "bp_run mo' a' = Some (Inr rs')" for mo' a' rs'
  proof -
    note R' = bp_run_rows [OF a(1) ret]
    have "nat (b_queue_size a) < nat (b_n a') div COMPARE_N_DIVISOR" using n base_queue_cells [OF R(1)] by simp
    then have "two_ns rs'" using advice_rows [OF R'(1) [unfolded a(2) eqTrueI [OF a(3)]] R'(2)] by blast
    then show ?thesis using R'(3) by (simp add: evidence_of_def)
  qed
  show ?thesis using e advice by blast
qed

section \<open>Witnesses\<close>

lemma small_named:
  "path_of [] (lit ''d/x.md'') = [lit ''d''] @ [lit ''x'' @ lit ''.md'']"
  "path_of [] (lit ''d/x.json'') = [lit ''d''] @ [lit ''x'' @ lit ''.json'']"
  "path_of [] (lit ''d/x.a'') = [lit ''d''] @ [lit ''x.a'']" "lit ''x'' \<noteq> []"
  "path_parts (lit ''d/x.md'') \<noteq> []" "path_parts (lit ''d/x.json'') \<noteq> []" "path_parts (lit ''d/x.a'') \<noteq> []"
  "ascii_lower (py_suffix (lit ''x.a'')) \<noteq> lit ''.md''"
  by code_simp+

lemma outputs_are_a_pair_witness:
  "resolve_out_paths [] (Some (lit ''d/x.a'')) None calm_env (at_rest small_fs) =
     (Inr (Some [lit ''d'', lit ''x.a''], Some [lit ''d'', lit ''x.a'' @ lit ''.json'']), at_rest small_fs)"
  using outputs_are_a_pair [OF small_named(1,2,4,5,6,3,7), of calm_env "at_rest small_fs"] small_named(8) by simp

definition small_bp_args :: bp_args where
  "small_bp_args = \<lparr>b_n = 2, b_queue_size = 1, b_consumer_ms = Fin 1, b_concurrency = 1,
     b_compare = False, b_compare_n = False, b_out_md = Some (lit ''d/x.md''), b_out_json = None\<rparr>"

definition whole_texts :: bp_texts where
  "whole_texts = \<lparr>bp_repr = (\<lambda>q. if q = 1 then lit ''1.0'' else lit ''2.0''),
     bp_host = lit ''linux'', bp_python = lit ''3.12.4''\<rparr>"

definition whole_read :: "pystr \<Rightarrow> rat option" where
  "whole_read t = Some (if t = lit ''1.0'' then 1 else 2)"

lemma small_bp_run: "bp_run (\<lambda>_. two_item_moments) small_bp_args = Some (Inr [two_item_row])"
  using two_item_run by (simp add: bp_run_def small_bp_args_def bp_cells_def nat_numeral)

lemma evidence_is_evidence_witness:
  "evidence_of [two_item_row] = One_N \<and> (\<exists>m. {bp_n r | r. r \<in> set [two_item_row] \<and> bp_queue_size r < bp_n r} = {m})"
proof -
  have a: "bp_args_ok small_bp_args" by (simp add: bp_args_ok_def small_bp_args_def)
  have e: "evidence_of [two_item_row] = One_N" by code_simp
  show ?thesis using evidence_is_evidence [OF a small_bp_run] unfolding e evidence.case by blast
qed

lemma small_bp_rows_ok:
  assumes "bp_run (\<lambda>_. two_item_moments) small_bp_args = Some (Inr rs)"
  shows "json_ok (bp_repr whole_texts) whole_read (bp_payload whole_texts rs)"
proof -
  have "float_ok (bp_repr whole_texts) whole_read 1" "float_ok (bp_repr whole_texts) whole_read 2"
    by (simp_all add: float_ok_def whole_texts_def whole_read_def lit_def is_num_def is_digit_def)
  moreover have "rs = [two_item_row]" using assms small_bp_run by simp
  ultimately show ?thesis
    by (simp add: bp_payload_def bp_to_dict_def two_item_row_def json_of_metric_def lit_scalar whole_texts_def)
qed

lemma small_bp_out:
  "resolve_out_paths [] (b_out_md small_bp_args) (b_out_json small_bp_args) calm_env (at_rest small_fs) =
     (Inr (Some [lit ''d'', lit ''x.md''], Some [lit ''d'', lit ''x.json'']), at_rest small_fs)"
  by code_simp

lemma bp_main_publishes_witness:
  "\<exists>w' bs. main_async whole_texts (\<lambda>_. two_item_moments) [] small_bp_args calm_env (at_rest small_fs) =
       (Inr (Some 0), w') \<and>
     file_at (fs w') = (file_at small_fs)([lit ''d'', lit ''x.md''] \<mapsto>
         concat (map utf8_char (bp_render (bp_repr whole_texts) [two_item_row])), [lit ''d'', lit ''x.json''] \<mapsto> bs) \<and>
     json_loads whole_read bs = Some (bp_payload whole_texts [two_item_row])"
proof -
  have args: "bp_args_ok small_bp_args" by (simp add: bp_args_ok_def small_bp_args_def)
  have repr: "list_all scalar (bp_repr whole_texts q)" for q by (simp add: whole_texts_def lit_scalar)
  note R = bp_main_publishes [of calm_env "at_rest small_fs" small_bp_args "[]" _ _ _ _ _ whole_texts
      "\<lambda>_. two_item_moments", unfolded at_rest_simps,
      OF calm_env_calm small_fs_ok calm_env_tokens small_no_temps args small_bp_out small_out_keys
      small_out_free(1,2) fsencode_scalars repr small_bp_rows_ok, unfolded small_bp_run option.case sum.case]
  show ?thesis using R small_out_ready small_out_free(3) by auto
qed

end
