(* ===== verification/Script_Divergences.thy ===== *)
theory Script_Divergences
  imports Bench_Main Backpressure_Main
begin

text \<open>
  Where the scripts do something else than their comments say.
\<close>

text \<open>
  Both scripts promise exit code 2 for an output path that cannot be used. A report named \<open>x.MD\<close> makes
  \<open>sibling_path\<close> ask the file system, and a \<open>stat\<close> refused with EACCES raises there (up to
  Python 3.13). \<open>bench_1000_doc.py\<close> calls it inside its \<open>except OSError\<close>; \<open>bench_backpressure.py\<close>
  resolves its pair outside, under \<open>except ValueError\<close> only, and ends in a traceback.
\<close>

definition locked_env :: env where
  "locked_env = env_with (\<lambda>c _. if c = SStat then Fails EACCES else Works)"

lemma locked_sibling:
  "fst (sibling_path [lit ''d'', lit ''x.MD''] (lit ''.md'') (lit ''.json'') locked_env (at_rest small_fs)) = Inl EACCES"
proof -
  have "py_suffix (lit ''x.MD'') = lit ''.MD''" "lit ''.MD'' \<noteq> lit ''.md''"
    "ascii_lower (lit ''.MD'') = ascii_lower (lit ''.md'')" by code_simp+
  moreover have "with_suffix (lit ''x.MD'') (lit ''.md'') = Inr (lit ''x.md'')" by code_simp
  ultimately show ?thesis
    by (simp add: sibling_path_def Let_def file_name_def path_with_suffix_def aliases_def seq_def ret_def fail_def
        path_is_dir_def handle_def os_stat_def os_query_def os_call_def locked_env_def env_with_def at_rest_def
        path_ignores_def EACCES_def)
qed

lemma locked_parts: "path_of [] (lit ''d/x.MD'') = [lit ''d'', lit ''x.MD'']" "path_parts (lit ''d/x.MD'') \<noteq> []"
  by code_simp+

lemma probe_error_escapes:
  "fst (main_async tx mo [] (small_bp_args\<lparr>b_out_md := Some (lit ''d/x.MD'')\<rparr>) locked_env (at_rest small_fs)) = Inl EACCES"
  "fst (amain tx' m [] (small_args\<lparr>a_out := lit ''d/x.MD''\<rparr>) locked_env (at_rest small_fs)) = Inr (Some 2)"
proof -
  obtain w where w: "sibling_path [lit ''d'', lit ''x.MD''] (lit ''.md'') (lit ''.json'') locked_env (at_rest small_fs) = (Inl EACCES, w)"
    using locked_sibling by (metis prod.collapse)
  have a: "bp_args_ok (small_bp_args\<lparr>b_out_md := Some (lit ''d/x.MD'')\<rparr>)"
    by (simp add: bp_args_ok_def small_bp_args_def)
  show "fst (main_async tx mo [] (small_bp_args\<lparr>b_out_md := Some (lit ''d/x.MD'')\<rparr>) locked_env (at_rest small_fs)) = Inl EACCES"
    unfolding main_async_def using a w locked_parts
    by (simp add: command_def seq_def bp_out_paths_def handle_def resolve_out_paths_def small_bp_args_def bp_sibling_def
        EACCES_def fail_def)
  have "workload_from_args (small_args\<lparr>a_out := s\<rparr>) = Inr small_load" for s
    using small_args_load by (simp add: workload_from_args_def)
  then show "fst (amain tx' m [] (small_args\<lparr>a_out := lit ''d/x.MD''\<rparr>) locked_env (at_rest small_fs)) = Inr (Some 2)"
    using w locked_parts
    by (simp add: amain_def command_def seq_def out_paths_def or_exit_2_def handle_def json_path_for_def Let_def
        EACCES_def ret_def)
qed

text \<open>
  A lone flag is said never to touch the committed pair unless it names it, and appending a suffix
  to touch nothing committed. A report named \<open>docs/backpressure\<close> gets the committed JSON as its
  sibling while its own file is not the committed report, and a JSON file of that name the
  committed report: a run then rewrites one half of the committed pair.
\<close>

lemma half_of_the_committed_pair:
  "resolve_out_paths cwd (Some (lit ''docs/backpressure'')) None env w =
     (Inr (Some (cwd @ [lit ''docs'', lit ''backpressure'']), output_of cwd DEFAULT_OUT_JSON), w)"
  "resolve_out_paths cwd None (Some (lit ''docs/backpressure'')) env w =
     (Inr (output_of cwd DEFAULT_OUT_MD, Some (cwd @ [lit ''docs'', lit ''backpressure''])), w)"
  "cwd @ [lit ''docs'', lit ''backpressure''] \<noteq> path_of cwd DEFAULT_OUT_MD"
  "cwd @ [lit ''docs'', lit ''backpressure''] \<noteq> path_of cwd DEFAULT_OUT_JSON"
proof -
  have n: "path_parts (lit ''docs/backpressure'') = [lit ''docs'', lit ''backpressure'']"
    "path_parts DEFAULT_OUT_MD = [lit ''docs'', lit ''backpressure.md'']"
    "path_parts DEFAULT_OUT_JSON = [lit ''docs'', lit ''backpressure.json'']"
    "DEFAULT_OUT_MD \<noteq> []" "DEFAULT_OUT_JSON \<noteq> []" "lit ''docs/backpressure'' \<noteq> []"
    "hd (lit ''docs/backpressure'') \<noteq> 47" "hd DEFAULT_OUT_MD \<noteq> 47" "hd DEFAULT_OUT_JSON \<noteq> 47"
    "py_suffix (lit ''backpressure'') = []" "lit ''.md'' \<noteq> []" "lit ''.json'' \<noteq> []"
    "ascii_lower [] = []" "ascii_lower (lit ''.md'') \<noteq> []" "ascii_lower (lit ''.json'') \<noteq> []"
    "lit ''backpressure'' @ lit ''.md'' = lit ''backpressure.md''"
    "lit ''backpressure'' @ lit ''.json'' = lit ''backpressure.json''"
    "lit ''backpressure'' \<noteq> lit ''backpressure.md''" "lit ''backpressure'' \<noteq> lit ''backpressure.json''"
    by code_simp+
  have "path_of cwd s = cwd @ path_parts s" if "s \<noteq> []" "hd s \<noteq> 47" for s
    using that by (cases s) (simp_all add: path_of_def)
  then have p: "path_of cwd (lit ''docs/backpressure'') = cwd @ [lit ''docs'', lit ''backpressure'']"
    "path_of cwd DEFAULT_OUT_MD = cwd @ [lit ''docs'', lit ''backpressure.md'']"
    "path_of cwd DEFAULT_OUT_JSON = cwd @ [lit ''docs'', lit ''backpressure.json'']"
    using n by simp_all
  show "resolve_out_paths cwd (Some (lit ''docs/backpressure'')) None env w =
     (Inr (Some (cwd @ [lit ''docs'', lit ''backpressure'']), output_of cwd DEFAULT_OUT_JSON), w)"
    "resolve_out_paths cwd None (Some (lit ''docs/backpressure'')) env w =
     (Inr (output_of cwd DEFAULT_OUT_MD, Some (cwd @ [lit ''docs'', lit ''backpressure''])), w)"
    "cwd @ [lit ''docs'', lit ''backpressure''] \<noteq> path_of cwd DEFAULT_OUT_MD"
    "cwd @ [lit ''docs'', lit ''backpressure''] \<noteq> path_of cwd DEFAULT_OUT_JSON"
    using n by (simp_all add: resolve_out_paths_def bp_sibling_def output_of_def p sibling_path_def
        file_name_def Let_def seq_def ret_def butlast_append)
qed

end
