(* ===== verification/Spec2Isabelle.thy ===== *)
theory Spec2Isabelle
  imports Stream_Pauses Tool_Dispatch File_Divergences Script_Divergences
begin

text \<open>
  A verification development for \<open>async_pipelines\<close>: bounded-concurrency primitives over asyncio,
  a tool-call dispatcher and a benchmark built on them, an atomic file writer, and two command
  line scripts that measure the one and publish through the other. Everything under
  \<open>async_pipelines/\<close> and the two Python files of \<open>scripts/\<close> is modelled; definitions keep the
  names of the code where Isabelle allows it.

  \<^bold>\<open>Values and errors.\<close> \<open>Prelude\<close> has the machine interfaces (\<open>invariant_machine\<close>,
  \<open>bounded_machine\<close>, \<open>live_machine\<close>) that every concurrent component interprets. \<open>Py_Values\<close> has
  Python's numbers and exceptions (\<open>pyval\<close>, \<open>pyfloat\<close>, \<open>exc\<close>) and the guards of \<open>core.py\<close> and
  \<open>benchmark.py\<close>, conversion of an int to a double included. \<open>Py_Iterables\<close> has the objects that
  may be passed for a collection and \<open>_refuse_bare_string\<close>; \<open>Py_Str\<close> has text as code points,
  decimal and fixed-point numbers; \<open>Json\<close> has \<open>json.dumps\<close> and a reader. A call that raises is
  \<open>Inl\<close> of the exception, with messages reduced to what they blame.

  \<^bold>\<open>\<open>core.py\<close>.\<close> \<open>Task_Cancel\<close> is what the library reads of the caller's task: its \<open>cancelling()\<close>
  count and the cancel that is due (\<open>_CallerCancelProbe\<close>, \<open>_rearm_pending_cancel\<close>, the
  classifiers of stray cancellations). \<open>Task_Group\<close> is \<open>asyncio.TaskGroup\<close> of 3.11, 3.12 and 3.13
  with the \<open>_TaskGroup\<close> subclass; \<open>Semaphore\<close> and \<open>Async_Queue\<close> are the two asyncio primitives,
  each used through a locale (\<open>slot_lock\<close>, \<open>bounded_channel\<close>). \<open>Fanout\<close> is the machine that
  \<open>process\<close> and \<open>dispatch_tool_calls\<close> share, \<open>Stream\<close> that of \<open>stream\<close>. A machine steps by events,
  one for each moment at which asyncio may run a task up to its next await, and a theorem
  speaks of every list of events, so of every schedule, every way an awaited function may
  end and every cancel from outside. \<open>Fanout_Inv\<close>, \<open>Fanout_Runs\<close>, \<open>Group_Tasks\<close>,
  \<open>Group_Caller\<close>, \<open>Stream_Inv\<close>, \<open>Stream_Data\<close>, \<open>Stream_Runs\<close>, \<open>Stream_Results\<close>, \<open>Stream_Metrics\<close>
  and \<open>Stream_Pauses\<close> hold their invariants and what follows for whole runs; \<open>Process\<close> and
  \<open>Stream_Props\<close> state the properties: results in order, bounds on what is in flight, fail-fast, what is
  raised and whom it blames, the caller's cancel count restored, counters that count, and
  that every schedule ends. That a call returns is a rank that each internal step lowers and
  a completion that exists from every reachable state; there is no fuel in these machines.

  \<^bold>\<open>\<open>tool_dispatch.py\<close> and \<open>benchmark.py\<close>.\<close> \<open>Tool_Registry\<close> (a dict, used through \<open>name_table\<close>) and
  \<open>Tool_Dispatch\<close> (resolution, telemetry, the \<open>except*\<close> clause, its own deadline). \<open>Benchmark\<close>
  has the workload, the three pipelines over arbitrary clients, \<open>run_pipeline\<close> and
  \<open>attach_speedup\<close>. The fan-out and batched pipelines hand their own function (\<open>process_one\<close>,
  \<open>process_batch\<close>) to \<open>process\<close>, whose schedule then only says when its awaits end, and both are shown equal
  to the serial loop: with the same clients, and with batch endpoints that answer as these do;
  \<open>Benchmark_File\<close> has \<open>dump_benchmark_json\<close>, through the interface \<open>text_format\<close> of \<open>Json\<close>.

  \<^bold>\<open>\<open>io_utils.py\<close>.\<close> \<open>File_Names\<close> has names as the kernel and Python see them (\<open>fsencode\<close>,
  \<open>surrogateescape\<close>, the temp name within NAME_MAX, \<open>display_path\<close>). \<open>File_System\<close> is a POSIX
  tree with links, hard links, modes and inodes that have a content and a synced content; every
  call may fail, be interrupted before or after its effect, or write half of its data, and
  the history records the state after each call. \<open>Atomic_Write\<close> has the code of the module,
  call by call. \<open>File_Lookup\<close> and \<open>File_Logic\<close> are its lemmas on path walks and its triples for
  sequences of calls, in which one condition holds at every moment. \<open>Atomic_Props\<close> shows what a write promises:
  at every moment each place holds the old content or the new, synced one; a write
  refines the update of a map from places to contents; a failed write leaves no temp file.
  \<open>File_Checks\<close> shows that \<open>check_writable\<close> answers exactly as the write would, and what
  \<open>same_file\<close> answers. \<open>File_Example\<close> is the small machine of the witnesses.

  \<^bold>\<open>\<open>scripts/\<close>.\<close> \<open>Write_Pairs\<close> and \<open>Command\<close> are the pattern of both scripts: check both outputs,
  compare them, run, write both, with exit code 2 for an \<open>OSError\<close>. \<open>Bench_Report\<close> and
  \<open>Bench_Main\<close> are \<open>bench_1000_doc.py\<close>, \<open>Backpressure\<close> and \<open>Backpressure_Main\<close> are
  \<open>bench_backpressure.py\<close>, each from the parsed arguments to the exit code, the reports
  character by character. They rest on the components below: a row of the backpressure table is
  a run of the machine of \<open>Stream\<close> composed with the script's source, which never awaits, and its
  consumer, so that more items than the queue holds always fill it; a row of the other one a run of \<open>Benchmark\<close>, and
  both publish through \<open>Atomic_Write\<close>. Shown are, for a machine where calls work, that a run is
  never lost to an output that cannot be written and that both files or none are published,
  and that what the reports say of their numbers is so.

  \<^bold>\<open>Where code and comment part.\<close> \<open>File_Divergences\<close> and \<open>Script_Divergences\<close> hold runs of the
  model on which the code does something else than its comments say.

  \<^bold>\<open>Bounds.\<close> Bounds in the file system model are the code's or the kernel's own: 40 links in a
  path, 255 bytes in a name, 100 draws of a temp name. \<open>realp\<close> recurs to a depth of 41 plus the
  number of entries; a path that the kernel can look up passes 40 links at most, and
  \<open>File_Lookup\<close> shows that the depth is then enough. The JSON reader has one unit of fuel for
  each character and one more, and \<open>Json\<close> shows that a rendered value never needs more. The serial loop is a
  partial function (a source may never end); its equations are used only where it returns.

  \<^bold>\<open>Not modelled.\<close> The texts of error messages beyond what they blame; \<open>argparse\<close>, standard output and the
  re-exports of \<open>__init__.py\<close>, which have no logic of their own. Floats are exact rationals
  with the three special values: that a quotient or a difference is rounded is not modelled,
  that an int overflows a double is. The shortest text of a float (\<open>repr\<close>), \<open>:g\<close>, the clock, the seconds a sleep takes,
  \<open>tracemalloc\<close> and the host are parameters or readings a run is given. The file system has the
  owner's write bit but no search permission, no limit on the length of a path, no other process
  that changes it during a call, and no translation of newlines; \<open>pathlib\<close> is that of 3.11
  to 3.13, where \<open>is_dir\<close> lets errors other than a missing file out. On a
  loop of links, how much of it \<open>realpath\<close> leaves in its answer is not that of every Python; no
  theorem speaks of such a path. An await other than the ones named
  above (a \<open>finally\<close> in a user's function that awaits again) is part of how that function ends.
\<close>

end
